(* ===== verification/Prelude.thy ===== *)
theory Prelude
  imports "HOL-Library.Word" "HOL-Library.While_Combinator"
begin

text \<open>
  Shared ground of the development.

  \<^item> The outcome of a C operation is a value of \<open>error + 'a\<close>: \<open>Inl e\<close> when the process
    stops (a failed assertion, a reported error followed by \<open>abort()\<close>, an access that is
    undefined in C, a loop that never ends), \<open>Inr x\<close> when it returns \<open>x\<close>.
  \<^item> \<open>seqE\<close> runs one operation after another and stops at the first error.
  \<^item> \<open>loopE\<close> is the C \<open>while\<close> loop. It is total: a loop that does not end has the value
    \<open>Inl Diverges\<close>, so that a theorem that an operation returns \<open>Inr\<close> includes its termination.
  \<^item> Generic lemmas on lists and words that several components use.
\<close>

unbundle bit_operations_syntax

type_synonym addr = nat
type_synonym byte = "8 word"
type_synonym Size = "64 word"
type_synonym uint32 = "32 word"
type_synonym uint64 = "64 word"

section \<open>Outcomes\<close>

text \<open>The ways in which the process can stop.\<close>

datatype error =
    AssertFailed          \<comment> \<open>\<open>Assert\<close> (assertions are compiled in, see the Makefile)\<close>
  | OutOfMemory Size      \<comment> \<open>\<open>mctx_report_oom\<close>, then \<open>abort()\<close>\<close>
  | BadSize Size          \<comment> \<open>\<open>mctx_report_bad_size\<close>, then \<open>abort()\<close>\<close>
  | Corruption addr       \<comment> \<open>\<open>mctx_report_corruption\<close>, then \<open>abort()\<close>\<close>
  | SizeOverflow          \<comment> \<open>\<open>mctx_report_size_overflow\<close>, then \<open>abort()\<close>\<close>
  | Fault                 \<comment> \<open>an access C leaves undefined (wild or dangling pointer)\<close>
  | Diverges              \<comment> \<open>a loop that does not end\<close>

named_theorems exec "equations that run an operation whose preconditions are known"

definition seqE :: "error + 'a \<Rightarrow> ('a \<Rightarrow> error + 'b) \<Rightarrow> error + 'b" where
  "seqE m f = (case m of Inl e \<Rightarrow> Inl e | Inr x \<Rightarrow> f x)"

lemma seqE_simps [simp]:
  "seqE (Inl e) f = Inl e"
  "seqE (Inr x) f = f x"
  by (simp_all add: seqE_def)

lemma seqE_eq_Inr: "seqE m f = Inr y \<longleftrightarrow> (\<exists>x. m = Inr x \<and> f x = Inr y)"
  by (cases m) simp_all

lemma seqE_eq_Inl: "seqE m f = Inl e \<longleftrightarrow> m = Inl e \<or> (\<exists>x. m = Inr x \<and> f x = Inl e)"
  by (cases m) auto

lemma seqE_InrE:
  assumes "seqE m f = Inr y"
  obtains x where "m = Inr x" and "f x = Inr y"
  using assms by (auto simp: seqE_eq_Inr)

lemma seqE_assoc: "seqE (seqE m f) g = seqE m (\<lambda>x. seqE (f x) g)"
  by (cases m) simp_all

lemma seqE_if: "seqE (if b then m else n) f = (if b then seqE m f else seqE n f)"
  by simp

lemma seqE_cong [fundef_cong]:
  "m = m' \<Longrightarrow> (\<And>x. m' = Inr x \<Longrightarrow> f x = f' x) \<Longrightarrow> seqE m f = seqE m' f'"
  by (cases m') simp_all

definition assertE :: "bool \<Rightarrow> error + unit" where
  "assertE b = (if b then Inr () else Inl AssertFailed)"

lemma assertE_simps [simp]:
  "assertE True = Inr ()"
  "assertE False = Inl AssertFailed"
  by (simp_all add: assertE_def)

lemma assertE_eq_Inr [simp]: "assertE b = Inr u \<longleftrightarrow> b"
  by (simp add: assertE_def)

section \<open>Loops\<close>

definition loopE :: "('s \<Rightarrow> bool) \<Rightarrow> ('s \<Rightarrow> error + 's) \<Rightarrow> 's \<Rightarrow> error + 's" where
  "loopE b c s =
     (case while_option (\<lambda>r. case r of Inl e \<Rightarrow> False | Inr s \<Rightarrow> b s) (\<lambda>r. seqE r c) (Inr s) of
        None \<Rightarrow> Inl Diverges
      | Some r \<Rightarrow> r)"

lemma loopE_unfold [code]:
  "loopE b c s = (if b s then seqE (c s) (loopE b c) else Inr s)"
proof (cases "b s")
  case False
  then show ?thesis by (simp add: loopE_def while_option_unfold)
next
  case True
  show ?thesis
  proof (cases "c s")
    case (Inl e)
    with True show ?thesis
      by (simp add: loopE_def while_option_unfold)
  next
    case (Inr s')
    with True show ?thesis
      by (subst loopE_def, subst while_option_unfold) (simp add: loopE_def)
  qed
qed

lemma loopE_stop: "\<not> b s \<Longrightarrow> loopE b c s = Inr s"
  by (subst loopE_unfold) simp

lemma loopE_step: "b s \<Longrightarrow> c s = Inr s' \<Longrightarrow> loopE b c s = loopE b c s'"
  by (subst loopE_unfold) simp

lemma loopE_fail: "b s \<Longrightarrow> c s = Inl e \<Longrightarrow> loopE b c s = Inl e"
  by (subst loopE_unfold) simp

text \<open>
  Total correctness of a loop: under an invariant the body does not fail, keeps the invariant
  and decreases a measure; then the loop returns a state with the invariant in which the guard
  is false.
\<close>

lemma loopE_total:
  fixes m :: "'s \<Rightarrow> nat"
  assumes "P s"
    and step: "\<And>s. P s \<Longrightarrow> b s \<Longrightarrow> \<exists>s'. c s = Inr s' \<and> P s' \<and> m s' < m s"
  shows "\<exists>t. loopE b c s = Inr t \<and> P t \<and> \<not> b t"
  using \<open>P s\<close>
proof (induction "m s" arbitrary: s rule: less_induct)
  case less
  show ?case
  proof (cases "b s")
    case True
    with step less.prems obtain s' where s': "c s = Inr s'" "P s'" "m s' < m s"
      by blast
    with less.hyps True show ?thesis
      by (simp add: loopE_step)
  qed (use less.prems in \<open>simp add: loopE_stop\<close>)
qed

text \<open>Partial correctness: what the body keeps holds of the state the loop returns.\<close>

lemma loopE_invariant:
  assumes run: "loopE b c s = Inr t" and init: "P s"
    and step: "\<And>s s'. P s \<Longrightarrow> b s \<Longrightarrow> c s = Inr s' \<Longrightarrow> P s'"
  shows "P t \<and> \<not> b t"
proof -
  let ?b = "\<lambda>r. case r of Inl e \<Rightarrow> False | Inr s \<Rightarrow> b s"
  let ?P = "\<lambda>r. case r of Inl e \<Rightarrow> True | Inr s \<Rightarrow> P s"
  have "while_option ?b (\<lambda>r. seqE r c) (Inr s) = Some (Inr t)"
    using run by (auto simp: loopE_def split: option.splits)
  moreover have "?P (seqE r c)" if "?P r" "?b r" for r
    using that step by (auto split: sum.splits simp: seqE_def)
  ultimately have "?P (Inr t)"
    using while_option_rule[where P = ?P and b = ?b and c = "\<lambda>r. seqE r c"] init
    by (metis (mono_tags, lifting) sum.simps(6))
  moreover have "\<not> ?b (Inr t)"
    using while_option_stop \<open>while_option _ _ _ = _\<close> by fastforce
  ultimately show ?thesis by simp
qed

end
