(* ===== verification/PgCompat.thy ===== *)
theory PgCompat
  imports Prelude
begin

text \<open>
  The helpers of \<open>src/pg_compat.h\<close>, the size limits of \<open>src/memutils.h\<close>, the allocation flags
  of \<open>src/palloc.h\<close> and the checked size arithmetic of \<open>src/mcxt.c\<close>: alignment by masking,
  the position of the leftmost set bit, overflow-checked addition and multiplication. Sizes are
  64-bit words, as \<open>size_t\<close> is on the targets of the library.

  The lemmas give the arithmetic meaning of the bit tricks: \<open>TYPEALIGN\<close> by a power of two is the
  least multiple above its argument, \<open>pg_leftmost_one_pos32\<close> is the integer logarithm.
\<close>

section \<open>Alignment\<close>

definition TYPEALIGN :: "64 word \<Rightarrow> 64 word \<Rightarrow> 64 word" where
  "TYPEALIGN alignval len = (len + (alignval - 1)) AND NOT (alignval - 1)"

definition MAXIMUM_ALIGNOF :: "64 word" where
  "MAXIMUM_ALIGNOF = 8"

definition MAXALIGN :: "64 word \<Rightarrow> 64 word" where
  "MAXALIGN len = TYPEALIGN MAXIMUM_ALIGNOF len"

section \<open>Limits and flags\<close>

definition MaxAllocSize :: Size where
  "MaxAllocSize = 0x3fffffff"

definition AllocSizeIsValid :: "Size \<Rightarrow> bool" where
  "AllocSizeIsValid sz \<longleftrightarrow> sz \<le> MaxAllocSize"

definition MaxAllocHugeSize :: Size where
  "MaxAllocHugeSize = - 1 div 2"

definition AllocHugeSizeIsValid :: "Size \<Rightarrow> bool" where
  "AllocHugeSizeIsValid sz \<longleftrightarrow> sz \<le> MaxAllocHugeSize"

definition MCXT_ALLOC_HUGE :: uint32 where "MCXT_ALLOC_HUGE = 0x01"
definition MCXT_ALLOC_NO_OOM :: uint32 where "MCXT_ALLOC_NO_OOM = 0x02"
definition MCXT_ALLOC_ZERO :: uint32 where "MCXT_ALLOC_ZERO = 0x04"

section \<open>Leftmost one bit\<close>

text \<open>\<open>__builtin_clz\<close>: the number of zero bits above the highest set bit.\<close>

fun count_leading_zeros :: "nat \<Rightarrow> uint32 \<Rightarrow> nat" where
  "count_leading_zeros 0 w = 0"
| "count_leading_zeros (Suc n) w = (if bit w n then 0 else Suc (count_leading_zeros n w))"

definition builtin_clz :: "uint32 \<Rightarrow> nat" where
  "builtin_clz w = count_leading_zeros 32 w"

definition pg_leftmost_one_pos32 :: "uint32 \<Rightarrow> error + int" where
  "pg_leftmost_one_pos32 word =
     seqE (assertE (word \<noteq> 0)) (\<lambda>_. Inr (31 - int (builtin_clz word)))"

section \<open>Overflow-checked sizes\<close>

definition pg_add_size_overflow :: "Size \<Rightarrow> Size \<Rightarrow> bool \<times> Size" where
  "pg_add_size_overflow a b = (2 ^ 64 \<le> unat a + unat b, a + b)"

definition pg_mul_size_overflow :: "Size \<Rightarrow> Size \<Rightarrow> bool \<times> Size" where
  "pg_mul_size_overflow a b = (2 ^ 64 \<le> unat a * unat b, a * b)"

definition add_size :: "Size \<Rightarrow> Size \<Rightarrow> error + Size" where
  "add_size s1 s2 =
     (let (overflow, result) = pg_add_size_overflow s1 s2 in
      if overflow then Inl SizeOverflow else Inr result)"

definition mul_size :: "Size \<Rightarrow> Size \<Rightarrow> error + Size" where
  "mul_size s1 s2 =
     (let (overflow, result) = pg_mul_size_overflow s1 s2 in
      if overflow then Inl SizeOverflow else Inr result)"

section \<open>What alignment computes\<close>

lemma unat_of_nat_small: "n < 2 ^ 64 \<Longrightarrow> unat (of_nat n :: 64 word) = n"
  by (simp add: unat_of_nat)

lemma unat_two_power: "k < LENGTH('a) \<Longrightarrow> unat (2 ^ k :: 'a::len word) = 2 ^ k"
  using unat_of_nat[of "2 ^ k", where 'a = 'a] by simp

lemma and_not_mask_eq: "(w :: 'a::len word) AND NOT (2 ^ k - 1) = push_bit k (drop_bit k w)"
  by (rule bit_word_eqI) (auto simp: bit_simps mask_eq_exp_minus_1[symmetric])

lemma unat_push_drop: "unat (push_bit k (drop_bit k (w :: 'a::len word))) = unat w div 2 ^ k * 2 ^ k"
proof -
  have "unat (push_bit k (drop_bit k w)) = push_bit k (drop_bit k (unat w))"
    by (rule bit_eqI) (auto simp: bit_simps dest: bit_imp_le_length)
  then show ?thesis by (simp add: push_bit_eq_mult drop_bit_eq_div)
qed

lemma unat_TYPEALIGN:
  assumes "alignval = 2 ^ k" and "k < 64"
  shows "unat (TYPEALIGN alignval len)
    = (unat len + (2 ^ k - 1)) mod 2 ^ 64 div 2 ^ k * 2 ^ k"
proof -
  have "unat (alignval - 1) = 2 ^ k - 1"
    using assms by (simp add: unat_minus_one unat_two_power)
  with assms show ?thesis
    by (simp add: TYPEALIGN_def and_not_mask_eq unat_push_drop unat_word_ariths)
qed

text \<open>Below the wrap-around, aligning by \<open>2 ^ k\<close> gives the least multiple of \<open>2 ^ k\<close> above.\<close>

lemma align_up_nat:
  fixes n p :: nat
  assumes "0 < p"
  shows "n \<le> (n + (p - 1)) div p * p" and "(n + (p - 1)) div p * p < n + p"
    and "p dvd (n + (p - 1)) div p * p"
    and "n \<le> m \<Longrightarrow> p dvd m \<Longrightarrow> (n + (p - 1)) div p * p \<le> m"
proof -
  have *: "(n + (p - 1)) div p * p = n + (p - 1) - (n + (p - 1)) mod p"
    by (simp add: minus_mod_eq_div_mult)
  have "(n + (p - 1)) mod p < p" using assms by simp
  then show "n \<le> (n + (p - 1)) div p * p" and lt: "(n + (p - 1)) div p * p < n + p"
    unfolding * using assms by linarith+
  show "p dvd (n + (p - 1)) div p * p" by simp
  assume "n \<le> m" "p dvd m"
  then obtain q where m: "m = p * q" by (auto simp: dvd_def)
  have "(n + (p - 1)) div p * p < Suc q * p"
    using lt \<open>n \<le> m\<close> m by (simp add: mult.commute)
  then have "(n + (p - 1)) div p \<le> q"
    using assms by (simp del: mult_Suc)
  then show "(n + (p - 1)) div p * p \<le> m"
    using m mult_le_mono1 by (metis mult.commute)
qed

lemma unat_MAXALIGN:
  assumes "unat len + 7 < 2 ^ 64"
  shows "unat (MAXALIGN len) = (unat len + 7) div 8 * 8"
  using assms unat_TYPEALIGN[of 8 3 len]
  by (simp add: MAXALIGN_def MAXIMUM_ALIGNOF_def)

lemma MAXALIGN_bounds:
  assumes "unat len + 7 < 2 ^ 64"
  shows "unat len \<le> unat (MAXALIGN len)" and "unat (MAXALIGN len) < unat len + 8"
    and "8 dvd unat (MAXALIGN len)"
  using align_up_nat[of 8 "unat len"] unat_MAXALIGN[OF assms] by simp_all

lemma MAXALIGN_id_iff:
  assumes "unat len + 7 < 2 ^ 64"
  shows "len = MAXALIGN len \<longleftrightarrow> 8 dvd unat len"
proof -
  have "len = MAXALIGN len \<longleftrightarrow> unat len = (unat len + 7) div 8 * 8"
    using unat_MAXALIGN[OF assms] by (metis word_unat_eq_iff)
  also have "\<dots> \<longleftrightarrow> 8 dvd unat len" by presburger
  finally show ?thesis .
qed

section \<open>What the leftmost bit is\<close>

lemma count_leading_zeros_take_bit:
  "(take_bit n (unat w) = 0 \<and> count_leading_zeros n w = n) \<or>
   (\<exists>k < n. count_leading_zeros n w = n - 1 - k \<and>
      2 ^ k \<le> take_bit n (unat w) \<and> take_bit n (unat w) < 2 ^ Suc k)"
proof (induction n)
  case 0
  then show ?case by simp
next
  case (Suc n)
  have bit: "bit w n = bit (unat w) n"
    by (auto simp: bit_simps dest: bit_imp_le_length)
  have tb: "take_bit (Suc n) (unat w) = 2 ^ n * of_bool (bit w n) + take_bit n (unat w)"
    by (simp add: take_bit_Suc_from_most bit)
  show ?case
  proof (cases "bit w n")
    case True
    have "take_bit n (unat w) < 2 ^ n" by simp
    with True tb show ?thesis by (intro disjI2 exI[of _ n]) simp
  next
    case False
    with Suc.IH tb show ?thesis by (auto simp: less_Suc_eq)
  qed
qed

lemma pg_leftmost_one_pos32_eq:
  assumes "w \<noteq> 0"
  obtains k where "pg_leftmost_one_pos32 w = Inr (int k)" and "k < 32"
    and "2 ^ k \<le> unat w" and "unat w < 2 ^ Suc k"
proof -
  have "take_bit 32 (unat w) = unat w"
    by (rule take_bit_nat_eq_self) (use unsigned_less[of w, where 'a = nat] in simp)
  moreover have "unat w \<noteq> 0" using assms by (simp add: unat_eq_zero)
  ultimately obtain k where "k < 32" "count_leading_zeros 32 w = 31 - k"
    "2 ^ k \<le> unat w" "unat w < 2 ^ Suc k"
    using count_leading_zeros_take_bit[of 32 w] by auto
  with assms that show ?thesis
    by (simp add: pg_leftmost_one_pos32_def builtin_clz_def)
qed

section \<open>What checked arithmetic returns\<close>

lemma add_size_eq:
  "add_size a b = (if unat a + unat b < 2 ^ 64 then Inr (a + b) else Inl SizeOverflow)"
  by (simp add: add_size_def pg_add_size_overflow_def)

lemma mul_size_eq:
  "mul_size a b = (if unat a * unat b < 2 ^ 64 then Inr (a * b) else Inl SizeOverflow)"
  by (simp add: mul_size_def pg_mul_size_overflow_def)

section \<open>Properties\<close>

text \<open>Below the wrap-around, \<open>TYPEALIGN\<close> by a power of two is the least multiple of it that is
  not below its argument.\<close>

lemma TYPEALIGN_least_multiple:
  assumes "alignval = 2 ^ k" and "k < 64" and "unat len + 2 ^ k \<le> 2 ^ 64"
  shows "unat len \<le> unat (TYPEALIGN alignval len) \<and> 2 ^ k dvd unat (TYPEALIGN alignval len)
    \<and> (\<forall>m. unat len \<le> m \<and> 2 ^ k dvd m \<longrightarrow> unat (TYPEALIGN alignval len) \<le> m)"
proof -
  have "unat len + (2 ^ k - 1) < 2 ^ 64" using assms(3) by simp
  then have "unat (TYPEALIGN alignval len) = (unat len + (2 ^ k - 1)) div 2 ^ k * 2 ^ k"
    using unat_TYPEALIGN[OF assms(1,2)] by simp
  then show ?thesis using align_up_nat[of "2 ^ k" "unat len"] by simp
qed

text \<open>\<open>add_size\<close> and \<open>mul_size\<close> return the exact sum and product, or report an overflow; they
  never wrap around.\<close>

lemma checked_sizes:
  "(case add_size a b of Inl e \<Rightarrow> e = SizeOverflow \<and> 2 ^ 64 \<le> unat a + unat b
     | Inr r \<Rightarrow> unat r = unat a + unat b)
   \<and> (case mul_size a b of Inl e \<Rightarrow> e = SizeOverflow \<and> 2 ^ 64 \<le> unat a * unat b
     | Inr r \<Rightarrow> unat r = unat a * unat b)"
  by (simp add: add_size_eq mul_size_eq unat_word_ariths)

end
