(* ===== verification/World.thy ===== *)
theory World
  imports PgCompat
begin

text \<open>
  The state the library works on, after \<open>src/memnodes.h\<close>, \<open>src/mctx_internal.h\<close>, the structs of
  \<open>src/aset.c\<close> and the callback struct of \<open>src/palloc.h\<close>, and what the library uses of the C
  library: \<open>malloc\<close>, \<open>free\<close>, \<open>realloc\<close>, \<open>memset\<close>, \<open>memcpy\<close>.

  \<^item> Addresses are natural numbers below \<open>2 ^ 64\<close>, \<open>NULL\<close> is 0. Pointer arithmetic stays inside
    one malloc region and does not wrap; sizes are 64-bit words.
  \<^item> The heap is split: the structs that only the library touches (contexts, block headers) are
    records kept at their address; everything else (chunk headers, freelist links, user data,
    callback structs, strings) is bytes in \<open>mem\<close>.
  \<^item> \<open>regions\<close> are the live malloc regions. Every access is checked against them; an access
    outside is \<open>Fault\<close>.
  \<^item> \<open>malloc\<close> takes its next address from \<open>answers\<close>. An answer that no \<open>malloc\<close> may give
    (misaligned, overlapping a live region, wrapping around) counts as \<open>NULL\<close>, so the theorems
    hold for every behaviour of \<open>malloc\<close>, failures included.
  \<^item> \<open>calls\<close> is the trace of the reset callbacks run so far, as pairs of function and argument.
\<close>

section \<open>Structs\<close>

datatype NodeTag = T_AllocSetContext | T_SlabContext | T_GenerationContext | T_BumpContext

datatype MemoryContextMethodID =
    MCTX_0_RESERVED_UNUSEDMEM_ID | MCTX_1_RESERVED_GLIBC_ID | MCTX_2_RESERVED_GLIBC_ID
  | MCTX_ASET_ID | MCTX_GENERATION_ID | MCTX_SLAB_ID | MCTX_ALIGNED_REDIRECT_ID | MCTX_BUMP_ID
  | MCTX_8_UNUSED_ID | MCTX_9_UNUSED_ID | MCTX_10_UNUSED_ID | MCTX_11_UNUSED_ID
  | MCTX_12_UNUSED_ID | MCTX_13_UNUSED_ID | MCTX_14_UNUSED_ID | MCTX_15_RESERVED_WIPEDMEM_ID

text \<open>The \<open>methods\<close> pointer is the index of the context's row in \<open>mcxt_methods[]\<close>.\<close>

record MemoryContextData =
  ctx_type :: NodeTag
  isReset :: bool
  allowInCritSection :: bool
  mem_allocated :: Size
  methods :: MemoryContextMethodID
  parent :: addr
  firstchild :: addr
  prevchild :: addr
  nextchild :: addr
  ctx_name :: string
  ident :: addr
  reset_cbs :: addr

record AllocSetContext = MemoryContextData +
  blocks :: addr
  freelist :: "addr list"
  initBlockSize :: uint32
  maxBlockSize :: uint32
  nextBlockSize :: uint32
  allocChunkLimit :: uint32
  freeListIndex :: int

record AllocBlockData =
  aset :: addr
  bprev :: addr
  bnext :: addr
  freeptr :: addr
  endptr :: addr

record AllocSetFreeList =
  num_free :: int
  first_free :: addr

record MemoryContextCounters =
  nblocks :: Size
  freechunks :: Size
  totalspace :: Size
  freespace :: Size

record world =
  regions :: "(addr \<times> nat) list"
  mem :: "addr \<Rightarrow> byte"
  ctxs :: "addr \<Rightarrow> AllocSetContext option"
  blks :: "addr \<Rightarrow> AllocBlockData option"
  answers :: "addr list"
  calls :: "(uint64 \<times> uint64) list"
  context_freelists :: "AllocSetFreeList list"
  CurrentMemoryContext :: addr
  TopMemoryContext :: addr
  ErrorContext :: addr

text \<open>The process before \<open>MemoryContextInit\<close>, with the answers \<open>malloc\<close> is going to give.\<close>

definition initial_world :: "(addr \<Rightarrow> byte) \<Rightarrow> addr list \<Rightarrow> world" where
  "initial_world m as =
     \<lparr> regions = [], mem = m, ctxs = (\<lambda>_. None), blks = (\<lambda>_. None), answers = as, calls = [],
       context_freelists = [\<lparr>num_free = 0, first_free = 0\<rparr>, \<lparr>num_free = 0, first_free = 0\<rparr>],
       CurrentMemoryContext = 0, TopMemoryContext = 0, ErrorContext = 0 \<rparr>"

section \<open>Struct access\<close>

definition get_ctx :: "world \<Rightarrow> addr \<Rightarrow> error + AllocSetContext" where
  "get_ctx w c = (case ctxs w c of None \<Rightarrow> Inl Fault | Some s \<Rightarrow> Inr s)"

definition upd_ctx :: "addr \<Rightarrow> (AllocSetContext \<Rightarrow> AllocSetContext) \<Rightarrow> world \<Rightarrow> error + world" where
  "upd_ctx c f w = (case ctxs w c of None \<Rightarrow> Inl Fault
     | Some s \<Rightarrow> Inr (w\<lparr>ctxs := (ctxs w)(c \<mapsto> f s)\<rparr>))"

definition get_blk :: "world \<Rightarrow> addr \<Rightarrow> error + AllocBlockData" where
  "get_blk w b = (case blks w b of None \<Rightarrow> Inl Fault | Some k \<Rightarrow> Inr k)"

definition upd_blk :: "addr \<Rightarrow> (AllocBlockData \<Rightarrow> AllocBlockData) \<Rightarrow> world \<Rightarrow> error + world" where
  "upd_blk b f w = (case blks w b of None \<Rightarrow> Inl Fault
     | Some k \<Rightarrow> Inr (w\<lparr>blks := (blks w)(b \<mapsto> f k)\<rparr>))"

text \<open>\<open>MemoryContextIsValid\<close> and \<open>AllocSetIsValid\<close>: a non-null context of the right type.\<close>

definition MemoryContextIsValid :: "world \<Rightarrow> addr \<Rightarrow> error + bool" where
  "MemoryContextIsValid w c =
     (if c = 0 then Inr False
      else seqE (get_ctx w c) (\<lambda>s. Inr (ctx_type s = T_AllocSetContext)))"

definition Assert_valid :: "world \<Rightarrow> addr \<Rightarrow> error + unit" where
  "Assert_valid w c = seqE (MemoryContextIsValid w c) assertE"

lemma get_ctx_Some [exec]: "ctxs w c = Some s \<Longrightarrow> get_ctx w c = Inr s"
  by (simp add: get_ctx_def)

lemma get_ctx_Inr: "get_ctx w c = Inr s \<longleftrightarrow> ctxs w c = Some s"
  by (simp add: get_ctx_def split: option.splits)

lemma upd_ctx_Some [exec]:
  "ctxs w c = Some s \<Longrightarrow> upd_ctx c f w = Inr (w\<lparr>ctxs := (ctxs w)(c \<mapsto> f s)\<rparr>)"
  by (simp add: upd_ctx_def)

lemma upd_ctx_Inr:
  "upd_ctx c f w = Inr w' \<longleftrightarrow> (\<exists>s. ctxs w c = Some s \<and> w' = w\<lparr>ctxs := (ctxs w)(c \<mapsto> f s)\<rparr>)"
  by (auto simp: upd_ctx_def split: option.splits)

lemma get_blk_Some [exec]: "blks w b = Some k \<Longrightarrow> get_blk w b = Inr k"
  by (simp add: get_blk_def)

lemma get_blk_Inr: "get_blk w b = Inr k \<longleftrightarrow> blks w b = Some k"
  by (simp add: get_blk_def split: option.splits)

lemma upd_blk_Some [exec]:
  "blks w b = Some k \<Longrightarrow> upd_blk b f w = Inr (w\<lparr>blks := (blks w)(b \<mapsto> f k)\<rparr>)"
  by (simp add: upd_blk_def)

lemma upd_blk_Inr:
  "upd_blk b f w = Inr w' \<longleftrightarrow> (\<exists>k. blks w b = Some k \<and> w' = w\<lparr>blks := (blks w)(b \<mapsto> f k)\<rparr>)"
  by (auto simp: upd_blk_def split: option.splits)

lemma Assert_valid_Inr:
  "Assert_valid w c = Inr u \<longleftrightarrow> c \<noteq> 0 \<and> (\<exists>s. ctxs w c = Some s \<and> ctx_type s = T_AllocSetContext)"
  by (auto simp: Assert_valid_def MemoryContextIsValid_def seqE_eq_Inr get_ctx_Inr)

lemma Assert_valid_ok [exec]:
  "c \<noteq> 0 \<Longrightarrow> ctxs w c = Some s \<Longrightarrow> ctx_type s = T_AllocSetContext \<Longrightarrow> Assert_valid w c = Inr ()"
  by (simp add: Assert_valid_def MemoryContextIsValid_def exec)

section \<open>Bytes\<close>

text \<open>Memory accesses must lie in one live malloc region.\<close>

definition in_region :: "world \<Rightarrow> addr \<Rightarrow> nat \<Rightarrow> bool" where
  "in_region w a n \<longleftrightarrow> list_ex (\<lambda>(b, s). b \<le> a \<and> a + n \<le> b + s) (regions w)"

text \<open>A 64-bit word at an address, least significant byte first.\<close>

definition load64 :: "(addr \<Rightarrow> byte) \<Rightarrow> addr \<Rightarrow> uint64" where
  "load64 m a =
     push_bit 56 (ucast (m (a + 7))) OR push_bit 48 (ucast (m (a + 6)))
     OR push_bit 40 (ucast (m (a + 5))) OR push_bit 32 (ucast (m (a + 4)))
     OR push_bit 24 (ucast (m (a + 3))) OR push_bit 16 (ucast (m (a + 2)))
     OR push_bit 8 (ucast (m (a + 1))) OR ucast (m a)"

definition store64 :: "(addr \<Rightarrow> byte) \<Rightarrow> addr \<Rightarrow> uint64 \<Rightarrow> addr \<Rightarrow> byte" where
  "store64 m a v = (\<lambda>x. if a \<le> x \<and> x < a + 8 then ucast (drop_bit (8 * (x - a)) v) else m x)"

definition load64E :: "world \<Rightarrow> addr \<Rightarrow> error + uint64" where
  "load64E w a = (if in_region w a 8 then Inr (load64 (mem w) a) else Inl Fault)"

definition store64E :: "addr \<Rightarrow> uint64 \<Rightarrow> world \<Rightarrow> error + world" where
  "store64E a v w =
     (if in_region w a 8 then Inr (w\<lparr>mem := store64 (mem w) a v\<rparr>) else Inl Fault)"

definition load8E :: "world \<Rightarrow> addr \<Rightarrow> error + byte" where
  "load8E w a = (if in_region w a 1 then Inr (mem w a) else Inl Fault)"

definition store8E :: "addr \<Rightarrow> byte \<Rightarrow> world \<Rightarrow> error + world" where
  "store8E a v w = (if in_region w a 1 then Inr (w\<lparr>mem := (mem w)(a := v)\<rparr>) else Inl Fault)"

text \<open>Pointers stored in memory are 64-bit words.\<close>

definition load_ptr :: "world \<Rightarrow> addr \<Rightarrow> error + addr" where
  "load_ptr w a = seqE (load64E w a) (\<lambda>v. Inr (unat v))"

definition store_ptr :: "addr \<Rightarrow> addr \<Rightarrow> world \<Rightarrow> error + world" where
  "store_ptr a p w = store64E a (of_nat p) w"

text \<open>\<open>memset\<close> and \<open>memcpy\<close> (no bytes, no access).\<close>

definition fill :: "(addr \<Rightarrow> byte) \<Rightarrow> addr \<Rightarrow> byte \<Rightarrow> nat \<Rightarrow> addr \<Rightarrow> byte" where
  "fill m a v n = (\<lambda>x. if a \<le> x \<and> x < a + n then v else m x)"

definition memsetE :: "addr \<Rightarrow> byte \<Rightarrow> Size \<Rightarrow> world \<Rightarrow> error + world" where
  "memsetE a v len w =
     (if len = 0 then Inr w
      else if in_region w a (unat len) then Inr (w\<lparr>mem := fill (mem w) a v (unat len)\<rparr>)
      else Inl Fault)"

definition memcpyE :: "addr \<Rightarrow> addr \<Rightarrow> Size \<Rightarrow> world \<Rightarrow> error + world" where
  "memcpyE dst src len w =
     (if len = 0 then Inr w
      else if in_region w dst (unat len) \<and> in_region w src (unat len)
           \<and> (dst + unat len \<le> src \<or> src + unat len \<le> dst)
      then Inr (w\<lparr>mem := (\<lambda>x. if dst \<le> x \<and> x < dst + unat len then mem w (src + (x - dst))
                              else mem w x)\<rparr>)
      else Inl Fault)"

text \<open>
  \<open>MemSetAligned\<close> of \<open>pg_compat.h\<close> with value 0, the only value the library passes: a loop of
  8-byte stores for short lengths that are a multiple of 8, \<open>memset\<close> otherwise.
\<close>

definition MEMSET_LOOP_LIMIT :: Size where "MEMSET_LOOP_LIMIT = 1024"
definition LONG_ALIGN_MASK :: Size where "LONG_ALIGN_MASK = 8 - 1"

definition MemSetAligned :: "addr \<Rightarrow> Size \<Rightarrow> world \<Rightarrow> error + world" where
  "MemSetAligned start len w =
     (if len AND LONG_ALIGN_MASK = 0 \<and> len \<le> MEMSET_LOOP_LIMIT
      then let stop = start + unat len in
        seqE (loopE (\<lambda>(p, w). p < stop) (\<lambda>(p, w). seqE (store64E p 0 w) (\<lambda>w. Inr (p + 8, w)))
          (start, w)) (\<lambda>(p, w). Inr w)
      else memsetE start 0 len w)"

section \<open>malloc, free, realloc\<close>

definition overlaps :: "addr \<Rightarrow> nat \<Rightarrow> addr \<times> nat \<Rightarrow> bool" where
  "overlaps a n = (\<lambda>(b, s). \<not> (a + n \<le> b \<or> b + s \<le> a))"

text \<open>
  What any \<open>malloc\<close> guarantees of a non-null result: aligned for every type (8 is what the library
  uses), disjoint from the live regions, inside the address space.
\<close>

definition admissible :: "(addr \<times> nat) list \<Rightarrow> addr \<Rightarrow> nat \<Rightarrow> bool" where
  "admissible rs a n \<longleftrightarrow>
     a \<noteq> 0 \<and> 8 dvd a \<and> 0 < n \<and> a + n < 2 ^ 64 \<and> list_all (\<lambda>r. \<not> overlaps a n r) rs"

definition malloc :: "Size \<Rightarrow> world \<Rightarrow> addr \<times> world" where
  "malloc n w =
     (case answers w of
        [] \<Rightarrow> (0, w)
      | a # as \<Rightarrow>
          if admissible (regions w) a (unat n)
          then (a, w\<lparr>answers := as, regions := (a, unat n) # regions w\<rparr>)
          else (0, w\<lparr>answers := as\<rparr>))"

text \<open>
  The size of the live region that starts at an address, and the removal of that region with the
  structs that lie in it.
\<close>

definition region_at :: "world \<Rightarrow> addr \<Rightarrow> nat option" where
  "region_at w a = map_of (regions w) a"

definition forget :: "addr \<Rightarrow> nat \<Rightarrow> (addr \<Rightarrow> 'a option) \<Rightarrow> addr \<Rightarrow> 'a option" where
  "forget a n f = (\<lambda>x. if a \<le> x \<and> x < a + n then None else f x)"

definition free :: "addr \<Rightarrow> world \<Rightarrow> error + world" where
  "free a w =
     (if a = 0 then Inr w
      else case region_at w a of
        None \<Rightarrow> Inl Fault
      | Some n \<Rightarrow> Inr (w\<lparr>regions := filter (\<lambda>r. fst r \<noteq> a) (regions w),
                        ctxs := forget a n (ctxs w), blks := forget a n (blks w)\<rparr>))"

text \<open>
  \<open>realloc\<close> of a live region: on failure nothing changes; on success the first
  \<open>min old new\<close> bytes (and the structs in them) are at the new address, which may be the old one.
\<close>

definition moved :: "addr \<Rightarrow> nat \<Rightarrow> addr \<Rightarrow> nat \<Rightarrow> (addr \<Rightarrow> 'a option) \<Rightarrow> addr \<Rightarrow> 'a option" where
  "moved a n q k f = (\<lambda>x. if q \<le> x \<and> x < q + k then f (a + (x - q))
                          else if a \<le> x \<and> x < a + n then None else f x)"

definition realloc :: "addr \<Rightarrow> Size \<Rightarrow> world \<Rightarrow> error + addr \<times> world" where
  "realloc a n w =
     (case region_at w a of
        None \<Rightarrow> Inl Fault
      | Some old \<Rightarrow>
        (case answers w of
           [] \<Rightarrow> Inr (0, w)
         | q # as \<Rightarrow>
           let others = filter (\<lambda>r. fst r \<noteq> a) (regions w); k = min old (unat n) in
           if admissible others q (unat n)
           then Inr (q, w\<lparr>answers := as, regions := (q, unat n) # others,
                  mem := (\<lambda>x. if q \<le> x \<and> x < q + k then mem w (a + (x - q)) else mem w x),
                  ctxs := moved a old q k (ctxs w), blks := moved a old q k (blks w)\<rparr>)
           else Inr (0, w\<lparr>answers := as\<rparr>)))"

section \<open>Loads and stores\<close>

lemma load64_cong:
  assumes "\<And>x. a \<le> x \<Longrightarrow> x < a + 8 \<Longrightarrow> m x = m' x"
  shows "load64 m a = load64 m' a"
  by (simp add: load64_def assms)

lemma bit_load64:
  "bit (load64 m a) n \<longleftrightarrow> n < 64 \<and> bit (m (a + n div 8)) (n mod 8)"
proof (cases "n < 64")
  case False
  then show ?thesis by (auto dest: bit_imp_le_length)
next
  case True
  define i where "i = n div 8"
  define j where "j = n mod 8"
  have n: "n = 8 * i + j" and j: "j < 8" and i: "i < 8"
    using True by (auto simp: i_def j_def)
  have high: "\<not> bit (w :: byte) k" if "8 \<le> k" for w k
    using that by (auto dest: bit_imp_le_length)
  from i consider "i = 0" | "i = 1" | "i = 2" | "i = 3" | "i = 4" | "i = 5" | "i = 6" | "i = 7"
    by linarith
  then show ?thesis
    unfolding i_def[symmetric] j_def[symmetric]
    by cases (use j in \<open>auto simp: n load64_def bit_simps high not_le add.commute\<close>)
qed

lemma load64_store64 [simp]: "load64 (store64 m a v) a = v"
proof (rule bit_word_eqI)
  fix n
  assume "n < LENGTH(64)"
  then have "n div 8 < 8" and "8 * (n div 8) + n mod 8 = n" by simp_all
  then show "bit (load64 (store64 m a v) a) n = bit v n"
    using \<open>n < LENGTH(64)\<close> by (simp add: bit_load64 store64_def bit_simps)
qed

lemma store64_other: "x < a \<or> a + 8 \<le> x \<Longrightarrow> store64 m a v x = m x"
  by (auto simp: store64_def)

lemma load64_store64_disjoint:
  "a + 8 \<le> b \<or> b + 8 \<le> a \<Longrightarrow> load64 (store64 m a v) b = load64 m b"
  by (rule load64_cong) (auto simp: store64_def)

lemma fill_other: "x < a \<or> a + n \<le> x \<Longrightarrow> fill m a v n x = m x"
  by (auto simp: fill_def)

lemma fill_append: "fill (fill m a v n) (a + n) v k = fill m a v (n + k)"
  by (auto simp: fill_def)

lemma fill_zero [simp]: "fill m a v 0 = m"
  by (rule ext) (auto simp: fill_def)

lemma store64_zero: "store64 m a 0 = fill m a 0 8"
  by (auto simp: store64_def fill_def)

lemma store64E_ok [exec]:
  "in_region w a 8 \<Longrightarrow> store64E a v w = Inr (w\<lparr>mem := store64 (mem w) a v\<rparr>)"
  by (simp add: store64E_def)

lemma load64E_ok [exec]: "in_region w a 8 \<Longrightarrow> load64E w a = Inr (load64 (mem w) a)"
  by (simp add: load64E_def)

lemma in_region_iff:
  "in_region w a n \<longleftrightarrow> (\<exists>b s. (b, s) \<in> set (regions w) \<and> b \<le> a \<and> a + n \<le> b + s)"
  by (auto simp: in_region_def list_ex_iff)

lemma in_regionI: "(b, s) \<in> set (regions w) \<Longrightarrow> b \<le> a \<Longrightarrow> a + n \<le> b + s \<Longrightarrow> in_region w a n"
  by (auto simp: in_region_iff)

lemma in_region_sub:
  assumes "in_region w a n" and "a \<le> a'" and "a' + n' \<le> a + n"
  shows "in_region w a' n'"
proof -
  obtain b s where "(b, s) \<in> set (regions w)" "b \<le> a" "a + n \<le> b + s"
    using assms(1) by (auto simp: in_region_iff)
  with assms(2,3) show ?thesis by (intro in_regionI[of b s]) linarith+
qed

lemma in_region_upd [simp]:
  "in_region (w\<lparr>mem := m\<rparr>) = in_region w"
  "in_region (w\<lparr>ctxs := cs\<rparr>) = in_region w"
  "in_region (w\<lparr>blks := bs\<rparr>) = in_region w"
  "in_region (w\<lparr>answers := as\<rparr>) = in_region w"
  "in_region (w\<lparr>calls := ks\<rparr>) = in_region w"
  by (simp_all add: in_region_def fun_eq_iff)

text \<open>The optimised zero fill does what \<open>memset\<close> does.\<close>

lemma MemSetAligned_loop:
  assumes region: "in_region w start (8 * n)" and "i \<le> n"
  shows "loopE (\<lambda>(p, w). p < start + 8 * n)
       (\<lambda>(p, w). seqE (store64E p 0 w) (\<lambda>w. Inr (p + 8, w)))
       (start + 8 * i, w\<lparr>mem := fill (mem w) start 0 (8 * i)\<rparr>)
     = Inr (start + 8 * n, w\<lparr>mem := fill (mem w) start 0 (8 * n)\<rparr>)"
    (is "loopE ?b ?c (?st i) = _")
  using \<open>i \<le> n\<close>
proof (induction i rule: inc_induct)
  case base
  show ?case by (rule loopE_stop) simp
next
  case (step i)
  have "in_region w (start + 8 * i) 8"
    by (rule in_region_sub[OF region]) (use step.hyps in linarith)+
  moreover have "store64 (fill (mem w) start 0 (8 * i)) (start + 8 * i) 0
      = fill (mem w) start 0 (8 * Suc i)"
    by (simp add: store64_zero fill_append add.commute)
  ultimately have "?c (?st i) = Inr (?st (Suc i))"
    by (simp add: store64E_def add.commute)
  moreover have "?b (?st i)" using step.hyps by simp
  ultimately have "loopE ?b ?c (?st i) = loopE ?b ?c (?st (Suc i))" by (intro loopE_step)
  with step.IH show ?case by simp
qed

lemma MemSetAligned_eq_memset:
  assumes "in_region w start (unat len)"
  shows "MemSetAligned start len w = memsetE start 0 len w"
proof (cases "len AND LONG_ALIGN_MASK = 0 \<and> len \<le> MEMSET_LOOP_LIMIT")
  case False
  then show ?thesis unfolding MemSetAligned_def by (subst if_not_P) auto
next
  case True
  have "take_bit 3 len = 0"
    using True by (simp add: LONG_ALIGN_MASK_def take_bit_eq_mask mask_eq_exp_minus_1)
  then have "take_bit 3 (unat len) = 0"
    by (metis unsigned_0 unsigned_take_bit_eq)
  then have "unat len mod 8 = 0" by (simp add: take_bit_eq_mod)
  then obtain n where n: "unat len = 8 * n" by auto
  have "MemSetAligned start len w = Inr (w\<lparr>mem := fill (mem w) start 0 (unat len)\<rparr>)"
    using True MemSetAligned_loop[of w start n 0] assms
    by (simp add: MemSetAligned_def n)
  moreover have "memsetE start 0 len w = Inr (w\<lparr>mem := fill (mem w) start 0 (unat len)\<rparr>)"
    using assms by (cases "len = 0") (simp_all add: memsetE_def)
  ultimately show ?thesis by simp
qed

section \<open>Properties\<close>

text \<open>C40: The optimised \<open>MemSetAligned\<close> (a loop of 8-byte stores for short multiples of 8) does what
  \<open>memset\<close> with 0 does, for every length that lies in one live region.\<close>

theorem MemSetAligned_is_memset:
  assumes "in_region w start (unat len)"
  shows "MemSetAligned start len w = memsetE start 0 len w"
  by (rule MemSetAligned_eq_memset[OF assms])

theorem MemSetAligned_is_memset_witness:
  "MemSetAligned 16 24 ((initial_world (\<lambda>_. 1) [])\<lparr>regions := [(8, 64)]\<rparr>)
   = memsetE 16 0 24 ((initial_world (\<lambda>_. 1) [])\<lparr>regions := [(8, 64)]\<rparr>)"
  by (rule MemSetAligned_is_memset) (simp add: in_region_def)

end
