(* ===== verification/MemoryChunk.thy ===== *)
theory MemoryChunk
  imports World
begin

text \<open>
  The chunk header of \<open>src/memutils_memorychunk.h\<close> and the method ids of \<open>src/mctx_internal.h\<close>.

  A chunk is preceded by one 64-bit word, \<open>hdrmask\<close>: 4 bits of method id, 1 bit "external",
  30 bits of value and 30 bits of block offset. The top bit of the value and the lowest bit of the
  offset share one bit, which works because the offset is even. The first part packs and unpacks
  words; the second part is the inline functions that read and write the header in memory. The
  lemmas are the round trips, on words and through memory.
\<close>

section \<open>Method ids\<close>

definition MEMORY_CONTEXT_METHODID_BITS :: nat where
  "MEMORY_CONTEXT_METHODID_BITS = 4"

definition MEMORY_CONTEXT_METHODID_MASK :: uint64 where
  "MEMORY_CONTEXT_METHODID_MASK = push_bit MEMORY_CONTEXT_METHODID_BITS 1 - 1"

text \<open>The numbers of the enumeration, in its order.\<close>

definition all_methodids :: "MemoryContextMethodID list" where
  "all_methodids =
     [MCTX_0_RESERVED_UNUSEDMEM_ID, MCTX_1_RESERVED_GLIBC_ID, MCTX_2_RESERVED_GLIBC_ID,
      MCTX_ASET_ID, MCTX_GENERATION_ID, MCTX_SLAB_ID, MCTX_ALIGNED_REDIRECT_ID, MCTX_BUMP_ID,
      MCTX_8_UNUSED_ID, MCTX_9_UNUSED_ID, MCTX_10_UNUSED_ID, MCTX_11_UNUSED_ID,
      MCTX_12_UNUSED_ID, MCTX_13_UNUSED_ID, MCTX_14_UNUSED_ID, MCTX_15_RESERVED_WIPEDMEM_ID]"

fun methodid_num :: "MemoryContextMethodID \<Rightarrow> nat" where
  "methodid_num MCTX_0_RESERVED_UNUSEDMEM_ID = 0"
| "methodid_num MCTX_1_RESERVED_GLIBC_ID = 1"
| "methodid_num MCTX_2_RESERVED_GLIBC_ID = 2"
| "methodid_num MCTX_ASET_ID = 3"
| "methodid_num MCTX_GENERATION_ID = 4"
| "methodid_num MCTX_SLAB_ID = 5"
| "methodid_num MCTX_ALIGNED_REDIRECT_ID = 6"
| "methodid_num MCTX_BUMP_ID = 7"
| "methodid_num MCTX_8_UNUSED_ID = 8"
| "methodid_num MCTX_9_UNUSED_ID = 9"
| "methodid_num MCTX_10_UNUSED_ID = 10"
| "methodid_num MCTX_11_UNUSED_ID = 11"
| "methodid_num MCTX_12_UNUSED_ID = 12"
| "methodid_num MCTX_13_UNUSED_ID = 13"
| "methodid_num MCTX_14_UNUSED_ID = 14"
| "methodid_num MCTX_15_RESERVED_WIPEDMEM_ID = 15"

definition methodid_word :: "MemoryContextMethodID \<Rightarrow> uint64" where
  "methodid_word i = of_nat (methodid_num i)"

text \<open>The cast of the low four header bits to the enumeration.\<close>

definition hdrmask_methodid :: "uint64 \<Rightarrow> MemoryContextMethodID" where
  "hdrmask_methodid hdrmask = all_methodids ! unat (hdrmask AND MEMORY_CONTEXT_METHODID_MASK)"

text \<open>Method ids are ordered by their number.\<close>

instantiation MemoryContextMethodID :: linorder
begin

definition less_eq_MemoryContextMethodID ::
    "MemoryContextMethodID \<Rightarrow> MemoryContextMethodID \<Rightarrow> bool" where
  "less_eq_MemoryContextMethodID i j \<longleftrightarrow> methodid_num i \<le> methodid_num j"

definition less_MemoryContextMethodID ::
    "MemoryContextMethodID \<Rightarrow> MemoryContextMethodID \<Rightarrow> bool" where
  "less_MemoryContextMethodID i j \<longleftrightarrow> methodid_num i < methodid_num j"

instance
proof
  fix i j :: MemoryContextMethodID
  show "i \<le> j \<Longrightarrow> j \<le> i \<Longrightarrow> i = j"
    by (cases i; cases j) (simp_all add: less_eq_MemoryContextMethodID_def)
qed (auto simp: less_eq_MemoryContextMethodID_def less_MemoryContextMethodID_def)

end

section \<open>Packing and unpacking\<close>

definition MEMORYCHUNK_MAX_VALUE :: uint64 where "MEMORYCHUNK_MAX_VALUE = 0x3FFFFFFF"
definition MEMORYCHUNK_MAX_BLOCKOFFSET :: uint64 where "MEMORYCHUNK_MAX_BLOCKOFFSET = 0x3FFFFFFF"
definition MEMORYCHUNK_BLOCKOFFSET_MASK :: uint64 where "MEMORYCHUNK_BLOCKOFFSET_MASK = 0x3FFFFFFE"

definition MEMORYCHUNK_EXTERNAL_BASEBIT :: nat where
  "MEMORYCHUNK_EXTERNAL_BASEBIT = MEMORY_CONTEXT_METHODID_BITS"
definition MEMORYCHUNK_VALUE_BASEBIT :: nat where
  "MEMORYCHUNK_VALUE_BASEBIT = MEMORYCHUNK_EXTERNAL_BASEBIT + 1"
definition MEMORYCHUNK_BLOCKOFFSET_BASEBIT :: nat where
  "MEMORYCHUNK_BLOCKOFFSET_BASEBIT = MEMORYCHUNK_VALUE_BASEBIT + 29"

definition MEMORYCHUNK_MAGIC :: uint64 where
  "MEMORYCHUNK_MAGIC =
     push_bit MEMORYCHUNK_VALUE_BASEBIT (drop_bit MEMORYCHUNK_VALUE_BASEBIT 0xB1A8DB858EB6EFBA)"

definition HdrMaskIsExternal :: "uint64 \<Rightarrow> bool" where
  "HdrMaskIsExternal hdrmask \<longleftrightarrow> hdrmask AND push_bit MEMORYCHUNK_EXTERNAL_BASEBIT 1 \<noteq> 0"

definition HdrMaskGetValue :: "uint64 \<Rightarrow> uint64" where
  "HdrMaskGetValue hdrmask = drop_bit MEMORYCHUNK_VALUE_BASEBIT hdrmask AND MEMORYCHUNK_MAX_VALUE"

definition HdrMaskBlockOffset :: "uint64 \<Rightarrow> uint64" where
  "HdrMaskBlockOffset hdrmask =
     drop_bit MEMORYCHUNK_BLOCKOFFSET_BASEBIT hdrmask AND MEMORYCHUNK_BLOCKOFFSET_MASK"

definition HdrMaskCheckMagic :: "uint64 \<Rightarrow> bool" where
  "HdrMaskCheckMagic hdrmask \<longleftrightarrow>
     MEMORYCHUNK_MAGIC
     = push_bit MEMORYCHUNK_VALUE_BASEBIT (drop_bit MEMORYCHUNK_VALUE_BASEBIT hdrmask)"

text \<open>The words that \<open>MemoryChunkSetHdrMask\<close> and \<open>MemoryChunkSetHdrMaskExternal\<close> store.\<close>

definition hdrmask_of :: "Size \<Rightarrow> Size \<Rightarrow> MemoryContextMethodID \<Rightarrow> uint64" where
  "hdrmask_of blockoffset val methodid =
     push_bit MEMORYCHUNK_BLOCKOFFSET_BASEBIT blockoffset
     OR push_bit MEMORYCHUNK_VALUE_BASEBIT val OR methodid_word methodid"

definition hdrmask_external :: "MemoryContextMethodID \<Rightarrow> uint64" where
  "hdrmask_external methodid =
     MEMORYCHUNK_MAGIC OR push_bit MEMORYCHUNK_EXTERNAL_BASEBIT 1 OR methodid_word methodid"

section \<open>Headers in memory\<close>

definition sizeof_MemoryChunk :: nat where "sizeof_MemoryChunk = 8"

definition PointerGetMemoryChunk :: "addr \<Rightarrow> addr" where
  "PointerGetMemoryChunk p = p - sizeof_MemoryChunk"

definition MemoryChunkGetPointer :: "addr \<Rightarrow> addr" where
  "MemoryChunkGetPointer c = c + sizeof_MemoryChunk"

text \<open>The difference of two pointers, as a size.\<close>

definition ptr_diff :: "addr \<Rightarrow> addr \<Rightarrow> Size" where
  "ptr_diff p q = of_nat p - of_nat q"

definition MemoryChunkSetHdrMask ::
    "addr \<Rightarrow> addr \<Rightarrow> Size \<Rightarrow> MemoryContextMethodID \<Rightarrow> world \<Rightarrow> error + world" where
  "MemoryChunkSetHdrMask chunk block val methodid w =
     (let blockoffset = ptr_diff chunk block in
      seqE (assertE (block \<le> chunk)) (\<lambda>_.
      seqE (assertE (blockoffset AND MEMORYCHUNK_BLOCKOFFSET_MASK = blockoffset)) (\<lambda>_.
      seqE (assertE (val \<le> MEMORYCHUNK_MAX_VALUE)) (\<lambda>_.
      seqE (assertE (methodid_word methodid \<le> MEMORY_CONTEXT_METHODID_MASK)) (\<lambda>_.
        store64E chunk (hdrmask_of blockoffset val methodid) w)))))"

definition MemoryChunkSetHdrMaskExternal ::
    "addr \<Rightarrow> MemoryContextMethodID \<Rightarrow> world \<Rightarrow> error + world" where
  "MemoryChunkSetHdrMaskExternal chunk methodid w =
     seqE (assertE (methodid_word methodid \<le> MEMORY_CONTEXT_METHODID_MASK)) (\<lambda>_.
       store64E chunk (hdrmask_external methodid) w)"

definition MemoryChunkIsExternal :: "world \<Rightarrow> addr \<Rightarrow> error + bool" where
  "MemoryChunkIsExternal w chunk =
     seqE (load64E w chunk) (\<lambda>hdrmask.
     seqE (assertE (\<not> HdrMaskIsExternal hdrmask \<or> HdrMaskCheckMagic hdrmask)) (\<lambda>_.
       Inr (HdrMaskIsExternal hdrmask)))"

definition MemoryChunkGetValue :: "world \<Rightarrow> addr \<Rightarrow> error + Size" where
  "MemoryChunkGetValue w chunk =
     seqE (load64E w chunk) (\<lambda>hdrmask.
     seqE (assertE (\<not> HdrMaskIsExternal hdrmask)) (\<lambda>_. Inr (HdrMaskGetValue hdrmask)))"

text \<open>A block offset larger than the chunk's address would lead out of the address space.\<close>

definition MemoryChunkGetBlock :: "world \<Rightarrow> addr \<Rightarrow> error + addr" where
  "MemoryChunkGetBlock w chunk =
     seqE (load64E w chunk) (\<lambda>hdrmask.
     seqE (assertE (\<not> HdrMaskIsExternal hdrmask)) (\<lambda>_.
       if unat (HdrMaskBlockOffset hdrmask) \<le> chunk
       then Inr (chunk - unat (HdrMaskBlockOffset hdrmask)) else Inl Fault))"

text \<open>
  \<open>GetMemoryChunkMethodID\<close> of \<open>src/mcxt.c\<close>: the method id in the header word before a pointer.
\<close>

definition GetMemoryChunkMethodID :: "world \<Rightarrow> addr \<Rightarrow> error + MemoryContextMethodID" where
  "GetMemoryChunkMethodID w pointer =
     seqE (assertE (of_nat pointer = MAXALIGN (of_nat pointer))) (\<lambda>_.
     if pointer < sizeof_MemoryChunk then Inl Fault
     else seqE (load64E w (pointer - sizeof_MemoryChunk)) (\<lambda>header. Inr (hdrmask_methodid header)))"

text \<open>\<open>GetMemoryChunkHeader\<close>: that word. Nothing in the repository calls it.\<close>

definition GetMemoryChunkHeader :: "world \<Rightarrow> addr \<Rightarrow> error + uint64" where
  "GetMemoryChunkHeader w pointer =
     (if pointer < sizeof_MemoryChunk then Inl Fault
      else load64E w (pointer - sizeof_MemoryChunk))"

lemma GetMemoryChunkMethodID_header:
  "GetMemoryChunkMethodID w pointer =
     seqE (assertE (of_nat pointer = MAXALIGN (of_nat pointer))) (\<lambda>_.
     seqE (GetMemoryChunkHeader w pointer) (\<lambda>header. Inr (hdrmask_methodid header)))"
  by (simp add: GetMemoryChunkMethodID_def GetMemoryChunkHeader_def)

section \<open>Round trips\<close>

lemmas basebits = MEMORYCHUNK_EXTERNAL_BASEBIT_def MEMORYCHUNK_VALUE_BASEBIT_def
  MEMORYCHUNK_BLOCKOFFSET_BASEBIT_def MEMORY_CONTEXT_METHODID_BITS_def

lemma methodid_mask: "MEMORY_CONTEXT_METHODID_MASK = mask 4"
  by (simp add: MEMORY_CONTEXT_METHODID_MASK_def basebits mask_eq_exp_minus_1)

lemma methodid_num_less: "methodid_num i < 16"
  by (cases i) simp_all

lemma all_methodids_num: "all_methodids ! methodid_num i = i"
  by (cases i) (simp_all add: all_methodids_def)

lemma bit_methodid_word: "bit (methodid_word i) n \<Longrightarrow> n < 4"
proof -
  assume "bit (methodid_word i) n"
  moreover have "take_bit 4 (methodid_word i) = methodid_word i"
    using methodid_num_less[of i]
    by (simp add: methodid_word_def take_bit_nat_eq_self flip: of_nat_take_bit)
  ultimately show "n < 4" by (metis bit_take_bit_iff)
qed

lemma methodid_word_bound [simp]: "methodid_word i \<le> MEMORY_CONTEXT_METHODID_MASK"
  by (cases i) (simp_all add: methodid_word_def methodid_mask mask_eq_exp_minus_1)

lemma hdrmask_methodid_low:
  assumes "take_bit 4 h = methodid_word i"
  shows "hdrmask_methodid h = i"
proof -
  have "h AND MEMORY_CONTEXT_METHODID_MASK = methodid_word i"
    using assms by (simp add: methodid_mask take_bit_eq_mask)
  moreover have "unat (methodid_word i) = methodid_num i"
    using methodid_num_less[of i] by (simp add: methodid_word_def unat_of_nat)
  ultimately show ?thesis by (simp add: hdrmask_methodid_def all_methodids_num)
qed

lemma max_value_mask: "MEMORYCHUNK_MAX_VALUE = mask 30"
  by (simp add: MEMORYCHUNK_MAX_VALUE_def mask_eq_exp_minus_1)

lemma offset_mask: "MEMORYCHUNK_BLOCKOFFSET_MASK = mask 30 AND NOT 1"
  by (simp add: MEMORYCHUNK_BLOCKOFFSET_MASK_def mask_eq_exp_minus_1)

lemma bit_max_value:
  assumes "val \<le> MEMORYCHUNK_MAX_VALUE" and n: "bit val n"
  shows "n < 30"
proof -
  have "unat val < 2 ^ 30"
    using assms(1) by (simp add: word_le_nat_alt MEMORYCHUNK_MAX_VALUE_def)
  then have "take_bit 30 (unat val) = unat val" by (rule take_bit_nat_eq_self)
  moreover have "bit (unat val) n"
    using n by (auto simp: bit_simps dest: bit_imp_le_length)
  ultimately show ?thesis by (metis bit_take_bit_iff)
qed

lemma bit_offset:
  assumes "off AND MEMORYCHUNK_BLOCKOFFSET_MASK = off" and "bit off n"
  shows "0 < n \<and> n < 30"
proof -
  have "bit (off AND MEMORYCHUNK_BLOCKOFFSET_MASK) n" using assms by simp
  then show ?thesis by (auto simp: offset_mask bit_simps)
qed

text \<open>A regular header gives back the value, the block offset and the method id put in.\<close>

lemma hdrmask_of_fields:
  assumes off: "off AND MEMORYCHUNK_BLOCKOFFSET_MASK = off" and val: "val \<le> MEMORYCHUNK_MAX_VALUE"
  shows "HdrMaskGetValue (hdrmask_of off val i) = val"
    and "HdrMaskBlockOffset (hdrmask_of off val i) = off"
    and "\<not> HdrMaskIsExternal (hdrmask_of off val i)"
    and "hdrmask_methodid (hdrmask_of off val i) = i"
proof -
  let ?h = "hdrmask_of off val i"
  have bit_h: "bit ?h n \<longleftrightarrow> n < 64 \<and>
      (34 \<le> n \<and> bit off (n - 34) \<or> 5 \<le> n \<and> bit val (n - 5) \<or> bit (methodid_word i) n)" for n
    by (auto simp: hdrmask_of_def basebits bit_simps dest: bit_imp_le_length)
  note bits = bit_h bit_simps basebits max_value_mask offset_mask
  show "HdrMaskGetValue ?h = val"
    by (rule bit_word_eqI)
      (auto simp: HdrMaskGetValue_def bits dest: bit_max_value[OF val] bit_offset[OF off] bit_methodid_word)
  show "HdrMaskBlockOffset ?h = off"
    by (rule bit_word_eqI)
      (auto simp: HdrMaskBlockOffset_def bits dest: bit_max_value[OF val] bit_offset[OF off] bit_methodid_word)
  have "\<not> bit ?h 4"
    by (auto simp: bit_h dest: bit_methodid_word)
  then show "\<not> HdrMaskIsExternal ?h"
    using and_exp_eq_0_iff_not_bit[of ?h 4] by (simp add: HdrMaskIsExternal_def basebits)
  have "take_bit 4 ?h = methodid_word i"
    by (rule bit_word_eqI) (auto simp: bit_h bit_simps dest: bit_methodid_word)
  then show "hdrmask_methodid ?h = i" by (rule hdrmask_methodid_low)
qed

text \<open>An external header is recognised, its magic number checks and its method id comes back.\<close>

lemma hdrmask_external_fields:
  "HdrMaskIsExternal (hdrmask_external i)"
  "HdrMaskCheckMagic (hdrmask_external i)"
  "hdrmask_methodid (hdrmask_external i) = i"
  by (cases i; simp add: hdrmask_external_def HdrMaskIsExternal_def HdrMaskCheckMagic_def
      hdrmask_methodid_def MEMORYCHUNK_MAGIC_def basebits methodid_word_def
      MEMORY_CONTEXT_METHODID_MASK_def all_methodids_def)+

section \<open>Headers read back from memory\<close>

lemma ptr_diff_ge: "q \<le> p \<Longrightarrow> ptr_diff p q = of_nat (p - q)"
  by (simp add: ptr_diff_def)

lemma unat_ptr_diff: "q \<le> p \<Longrightarrow> p < 2 ^ 64 \<Longrightarrow> unat (ptr_diff p q) = p - q"
  using unat_of_nat_small[of "p - q"] by (simp add: ptr_diff_ge del: of_nat_diff)

lemma offset_fits:
  assumes "x < 2 ^ 30" and "even x"
  shows "of_nat x AND MEMORYCHUNK_BLOCKOFFSET_MASK = of_nat x"
proof (rule bit_word_eqI)
  fix n assume "n < LENGTH(64)"
  have "take_bit 30 x = x" using assms(1) by (rule take_bit_nat_eq_self)
  then have "bit x n \<Longrightarrow> n < 30" by (metis bit_take_bit_iff)
  moreover have "bit x n \<Longrightarrow> n \<noteq> 0" using assms(2) by (metis bit_0)
  ultimately show "bit (of_nat x AND MEMORYCHUNK_BLOCKOFFSET_MASK) n \<longleftrightarrow> bit (of_nat x :: uint64) n"
    by (auto simp: offset_mask bit_simps)
qed

text \<open>
  \<open>regular_hdr m chunk block v i\<close>: the bytes \<open>m\<close> hold, at \<open>chunk\<close>, the header that
  \<open>MemoryChunkSetHdrMask\<close> writes for a chunk of \<open>block\<close>.
\<close>

definition regular_hdr ::
    "(addr \<Rightarrow> byte) \<Rightarrow> addr \<Rightarrow> addr \<Rightarrow> Size \<Rightarrow> MemoryContextMethodID \<Rightarrow> bool" where
  "regular_hdr m chunk block val i \<longleftrightarrow>
     load64 m chunk = hdrmask_of (of_nat (chunk - block)) val i
     \<and> block \<le> chunk \<and> chunk - block < 2 ^ 30 \<and> even (chunk - block)
     \<and> val \<le> MEMORYCHUNK_MAX_VALUE"

definition external_hdr :: "(addr \<Rightarrow> byte) \<Rightarrow> addr \<Rightarrow> MemoryContextMethodID \<Rightarrow> bool" where
  "external_hdr m chunk i \<longleftrightarrow> load64 m chunk = hdrmask_external i"

lemma MemoryChunkSetHdrMask_ok [exec]:
  assumes "block \<le> chunk" "chunk - block < 2 ^ 30" "even (chunk - block)"
    and "val \<le> MEMORYCHUNK_MAX_VALUE" "in_region w chunk 8"
  shows "MemoryChunkSetHdrMask chunk block val i w
    = Inr (w\<lparr>mem := store64 (mem w) chunk (hdrmask_of (of_nat (chunk - block)) val i)\<rparr>)"
  using assms offset_fits[of "chunk - block"]
  by (simp add: MemoryChunkSetHdrMask_def ptr_diff_ge store64E_ok)

lemma regular_hdr_store:
  assumes "block \<le> chunk" "chunk - block < 2 ^ 30" "even (chunk - block)"
    and "val \<le> MEMORYCHUNK_MAX_VALUE"
  shows "regular_hdr (store64 m chunk (hdrmask_of (of_nat (chunk - block)) val i)) chunk block val i"
  using assms by (simp add: regular_hdr_def)

lemma regular_hdr_read:
  assumes hdr: "regular_hdr (mem w) chunk block val i" and reg: "in_region w chunk 8"
  shows "MemoryChunkIsExternal w chunk = Inr False"
    and "MemoryChunkGetValue w chunk = Inr val"
    and "MemoryChunkGetBlock w chunk = Inr block"
    and "8 dvd chunk \<Longrightarrow> chunk + 8 < 2 ^ 64
           \<Longrightarrow> GetMemoryChunkMethodID w (chunk + 8) = Inr i"
proof -
  have off: "of_nat (chunk - block) AND MEMORYCHUNK_BLOCKOFFSET_MASK = (of_nat (chunk - block) :: uint64)"
    using hdr by (intro offset_fits) (auto simp: regular_hdr_def)
  have val: "val \<le> MEMORYCHUNK_MAX_VALUE" using hdr by (simp add: regular_hdr_def)
  note f = hdrmask_of_fields[OF off val]
  have l: "load64 (mem w) chunk = hdrmask_of (of_nat (chunk - block)) val i"
    using hdr by (simp add: regular_hdr_def)
  have u: "unat (of_nat (chunk - block) :: uint64) = chunk - block"
    using hdr by (intro unat_of_nat_small) (simp add: regular_hdr_def)
  show "MemoryChunkIsExternal w chunk = Inr False" "MemoryChunkGetValue w chunk = Inr val"
    by (simp_all add: MemoryChunkIsExternal_def MemoryChunkGetValue_def load64E_ok[OF reg] l f)
  show "MemoryChunkGetBlock w chunk = Inr block"
    using hdr by (simp add: MemoryChunkGetBlock_def load64E_ok[OF reg] l f u del: of_nat_diff)
      (simp add: regular_hdr_def)
  assume al: "8 dvd chunk" "chunk + 8 < 2 ^ 64"
  then have "chunk + 15 < 2 ^ 64" by (auto elim!: dvdE)
  then have u8: "unat (of_nat (chunk + 8) :: uint64) = chunk + 8"
    by (intro unat_of_nat_small) simp
  have "of_nat (chunk + 8) = MAXALIGN (of_nat (chunk + 8))"
    using MAXALIGN_id_iff[of "of_nat (chunk + 8)"] al \<open>chunk + 15 < 2 ^ 64\<close>
    by (simp add: u8 del: of_nat_add)
  then show "GetMemoryChunkMethodID w (chunk + 8) = Inr i"
    by (simp add: GetMemoryChunkMethodID_def sizeof_MemoryChunk_def load64E_ok[OF reg] l f
        del: of_nat_add)
qed

lemma external_hdr_read:
  assumes hdr: "external_hdr (mem w) chunk i" and reg: "in_region w chunk 8"
  shows "MemoryChunkIsExternal w chunk = Inr True"
    and "8 dvd chunk \<Longrightarrow> chunk + 8 < 2 ^ 64
           \<Longrightarrow> GetMemoryChunkMethodID w (chunk + 8) = Inr i"
proof -
  have l: "load64 (mem w) chunk = hdrmask_external i"
    using hdr by (simp add: external_hdr_def)
  show "MemoryChunkIsExternal w chunk = Inr True"
    by (simp add: MemoryChunkIsExternal_def load64E_ok[OF reg] l hdrmask_external_fields)
  assume al: "8 dvd chunk" "chunk + 8 < 2 ^ 64"
  then have "chunk + 15 < 2 ^ 64" by (auto elim!: dvdE)
  then have u8: "unat (of_nat (chunk + 8) :: uint64) = chunk + 8"
    by (intro unat_of_nat_small) simp
  have "of_nat (chunk + 8) = MAXALIGN (of_nat (chunk + 8))"
    using MAXALIGN_id_iff[of "of_nat (chunk + 8)"] al \<open>chunk + 15 < 2 ^ 64\<close>
    by (simp add: u8 del: of_nat_add)
  then show "GetMemoryChunkMethodID w (chunk + 8) = Inr i"
    by (simp add: GetMemoryChunkMethodID_def sizeof_MemoryChunk_def load64E_ok[OF reg] l
        hdrmask_external_fields del: of_nat_add)
qed

section \<open>Properties\<close>

lemma external_header_written:
  assumes "in_region w chunk 8" "8 dvd chunk" "chunk + 8 < 2 ^ 64"
  shows "\<exists>w'. MemoryChunkSetHdrMaskExternal chunk i w = Inr w'
    \<and> MemoryChunkIsExternal w' chunk = Inr True
    \<and> GetMemoryChunkMethodID w' (MemoryChunkGetPointer chunk) = Inr i"
proof -
  let ?w = "w\<lparr>mem := store64 (mem w) chunk (hdrmask_external i)\<rparr>"
  have "MemoryChunkSetHdrMaskExternal chunk i w = Inr ?w"
    using assms by (cases i) (simp_all add: MemoryChunkSetHdrMaskExternal_def store64E_ok
      methodid_word_def MEMORY_CONTEXT_METHODID_MASK_def MEMORY_CONTEXT_METHODID_BITS_def)
  moreover have "external_hdr (mem ?w) chunk i" by (simp add: external_hdr_def)
  ultimately show ?thesis using external_hdr_read[of ?w chunk i] assms
    by (simp add: MemoryChunkGetPointer_def sizeof_MemoryChunk_def)
qed

text \<open>C36: Header round trip: after \<open>MemoryChunkSetHdrMask\<close> with an even offset below 1 GB, the block,
  the value and the method id are read back as they were written, and the chunk is not external. The
  header that \<open>MemoryChunkSetHdrMaskExternal\<close> writes is read back as external, with its method id,
  and its magic number passes the check in \<open>MemoryChunkIsExternal\<close>.\<close>

theorem header_roundtrip:
  assumes "block \<le> chunk" "chunk - block < 2 ^ 30" "even (chunk - block)"
    and "val \<le> MEMORYCHUNK_MAX_VALUE" "in_region w chunk 8" "8 dvd chunk" "chunk + 8 < 2 ^ 64"
  shows "(\<exists>w'. MemoryChunkSetHdrMask chunk block val i w = Inr w'
      \<and> MemoryChunkIsExternal w' chunk = Inr False \<and> MemoryChunkGetValue w' chunk = Inr val
      \<and> MemoryChunkGetBlock w' chunk = Inr block
      \<and> GetMemoryChunkMethodID w' (MemoryChunkGetPointer chunk) = Inr i)
    \<and> (\<exists>w'. MemoryChunkSetHdrMaskExternal chunk i w = Inr w'
      \<and> MemoryChunkIsExternal w' chunk = Inr True
      \<and> GetMemoryChunkMethodID w' (MemoryChunkGetPointer chunk) = Inr i)"
proof
  let ?w = "w\<lparr>mem := store64 (mem w) chunk (hdrmask_of (of_nat (chunk - block)) val i)\<rparr>"
  have "regular_hdr (mem ?w) chunk block val i" using regular_hdr_store[OF assms(1-4)] by simp
  from regular_hdr_read[OF this]
  show "\<exists>w'. MemoryChunkSetHdrMask chunk block val i w = Inr w'
      \<and> MemoryChunkIsExternal w' chunk = Inr False \<and> MemoryChunkGetValue w' chunk = Inr val
      \<and> MemoryChunkGetBlock w' chunk = Inr block
      \<and> GetMemoryChunkMethodID w' (MemoryChunkGetPointer chunk) = Inr i"
    using assms MemoryChunkSetHdrMask_ok[OF assms(1-5), of i]
    by (simp add: MemoryChunkGetPointer_def sizeof_MemoryChunk_def)
qed (rule external_header_written[OF assms(5-7)])

theorem header_roundtrip_witness:
  "(\<exists>w'. MemoryChunkSetHdrMask 48 8 5 MCTX_ASET_ID ((initial_world (\<lambda>_. 1) [])\<lparr>regions := [(8, 64)]\<rparr>) = Inr w'
      \<and> MemoryChunkIsExternal w' 48 = Inr False \<and> MemoryChunkGetValue w' 48 = Inr 5
      \<and> MemoryChunkGetBlock w' 48 = Inr 8
      \<and> GetMemoryChunkMethodID w' (MemoryChunkGetPointer 48) = Inr MCTX_ASET_ID)
    \<and> (\<exists>w'. MemoryChunkSetHdrMaskExternal 48 MCTX_ASET_ID ((initial_world (\<lambda>_. 1) [])\<lparr>regions := [(8, 64)]\<rparr>) = Inr w'
      \<and> MemoryChunkIsExternal w' 48 = Inr True
      \<and> GetMemoryChunkMethodID w' (MemoryChunkGetPointer 48) = Inr MCTX_ASET_ID)"
  by (rule header_roundtrip) (simp_all add: in_region_def MEMORYCHUNK_MAX_VALUE_def)

end
