(* ===== verification/SizeClasses.thy ===== *)
theory SizeClasses
  imports MemoryChunk
begin

text \<open>
  The constants of \<open>src/aset.c\<close> and \<open>src/memutils.h\<close> and the size computations of the allocation
  set: the freelist index of a request, the chunk size of an index, the chunk size limit of a
  context, the growth of block sizes. Struct sizes are those of the LP64 ABI.

  The lemmas say that the index is the least size class that holds the request, that the limit is
  the largest class that fits the maximum block size, and that the loops end.
\<close>

section \<open>Constants\<close>

definition sizeof_AllocSetContext :: nat where "sizeof_AllocSetContext = 200"
definition sizeof_AllocBlockData :: nat where "sizeof_AllocBlockData = 40"

definition ALLOC_MINBITS :: nat where "ALLOC_MINBITS = 3"
definition ALLOCSET_NUM_FREELISTS :: nat where "ALLOCSET_NUM_FREELISTS = 11"
definition ALLOC_CHUNK_LIMIT :: uint32 where
  "ALLOC_CHUNK_LIMIT = push_bit (ALLOCSET_NUM_FREELISTS - 1 + ALLOC_MINBITS) 1"
definition ALLOC_CHUNK_FRACTION :: Size where "ALLOC_CHUNK_FRACTION = 4"

definition ALLOC_BLOCKHDRSZ :: nat where
  "ALLOC_BLOCKHDRSZ = unat (MAXALIGN (of_nat sizeof_AllocBlockData))"
definition ALLOC_CHUNKHDRSZ :: nat where "ALLOC_CHUNKHDRSZ = sizeof_MemoryChunk"
definition ALIGNED_CONTEXTSZ :: nat where
  "ALIGNED_CONTEXTSZ = unat (MAXALIGN (of_nat sizeof_AllocSetContext))"
definition FIRST_BLOCKHDRSZ :: nat where
  "FIRST_BLOCKHDRSZ = ALIGNED_CONTEXTSZ + ALLOC_BLOCKHDRSZ"

definition ALLOCSET_DEFAULT_MINSIZE :: Size where "ALLOCSET_DEFAULT_MINSIZE = 0"
definition ALLOCSET_DEFAULT_INITSIZE :: Size where "ALLOCSET_DEFAULT_INITSIZE = 8 * 1024"
definition ALLOCSET_DEFAULT_MAXSIZE :: Size where "ALLOCSET_DEFAULT_MAXSIZE = 8 * 1024 * 1024"
definition ALLOCSET_SMALL_MINSIZE :: Size where "ALLOCSET_SMALL_MINSIZE = 0"
definition ALLOCSET_SMALL_INITSIZE :: Size where "ALLOCSET_SMALL_INITSIZE = 1 * 1024"
definition ALLOCSET_SMALL_MAXSIZE :: Size where "ALLOCSET_SMALL_MAXSIZE = 8 * 1024"
definition ALLOCSET_SEPARATE_THRESHOLD :: Size where "ALLOCSET_SEPARATE_THRESHOLD = 8192"
definition MAX_FREE_CONTEXTS :: int where "MAX_FREE_CONTEXTS = 100"

lemma sizes [simp]:
  "ALLOC_BLOCKHDRSZ = 40" "ALLOC_CHUNKHDRSZ = 8" "ALIGNED_CONTEXTSZ = 200" "FIRST_BLOCKHDRSZ = 240"
  "ALLOC_MINBITS = 3" "ALLOCSET_NUM_FREELISTS = 11"
  by (simp_all add: ALLOC_BLOCKHDRSZ_def ALLOC_CHUNKHDRSZ_def ALIGNED_CONTEXTSZ_def
      FIRST_BLOCKHDRSZ_def sizeof_AllocBlockData_def sizeof_AllocSetContext_def
      sizeof_MemoryChunk_def MAXALIGN_def TYPEALIGN_def MAXIMUM_ALIGNOF_def ALLOC_MINBITS_def
      ALLOCSET_NUM_FREELISTS_def)

section \<open>Size classes\<close>

definition FreeListIdxIsValid :: "int \<Rightarrow> bool" where
  "FreeListIdxIsValid fidx \<longleftrightarrow> 0 \<le> fidx \<and> fidx < int ALLOCSET_NUM_FREELISTS"

definition GetChunkSizeFromFreeListIdx :: "int \<Rightarrow> Size" where
  "GetChunkSizeFromFreeListIdx fidx = push_bit (nat fidx) (push_bit ALLOC_MINBITS 1)"

definition AllocSetFreeIndex :: "Size \<Rightarrow> error + int" where
  "AllocSetFreeIndex sz =
     (if sz > push_bit ALLOC_MINBITS 1 then
        seqE (pg_leftmost_one_pos32 (ucast sz - 1)) (\<lambda>pos.
        let idx = pos - int ALLOC_MINBITS + 1 in
        seqE (assertE (idx < int ALLOCSET_NUM_FREELISTS)) (\<lambda>_. Inr idx))
      else Inr 0)"

text \<open>The effective chunk size limit: halved until it fits the maximum block size.\<close>

definition compute_allocChunkLimit :: "Size \<Rightarrow> error + uint32" where
  "compute_allocChunkLimit maxBlockSz =
     loopE (\<lambda>limit. ucast limit + of_nat ALLOC_CHUNKHDRSZ
              > (maxBlockSz - of_nat ALLOC_BLOCKHDRSZ) div ALLOC_CHUNK_FRACTION)
           (\<lambda>limit. Inr (drop_bit 1 limit)) ALLOC_CHUNK_LIMIT"

text \<open>Double the block size until the chunk fits.\<close>

definition grow_blksize :: "Size \<Rightarrow> Size \<Rightarrow> error + Size" where
  "grow_blksize required_size blksize =
     loopE (\<lambda>blksize. blksize < required_size) (\<lambda>blksize. Inr (push_bit 1 blksize)) blksize"

section \<open>The size class of a request\<close>

lemma unat_chunk_size:
  assumes "k < 61"
  shows "unat (GetChunkSizeFromFreeListIdx (int k)) = 2 ^ (k + 3)"
proof -
  have "GetChunkSizeFromFreeListIdx (int k) = 2 ^ (k + 3)"
    by (simp add: GetChunkSizeFromFreeListIdx_def push_bit_eq_mult power_add mult.commute)
  then show ?thesis using assms unat_two_power[of "k + 3", where 'a = 64] by simp
qed

lemma unat_ucast_small:
  "unat w < 2 ^ LENGTH('b) \<Longrightarrow> unat (ucast (w :: 'a::len word) :: 'b::len word) = unat w"
  by (simp add: unsigned_ucast_eq take_bit_nat_eq_self)

text \<open>A request up to the chunk limit gets the least index whose chunk holds it.\<close>

lemma AllocSetFreeIndex_eq:
  assumes "unat sz \<le> 8192"
  obtains k where "k < 11" and "AllocSetFreeIndex sz = Inr (int k)"
    and "unat sz \<le> 2 ^ (k + 3)" and "k = 0 \<or> 2 ^ (k + 2) < unat sz"
proof (cases "8 < unat sz")
  case False
  then have "AllocSetFreeIndex sz = Inr (int 0)"
    by (simp add: AllocSetFreeIndex_def word_less_nat_alt)
  with False that[of 0] show ?thesis by simp
next
  case True
  let ?u = "ucast sz - 1 :: 32 word"
  have c: "unat (ucast sz :: 32 word) = unat sz"
    using assms by (intro unat_ucast_small) simp
  then have "(ucast sz :: 32 word) \<noteq> 0" using True by (metis not_less0 unat_0)
  then have u: "unat ?u = unat sz - 1" using c by (simp add: unat_minus_one)
  then have "?u \<noteq> 0" using True by (intro notI) (simp add: unat_eq_zero[symmetric])
  then obtain p where p: "pg_leftmost_one_pos32 ?u = Inr (int p)"
    "2 ^ p \<le> unat ?u" "unat ?u < 2 ^ Suc p"
    by (rule pg_leftmost_one_pos32_eq)
  have "(2::nat) ^ p < 2 ^ 13" using p(2) u assms True by simp
  then have "p < 13" by (simp only: power_strict_increasing_iff)
  have "(2::nat) ^ 3 < 2 ^ Suc p" using p(3) u True by simp
  then have "3 < Suc p" by (rule power_less_imp_less_exp[rotated]) simp
  then have "3 \<le> p" by simp
  define k where "k = p - 2"
  have k: "p = k + 2" "1 \<le> k" "k < 11" using \<open>p < 13\<close> \<open>3 \<le> p\<close> by (auto simp: k_def)
  have "AllocSetFreeIndex sz = Inr (int k)"
    using True k p(1) by (simp add: AllocSetFreeIndex_def word_less_nat_alt)
  moreover have "unat sz \<le> 2 ^ (k + 3)" "2 ^ (k + 2) < unat sz"
    using p(2,3) u True k by (simp_all add: power_add)
  ultimately show ?thesis using that[of k] k by simp
qed

section \<open>The chunk size limit and the block size\<close>

text \<open>The limit is the largest size class, up to 8192, of which four fit in the largest block.\<close>

lemma compute_allocChunkLimit_eq:
  assumes "1024 \<le> unat maxBlockSz"
  obtains k where "compute_allocChunkLimit maxBlockSz = Inr (2 ^ k)" and "k \<le> 13"
    and "2 ^ k + 8 \<le> (unat maxBlockSz - 40) div 4"
    and "k = 13 \<or> (unat maxBlockSz - 40) div 4 < 2 ^ Suc k + 8"
proof -
  define q where "q = (unat maxBlockSz - 40) div 4"
  have q: "unat ((maxBlockSz - of_nat ALLOC_BLOCKHDRSZ) div ALLOC_CHUNK_FRACTION) = q"
    using assms
    by (simp add: q_def ALLOC_CHUNK_FRACTION_def unat_div unat_sub word_le_nat_alt)
  have q_ge: "246 \<le> q" using assms by (simp add: q_def)
  have u: "unat (2 ^ k :: 32 word) = 2 ^ k" "unat (ucast (2 ^ k :: 32 word) + of_nat ALLOC_CHUNKHDRSZ :: 64 word) = 2 ^ k + 8"
    if "k \<le> 13" for k
  proof -
    show *: "unat (2 ^ k :: 32 word) = 2 ^ k" using that by (intro unat_two_power) simp
    have "(2::nat) ^ k \<le> 2 ^ 13" using that by (intro power_increasing) auto
    then show "unat (ucast (2 ^ k :: 32 word) + of_nat ALLOC_CHUNKHDRSZ :: 64 word) = 2 ^ k + 8"
      using * by (simp add: unat_word_ariths unat_ucast_small)
  qed
  let ?P = "\<lambda>l :: 32 word. \<exists>k \<le> 13. l = 2 ^ k \<and> (k = 13 \<or> q < 2 ^ Suc k + 8)"
  let ?b = "\<lambda>limit :: 32 word. (maxBlockSz - of_nat ALLOC_BLOCKHDRSZ) div ALLOC_CHUNK_FRACTION
              < ucast limit + of_nat ALLOC_CHUNKHDRSZ"
  have "\<exists>t. compute_allocChunkLimit maxBlockSz = Inr t \<and> ?P t \<and> \<not> ?b t"
    unfolding compute_allocChunkLimit_def
  proof (rule loopE_total[where m = unat])
    show "?P ALLOC_CHUNK_LIMIT"
      by (intro exI[of _ 13]) (simp add: ALLOC_CHUNK_LIMIT_def)
  next
    fix l assume "?P l" "?b l"
    then obtain k where k: "k \<le> 13" "l = 2 ^ k" and "?b (2 ^ k)" by blast
    then have k3: "q < 2 ^ k + 8" using q u(2)[of k] by (simp only: word_less_nat_alt)
    have "k \<noteq> 0" using k3 q_ge by (intro notI) simp
    then obtain j where j: "k = Suc j" by (cases k) auto
    have "drop_bit 1 l = 2 ^ j" 
      using k j u(1)[of k] u(1)[of j] by (simp add: word_unat_eq_iff drop_bit_eq_div unat_div)
    with k k3 j u(1)[of k] u(1)[of j] show "\<exists>s'. Inr (drop_bit 1 l) = Inr s' \<and> ?P s' \<and> unat s' < unat l"
      by (intro exI[of _ "2 ^ j"] conjI exI[of _ j]) auto
  qed
  then obtain k where "compute_allocChunkLimit maxBlockSz = Inr (2 ^ k)" "k \<le> 13"
     "k = 13 \<or> q < 2 ^ Suc k + 8" "\<not> ?b (2 ^ k)" by auto
  moreover from this have "2 ^ k + 8 \<le> q"
    using q u(2)[of k] by (simp add: word_less_nat_alt del: of_nat_numeral sizes)
  ultimately show ?thesis using that unfolding q_def by blast
qed

text \<open>Doubling ends at the least doubling of the start that holds the chunk.\<close>

lemma grow_blksize_eq:
  assumes "0 < unat b" and "unat b < 2 ^ 32" and "unat r \<le> 2 ^ 32"
  obtains n where "grow_blksize r b = Inr (b * 2 ^ n)" and "unat (b * 2 ^ n) = unat b * 2 ^ n"
    and "unat r \<le> unat b * 2 ^ n" and "n = 0 \<or> unat b * 2 ^ (n - 1) < unat r"
proof -
  let ?P = "\<lambda>s. \<exists>n. s = b * 2 ^ n \<and> unat s = unat b * 2 ^ n
              \<and> (n = 0 \<or> unat b * 2 ^ (n - 1) < unat r)"
  have "\<exists>t. grow_blksize r b = Inr t \<and> ?P t \<and> \<not> t < r"
    unfolding grow_blksize_def
  proof (rule loopE_total[where m = "\<lambda>s. unat r - unat s"])
    show "?P b" by (intro exI[of _ 0]) simp
  next
    fix s assume "?P s" "s < r"
    then obtain n where n: "s = b * 2 ^ n" "unat s = unat b * 2 ^ n" by auto
    have lt: "unat s < unat r" using \<open>s < r\<close> by (simp add: word_less_nat_alt)
    have "0 < unat s" using n assms(1) by simp
    have d: "push_bit 1 s = b * 2 ^ Suc n" by (simp add: n(1) push_bit_eq_mult mult.assoc mult.commute)
    have d2: "unat (push_bit 1 s) = unat s * 2"
      using lt assms(3) by (simp add: push_bit_eq_mult unat_word_ariths)
    then have "unat (push_bit 1 s) = unat b * 2 ^ Suc n" by (simp add: n(2))
    then have "?P (push_bit 1 s)"
      using lt n d by (auto intro!: exI[of _ "Suc n"] simp del: power_Suc)
    moreover have "unat r - unat (push_bit 1 s) < unat r - unat s"
      using lt \<open>0 < unat s\<close> d2 by linarith
    ultimately show "\<exists>s'. Inr (push_bit 1 s) = Inr s' \<and> ?P s' \<and> unat r - unat s' < unat r - unat s"
      by blast
  qed
  then obtain n where "grow_blksize r b = Inr (b * 2 ^ n)" "unat (b * 2 ^ n) = unat b * 2 ^ n"
    "n = 0 \<or> unat b * 2 ^ (n - 1) < unat r" "\<not> b * 2 ^ n < r"
    by blast
  then show ?thesis using that[of n] by (simp add: word_less_nat_alt not_less)
qed

section \<open>Properties\<close>

text \<open>C37: \<open>AllocSetFreeIndex\<close> of a size up to 8192 returns a valid index of the smallest size class
  that holds the size; its assertions do not fail.\<close>

theorem AllocSetFreeIndex_least_class:
  assumes "unat sz \<le> 8192"
  shows "\<exists>k. AllocSetFreeIndex sz = Inr k \<and> FreeListIdxIsValid k
    \<and> sz \<le> GetChunkSizeFromFreeListIdx k
    \<and> (\<forall>j. 0 \<le> j \<and> j < k \<longrightarrow> GetChunkSizeFromFreeListIdx j < sz)"
proof -
  obtain k where k: "k < 11" "AllocSetFreeIndex sz = Inr (int k)" "unat sz \<le> 2 ^ (k + 3)"
      "k = 0 \<or> 2 ^ (k + 2) < unat sz"
    by (rule AllocSetFreeIndex_eq[OF assms])
  have "GetChunkSizeFromFreeListIdx j < sz" if j: "0 \<le> j" "j < int k" for j
  proof -
    have "(2::nat) ^ (nat j + 3) \<le> 2 ^ (k + 2)" by (rule power_increasing) (use j in auto)
    then show ?thesis
      using unat_chunk_size[of "nat j"] j k by (auto simp: word_less_nat_alt)
  qed
  then show ?thesis
    using k unat_chunk_size[of k]
    by (intro exI[of _ "int k"]) (auto simp: word_le_nat_alt FreeListIdxIsValid_def)
qed

theorem AllocSetFreeIndex_least_class_witness:
  "\<exists>k. AllocSetFreeIndex 100 = Inr k \<and> FreeListIdxIsValid k
    \<and> 100 \<le> GetChunkSizeFromFreeListIdx k
    \<and> (\<forall>j. 0 \<le> j \<and> j < k \<longrightarrow> GetChunkSizeFromFreeListIdx j < 100)"
  by (rule AllocSetFreeIndex_least_class) simp

text \<open>C38: The chunk size limit of a context is the largest size class such that
  \<open>ALLOC_CHUNK_FRACTION\<close> chunks of it with their headers fit a block of the maximum size; the loop
  that computes it ends.\<close>

theorem allocChunkLimit_largest:
  assumes "1024 \<le> unat maxBlockSz"
  shows "\<exists>k \<le> 13. compute_allocChunkLimit maxBlockSz = Inr (2 ^ k)
    \<and> 4 * (2 ^ k + 8) + 40 \<le> unat maxBlockSz
    \<and> (k = 13 \<or> unat maxBlockSz < 4 * (2 ^ Suc k + 8) + 40)"
proof -
  obtain k where "compute_allocChunkLimit maxBlockSz = Inr (2 ^ k)" "k \<le> 13"
      "2 ^ k + 8 \<le> (unat maxBlockSz - 40) div 4"
      "k = 13 \<or> (unat maxBlockSz - 40) div 4 < 2 ^ Suc k + 8"
    by (rule compute_allocChunkLimit_eq[OF assms])
  then show ?thesis using assms by (intro exI[of _ k]) auto
qed

theorem allocChunkLimit_largest_witness:
  "\<exists>k \<le> 13. compute_allocChunkLimit 8192 = Inr (2 ^ k)
    \<and> 4 * (2 ^ k + 8) + 40 \<le> unat (8192 :: Size)
    \<and> (k = 13 \<or> unat (8192 :: Size) < 4 * (2 ^ Suc k + 8) + 40)"
  by (rule allocChunkLimit_largest) simp

text \<open>C39: The loop that doubles the block size until a chunk fits ends, without overflow, with the
  first doubling that is large enough.\<close>

theorem grow_blksize_terminates:
  assumes "0 < unat b" and "unat b < 2 ^ 32" and "unat r \<le> 2 ^ 32"
  shows "\<exists>n. grow_blksize r b = Inr (b * 2 ^ n) \<and> unat (b * 2 ^ n) = unat b * 2 ^ n
    \<and> unat r \<le> unat b * 2 ^ n \<and> (n = 0 \<or> unat b * 2 ^ (n - 1) < unat r)"
  by (rule grow_blksize_eq[OF assms]) blast

theorem grow_blksize_terminates_witness:
  "\<exists>n. grow_blksize 5000 1024 = Inr (1024 * 2 ^ n)
    \<and> unat (1024 * 2 ^ n :: Size) = unat (1024 :: Size) * 2 ^ n
    \<and> unat (5000 :: Size) \<le> unat (1024 :: Size) * 2 ^ n
    \<and> (n = 0 \<or> unat (1024 :: Size) * 2 ^ (n - 1) < unat (5000 :: Size))"
  by (rule grow_blksize_terminates) simp_all

end
