(* ===== verification/ContextTree.thy ===== *)
theory ContextTree
  imports MemoryChunk
begin

text \<open>
  The context tree of \<open>src/mcxt.c\<close>: a context links to its parent, its first child and its two
  siblings. This theory holds the operations that touch only these links and the other plain header
  fields: \<open>MemoryContextCreate\<close>, \<open>MemoryContextSetParent\<close>, \<open>MemoryContextTraverseNext\<close> and the
  small accessors.
\<close>

section \<open>Operations\<close>

text \<open>\<open>MemoryContextCreate\<close>: initialise the header of \<open>node\<close> and link it as first child.\<close>

definition MemoryContextCreate ::
    "addr \<Rightarrow> NodeTag \<Rightarrow> MemoryContextMethodID \<Rightarrow> addr \<Rightarrow> string \<Rightarrow> world \<Rightarrow> error + world" where
  "MemoryContextCreate node tag method_id par nm w =
     seqE (if par = 0 then Inr () else Assert_valid w par) (\<lambda>_.
     seqE (assertE (node \<noteq> par)) (\<lambda>_.
     seqE (upd_ctx node (\<lambda>s. s\<lparr>ctx_type := tag, isReset := True, methods := method_id,
        parent := par, firstchild := 0, mem_allocated := 0, prevchild := 0,
        ctx_name := nm, ident := 0, reset_cbs := 0\<rparr>) w) (\<lambda>w.
     if par \<noteq> 0 then
       seqE (get_ctx w par) (\<lambda>p.
       seqE (upd_ctx node (\<lambda>s. s\<lparr>nextchild := firstchild p\<rparr>) w) (\<lambda>w.
       seqE (if firstchild p \<noteq> 0 then upd_ctx (firstchild p) (\<lambda>s. s\<lparr>prevchild := node\<rparr>) w
             else Inr w) (\<lambda>w.
       seqE (upd_ctx par (\<lambda>s. s\<lparr>firstchild := node\<rparr>) w) (\<lambda>w.
       seqE (get_ctx w par) (\<lambda>p.
         upd_ctx node (\<lambda>s. s\<lparr>allowInCritSection := allowInCritSection p\<rparr>) w)))))
     else upd_ctx node (\<lambda>s. s\<lparr>nextchild := 0, allowInCritSection := False\<rparr>) w)))"

text \<open>\<open>MemoryContextSetParent\<close>, in its two halves: delink from the old parent, link to the new.\<close>

definition delink_from_parent :: "addr \<Rightarrow> world \<Rightarrow> error + world" where
  "delink_from_parent context w =
     seqE (get_ctx w context) (\<lambda>s.
     if parent s = 0 then Inr w else
       seqE (if prevchild s \<noteq> 0
             then upd_ctx (prevchild s) (\<lambda>p. p\<lparr>nextchild := nextchild s\<rparr>) w
             else seqE (get_ctx w (parent s)) (\<lambda>p.
                  seqE (assertE (firstchild p = context)) (\<lambda>_.
                    upd_ctx (parent s) (\<lambda>p. p\<lparr>firstchild := nextchild s\<rparr>) w))) (\<lambda>w.
       seqE (get_ctx w context) (\<lambda>s.
       if nextchild s \<noteq> 0
       then upd_ctx (nextchild s) (\<lambda>n. n\<lparr>prevchild := prevchild s\<rparr>) w
       else Inr w)))"

definition link_to_parent :: "addr \<Rightarrow> addr \<Rightarrow> world \<Rightarrow> error + world" where
  "link_to_parent context new_parent w =
     (if new_parent \<noteq> 0 then
        seqE (Assert_valid w new_parent) (\<lambda>_.
        seqE (upd_ctx context (\<lambda>s. s\<lparr>parent := new_parent, prevchild := 0\<rparr>) w) (\<lambda>w.
        seqE (get_ctx w new_parent) (\<lambda>p.
        seqE (upd_ctx context (\<lambda>s. s\<lparr>nextchild := firstchild p\<rparr>) w) (\<lambda>w.
        seqE (if firstchild p \<noteq> 0 then upd_ctx (firstchild p) (\<lambda>s. s\<lparr>prevchild := context\<rparr>) w
              else Inr w) (\<lambda>w.
          upd_ctx new_parent (\<lambda>p. p\<lparr>firstchild := context\<rparr>) w)))))
      else upd_ctx context (\<lambda>s. s\<lparr>parent := 0, prevchild := 0, nextchild := 0\<rparr>) w)"

definition MemoryContextSetParent :: "addr \<Rightarrow> addr \<Rightarrow> world \<Rightarrow> error + world" where
  "MemoryContextSetParent context new_parent w =
     seqE (Assert_valid w context) (\<lambda>_.
     seqE (assertE (context \<noteq> new_parent)) (\<lambda>_.
     seqE (get_ctx w context) (\<lambda>s.
     if new_parent = parent s then Inr w
     else seqE (delink_from_parent context w) (link_to_parent context new_parent))))"

text \<open>
  \<open>MemoryContextTraverseNext\<close>: the loop climbs until a context has a next sibling; its state is
  the current context, that context's \<open>nextchild\<close>, and whether \<open>top\<close> was reached.
\<close>

definition climb :: "world \<Rightarrow> addr \<Rightarrow> addr \<times> addr \<times> bool \<Rightarrow> error + addr \<times> addr \<times> bool" where
  "climb w topc =
     loopE (\<lambda>(cur, nxt, reached). \<not> reached \<and> nxt = 0)
       (\<lambda>(cur, nxt, reached).
          seqE (get_ctx w cur) (\<lambda>s.
          if parent s = topc then Inr (parent s, 0, True)
          else seqE (get_ctx w (parent s)) (\<lambda>p. Inr (parent s, nextchild p, False))))"

definition MemoryContextTraverseNext :: "world \<Rightarrow> addr \<Rightarrow> addr \<Rightarrow> error + addr" where
  "MemoryContextTraverseNext w cur topc =
     seqE (get_ctx w cur) (\<lambda>s.
     if firstchild s \<noteq> 0 then Inr (firstchild s)
     else seqE (climb w topc (cur, nextchild s, False)) (\<lambda>(_, nxt, _). Inr nxt))"

text \<open>Accessors.\<close>

definition MemoryContextGetParent :: "world \<Rightarrow> addr \<Rightarrow> error + addr" where
  "MemoryContextGetParent w context =
     seqE (Assert_valid w context) (\<lambda>_. seqE (get_ctx w context) (\<lambda>s. Inr (parent s)))"

definition MemoryContextSetIdentifier :: "addr \<Rightarrow> addr \<Rightarrow> world \<Rightarrow> error + world" where
  "MemoryContextSetIdentifier context idstr w =
     seqE (Assert_valid w context) (\<lambda>_. upd_ctx context (\<lambda>s. s\<lparr>ident := idstr\<rparr>) w)"

definition MemoryContextAllowInCriticalSection :: "addr \<Rightarrow> bool \<Rightarrow> world \<Rightarrow> error + world" where
  "MemoryContextAllowInCriticalSection context allow w =
     seqE (Assert_valid w context) (\<lambda>_. upd_ctx context (\<lambda>s. s\<lparr>allowInCritSection := allow\<rparr>) w)"

text \<open>
  \<open>MemoryContextMemAllocated\<close>: the bytes of a context's blocks, with those of all descendants when
  \<open>recurse\<close> is set.
\<close>

definition MemoryContextMemAllocated :: "world \<Rightarrow> addr \<Rightarrow> bool \<Rightarrow> error + Size" where
  "MemoryContextMemAllocated w context recurse =
     seqE (get_ctx w context) (\<lambda>s.
     seqE (Assert_valid w context) (\<lambda>_.
     if recurse then
       seqE (loopE (\<lambda>(cur, total). cur \<noteq> 0)
          (\<lambda>(cur, total).
             seqE (get_ctx w cur) (\<lambda>c.
             seqE (MemoryContextTraverseNext w cur context) (\<lambda>nxt.
               Inr (nxt, total + mem_allocated c))))
          (firstchild s, mem_allocated s)) (\<lambda>(_, total). Inr total)
     else Inr (mem_allocated s)))"

end
