(* ===== verification/Callbacks.thy ===== *)
theory Callbacks
  imports ContextTree
begin

text \<open>
  Reset callbacks (\<open>src/mcxt.c\<close>, struct in \<open>src/palloc.h\<close>). A callback struct lives in client
  memory: the function at offset 0, its argument at 8, the link to the next struct at 16.

  The callback functions are client code. They are a parameter of the model, \<open>cbf\<close>: the outcome of
  calling a function on an argument in a state. Every call is also recorded in the trace \<open>calls\<close>.
\<close>

type_synonym callbacks = "uint64 \<Rightarrow> uint64 \<Rightarrow> world \<Rightarrow> error + world"

section \<open>Operations\<close>

definition call_callback :: "callbacks \<Rightarrow> uint64 \<Rightarrow> uint64 \<Rightarrow> world \<Rightarrow> error + world" where
  "call_callback cbf func arg w = cbf func arg (w\<lparr>calls := calls w @ [(func, arg)]\<rparr>)"

definition cb_func :: "addr \<Rightarrow> addr" where "cb_func cb = cb"
definition cb_arg :: "addr \<Rightarrow> addr" where "cb_arg cb = cb + 8"
definition cb_next :: "addr \<Rightarrow> addr" where "cb_next cb = cb + 16"

definition MemoryContextRegisterResetCallback :: "addr \<Rightarrow> addr \<Rightarrow> world \<Rightarrow> error + world" where
  "MemoryContextRegisterResetCallback context cb w =
     seqE (Assert_valid w context) (\<lambda>_.
     seqE (get_ctx w context) (\<lambda>s.
     seqE (store_ptr (cb_next cb) (reset_cbs s) w) (\<lambda>w.
     seqE (upd_ctx context (\<lambda>s. s\<lparr>reset_cbs := cb\<rparr>) w) (\<lambda>w.
       upd_ctx context (\<lambda>s. s\<lparr>isReset := False\<rparr>) w))))"

text \<open>The search stops at the first struct that is \<open>cb\<close>; not finding it is an assertion failure.\<close>

definition MemoryContextUnregisterResetCallback :: "addr \<Rightarrow> addr \<Rightarrow> world \<Rightarrow> error + world" where
  "MemoryContextUnregisterResetCallback context cb w =
     seqE (Assert_valid w context) (\<lambda>_.
     seqE (get_ctx w context) (\<lambda>s.
     seqE (loopE (\<lambda>(prev, cur). cur \<noteq> 0 \<and> cur \<noteq> cb)
             (\<lambda>(prev, cur). seqE (load_ptr w (cb_next cur)) (\<lambda>nxt. Inr (cur, nxt)))
             (0, reset_cbs s)) (\<lambda>(prev, cur).
     if cur = 0 then Inl AssertFailed
     else seqE (load_ptr w (cb_next cur)) (\<lambda>nxt.
          if prev \<noteq> 0 then store_ptr (cb_next prev) nxt w
          else upd_ctx context (\<lambda>s. s\<lparr>reset_cbs := nxt\<rparr>) w))))"

text \<open>Each callback is popped from the list before it is called.\<close>

definition MemoryContextCallResetCallbacks :: "callbacks \<Rightarrow> addr \<Rightarrow> world \<Rightarrow> error + world" where
  "MemoryContextCallResetCallbacks cbf context w =
     seqE (get_ctx w context) (\<lambda>s.
     seqE (loopE (\<lambda>(cb, w). cb \<noteq> 0)
        (\<lambda>(cb, w).
           seqE (load_ptr w (cb_next cb)) (\<lambda>nxt.
           seqE (upd_ctx context (\<lambda>s. s\<lparr>reset_cbs := nxt\<rparr>) w) (\<lambda>w.
           seqE (load64E w (cb_func cb)) (\<lambda>func.
           seqE (load64E w (cb_arg cb)) (\<lambda>arg.
           seqE (call_callback cbf func arg w) (\<lambda>w.
           seqE (get_ctx w context) (\<lambda>s. Inr (reset_cbs s, w))))))))
        (reset_cbs s, w)) (\<lambda>(_, w). Inr w))"

end
