(* ===== verification/AllocSet.thy ===== *)
theory AllocSet
  imports SizeClasses Callbacks
begin

text \<open>
  The allocation set of \<open>src/aset.c\<close>: all operations, as they are compiled by the Makefile (no
  \<open>MEMORY_CONTEXT_CHECKING\<close>, no \<open>CLOBBER_FREED_MEMORY\<close>, no Valgrind), with assertions on.

  The constants and the size computations are in \<open>SizeClasses\<close>. Each definition follows the C function of its name; a few
  long functions are split at a comment of the source, as their names say.
\<close>

section \<open>Small helpers\<close>

definition KeeperBlock :: "addr \<Rightarrow> addr" where
  "KeeperBlock cset = cset + ALIGNED_CONTEXTSZ"

definition IsKeeperBlock :: "addr \<Rightarrow> addr \<Rightarrow> bool" where
  "IsKeeperBlock cset block \<longleftrightarrow> block = KeeperBlock cset"

definition ExternalChunkGetBlock :: "addr \<Rightarrow> addr" where
  "ExternalChunkGetBlock chunk = chunk - ALLOC_BLOCKHDRSZ"

definition GetFreeListLink :: "addr \<Rightarrow> addr" where
  "GetFreeListLink chkptr = chkptr + ALLOC_CHUNKHDRSZ"

text \<open>\<open>AllocBlockIsValid\<close>: a non-null block header whose owner is a valid allocation set.\<close>

definition AllocBlockIsValid :: "world \<Rightarrow> addr \<Rightarrow> error + bool" where
  "AllocBlockIsValid w block =
     (if block = 0 then Inr False
      else seqE (get_blk w block) (\<lambda>k. MemoryContextIsValid w (aset k)))"

text \<open>The \<open>freelist[]\<close> array of a set and the global \<open>context_freelists[]\<close>.\<close>

definition get_freelist :: "AllocSetContext \<Rightarrow> int \<Rightarrow> error + addr" where
  "get_freelist s fidx =
     (if 0 \<le> fidx \<and> nat fidx < length (freelist s) then Inr (freelist s ! nat fidx) else Inl Fault)"

definition set_freelist :: "addr \<Rightarrow> int \<Rightarrow> addr \<Rightarrow> world \<Rightarrow> error + world" where
  "set_freelist cset fidx p w =
     upd_ctx cset (\<lambda>s. s\<lparr>freelist := (freelist s)[nat fidx := p]\<rparr>) w"

definition get_context_freelist :: "world \<Rightarrow> int \<Rightarrow> error + AllocSetFreeList" where
  "get_context_freelist w idx =
     (if 0 \<le> idx \<and> nat idx < length (context_freelists w)
      then Inr (context_freelists w ! nat idx) else Inl Fault)"

definition set_context_freelist :: "int \<Rightarrow> AllocSetFreeList \<Rightarrow> world \<Rightarrow> world" where
  "set_context_freelist idx fl w =
     w\<lparr>context_freelists := (context_freelists w)[nat idx := fl]\<rparr>"

text \<open>\<open>MemoryContextAllocationFailure\<close> and \<open>MemoryContextCheckSize\<close> of the shared headers.\<close>

definition MemoryContextAllocationFailure ::
    "addr \<Rightarrow> Size \<Rightarrow> uint32 \<Rightarrow> world \<Rightarrow> error + addr \<times> world" where
  "MemoryContextAllocationFailure context sz flags w =
     (if flags AND MCXT_ALLOC_NO_OOM = 0 then Inl (OutOfMemory sz) else Inr (0, w))"

definition MemoryContextSizeFailure :: "addr \<Rightarrow> Size \<Rightarrow> uint32 \<Rightarrow> error + unit" where
  "MemoryContextSizeFailure context sz flags = Inl (BadSize sz)"

definition MemoryContextCheckSize :: "addr \<Rightarrow> Size \<Rightarrow> uint32 \<Rightarrow> error + unit" where
  "MemoryContextCheckSize context sz flags =
     (if \<not> AllocSizeIsValid sz
      then if flags AND MCXT_ALLOC_HUGE = 0 \<or> \<not> AllocHugeSizeIsValid sz
           then MemoryContextSizeFailure context sz flags else Inr ()
      else Inr ())"

section \<open>Creation\<close>

definition choose_freeListIndex :: "Size \<Rightarrow> Size \<Rightarrow> int" where
  "choose_freeListIndex minContextSize initBlockSz =
     (if minContextSize = ALLOCSET_DEFAULT_MINSIZE \<and> initBlockSz = ALLOCSET_DEFAULT_INITSIZE then 0
      else if minContextSize = ALLOCSET_SMALL_MINSIZE \<and> initBlockSz = ALLOCSET_SMALL_INITSIZE then 1
      else -1)"

text \<open>If a suitable freelist entry exists, just recycle that context.\<close>

definition recycle_context ::
    "int \<Rightarrow> addr \<Rightarrow> string \<Rightarrow> Size \<Rightarrow> world \<Rightarrow> error + addr \<times> world" where
  "recycle_context idx par nm maxBlockSz w =
     seqE (get_context_freelist w idx) (\<lambda>fl.
     let cset = first_free fl in
     seqE (get_ctx w cset) (\<lambda>s.
     let w = set_context_freelist idx
               (fl\<lparr>first_free := nextchild s, num_free := num_free fl - 1\<rparr>) w in
     seqE (upd_ctx cset (\<lambda>s. s\<lparr>maxBlockSize := ucast maxBlockSz\<rparr>) w) (\<lambda>w.
     seqE (MemoryContextCreate cset T_AllocSetContext MCTX_ASET_ID par nm w) (\<lambda>w.
     seqE (get_blk w (KeeperBlock cset)) (\<lambda>k.
     seqE (upd_ctx cset (\<lambda>s. s\<lparr>mem_allocated := ptr_diff (endptr k) cset\<rparr>) w) (\<lambda>w.
       Inr (cset, w)))))))"

text \<open>
  The fields of a fresh context before they are assigned; all of them are assigned before they are
  read.
\<close>

definition fresh_AllocSetContext :: AllocSetContext where
  "fresh_AllocSetContext =
     \<lparr> ctx_type = T_BumpContext, isReset = False, allowInCritSection = False, mem_allocated = 0,
       methods = MCTX_0_RESERVED_UNUSEDMEM_ID, parent = 0, firstchild = 0, prevchild = 0,
       nextchild = 0, ctx_name = [], ident = 0, reset_cbs = 0,
       blocks = 0, freelist = [], initBlockSize = 0, maxBlockSize = 0, nextBlockSize = 0,
       allocChunkLimit = 0, freeListIndex = 0 \<rparr>"

text \<open>Allocate the initial block and fill in the aset-specific parts of the header.\<close>

definition new_context ::
    "int \<Rightarrow> addr \<Rightarrow> string \<Rightarrow> Size \<Rightarrow> Size \<Rightarrow> Size \<Rightarrow> world \<Rightarrow> error + addr \<times> world" where
  "new_context idx par nm minContextSize initBlockSz maxBlockSz w =
     (let firstBlockSize = of_nat (ALIGNED_CONTEXTSZ + ALLOC_BLOCKHDRSZ + ALLOC_CHUNKHDRSZ);
          firstBlockSize = (if minContextSize \<noteq> 0 then max firstBlockSize minContextSize
                            else max firstBlockSize initBlockSz);
          (cset, w) = malloc firstBlockSize w in
      if cset = 0 then Inl (OutOfMemory firstBlockSize) else
      let block = KeeperBlock cset;
          w = w\<lparr>blks := (blks w)(block \<mapsto>
                  \<lparr>aset = cset, bprev = 0, bnext = 0, freeptr = block + ALLOC_BLOCKHDRSZ,
                   endptr = cset + unat firstBlockSize\<rparr>)\<rparr>;
          s = fresh_AllocSetContext\<lparr>blocks := block,
                freelist := replicate ALLOCSET_NUM_FREELISTS 0,
                initBlockSize := ucast initBlockSz, maxBlockSize := ucast maxBlockSz,
                nextBlockSize := ucast initBlockSz, freeListIndex := idx\<rparr> in
      seqE (compute_allocChunkLimit maxBlockSz) (\<lambda>limit.
      let w = w\<lparr>ctxs := (ctxs w)(cset \<mapsto> s\<lparr>allocChunkLimit := limit\<rparr>)\<rparr> in
      seqE (MemoryContextCreate cset T_AllocSetContext MCTX_ASET_ID par nm w) (\<lambda>w.
      seqE (upd_ctx cset (\<lambda>s. s\<lparr>mem_allocated := firstBlockSize\<rparr>) w) (\<lambda>w.
        Inr (cset, w)))))"

definition AllocSetContextCreateInternal ::
    "addr \<Rightarrow> string \<Rightarrow> Size \<Rightarrow> Size \<Rightarrow> Size \<Rightarrow> world \<Rightarrow> error + addr \<times> world" where
  "AllocSetContextCreateInternal par nm minContextSize initBlockSz maxBlockSz w =
     seqE (assertE (initBlockSz = MAXALIGN initBlockSz \<and> initBlockSz \<ge> 1024)) (\<lambda>_.
     seqE (assertE (maxBlockSz = MAXALIGN maxBlockSz \<and> maxBlockSz \<ge> initBlockSz
            \<and> AllocHugeSizeIsValid maxBlockSz)) (\<lambda>_.
     seqE (assertE (minContextSize = 0 \<or> (minContextSize = MAXALIGN minContextSize
            \<and> minContextSize \<ge> 1024 \<and> minContextSize \<le> maxBlockSz))) (\<lambda>_.
     seqE (assertE (maxBlockSz \<le> MEMORYCHUNK_MAX_BLOCKOFFSET)) (\<lambda>_.
     let idx = choose_freeListIndex minContextSize initBlockSz in
     seqE (if idx \<ge> 0
           then seqE (get_context_freelist w idx) (\<lambda>fl. Inr (first_free fl \<noteq> 0))
           else Inr False) (\<lambda>recycle.
     if recycle then recycle_context idx par nm maxBlockSz w
     else new_context idx par nm minContextSize initBlockSz maxBlockSz w)))))"

section \<open>Reset\<close>

text \<open>Walk the blocks: reset the keeper, release every other block.\<close>

definition reset_blocks :: "addr \<Rightarrow> addr \<Rightarrow> world \<Rightarrow> error + world" where
  "reset_blocks context block w =
     seqE (loopE (\<lambda>(block, w). block \<noteq> 0)
       (\<lambda>(block, w).
          seqE (get_blk w block) (\<lambda>k.
          let nxt = bnext k in
          if IsKeeperBlock context block then
            seqE (upd_blk block
                   (\<lambda>k. k\<lparr>freeptr := block + ALLOC_BLOCKHDRSZ, bprev := 0, bnext := 0\<rparr>) w) (\<lambda>w.
              Inr (nxt, w))
          else
            seqE (upd_ctx context (\<lambda>s. s\<lparr>mem_allocated :=
                    mem_allocated s - ptr_diff (endptr k) block\<rparr>) w) (\<lambda>w.
            seqE (free block w) (\<lambda>w. Inr (nxt, w)))))
       (block, w)) (\<lambda>(_, w). Inr w)"

definition AllocSetReset :: "addr \<Rightarrow> world \<Rightarrow> error + world" where
  "AllocSetReset context w =
     seqE (Assert_valid w context) (\<lambda>_.
     seqE (get_blk w (KeeperBlock context)) (\<lambda>k.
     let keepersize = ptr_diff (endptr k) context in
     seqE (upd_ctx context (\<lambda>s. s\<lparr>freelist := replicate ALLOCSET_NUM_FREELISTS 0\<rparr>) w) (\<lambda>w.
     seqE (get_ctx w context) (\<lambda>s.
     let block = blocks s in
     seqE (upd_ctx context (\<lambda>s. s\<lparr>blocks := KeeperBlock context\<rparr>) w) (\<lambda>w.
     seqE (reset_blocks context block w) (\<lambda>w.
     seqE (get_ctx w context) (\<lambda>s.
     seqE (assertE (mem_allocated s = keepersize)) (\<lambda>_.
       upd_ctx context (\<lambda>s. s\<lparr>nextBlockSize := initBlockSize s\<rparr>) w))))))))"

text \<open>
  The \<open>reset\<close> column of \<open>mcxt_methods[]\<close>, and \<open>MemoryContextResetOnly\<close> of \<open>src/mcxt.c\<close>, which
  \<open>AllocSetDelete\<close> calls. The rows without a function hold a null pointer.
\<close>

definition mcxt_reset :: "MemoryContextMethodID \<Rightarrow> addr \<Rightarrow> world \<Rightarrow> error + world" where
  "mcxt_reset i context w = (if i = MCTX_ASET_ID then AllocSetReset context w else Inl Fault)"

definition MemoryContextResetOnly :: "callbacks \<Rightarrow> addr \<Rightarrow> world \<Rightarrow> error + world" where
  "MemoryContextResetOnly cbf context w =
     seqE (Assert_valid w context) (\<lambda>_.
     seqE (get_ctx w context) (\<lambda>s.
     if \<not> isReset s then
       seqE (MemoryContextCallResetCallbacks cbf context w) (\<lambda>w.
       seqE (get_ctx w context) (\<lambda>s.
       seqE (mcxt_reset (methods s) context w) (\<lambda>w.
         upd_ctx context (\<lambda>s. s\<lparr>isReset := True\<rparr>) w)))
     else Inr w))"

section \<open>Delete\<close>

text \<open>If the freelist is full, just discard what is already in it.\<close>

definition discard_context_freelist :: "int \<Rightarrow> world \<Rightarrow> error + world" where
  "discard_context_freelist idx w =
     seqE (get_context_freelist w idx) (\<lambda>fl.
     seqE (loopE (\<lambda>(fl, w). first_free fl \<noteq> 0)
        (\<lambda>(fl, w).
           let oldset = first_free fl in
           seqE (get_ctx w oldset) (\<lambda>s.
           let fl = fl\<lparr>first_free := nextchild s, num_free := num_free fl - 1\<rparr>;
               w = set_context_freelist idx fl w in
           seqE (free oldset w) (\<lambda>w. Inr (fl, w))))
        (fl, w)) (\<lambda>(fl, w).
     seqE (assertE (num_free fl = 0)) (\<lambda>_. Inr w)))"

text \<open>Free all blocks, except the keeper which is part of the context header.\<close>

definition delete_blocks :: "addr \<Rightarrow> addr \<Rightarrow> world \<Rightarrow> error + world" where
  "delete_blocks context block w =
     seqE (loopE (\<lambda>(block, w). block \<noteq> 0)
       (\<lambda>(block, w).
          seqE (get_blk w block) (\<lambda>k.
          let nxt = bnext k in
          if IsKeeperBlock context block then Inr (nxt, w)
          else
            seqE (upd_ctx context (\<lambda>s. s\<lparr>mem_allocated :=
                    mem_allocated s - ptr_diff (endptr k) block\<rparr>) w) (\<lambda>w.
            seqE (free block w) (\<lambda>w. Inr (nxt, w)))))
       (block, w)) (\<lambda>(_, w). Inr w)"

definition AllocSetDelete :: "callbacks \<Rightarrow> addr \<Rightarrow> world \<Rightarrow> error + world" where
  "AllocSetDelete cbf context w =
     seqE (get_ctx w context) (\<lambda>s.
     let block = blocks s in
     seqE (Assert_valid w context) (\<lambda>_.
     seqE (get_blk w (KeeperBlock context)) (\<lambda>k.
     let keepersize = ptr_diff (endptr k) context; idx = freeListIndex s in
     if idx \<ge> 0 then
       seqE (if \<not> isReset s then MemoryContextResetOnly cbf context w else Inr w) (\<lambda>w.
       seqE (get_context_freelist w idx) (\<lambda>fl.
       seqE (if num_free fl \<ge> MAX_FREE_CONTEXTS then discard_context_freelist idx w else Inr w) (\<lambda>w.
       seqE (get_context_freelist w idx) (\<lambda>fl.
       seqE (upd_ctx context (\<lambda>s. s\<lparr>nextchild := first_free fl\<rparr>) w) (\<lambda>w.
         Inr (set_context_freelist idx (fl\<lparr>first_free := context, num_free := num_free fl + 1\<rparr>) w))))))
     else
       seqE (delete_blocks context block w) (\<lambda>w.
       seqE (get_ctx w context) (\<lambda>s.
       seqE (assertE (mem_allocated s = keepersize)) (\<lambda>_. free context w))))))"

section \<open>Allocation\<close>

definition AllocSetAllocLarge :: "addr \<Rightarrow> Size \<Rightarrow> uint32 \<Rightarrow> world \<Rightarrow> error + addr \<times> world" where
  "AllocSetAllocLarge context sz flags w =
     seqE (MemoryContextCheckSize context sz flags) (\<lambda>_.
     let chunk_size = MAXALIGN sz;
         blksize = chunk_size + of_nat ALLOC_BLOCKHDRSZ + of_nat ALLOC_CHUNKHDRSZ;
         (block, w) = malloc blksize w in
     if block = 0 then MemoryContextAllocationFailure context sz flags w else
     seqE (upd_ctx context (\<lambda>s. s\<lparr>mem_allocated := mem_allocated s + blksize\<rparr>) w) (\<lambda>w.
     let w = w\<lparr>blks := (blks w)(block \<mapsto>
               \<lparr>aset = context, bprev = 0, bnext = 0, freeptr = block + unat blksize,
                endptr = block + unat blksize\<rparr>)\<rparr>;
         chunk = block + ALLOC_BLOCKHDRSZ in
     seqE (MemoryChunkSetHdrMaskExternal chunk MCTX_ASET_ID w) (\<lambda>w.
     seqE (get_ctx w context) (\<lambda>s.
     seqE (if blocks s \<noteq> 0 then
             seqE (get_blk w (blocks s)) (\<lambda>top.
             seqE (upd_blk block (\<lambda>k. k\<lparr>bprev := blocks s, bnext := bnext top\<rparr>) w) (\<lambda>w.
             seqE (if bnext top \<noteq> 0 then upd_blk (bnext top) (\<lambda>k. k\<lparr>bprev := block\<rparr>) w
                   else Inr w) (\<lambda>w.
               upd_blk (blocks s) (\<lambda>k. k\<lparr>bnext := block\<rparr>) w)))
           else
             seqE (upd_blk block (\<lambda>k. k\<lparr>bprev := 0, bnext := 0\<rparr>) w)
               (upd_ctx context (\<lambda>s. s\<lparr>blocks := block\<rparr>))) (\<lambda>w.
       Inr (MemoryChunkGetPointer chunk, w))))))"

definition AllocSetAllocChunkFromBlock ::
    "addr \<Rightarrow> addr \<Rightarrow> Size \<Rightarrow> Size \<Rightarrow> int \<Rightarrow> world \<Rightarrow> error + addr \<times> world" where
  "AllocSetAllocChunkFromBlock context block sz chunk_size fidx w =
     seqE (get_blk w block) (\<lambda>k.
     let chunk = freeptr k in
     seqE (upd_blk block (\<lambda>k. k\<lparr>freeptr := freeptr k + unat (chunk_size + of_nat ALLOC_CHUNKHDRSZ)\<rparr>) w)
       (\<lambda>w.
     seqE (get_blk w block) (\<lambda>k.
     seqE (assertE (freeptr k \<le> endptr k)) (\<lambda>_.
     seqE (MemoryChunkSetHdrMask chunk block (of_int fidx) MCTX_ASET_ID w) (\<lambda>w.
       Inr (MemoryChunkGetPointer chunk, w))))))"

text \<open>
  Carve the rest of the old active block into free chunks. The loop state is the space that is left
  and the state of the process.
\<close>

definition carve_chunk :: "addr \<Rightarrow> addr \<Rightarrow> Size \<times> world \<Rightarrow> error + Size \<times> world" where
  "carve_chunk context block = (\<lambda>(availspace, w).
     let availchunk = availspace - of_nat ALLOC_CHUNKHDRSZ in
     seqE (AllocSetFreeIndex availchunk) (\<lambda>a_fidx.
     seqE (if availchunk \<noteq> GetChunkSizeFromFreeListIdx a_fidx
           then seqE (assertE (a_fidx - 1 \<ge> 0)) (\<lambda>_.
                  Inr (a_fidx - 1, GetChunkSizeFromFreeListIdx (a_fidx - 1)))
           else Inr (a_fidx, availchunk)) (\<lambda>(a_fidx, availchunk).
     seqE (get_blk w block) (\<lambda>k.
     let chunk = freeptr k in
     seqE (upd_blk block (\<lambda>k. k\<lparr>freeptr := freeptr k + unat (availchunk + of_nat ALLOC_CHUNKHDRSZ)\<rparr>)
             w) (\<lambda>w.
     seqE (MemoryChunkSetHdrMask chunk block (of_int a_fidx) MCTX_ASET_ID w) (\<lambda>w.
     seqE (get_ctx w context) (\<lambda>s.
     seqE (get_freelist s a_fidx) (\<lambda>head.
     seqE (store_ptr (GetFreeListLink chunk) head w) (\<lambda>w.
     seqE (set_freelist context a_fidx chunk w) (\<lambda>w.
       Inr (availspace - (availchunk + of_nat ALLOC_CHUNKHDRSZ), w)))))))))))"

definition carve_block :: "addr \<Rightarrow> addr \<Rightarrow> Size \<times> world \<Rightarrow> error + Size \<times> world" where
  "carve_block context block =
     loopE (\<lambda>(availspace, w). availspace \<ge> push_bit ALLOC_MINBITS 1 + of_nat ALLOC_CHUNKHDRSZ)
       (carve_chunk context block)"

text \<open>
  Try to allocate the block, and smaller ones while \<open>malloc\<close> fails and there is room to shrink. The
  loop state is the block, its size, whether the loop was left by \<open>break\<close>, and the state.
\<close>

definition malloc_block :: "Size \<Rightarrow> Size \<Rightarrow> world \<Rightarrow> error + addr \<times> Size \<times> world" where
  "malloc_block required_size blksize w =
     (let (block, w) = malloc blksize w in
      seqE (loopE (\<lambda>(block, blksize, brk, w). block = 0 \<and> blksize > 1024 * 1024 \<and> \<not> brk)
        (\<lambda>(block, blksize, brk, w).
           let blksize = drop_bit 1 blksize in
           if blksize < required_size then Inr (block, blksize, True, w)
           else let (block, w) = malloc blksize w in Inr (block, blksize, brk, w))
        (block, blksize, False, w)) (\<lambda>(block, blksize, brk, w). Inr (block, blksize, w)))"

text \<open>The first block has size \<open>initBlockSize\<close>; each one doubles, up to \<open>maxBlockSize\<close>.\<close>

definition advance_nextBlockSize :: "AllocSetContext \<Rightarrow> AllocSetContext" where
  "advance_nextBlockSize s =
     (let s = s\<lparr>nextBlockSize := push_bit 1 (nextBlockSize s)\<rparr> in
      if nextBlockSize s > maxBlockSize s then s\<lparr>nextBlockSize := maxBlockSize s\<rparr> else s)"

definition AllocSetAllocFromNewBlock ::
    "addr \<Rightarrow> Size \<Rightarrow> uint32 \<Rightarrow> int \<Rightarrow> world \<Rightarrow> error + addr \<times> world" where
  "AllocSetAllocFromNewBlock context sz flags fidx w =
     seqE (get_ctx w context) (\<lambda>s.
     seqE (assertE (blocks s \<noteq> 0)) (\<lambda>_.
     seqE (get_blk w (blocks s)) (\<lambda>k.
     seqE (carve_block context (blocks s) (ptr_diff (endptr k) (freeptr k), w)) (\<lambda>(_, w).
     seqE (get_ctx w context) (\<lambda>s.
     let blksize = ucast (nextBlockSize s) in
     seqE (upd_ctx context advance_nextBlockSize w) (\<lambda>w.
     let chunk_size = GetChunkSizeFromFreeListIdx fidx in
     seqE (assertE (chunk_size \<ge> sz)) (\<lambda>_.
     let required_size = chunk_size + of_nat ALLOC_BLOCKHDRSZ + of_nat ALLOC_CHUNKHDRSZ in
     seqE (grow_blksize required_size blksize) (\<lambda>blksize.
     seqE (malloc_block required_size blksize w) (\<lambda>(block, blksize, w).
     if block = 0 then MemoryContextAllocationFailure context sz flags w else
     seqE (upd_ctx context (\<lambda>s. s\<lparr>mem_allocated := mem_allocated s + blksize\<rparr>) w) (\<lambda>w.
     seqE (get_ctx w context) (\<lambda>s.
     let w = w\<lparr>blks := (blks w)(block \<mapsto>
               \<lparr>aset = context, bprev = 0, bnext = blocks s, freeptr = block + ALLOC_BLOCKHDRSZ,
                endptr = block + unat blksize\<rparr>)\<rparr> in
     seqE (if blocks s \<noteq> 0 then upd_blk (blocks s) (\<lambda>k. k\<lparr>bprev := block\<rparr>) w else Inr w) (\<lambda>w.
     seqE (upd_ctx context (\<lambda>s. s\<lparr>blocks := block\<rparr>) w) (\<lambda>w.
       AllocSetAllocChunkFromBlock context block sz chunk_size fidx w)))))))))))))"

text \<open>Pop the first chunk of a freelist.\<close>

definition pop_freelist :: "addr \<Rightarrow> int \<Rightarrow> addr \<Rightarrow> world \<Rightarrow> error + addr \<times> world" where
  "pop_freelist context fidx chunk w =
     seqE (MemoryChunkGetValue w chunk) (\<lambda>v.
     seqE (assertE (fidx = int (unat v))) (\<lambda>_.
     seqE (load_ptr w (GetFreeListLink chunk)) (\<lambda>nxt.
     seqE (set_freelist context fidx nxt w) (\<lambda>w.
       Inr (MemoryChunkGetPointer chunk, w)))))"

definition AllocSetAlloc :: "addr \<Rightarrow> Size \<Rightarrow> uint32 \<Rightarrow> world \<Rightarrow> error + addr \<times> world" where
  "AllocSetAlloc context sz flags w =
     seqE (Assert_valid w context) (\<lambda>_.
     seqE (get_ctx w context) (\<lambda>s.
     seqE (assertE (blocks s \<noteq> 0)) (\<lambda>_.
     if sz > ucast (allocChunkLimit s) then AllocSetAllocLarge context sz flags w else
     seqE (AllocSetFreeIndex sz) (\<lambda>fidx.
     seqE (get_freelist s fidx) (\<lambda>chunk.
     if chunk \<noteq> 0 then pop_freelist context fidx chunk w else
     let chunk_size = GetChunkSizeFromFreeListIdx fidx in
     seqE (assertE (chunk_size \<ge> sz)) (\<lambda>_.
     let block = blocks s in
     seqE (get_blk w block) (\<lambda>k.
     let availspace = ptr_diff (endptr k) (freeptr k) in
     if availspace < chunk_size + of_nat ALLOC_CHUNKHDRSZ
     then AllocSetAllocFromNewBlock context sz flags fidx w
     else AllocSetAllocChunkFromBlock context block sz chunk_size fidx w)))))))"

section \<open>Free\<close>

text \<open>Release a single-chunk block.\<close>

definition free_external :: "addr \<Rightarrow> world \<Rightarrow> error + world" where
  "free_external chunk w =
     (let block = ExternalChunkGetBlock chunk in
      seqE (AllocBlockIsValid w block) (\<lambda>valid.
      seqE (if valid then seqE (get_blk w block) (\<lambda>k. Inr (freeptr k = endptr k)) else Inr False)
        (\<lambda>sane.
      if \<not> sane then Inl (Corruption chunk) else
      seqE (get_blk w block) (\<lambda>k.
      let cset = aset k in
      seqE (if bprev k \<noteq> 0 then upd_blk (bprev k) (\<lambda>p. p\<lparr>bnext := bnext k\<rparr>) w
            else upd_ctx cset (\<lambda>s. s\<lparr>blocks := bnext k\<rparr>) w) (\<lambda>w.
      seqE (get_blk w block) (\<lambda>k.
      seqE (if bnext k \<noteq> 0 then upd_blk (bnext k) (\<lambda>n. n\<lparr>bprev := bprev k\<rparr>) w else Inr w) (\<lambda>w.
      seqE (upd_ctx cset (\<lambda>s. s\<lparr>mem_allocated :=
              mem_allocated s - ptr_diff (endptr k) block\<rparr>) w) (\<lambda>w.
        free block w))))))))"

text \<open>Push a regular chunk on its freelist.\<close>

definition free_regular :: "addr \<Rightarrow> world \<Rightarrow> error + world" where
  "free_regular chunk w =
     seqE (MemoryChunkGetBlock w chunk) (\<lambda>block.
     seqE (seqE (AllocBlockIsValid w block) assertE) (\<lambda>_.
     seqE (get_blk w block) (\<lambda>k.
     seqE (MemoryChunkGetValue w chunk) (\<lambda>v.
     let cset = aset k; fidx = int (unat v) in
     seqE (assertE (FreeListIdxIsValid fidx)) (\<lambda>_.
     seqE (get_ctx w cset) (\<lambda>s.
     seqE (get_freelist s fidx) (\<lambda>head.
     seqE (store_ptr (GetFreeListLink chunk) head w) (\<lambda>w.
       set_freelist cset fidx chunk w))))))))"

definition AllocSetFree :: "addr \<Rightarrow> world \<Rightarrow> error + world" where
  "AllocSetFree pointer w =
     (let chunk = PointerGetMemoryChunk pointer in
      seqE (MemoryChunkIsExternal w chunk) (\<lambda>external.
      if external then free_external chunk w else free_regular chunk w))"

section \<open>Realloc\<close>

text \<open>Resize a single-chunk block with \<open>realloc\<close>.\<close>

definition realloc_external ::
    "addr \<Rightarrow> addr \<Rightarrow> Size \<Rightarrow> uint32 \<Rightarrow> world \<Rightarrow> error + addr \<times> world" where
  "realloc_external pointer chunk sz flags w =
     (let block = ExternalChunkGetBlock chunk in
      seqE (AllocBlockIsValid w block) (\<lambda>valid.
      seqE (if valid then seqE (get_blk w block) (\<lambda>k. Inr (freeptr k = endptr k)) else Inr False)
        (\<lambda>sane.
      if \<not> sane then Inl (Corruption chunk) else
      seqE (get_blk w block) (\<lambda>k.
      let cset = aset k in
      seqE (MemoryContextCheckSize cset sz flags) (\<lambda>_.
      let chksize = MAXALIGN sz;
          blksize = chksize + of_nat ALLOC_BLOCKHDRSZ + of_nat ALLOC_CHUNKHDRSZ;
          oldblksize = ptr_diff (endptr k) block in
      seqE (realloc block blksize w) (\<lambda>(newblock, w).
      if newblock = 0 then MemoryContextAllocationFailure cset sz flags w else
      let block = newblock in
      seqE (upd_ctx cset (\<lambda>s. s\<lparr>mem_allocated := mem_allocated s - oldblksize\<rparr>) w) (\<lambda>w.
      seqE (upd_ctx cset (\<lambda>s. s\<lparr>mem_allocated := mem_allocated s + blksize\<rparr>) w) (\<lambda>w.
      seqE (upd_blk block (\<lambda>k. k\<lparr>endptr := block + unat blksize,
                                  freeptr := block + unat blksize\<rparr>) w) (\<lambda>w.
      let chunk = block + ALLOC_BLOCKHDRSZ; pointer = MemoryChunkGetPointer chunk in
      seqE (get_blk w block) (\<lambda>k.
      seqE (if bprev k \<noteq> 0 then upd_blk (bprev k) (\<lambda>p. p\<lparr>bnext := block\<rparr>) w
            else upd_ctx cset (\<lambda>s. s\<lparr>blocks := block\<rparr>) w) (\<lambda>w.
      seqE (get_blk w block) (\<lambda>k.
      seqE (if bnext k \<noteq> 0 then upd_blk (bnext k) (\<lambda>n. n\<lparr>bprev := block\<rparr>) w else Inr w) (\<lambda>w.
        Inr (pointer, w))))))))))))))"

text \<open>A regular chunk that is large enough stays; else allocate, copy and free.\<close>

definition realloc_regular ::
    "addr \<Rightarrow> addr \<Rightarrow> Size \<Rightarrow> uint32 \<Rightarrow> world \<Rightarrow> error + addr \<times> world" where
  "realloc_regular pointer chunk sz flags w =
     seqE (MemoryChunkGetBlock w chunk) (\<lambda>block.
     seqE (seqE (AllocBlockIsValid w block) assertE) (\<lambda>_.
     seqE (get_blk w block) (\<lambda>k.
     seqE (MemoryChunkGetValue w chunk) (\<lambda>v.
     let cset = aset k; fidx = int (unat v) in
     seqE (assertE (FreeListIdxIsValid fidx)) (\<lambda>_.
     let oldchksize = GetChunkSizeFromFreeListIdx fidx in
     if oldchksize \<ge> sz then Inr (pointer, w) else
     seqE (AllocSetAlloc cset sz flags w) (\<lambda>(newPointer, w).
     if newPointer = 0 then MemoryContextAllocationFailure cset sz flags w else
     seqE (memcpyE newPointer pointer oldchksize w) (\<lambda>w.
     seqE (AllocSetFree pointer w) (\<lambda>w. Inr (newPointer, w)))))))))"

definition AllocSetRealloc :: "addr \<Rightarrow> Size \<Rightarrow> uint32 \<Rightarrow> world \<Rightarrow> error + addr \<times> world" where
  "AllocSetRealloc pointer sz flags w =
     (let chunk = PointerGetMemoryChunk pointer in
      seqE (MemoryChunkIsExternal w chunk) (\<lambda>external.
      if external then realloc_external pointer chunk sz flags w
      else realloc_regular pointer chunk sz flags w))"

section \<open>Queries\<close>

definition AllocSetGetChunkContext :: "world \<Rightarrow> addr \<Rightarrow> error + addr" where
  "AllocSetGetChunkContext w pointer =
     (let chunk = PointerGetMemoryChunk pointer in
      seqE (MemoryChunkIsExternal w chunk) (\<lambda>external.
      seqE (if external then Inr (ExternalChunkGetBlock chunk) else MemoryChunkGetBlock w chunk)
        (\<lambda>block.
      seqE (seqE (AllocBlockIsValid w block) assertE) (\<lambda>_.
      seqE (get_blk w block) (\<lambda>k. Inr (aset k))))))"

definition AllocSetGetChunkSpace :: "world \<Rightarrow> addr \<Rightarrow> error + Size" where
  "AllocSetGetChunkSpace w pointer =
     (let chunk = PointerGetMemoryChunk pointer in
      seqE (MemoryChunkIsExternal w chunk) (\<lambda>external.
      if external then
        let block = ExternalChunkGetBlock chunk in
        seqE (seqE (AllocBlockIsValid w block) assertE) (\<lambda>_.
        seqE (get_blk w block) (\<lambda>k. Inr (ptr_diff (endptr k) chunk)))
      else
        seqE (MemoryChunkGetValue w chunk) (\<lambda>v.
        let fidx = int (unat v) in
        seqE (assertE (FreeListIdxIsValid fidx)) (\<lambda>_.
          Inr (GetChunkSizeFromFreeListIdx fidx + of_nat ALLOC_CHUNKHDRSZ)))))"

definition AllocSetIsEmpty :: "world \<Rightarrow> addr \<Rightarrow> error + bool" where
  "AllocSetIsEmpty w context =
     seqE (Assert_valid w context) (\<lambda>_.
     seqE (get_ctx w context) (\<lambda>s. Inr (isReset s)))"

end
