(* ===== verification/Links.thy ===== *)
theory Links
  imports World
begin

text \<open>
  Linked structures, the same for the block list of an allocation set (\<open>bprev\<close>, \<open>bnext\<close>) and for
  the children of a context (\<open>prevchild\<close>, \<open>nextchild\<close>): \<open>dseg\<close> says that a list of addresses is a
  doubly linked segment of a store, the locale \<open>dlinks\<close> is the interface of the link fields, and its
  lemmas are what pushing, unlinking and inserting a node do to a list.
\<close>

section \<open>Walking a list\<close>

text \<open>The address a list starts at: its first element, or the address that ends it.\<close>

primrec first :: "addr list \<Rightarrow> addr \<Rightarrow> addr" where
  "first [] n = n"
| "first (x # xs) n = x"

lemma first_append [simp]: "first (xs @ ys) n = first xs (first ys n)"
  by (cases xs) simp_all

text \<open>A loop that walks over the elements of a null-terminated list visits each once, in order.\<close>

lemma loopE_list:
  assumes nonzero: "0 \<notin> set xs"
    and step: "\<And>us b vs x. xs = us @ b # vs \<Longrightarrow> I us x
      \<Longrightarrow> \<exists>x'. c (b, x) = Inr (first vs 0, x') \<and> I (us @ [b]) x'"
    and init: "I [] x"
  shows "\<exists>x'. loopE (\<lambda>(b, x). b \<noteq> 0) c (first xs 0, x) = Inr (0, x') \<and> I xs x'"
proof -
  have "\<exists>x'. loopE (\<lambda>(b, x). b \<noteq> 0) c (first vs 0, x) = Inr (0, x') \<and> I xs x'"
    if "xs = us @ vs" and "I us x" for us vs x
    using that
  proof (induction vs arbitrary: us x)
    case Nil
    then show ?case by (simp add: loopE_stop)
  next
    case (Cons b vs)
    then obtain x' where x': "c (b, x) = Inr (first vs 0, x')" "I (us @ [b]) x'"
      using step by blast
    have "b \<noteq> 0" using nonzero Cons.prems by auto
    moreover have "xs = (us @ [b]) @ vs" using Cons.prems by simp
    ultimately show ?case
      using Cons.IH[OF _ x'(2)] x'(1) by (simp add: loopE_step)
  qed
  from this[of "[]" xs x] init show ?thesis by simp
qed

section \<open>Updating a store\<close>

definition modify :: "addr \<Rightarrow> ('s \<Rightarrow> 's) \<Rightarrow> (addr \<Rightarrow> 's option) \<Rightarrow> addr \<Rightarrow> 's option" where
  "modify x f B = B(x := map_option f (B x))"

lemma modify_apply: "modify x f B y = (if y = x then map_option f (B x) else B y)"
  by (simp add: modify_def)

lemma modify_same [simp]: "modify x f B x = map_option f (B x)"
  by (simp add: modify_def)

lemma modify_other [simp]: "y \<noteq> x \<Longrightarrow> modify x f B y = B y"
  by (simp add: modify_def)

lemma modify_eq_None [simp]: "modify x f B y = None \<longleftrightarrow> B y = None"
  by (simp add: modify_apply)

lemma modify_modify [simp]: "modify x f (modify x g B) = modify x (\<lambda>s. f (g s)) B"
  by (simp add: modify_def option.map_comp comp_def)

lemma modify_commute: "x \<noteq> y \<Longrightarrow> modify x f (modify y g B) = modify y g (modify x f B)"
  by (auto simp: modify_def fun_eq_iff)

lemma upd_ctx_modify:
  "ctxs w c \<noteq> None \<Longrightarrow> upd_ctx c f w = Inr (w\<lparr>ctxs := modify c f (ctxs w)\<rparr>)"
  by (auto simp: upd_ctx_def modify_def)

lemma upd_blk_modify:
  "blks w b \<noteq> None \<Longrightarrow> upd_blk b f w = Inr (w\<lparr>blks := modify b f (blks w)\<rparr>)"
  by (auto simp: upd_blk_def modify_def)

section \<open>Doubly linked segments\<close>

text \<open>
  \<open>dseg nx pv B p xs n\<close>: in the store \<open>B\<close> the nodes \<open>xs\<close> follow each other; \<open>p\<close> is the previous
  node of the first one, \<open>n\<close> the next node of the last one.
\<close>

fun dseg :: "('s \<Rightarrow> addr) \<Rightarrow> ('s \<Rightarrow> addr) \<Rightarrow> (addr \<Rightarrow> 's option)
    \<Rightarrow> addr \<Rightarrow> addr list \<Rightarrow> addr \<Rightarrow> bool" where
  "dseg nx pv B p [] n = True"
| "dseg nx pv B p (x # xs) n =
     (x \<noteq> 0 \<and> map_option (\<lambda>k. (pv k, nx k)) (B x) = Some (p, first xs n)
      \<and> dseg nx pv B x xs n)"

lemma dseg_append:
  "dseg nx pv B p (xs @ ys) n
   \<longleftrightarrow> dseg nx pv B p xs (first ys n) \<and> dseg nx pv B (last (p # xs)) ys n"
proof (induction xs arbitrary: p)
  case (Cons x xs)
  then show ?case by simp
qed simp

lemma dseg_cong:
  assumes "\<And>x. x \<in> set xs \<Longrightarrow> map_option nx (B x) = map_option nx (B' x)"
    and "\<And>x. x \<in> set xs \<Longrightarrow> map_option pv (B x) = map_option pv (B' x)"
  shows "dseg nx pv B p xs n = dseg nx pv B' p xs n"
  using assms
proof (induction xs arbitrary: p)
  case (Cons x xs)
  have "map_option (\<lambda>k. (pv k, nx k)) (B x) = map_option (\<lambda>k. (pv k, nx k)) (B' x)"
    using Cons.prems(1)[of x] Cons.prems(2)[of x] by (cases "B x"; cases "B' x") auto
  with Cons show ?case by simp
qed simp

lemma dseg_nonzero: "dseg nx pv B p xs n \<Longrightarrow> 0 \<notin> set xs"
  by (induction xs arbitrary: p) auto

lemma dseg_some: "dseg nx pv B p xs n \<Longrightarrow> x \<in> set xs \<Longrightarrow> \<exists>k. B x = Some k"
  by (induction xs arbitrary: p) (auto)

lemma dseg_split:
  assumes "dseg nx pv B p (us @ x # vs) n" and "B x = Some k"
  shows "pv k = last (p # us)" and "nx k = first vs n"
  using assms by (simp_all add: dseg_append)

lemma dseg_fun_upd [simp]:
  "x \<notin> set xs \<Longrightarrow> dseg nx pv (B(x := v)) p xs n = dseg nx pv B p xs n"
  by (rule dseg_cong) auto

lemma dseg_modify_other [simp]:
  "x \<notin> set xs \<Longrightarrow> dseg nx pv (modify x f B) p xs n = dseg nx pv B p xs n"
  by (simp add: modify_def)

text \<open>The interface of the link fields of a node.\<close>

locale dlinks =
  fixes nx :: "'s \<Rightarrow> addr" and pv :: "'s \<Rightarrow> addr"
    and set_nx :: "addr \<Rightarrow> 's \<Rightarrow> 's" and set_pv :: "addr \<Rightarrow> 's \<Rightarrow> 's"
  assumes nx_set_nx: "nx (set_nx v k) = v" and pv_set_nx: "pv (set_nx v k) = pv k"
    and pv_set_pv: "pv (set_pv v k) = v" and nx_set_pv: "nx (set_pv v k) = nx k"
begin

lemmas laws = nx_set_nx pv_set_nx pv_set_pv nx_set_pv

lemma set_next_last:
  assumes "dseg nx pv B p xs n" and "distinct xs"
  shows "dseg nx pv (if xs = [] then B else modify (last xs) (set_nx a) B) p xs a"
proof (cases xs rule: rev_cases)
  case (snoc ys y)
  with assms show ?thesis by (auto simp: dseg_append laws)
qed (use assms in simp)

lemma set_prev_first:
  assumes "dseg nx pv B p xs n" and "distinct xs"
  shows "dseg nx pv (if xs = [] then B else modify (hd xs) (set_pv b) B) b xs n"
  using assms by (cases xs) (auto simp: laws)

text \<open>Two segments get new ends: \<open>a\<close> after the first, \<open>b\<close> before the second.\<close>

lemma relink:
  assumes xs: "dseg nx pv B p xs u" and ys: "dseg nx pv B v ys n" and dist: "distinct (xs @ ys)"
    and B': "B' = (if xs = [] then B else modify (last xs) (set_nx a) B)"
    and B'': "B'' = (if ys = [] then B' else modify (hd ys) (set_pv b) B')"
  shows "dseg nx pv B'' p xs a \<and> dseg nx pv B'' b ys n"
proof
  have "dseg nx pv B' p xs a"
    using set_next_last[OF xs] dist B' by simp
  then show "dseg nx pv B'' p xs a"
    using dist B'' by (cases ys) auto
  have "dseg nx pv B' v ys n"
    using ys dist B' by (cases xs rule: rev_cases) auto
  then show "dseg nx pv B'' b ys n"
    using set_prev_first[of B' v ys n b] dist B'' by simp
qed

text \<open>Link surgery in terms of the whole list, as the code writes it: guarded by null tests.\<close>

definition surgery :: "addr \<Rightarrow> addr \<Rightarrow> addr \<Rightarrow> addr \<Rightarrow> (addr \<Rightarrow> 's option) \<Rightarrow> addr \<Rightarrow> 's option" where
  "surgery p a n b B =
     (let B' = (if p \<noteq> 0 then modify p (set_nx a) B else B) in
      if n \<noteq> 0 then modify n (set_pv b) B' else B')"

lemma surgery:
  assumes xs: "dseg nx pv B 0 xs u" and ys: "dseg nx pv B v ys 0" and dist: "distinct (xs @ ys)"
  shows "dseg nx pv (surgery (last (0 # xs)) a (first ys 0) b B) 0 xs a
       \<and> dseg nx pv (surgery (last (0 # xs)) a (first ys 0) b B) b ys 0"
proof (rule relink[OF xs ys dist refl])
  have "last (0 # xs) \<noteq> 0 \<longleftrightarrow> xs \<noteq> []"
    using dseg_nonzero[OF xs] by (cases xs rule: rev_cases) auto
  moreover have "first ys 0 \<noteq> 0 \<longleftrightarrow> ys \<noteq> []"
    using dseg_nonzero[OF ys] by (cases ys) auto
  ultimately show "surgery (last (0 # xs)) a (first ys 0) b B =
     (if ys = [] then if xs = [] then B else modify (last xs) (set_nx a) B
      else modify (hd ys) (set_pv b) (if xs = [] then B else modify (last xs) (set_nx a) B))"
    by (cases ys) (auto simp: surgery_def)
qed

lemma surgery_commute:
  "p \<noteq> n \<Longrightarrow> surgery p a n b B =
     (let B' = (if n \<noteq> 0 then modify n (set_pv b) B else B) in
      if p \<noteq> 0 then modify p (set_nx a) B' else B')"
  by (simp add: surgery_def modify_commute Let_def)

lemma surgery_other: "y \<noteq> p \<Longrightarrow> y \<noteq> n \<Longrightarrow> surgery p a n b B y = B y"
  by (simp add: surgery_def Let_def)

lemma surgery_None: "surgery p a n b B y = None \<longleftrightarrow> B y = None"
  by (simp add: surgery_def Let_def)

lemma surgery_keeps:
  assumes "\<And>v k. f (set_nx v k) = f k" and "\<And>v k. f (set_pv v k) = f k"
  shows "map_option f (surgery p a n b B y) = map_option f (B y)"
  using assms by (auto simp: surgery_def Let_def modify_apply option.map_comp comp_def)

text \<open>Unlink a node.\<close>

lemma unlink:
  assumes seg: "dseg nx pv B 0 (xs @ x # ys) 0" and dist: "distinct (xs @ x # ys)"
    and x: "B x = Some k"
  shows "dseg nx pv (surgery (pv k) (nx k) (nx k) (pv k) B) 0 (xs @ ys) 0"
proof -
  have "pv k = last (0 # xs)" "nx k = first ys 0"
    using dseg_split[OF seg x] by auto
  moreover have "dseg nx pv B 0 xs x" "dseg nx pv B x ys 0"
    using seg by (simp_all add: dseg_append)
  ultimately show ?thesis
    using surgery[of B xs x x ys "first ys 0" "last (0 # xs)"] dist
    by (simp add: dseg_append)
qed

text \<open>Put a node between two segments; only the nodes next to it change.\<close>

lemma splice:
  assumes xs: "dseg nx pv B 0 xs u" and ys: "dseg nx pv B v ys 0" and dist: "distinct (xs @ x # ys)"
    and x: "B x = Some k" "pv k = last (0 # xs)" "nx k = first ys 0" "x \<noteq> 0"
  shows "dseg nx pv (surgery (pv k) x (nx k) x B) 0 (xs @ x # ys) 0"
proof -
  have "last (0 # xs) \<noteq> x" using dist x(4) by (cases xs rule: rev_cases) auto
  moreover have "first ys 0 \<noteq> x" using dist x(4) by (cases ys) auto
  ultimately have "surgery (last (0 # xs)) x (first ys 0) x B x = Some k"
    using x(1) by (simp add: surgery_other)
  with surgery[OF xs ys, of x x] dist x show ?thesis by (simp add: dseg_append)
qed

lemma splice_other:
  "y \<notin> set (xs @ ys) \<Longrightarrow> surgery (last (0 # xs)) a (first ys 0) b B y = B y"
  by (cases xs rule: rev_cases; cases ys) (auto simp: surgery_def Let_def modify_apply)

lemma insert:
  assumes seg: "dseg nx pv B 0 (xs @ ys) 0" and dist: "distinct (xs @ x # ys)"
    and k: "pv k = last (0 # xs)" "nx k = first ys 0" and x: "x \<noteq> 0"
  shows "dseg nx pv (surgery (pv k) x (nx k) x (B(x \<mapsto> k))) 0 (xs @ x # ys) 0"
  by (rule splice[where u = "first ys 0" and v = "last (0 # xs)"])
    (use seg dist k x in \<open>simp_all add: dseg_append\<close>)

text \<open>Push a new node in front.\<close>

lemma push_front:
  assumes seg: "dseg nx pv B 0 xs 0" and dist: "distinct (x # xs)"
    and x: "x \<noteq> 0" "nx k = first xs 0" "pv k = 0"
  shows "dseg nx pv (surgery 0 a (first xs 0) x (B(x \<mapsto> k))) 0 (x # xs) 0"
proof -
  have "dseg nx pv (B(x \<mapsto> k)) 0 xs 0" using seg dist by simp
  from surgery[OF _ this, of "[]" 0 a x] dist
  have "dseg nx pv (surgery 0 a (first xs 0) x (B(x \<mapsto> k))) x xs 0" by simp
  moreover have "first xs 0 \<noteq> x" using dist x(1) by (cases xs) auto
  then have "surgery 0 a (first xs 0) x (B(x \<mapsto> k)) x = Some k"
    using x(1) by (simp add: surgery_other)
  ultimately show ?thesis using x by simp
qed

end

interpretation bl: dlinks bnext bprev "\<lambda>v k. k\<lparr>bnext := v\<rparr>" "\<lambda>v k. k\<lparr>bprev := v\<rparr>"
  by unfold_locales simp_all

interpretation sl: dlinks nextchild prevchild
    "\<lambda>v k. k\<lparr>nextchild := v\<rparr> :: AllocSetContext" "\<lambda>v k. k\<lparr>prevchild := v\<rparr>"
  by unfold_locales simp_all

lemma bl_surgery_forget:
  "b \<noteq> p \<or> p = 0 \<Longrightarrow> b \<noteq> n \<or> n = 0
   \<Longrightarrow> (bl.surgery p u n v B)(b := None) = bl.surgery p u n v (B(b := None))"
  by (rule ext) (auto simp: bl.surgery_def Let_def modify_apply)

text \<open>A node that takes the place of an unlinked one: its own links are all that counts.\<close>

lemma surgery_again:
  "q \<noteq> p \<or> p = 0 \<Longrightarrow> q \<noteq> n \<or> n = 0
   \<Longrightarrow> bl.surgery p q n q ((bl.surgery p u n v B)(q \<mapsto> K)) = bl.surgery p q n q (B(q \<mapsto> K))"
  by (rule ext) (auto simp: bl.surgery_def Let_def modify_apply option.map_comp comp_def)

end
