(* ===== verification/HeapInv.thy ===== *)
theory HeapInv
  imports AllocSet Links
begin

text \<open>
  The invariant of the allocation sets and the abstract state it refines.

  The abstract state of the allocator is a set of \<^emph>\<open>chunks\<close>, triples of a pointer, the context it
  belongs to and the usable bytes behind it. A ghost value per context lists its blocks, the chunks
  a block is tiled with (\<open>None\<close> for the block of a single large chunk) and the freelists;
  \<open>heap_ok\<close> ties the ghost values to the state of the process:

  \<^item> the live malloc regions are disjoint, every block owns one;
  \<^item> the blocks of a context form a doubly linked list that contains the keeper block;
  \<^item> a block is tiled from its header to \<open>freeptr\<close> with chunks whose headers name the block and the
    size class; only the keeper may be empty;
  \<^item> a freelist is linked through the data of chunks of its size class, without repetition;
  \<^item> \<open>mem_allocated\<close> is the sum of the block sizes; the sizes that drive the allocation are in range;
  \<^item> a context marked as reset has its keeper only, and nothing in it.

  The lemmas give the frame of the invariant: the bytes it depends on, what a change of one context
  must respect for the others, and that chunks never overlap.
\<close>

section \<open>Regions\<close>

fun regions_ok :: "(addr \<times> nat) list \<Rightarrow> bool" where
  "regions_ok [] \<longleftrightarrow> True"
| "regions_ok ((a, n) # rs) \<longleftrightarrow> admissible rs a n \<and> regions_ok rs"

lemma regions_ok_bounds:
  "regions_ok rs \<Longrightarrow> (a, n) \<in> set rs \<Longrightarrow> a \<noteq> 0 \<and> 8 dvd a \<and> 0 < n \<and> a + n < 2 ^ 64"
  by (induction rs rule: regions_ok.induct) (auto simp: admissible_def)

lemma regions_ok_disjoint:
  "regions_ok rs \<Longrightarrow> (a, n) \<in> set rs \<Longrightarrow> (b, s) \<in> set rs
   \<Longrightarrow> (a, n) = (b, s) \<or> a + n \<le> b \<or> b + s \<le> a"
  by (induction rs rule: regions_ok.induct)
    (fastforce simp: admissible_def overlaps_def list_all_iff)+

lemma regions_ok_start:
  assumes "regions_ok rs" and "(a, n) \<in> set rs" and "(a, s) \<in> set rs"
  shows "n = s"
  using regions_ok_disjoint[OF assms] regions_ok_bounds[OF assms(1,2)]
    regions_ok_bounds[OF assms(1,3)] by auto

lemma regions_ok_filter: "regions_ok rs \<Longrightarrow> regions_ok (filter P rs)"
  by (induction rs rule: regions_ok.induct) (auto simp: admissible_def list_all_iff)

lemma map_of_regions: "regions_ok rs \<Longrightarrow> (a, n) \<in> set rs \<Longrightarrow> map_of rs a = Some n"
proof (induction rs rule: regions_ok.induct)
  case (2 b s rs)
  then show ?case using regions_ok_start[of "(b, s) # rs" a n s] by (cases "a = b") auto
qed simp

section \<open>Tiles and freelists in memory\<close>

definition class_size :: "nat \<Rightarrow> nat" where
  "class_size k = 2 ^ (k + 3)"

lemma class_size_bounds: "k < 11 \<Longrightarrow> 8 \<le> class_size k \<and> class_size k \<le> 8192"
proof -
  assume "k < 11"
  then have "(2::nat) ^ k \<le> 2 ^ 10" by (intro power_increasing) auto
  then show ?thesis by (simp add: class_size_def power_add)
qed

lemma class_size_dvd [simp]: "8 dvd class_size k" "even (class_size k)"
  by (simp_all add: class_size_def power_add)

text \<open>From \<open>a\<close> to \<open>e\<close> the bytes \<open>m\<close> are chunks \<open>(x, k)\<close>: a header at \<open>x\<close>, then the class size.\<close>

fun tiled :: "(addr \<Rightarrow> byte) \<Rightarrow> addr \<Rightarrow> addr \<Rightarrow> (addr \<times> nat) list \<Rightarrow> addr \<Rightarrow> bool" where
  "tiled m b a [] e \<longleftrightarrow> a = e"
| "tiled m b a ((x, k) # ts) e \<longleftrightarrow>
     x = a \<and> k < ALLOCSET_NUM_FREELISTS \<and> regular_hdr m x b (of_nat k) MCTX_ASET_ID
     \<and> tiled m b (x + ALLOC_CHUNKHDRSZ + class_size k) ts e"

lemma tiled_append:
  "tiled m b a (ts @ us) e \<longleftrightarrow> (\<exists>d. tiled m b a ts d \<and> tiled m b d us e)"
  by (induction m b a ts e rule: tiled.induct) auto

lemma tiled_le: "tiled m b a ts e \<Longrightarrow> a \<le> e"
  by (induction m b a ts e rule: tiled.induct) auto

lemma tiled_dvd: "tiled m b a ts e \<Longrightarrow> 8 dvd a \<Longrightarrow> 8 dvd e"
  by (induction m b a ts e rule: tiled.induct) auto

lemma tiled_bounds:
  "tiled m b a ts e \<Longrightarrow> (x, k) \<in> set ts \<Longrightarrow> a \<le> x \<and> x + 8 + class_size k \<le> e \<and> k < 11"
  by (induction m b a ts e rule: tiled.induct) (fastforce dest: tiled_le)+

lemma tiled_aligned: "tiled m b a ts e \<Longrightarrow> 8 dvd a \<Longrightarrow> (x, k) \<in> set ts \<Longrightarrow> 8 dvd x"
  by (induction m b a ts e rule: tiled.induct) auto

lemma tiled_hdr:
  "tiled m b a ts e \<Longrightarrow> (x, k) \<in> set ts \<Longrightarrow> regular_hdr m x b (of_nat k) MCTX_ASET_ID"
  by (induction m b a ts e rule: tiled.induct) auto

lemma tiled_disjoint:
  "tiled m b a ts e \<Longrightarrow> (x, k) \<in> set ts \<Longrightarrow> (y, j) \<in> set ts
   \<Longrightarrow> (x, k) = (y, j) \<or> x + 8 + class_size k \<le> y \<or> y + 8 + class_size j \<le> x"
  by (induction m b a ts e rule: tiled.induct) (auto dest: tiled_bounds)

lemma regular_hdr_cong:
  assumes "\<And>a. x \<le> a \<Longrightarrow> a < x + 8 \<Longrightarrow> m a = m' a"
  shows "regular_hdr m x b v i = regular_hdr m' x b v i"
  using load64_cong[of x m m'] assms by (simp add: regular_hdr_def)

lemma tiled_cong:
  assumes "\<And>x k a. (x, k) \<in> set ts \<Longrightarrow> x \<le> a \<Longrightarrow> a < x + 8 \<Longrightarrow> m a = m' a"
  shows "tiled m b a ts e = tiled m' b a ts e"
  using assms
proof (induction m b a ts e rule: tiled.induct)
  case (2 m b a x k ts e)
  have "regular_hdr m x b v i = regular_hdr m' x b v i" for v i
    by (rule regular_hdr_cong) (rule 2(2)[of x k], simp_all)
  moreover have "tiled m b d ts e = tiled m' b d ts e" if "d = x + ALLOC_CHUNKHDRSZ + class_size k" for d
    unfolding that by (rule 2(1)) (erule 2(2)[OF list.set_intros(2)], assumption+)
  ultimately show ?case by simp
qed simp

text \<open>A freelist: linked through the first eight bytes of the data of its chunks.\<close>

fun fseg :: "(addr \<Rightarrow> byte) \<Rightarrow> addr \<Rightarrow> addr list \<Rightarrow> bool" where
  "fseg m a [] \<longleftrightarrow> a = 0"
| "fseg m a (x # xs) \<longleftrightarrow> a = x \<and> x \<noteq> 0 \<and> fseg m (unat (load64 m (GetFreeListLink x))) xs"

lemma GetFreeListLink [simp]: "GetFreeListLink x = x + 8"
  by (simp add: GetFreeListLink_def)

lemma fseg_first: "fseg m a xs \<Longrightarrow> a = first xs 0"
  by (cases xs) auto

lemma fseg_nonzero: "fseg m a xs \<Longrightarrow> 0 \<notin> set xs"
  by (induction xs arbitrary: a) auto

lemma fseg_cong:
  assumes "\<And>x a. x \<in> set xs \<Longrightarrow> x + 8 \<le> a \<Longrightarrow> a < x + 16 \<Longrightarrow> m a = m' a"
  shows "fseg m a xs = fseg m' a xs"
  using assms
proof (induction xs arbitrary: a)
  case (Cons x xs)
  have "load64 m (x + 8) = load64 m' (x + 8)"
    by (rule load64_cong) (rule Cons.prems[of x], simp_all)
  moreover have "fseg m a xs = fseg m' a xs" for a
    by (rule Cons.IH) (rule Cons.prems, simp_all)
  ultimately show ?case by simp
qed simp

lemma external_hdr_cong:
  assumes "\<And>a. x \<le> a \<Longrightarrow> a < x + 8 \<Longrightarrow> m a = m' a"
  shows "external_hdr m x i = external_hdr m' x i"
  using load64_cong[of x m m'] assms by (simp add: external_hdr_def)

section \<open>The ghost state and the invariant\<close>

record ghost =
  gblocks :: "addr list"
  gtiles :: "addr \<Rightarrow> (addr \<times> nat) list option"
  gfree :: "nat \<Rightarrow> addr list"

definition tiles :: "ghost \<Rightarrow> (addr \<times> nat) set" where
  "tiles g = {(x, k). \<exists>b ts. b \<in> set (gblocks g) \<and> gtiles g b = Some ts \<and> (x, k) \<in> set ts}"

text \<open>The malloc region of a block starts at the context for the keeper, else at the block.\<close>

definition base :: "addr \<Rightarrow> addr \<Rightarrow> addr" where
  "base c b = (if IsKeeperBlock c b then c else b)"

definition block_size :: "(addr \<Rightarrow> AllocBlockData option) \<Rightarrow> addr \<Rightarrow> addr \<Rightarrow> nat" where
  "block_size B c b = (case B b of None \<Rightarrow> 0 | Some k \<Rightarrow> endptr k - base c b)"

definition block_ok :: "(addr \<times> nat) set \<Rightarrow> (addr \<Rightarrow> byte) \<Rightarrow> addr \<Rightarrow> addr \<Rightarrow> AllocBlockData
    \<Rightarrow> (addr \<times> nat) list option \<Rightarrow> bool" where
  "block_ok R m c b k t \<longleftrightarrow>
     aset k = c \<and> (base c b, endptr k - base c b) \<in> R
     \<and> b + ALLOC_BLOCKHDRSZ \<le> freeptr k \<and> freeptr k \<le> endptr k
     \<and> (case t of
          None \<Rightarrow> \<not> IsKeeperBlock c b \<and> freeptr k = endptr k \<and> b + 48 \<le> endptr k
                  \<and> external_hdr m (b + ALLOC_BLOCKHDRSZ) MCTX_ASET_ID
        | Some ts \<Rightarrow> endptr k - b < 2 ^ 30 \<and> tiled m b (b + ALLOC_BLOCKHDRSZ) ts (freeptr k)
                  \<and> (ts = [] \<longrightarrow> IsKeeperBlock c b))"

definition blocks_ok :: "(addr \<times> nat) set \<Rightarrow> (addr \<Rightarrow> byte) \<Rightarrow> (addr \<Rightarrow> AllocBlockData option)
    \<Rightarrow> addr \<Rightarrow> ghost \<Rightarrow> bool" where
  "blocks_ok R m B c g \<longleftrightarrow>
     dseg bnext bprev B 0 (gblocks g) 0 \<and> distinct (gblocks g)
     \<and> KeeperBlock c \<in> set (gblocks g) \<and> gtiles g (KeeperBlock c) \<noteq> None
     \<and> (\<forall>b \<in> set (gblocks g). \<exists>k. B b = Some k \<and> block_ok R m c b k (gtiles g b))"

definition frees_ok :: "(addr \<Rightarrow> byte) \<Rightarrow> addr list \<Rightarrow> ghost \<Rightarrow> bool" where
  "frees_ok m fl g \<longleftrightarrow>
     length fl = ALLOCSET_NUM_FREELISTS
     \<and> (\<forall>k < ALLOCSET_NUM_FREELISTS. fseg m (fl ! k) (gfree g k) \<and> distinct (gfree g k)
          \<and> (\<forall>x \<in> set (gfree g k). (x, k) \<in> tiles g))"

text \<open>Nothing in it but the keeper block, and nothing in that.\<close>

definition pristine :: "addr \<Rightarrow> AllocSetContext \<Rightarrow> ghost \<Rightarrow> bool" where
  "pristine c s g \<longleftrightarrow>
     gblocks g = [KeeperBlock c] \<and> gtiles g (KeeperBlock c) = Some []
     \<and> (\<forall>k < ALLOCSET_NUM_FREELISTS. gfree g k = []) \<and> nextBlockSize s = initBlockSize s"

definition params_ok :: "addr \<Rightarrow> AllocSetContext \<Rightarrow> ghost \<Rightarrow> bool" where
  "params_ok c s g \<longleftrightarrow>
     c \<noteq> 0 \<and> ctx_type s = T_AllocSetContext \<and> methods s = MCTX_ASET_ID
     \<and> unat (allocChunkLimit s) \<le> 8192
     \<and> 1024 \<le> unat (initBlockSize s) \<and> unat (initBlockSize s) \<le> unat (nextBlockSize s)
     \<and> unat (nextBlockSize s) \<le> unat (maxBlockSize s) \<and> unat (maxBlockSize s) < 2 ^ 30
     \<and> (freeListIndex s = -1 \<or> freeListIndex s = 0 \<and> initBlockSize s = 8192
        \<or> freeListIndex s = 1 \<and> initBlockSize s = 1024)
     \<and> (isReset s \<longrightarrow> pristine c s g)"

definition aset_ok :: "(addr \<times> nat) set \<Rightarrow> (addr \<Rightarrow> byte) \<Rightarrow> (addr \<Rightarrow> AllocBlockData option)
    \<Rightarrow> addr \<Rightarrow> AllocSetContext \<Rightarrow> ghost \<Rightarrow> bool" where
  "aset_ok R m B c s g \<longleftrightarrow>
     params_ok c s g \<and> blocks_ok R m B c g \<and> frees_ok m (freelist s) g
     \<and> blocks s = first (gblocks g) 0
     \<and> mem_allocated s = of_nat (\<Sum>b \<in> set (gblocks g). block_size B c b)"

definition heap_ok :: "(addr \<Rightarrow> ghost) \<Rightarrow> world \<Rightarrow> bool" where
  "heap_ok G w \<longleftrightarrow>
     regions_ok (regions w)
     \<and> (\<forall>c s. ctxs w c = Some s \<longrightarrow>
          aset_ok (set (regions w)) (mem w) (blks w) c s (G c) \<and> blks w c = None)
     \<and> (\<forall>b k. blks w b = Some k \<longrightarrow>
          ctxs w (aset k) \<noteq> None \<and> b \<in> set (gblocks (G (aset k))))"

section \<open>The abstract state\<close>

text \<open>
  A unit is a chunk header with the data behind it, in use or free: the header's address and the
  size of the data. The chunks are the units that are on no freelist.
\<close>

definition block_units :: "(addr \<Rightarrow> AllocBlockData option) \<Rightarrow> ghost \<Rightarrow> addr \<Rightarrow> (addr \<times> nat) set" where
  "block_units B g b =
     (case gtiles g b of
        None \<Rightarrow> {(b + 40, endptr k - (b + 48)) | k. B b = Some k}
      | Some ts \<Rightarrow> {(x, class_size k) | x k. (x, k) \<in> set ts})"

definition units :: "(addr \<Rightarrow> AllocBlockData option) \<Rightarrow> ghost \<Rightarrow> (addr \<times> nat) set" where
  "units B g = (\<Union>b \<in> set (gblocks g). block_units B g b)"

definition free_chunks :: "ghost \<Rightarrow> addr set" where
  "free_chunks g = (\<Union>k < ALLOCSET_NUM_FREELISTS. set (gfree g k))"

definition chunks_of :: "(addr \<Rightarrow> AllocBlockData option) \<Rightarrow> addr \<Rightarrow> ghost
    \<Rightarrow> (addr \<times> addr \<times> nat) set" where
  "chunks_of B c g = {(x + 8, c, n) | x n. (x, n) \<in> units B g \<and> x \<notin> free_chunks g}"

definition chunks :: "(addr \<Rightarrow> ghost) \<Rightarrow> world \<Rightarrow> (addr \<times> addr \<times> nat) set" where
  "chunks G w = (\<Union>c \<in> {c. ctxs w c \<noteq> None}. chunks_of (blks w) c (G c))"

definition other_chunks :: "(addr \<Rightarrow> ghost) \<Rightarrow> world \<Rightarrow> addr \<Rightarrow> (addr \<times> addr \<times> nat) set" where
  "other_chunks G w c = {(p, d, n) \<in> chunks G w. d \<noteq> c}"

text \<open>The bytes behind the chunks of a set are the same in two states.\<close>

definition same_data :: "(addr \<times> addr \<times> nat) set \<Rightarrow> world \<Rightarrow> world \<Rightarrow> bool" where
  "same_data X w w' \<longleftrightarrow>
     (\<forall>(p, c, n) \<in> X. \<forall>a. p \<le> a \<and> a < p + n \<longrightarrow> mem w' a = mem w a)"

section \<open>Where blocks and chunks lie\<close>

lemma heap_okD:
  assumes "heap_ok G w"
  shows "regions_ok (regions w)"
    and "ctxs w c = Some s \<Longrightarrow> aset_ok (set (regions w)) (mem w) (blks w) c s (G c)"
    and "ctxs w c = Some s \<Longrightarrow> blks w c = None"
    and "blks w b = Some k \<Longrightarrow> ctxs w (aset k) \<noteq> None \<and> b \<in> set (gblocks (G (aset k)))"
  using assms by (auto simp: heap_ok_def)

lemma KeeperBlock_eq: "KeeperBlock c = c + 200"
  by (simp add: KeeperBlock_def)

lemma base_le: "base c b \<le> b"
  by (simp add: base_def IsKeeperBlock_def KeeperBlock_eq)

lemma heap_ok_block:
  assumes "heap_ok G w" and "ctxs w c = Some s" and "b \<in> set (gblocks (G c))"
  obtains k where "blks w b = Some k"
    and "block_ok (set (regions w)) (mem w) c b k (gtiles (G c) b)"
    and "(base c b, endptr k - base c b) \<in> set (regions w)"
    and "b + 40 \<le> freeptr k" and "freeptr k \<le> endptr k" and "endptr k < 2 ^ 64"
    and "8 dvd b" and "base c b \<noteq> 0" and "aset k = c"
proof -
  have "blocks_ok (set (regions w)) (mem w) (blks w) c (G c)"
    using heap_okD(2)[OF assms(1,2)] by (simp add: aset_ok_def)
  then obtain k where k: "blks w b = Some k"
      "block_ok (set (regions w)) (mem w) c b k (gtiles (G c) b)"
    using assms(3) by (auto simp: blocks_ok_def)
  then have r: "(base c b, endptr k - base c b) \<in> set (regions w)"
    and le: "b + 40 \<le> freeptr k" "freeptr k \<le> endptr k" "aset k = c"
    by (auto simp: block_ok_def)
  have "base c b \<noteq> 0 \<and> 8 dvd base c b \<and> endptr k < 2 ^ 64"
    using regions_ok_bounds[OF heap_okD(1)[OF assms(1)] r] le base_le[of c b] by auto
  then show ?thesis
    using that k r le by (auto simp: base_def IsKeeperBlock_def KeeperBlock_eq split: if_splits)
qed

definition extent :: "(addr \<Rightarrow> AllocBlockData option) \<Rightarrow> addr \<Rightarrow> addr \<Rightarrow> addr set" where
  "extent B c b = {a. base c b \<le> a \<and> (\<exists>k. B b = Some k \<and> a < endptr k)}"

lemma extent_disjoint:
  assumes ok: "heap_ok G w" and c: "ctxs w c = Some s" and d: "ctxs w d = Some t"
    and b: "b \<in> set (gblocks (G c))" and b': "b' \<in> set (gblocks (G d))" and "b \<noteq> b'"
  shows "extent (blks w) c b \<inter> extent (blks w) d b' = {}"
proof -
  obtain k where k: "blks w b = Some k" "(base c b, endptr k - base c b) \<in> set (regions w)"
      "b + 40 \<le> freeptr k" "freeptr k \<le> endptr k"
    using heap_ok_block[OF ok c b] by metis
  obtain k' where k': "blks w b' = Some k'" "(base d b', endptr k' - base d b') \<in> set (regions w)"
      "b' + 40 \<le> freeptr k'" "freeptr k' \<le> endptr k'"
    using heap_ok_block[OF ok d b'] by metis
  have "base c b \<noteq> base d b'"
    using heap_okD(3)[OF ok c] heap_okD(3)[OF ok d] k(1) k'(1) \<open>b \<noteq> b'\<close>
    by (auto simp: base_def IsKeeperBlock_def KeeperBlock_eq split: if_splits)
  then have "base c b + (endptr k - base c b) \<le> base d b' \<or> base d b' + (endptr k' - base d b') \<le> base c b"
    using regions_ok_disjoint[OF heap_okD(1)[OF ok] k(2) k'(2)] by simp
  then show ?thesis using k k' base_le[of c b] base_le[of d b'] by (auto simp: extent_def)
qed

lemma block_units_bounds:
  assumes "block_ok R m c b K (gtiles g b)" and "B b = Some K" and "(x, n) \<in> block_units B g b"
  shows "b + 40 \<le> x" and "x + 8 + n \<le> freeptr K"
  using assms by (auto simp: block_ok_def block_units_def dest: tiled_bounds split: option.splits)

lemma block_units_aligned:
  assumes "block_ok R m c b K (gtiles g b)" and "(x, n) \<in> block_units B g b" and "8 dvd b"
  shows "8 dvd x"
proof -
  have "8 dvd b + 40" using assms(3) by presburger
  with assms show ?thesis
    by (auto simp: block_ok_def block_units_def dest: tiled_aligned split: option.splits)
qed

lemma block_units_disjoint:
  assumes "block_ok R m c b K (gtiles g b)" and "B b = Some K"
    and "(x, n) \<in> block_units B g b" and "(y, j) \<in> block_units B g b"
  shows "(x, n) = (y, j) \<or> x + 8 + n \<le> y \<or> y + 8 + j \<le> x"
  using assms by (auto simp: block_ok_def block_units_def dest: tiled_disjoint split: option.splits)

lemma block_units_extent:
  assumes "block_ok R m c b K (gtiles g b)" and "B b = Some K" and "(x, n) \<in> block_units B g b"
  shows "{x ..< x + 8 + n} \<subseteq> extent B c b"
proof -
  have "freeptr K \<le> endptr K" using assms(1) by (simp add: block_ok_def)
  then show ?thesis
    using block_units_bounds[OF assms] base_le[of c b] assms(2) by (auto simp: extent_def)
qed

lemma unit_in_block:
  assumes ok: "heap_ok G w" and c: "ctxs w c = Some s" and u: "(x, n) \<in> units (blks w) (G c)"
  obtains b K where "b \<in> set (gblocks (G c))" "blks w b = Some K" "b + 40 \<le> x"
    "x + 8 + n \<le> freeptr K" "8 dvd x" "freeptr K \<le> endptr K" "aset K = c"
    "(x, n) \<in> block_units (blks w) (G c) b"
    "block_ok (set (regions w)) (mem w) c b K (gtiles (G c) b)"
proof -
  obtain b where b: "b \<in> set (gblocks (G c))" "(x, n) \<in> block_units (blks w) (G c) b"
    using u by (auto simp: units_def)
  obtain K where K: "blks w b = Some K" "block_ok (set (regions w)) (mem w) c b K (gtiles (G c) b)"
      "freeptr K \<le> endptr K" "8 dvd b" "aset K = c"
    using heap_ok_block[OF ok c b(1)] by metis
  show ?thesis
    using that[of b K] b K block_units_bounds[OF K(2,1) b(2)] block_units_aligned[OF K(2) b(2) K(4)]
    by blast
qed

lemma intervals_disjoint:
  fixes x y :: nat
  assumes "{x ..< x + 8 + n} \<inter> {y ..< y + 8 + j} = {}"
  shows "x + 8 + n \<le> y \<or> y + 8 + j \<le> x"
proof (rule ccontr)
  assume "\<not> ?thesis"
  then have "max x y \<in> {x ..< x + 8 + n} \<inter> {y ..< y + 8 + j}" by auto
  with assms show False by blast
qed

lemma units_disjoint:
  assumes ok: "heap_ok G w" and c: "ctxs w c = Some s" and d: "ctxs w d = Some t"
    and u: "(x, n) \<in> units (blks w) (G c)" and v: "(y, j) \<in> units (blks w) (G d)"
  shows "c = d \<and> x = y \<and> n = j \<or> x + 8 + n \<le> y \<or> y + 8 + j \<le> x"
proof -
  obtain b K where b: "b \<in> set (gblocks (G c))" "blks w b = Some K" "aset K = c"
      "(x, n) \<in> block_units (blks w) (G c) b"
      "block_ok (set (regions w)) (mem w) c b K (gtiles (G c) b)"
    using unit_in_block[OF ok c u] by metis
  obtain b' K' where b': "b' \<in> set (gblocks (G d))" "blks w b' = Some K'" "aset K' = d"
      "(y, j) \<in> block_units (blks w) (G d) b'"
      "block_ok (set (regions w)) (mem w) d b' K' (gtiles (G d) b')"
    using unit_in_block[OF ok d v] by metis
  show ?thesis
  proof (cases "b = b'")
    case False
    have "{x ..< x + 8 + n} \<inter> {y ..< y + 8 + j} = {}"
      using extent_disjoint[OF ok c d b(1) b'(1) False] block_units_extent[OF b(5,2,4)]
        block_units_extent[OF b'(5,2,4)] by blast
    then show ?thesis using intervals_disjoint by blast
  next
    case True
    then show ?thesis using block_units_disjoint[OF b(5,2,4), of y j] b b' by auto
  qed
qed

text \<open>The bytes of the headers and freelist links, which the invariant of a context depends on.\<close>

definition headers :: "(addr \<Rightarrow> AllocBlockData option) \<Rightarrow> ghost \<Rightarrow> addr set" where
  "headers B g = {a. \<exists>x n. (x, n) \<in> units B g \<and> x \<le> a \<and> a < x + 8}"

definition links :: "ghost \<Rightarrow> addr set" where
  "links g = {a. \<exists>x \<in> free_chunks g. x + 8 \<le> a \<and> a < x + 16}"

definition footprint :: "(addr \<Rightarrow> AllocBlockData option) \<Rightarrow> ghost \<Rightarrow> addr set" where
  "footprint B g = headers B g \<union> links g"

lemma tile_unit: "(x, k) \<in> tiles g \<Longrightarrow> (x, class_size k) \<in> units B g"
proof -
  assume "(x, k) \<in> tiles g"
  then obtain b ts where "b \<in> set (gblocks g)" "gtiles g b = Some ts" "(x, k) \<in> set ts"
    by (auto simp: tiles_def)
  then have "(x, class_size k) \<in> block_units B g b" by (auto simp: block_units_def)
  then show ?thesis using \<open>b \<in> _\<close> by (auto simp: units_def)
qed

lemma free_chunk_unit:
  assumes "frees_ok m fl g" and "x \<in> free_chunks g"
  shows "\<exists>k < 11. x \<in> set (gfree g k) \<and> (x, k) \<in> tiles g \<and> (x, class_size k) \<in> units B g"
proof -
  obtain k where k: "k < 11" "x \<in> set (gfree g k)"
    using assms(2) by (auto simp: free_chunks_def)
  then have "(x, k) \<in> tiles g" using assms(1) by (simp add: frees_ok_def)
  with k show ?thesis using tile_unit by blast
qed

lemma free_unit_size:
  assumes ok: "heap_ok G w" and c: "ctxs w c = Some s" and u: "(x, n) \<in> units (blks w) (G c)"
    and x: "x \<in> free_chunks (G c)"
  shows "8 \<le> n" and "\<exists>k < 11. n = class_size k \<and> x \<in> set (gfree (G c) k) \<and> (x, k) \<in> tiles (G c)"
proof -
  obtain k where "k < 11" "(x, class_size k) \<in> units (blks w) (G c)"
      "x \<in> set (gfree (G c) k)" "(x, k) \<in> tiles (G c)"
    using free_chunk_unit[OF _ x] heap_okD(2)[OF ok c] by (metis aset_ok_def)
  moreover from units_disjoint[OF ok c c u this(2)] have "n = class_size k" by auto
  ultimately show "8 \<le> n"
      "\<exists>k < 11. n = class_size k \<and> x \<in> set (gfree (G c) k) \<and> (x, k) \<in> tiles (G c)"
    using class_size_bounds by auto
qed

lemma footprint_unit:
  assumes ok: "heap_ok G w" and c: "ctxs w c = Some s" and a: "a \<in> footprint (blks w) (G c)"
  obtains x n where "(x, n) \<in> units (blks w) (G c)" "x \<le> a" "a < x + 8 + n"
    "a < x + 8 \<or> x \<in> free_chunks (G c)"
proof -
  consider "a \<in> headers (blks w) (G c)" | "a \<in> links (G c)" using a by (auto simp: footprint_def)
  then show ?thesis
  proof cases
    case 1
    then show ?thesis using that unfolding headers_def by force
  next
    case 2
    then obtain x where x: "x \<in> free_chunks (G c)" "x + 8 \<le> a" "a < x + 16" by (auto simp: links_def)
    moreover obtain n where u: "(x, n) \<in> units (blks w) (G c)"
      using free_chunk_unit[OF _ x(1)] heap_okD(2)[OF ok c] by (metis aset_ok_def)
    moreover have "8 \<le> n" using free_unit_size(1)[OF ok c u x(1)] .
    ultimately show ?thesis by (intro that[of x n]) auto
  qed
qed

lemma footprint_extent:
  assumes ok: "heap_ok G w" and c: "ctxs w c = Some s"
  shows "footprint (blks w) (G c) \<subseteq> (\<Union>b \<in> set (gblocks (G c)). extent (blks w) c b)"
proof
  fix a assume "a \<in> footprint (blks w) (G c)"
  then obtain x n where u: "(x, n) \<in> units (blks w) (G c)" and a: "x \<le> a" "a < x + 8 + n"
    by (rule footprint_unit[OF ok c]) blast
  obtain b where "b \<in> set (gblocks (G c))" "{x ..< x + 8 + n} \<subseteq> extent (blks w) c b"
    using unit_in_block[OF ok c u] block_units_extent by metis
  then show "a \<in> (\<Union>b \<in> set (gblocks (G c)). extent (blks w) c b)"
    using a by force
qed

text \<open>Nothing else in memory matters to a context.\<close>

lemma block_ok_cong:
  assumes k: "block_ok R m c b k (gtiles g b)" and b: "B b = Some k"
    and mem: "\<And>x n a. (x, n) \<in> block_units B g b \<Longrightarrow> x \<le> a \<Longrightarrow> a < x + 8 \<Longrightarrow> m' a = m a"
    and reg: "\<And>n. (base c b, n) \<in> R \<Longrightarrow> (base c b, n) \<in> R'"
  shows "block_ok R' m' c b k (gtiles g b)"
proof (cases "gtiles g b")
  case None
  have "m' a = m a" if "b + 40 \<le> a" "a < b + 40 + 8" for a
    by (rule mem[of "b + 40" "endptr k - (b + 48)"]) (use None b that in \<open>auto simp: block_units_def\<close>)
  then have "external_hdr m' (b + 40) i = external_hdr m (b + 40) i" for i
    by (rule external_hdr_cong)
  with k None reg show ?thesis by (simp add: block_ok_def)
next
  case (Some ts)
  have "tiled m' b d ts e = tiled m b d ts e" for d e
  proof (rule tiled_cong)
    fix x k a assume "(x, k) \<in> set ts" "x \<le> a" "a < x + 8"
    then show "m' a = m a"
      using Some by (intro mem[of x "class_size k"]) (auto simp: block_units_def)
  qed
  with k Some reg show ?thesis by (simp add: block_ok_def)
qed

lemma blocks_ok_cong:
  assumes ok: "blocks_ok R m B c g"
    and mem: "\<And>a. a \<in> headers B g \<Longrightarrow> m' a = m a"
    and blk: "\<And>b. b \<in> set (gblocks g) \<Longrightarrow> B' b = B b"
    and reg: "\<And>b n. b \<in> set (gblocks g) \<Longrightarrow> (base c b, n) \<in> R \<Longrightarrow> (base c b, n) \<in> R'"
  shows "blocks_ok R' m' B' c g"
proof -
  have "dseg bnext bprev B' p (gblocks g) n = dseg bnext bprev B p (gblocks g) n" for p n
    using blk by (intro dseg_cong) auto
  moreover have "\<exists>k. B' b = Some k \<and> block_ok R' m' c b k (gtiles g b)"
    if b: "b \<in> set (gblocks g)" for b
  proof -
    obtain k where k: "B b = Some k" "block_ok R m c b k (gtiles g b)"
      using ok b by (auto simp: blocks_ok_def)
    have "block_ok R' m' c b k (gtiles g b)"
    proof (rule block_ok_cong[of R m c b k g B])
      fix x n a assume "(x, n) \<in> block_units B g b" "x \<le> a" "a < x + 8"
      then show "m' a = m a" using b by (intro mem) (auto simp: headers_def units_def)
    qed (use k reg[OF b] in auto)
    with k blk[OF b] show ?thesis by simp
  qed
  ultimately show ?thesis using ok by (simp add: blocks_ok_def)
qed

lemma frees_ok_cong:
  assumes f: "frees_ok m fl g" and mem: "\<And>a. a \<in> links g \<Longrightarrow> m' a = m a"
  shows "frees_ok m' fl g"
proof -
  have "fseg m' a (gfree g k) = fseg m a (gfree g k)" if "k < 11" for a k
  proof (rule fseg_cong)
    fix x a assume "x \<in> set (gfree g k)" "x + 8 \<le> a" "a < x + 16"
    then show "m' a = m a" using that by (intro mem) (force simp: links_def free_chunks_def)
  qed
  then show ?thesis using f by (simp add: frees_ok_def)
qed

lemma aset_ok_cong:
  assumes ok: "aset_ok R m B c s g"
    and mem: "\<And>a. a \<in> footprint B g \<Longrightarrow> m' a = m a"
    and blk: "\<And>b. b \<in> set (gblocks g) \<Longrightarrow> B' b = B b"
    and reg: "\<And>b n. b \<in> set (gblocks g) \<Longrightarrow> (base c b, n) \<in> R \<Longrightarrow> (base c b, n) \<in> R'"
  shows "aset_ok R' m' B' c s g"
proof -
  have "blocks_ok R' m' B' c g"
    by (rule blocks_ok_cong[of R m B]) (use ok mem blk reg in \<open>auto simp: aset_ok_def footprint_def\<close>)
  moreover have "frees_ok m' (freelist s) g"
    by (rule frees_ok_cong[of m]) (use ok mem in \<open>auto simp: aset_ok_def footprint_def\<close>)
  moreover have "(\<Sum>b \<in> set (gblocks g). block_size B' c b) = (\<Sum>b \<in> set (gblocks g). block_size B c b)"
    using blk by (intro sum.cong) (auto simp: block_size_def)
  ultimately show ?thesis using ok by (simp add: aset_ok_def)
qed

section \<open>Chunks\<close>

lemma chunks_iff:
  "(p, c, n) \<in> chunks G w \<longleftrightarrow>
     (\<exists>x s. p = x + 8 \<and> ctxs w c = Some s \<and> (x, n) \<in> units (blks w) (G c)
        \<and> x \<notin> free_chunks (G c))"
  by (auto simp: chunks_def chunks_of_def)

text \<open>Chunks are aligned, lie in a live region with their header, and never overlap.\<close>

lemma chunk_facts:
  assumes ok: "heap_ok G w" and p: "(p, c, n) \<in> chunks G w"
  shows "8 dvd p" and "16 \<le> p" and "p + n < 2 ^ 64"
    and "in_region w (p - 8) (8 + n)" and "in_region w p n"
proof -
  obtain x s where x: "p = x + 8" "ctxs w c = Some s" "(x, n) \<in> units (blks w) (G c)"
    using p by (auto simp: chunks_iff)
  obtain b K where b: "b \<in> set (gblocks (G c))" "blks w b = Some K" "b + 40 \<le> x"
      "x + 8 + n \<le> freeptr K" "8 dvd x" "freeptr K \<le> endptr K"
    using unit_in_block[OF ok x(2,3)] by metis
  obtain K' where K': "blks w b = Some K'" "(base c b, endptr K' - base c b) \<in> set (regions w)"
      "endptr K' < 2 ^ 64"
    using heap_ok_block[OF ok x(2) b(1)] by metis
  show "8 dvd p" using b(5) x(1) by simp
  show "16 \<le> p" using b(3) x(1) by simp
  show "p + n < 2 ^ 64" using b K' x(1) by simp
  show "in_region w (p - 8) (8 + n)"
    using b K' x(1) base_le[of c b] by (intro in_regionI[OF K'(2)]) auto
  then show "in_region w p n" by (rule in_region_sub) (use x(1) in auto)
qed

lemma chunks_disjoint:
  assumes ok: "heap_ok G w" and "(p, c, n) \<in> chunks G w" and "(q, d, j) \<in> chunks G w"
  shows "(p, c, n) = (q, d, j) \<or> p + n + 8 \<le> q \<or> q + j + 8 \<le> p"
proof -
  obtain x s where x: "p = x + 8" "ctxs w c = Some s" "(x, n) \<in> units (blks w) (G c)"
    using assms(2) by (auto simp: chunks_iff)
  obtain y t where y: "q = y + 8" "ctxs w d = Some t" "(y, j) \<in> units (blks w) (G d)"
    using assms(3) by (auto simp: chunks_iff)
  from units_disjoint[OF ok x(2) y(2) x(3) y(3)] x(1) y(1) show ?thesis by auto
qed

lemma chunk_unique:
  "heap_ok G w \<Longrightarrow> (p, c, n) \<in> chunks G w \<Longrightarrow> (p, d, j) \<in> chunks G w \<Longrightarrow> c = d \<and> n = j"
  using chunks_disjoint[of G w p c n p d j] by auto

text \<open>The data of a chunk is in no footprint, so clients may write there.\<close>

lemma chunk_not_footprint:
  assumes ok: "heap_ok G w" and p: "(p, c, n) \<in> chunks G w" and d: "ctxs w d = Some t"
    and a: "p \<le> a" "a < p + n"
  shows "a \<notin> footprint (blks w) (G d)"
proof
  assume "a \<in> footprint (blks w) (G d)"
  then obtain y j where y: "(y, j) \<in> units (blks w) (G d)" "y \<le> a" "a < y + 8 + j"
      "a < y + 8 \<or> y \<in> free_chunks (G d)"
    by (rule footprint_unit[OF ok d])
  obtain x s where x: "p = x + 8" "ctxs w c = Some s" "(x, n) \<in> units (blks w) (G c)"
      "x \<notin> free_chunks (G c)"
    using p by (auto simp: chunks_iff)
  with units_disjoint[OF ok x(2) d x(3) y(1)] x a y show False by auto
qed

theorem client_write:
  assumes ok: "heap_ok G w" and p: "(p, c, n) \<in> chunks G w"
    and m': "\<And>a. \<not> (p \<le> a \<and> a < p + n) \<Longrightarrow> m' a = mem w a"
  shows "heap_ok G (w\<lparr>mem := m'\<rparr>)" and "chunks G (w\<lparr>mem := m'\<rparr>) = chunks G w"
proof -
  have "aset_ok (set (regions w)) m' (blks w) d t (G d)" if d: "ctxs w d = Some t" for d t
    using heap_okD(2)[OF ok d]
    by (rule aset_ok_cong) (use chunk_not_footprint[OF ok p d] m' in blast)+
  then show "heap_ok G (w\<lparr>mem := m'\<rparr>)" using ok by (simp add: heap_ok_def)
qed (simp add: chunks_def)

section \<open>Changing one context\<close>

text \<open>
  Bytes that are none of the library's business: in a live region that is not a block. Operations
  leave them, and the regions they are in, as they are.
\<close>

definition lib_bytes :: "(addr \<Rightarrow> ghost) \<Rightarrow> world \<Rightarrow> addr set" where
  "lib_bytes G w =
     {a. \<exists>c b. ctxs w c \<noteq> None \<and> b \<in> set (gblocks (G c)) \<and> a \<in> extent (blks w) c b}"

definition foreign :: "(addr \<Rightarrow> ghost) \<Rightarrow> world \<Rightarrow> addr \<Rightarrow> bool" where
  "foreign G w a \<longleftrightarrow> in_region w a 1 \<and> a \<notin> lib_bytes G w"

definition same_foreign :: "(addr \<Rightarrow> ghost) \<Rightarrow> world \<Rightarrow> (addr \<Rightarrow> ghost) \<Rightarrow> world \<Rightarrow> bool" where
  "same_foreign G w G' w' \<longleftrightarrow>
     (\<forall>a. foreign G w a \<longrightarrow> foreign G' w' a \<and> mem w' a = mem w a)"

lemma foreign_extent:
  "foreign G w a \<Longrightarrow> ctxs w c = Some s \<Longrightarrow> b \<in> set (gblocks (G c)) \<Longrightarrow> a \<notin> extent (blks w) c b"
  unfolding foreign_def lib_bytes_def by blast

lemma same_foreign_refl [simp]: "same_foreign G w G w"
  by (simp add: same_foreign_def)

lemma same_foreign_trans:
  "same_foreign G w G' w' \<Longrightarrow> same_foreign G' w' G'' w'' \<Longrightarrow> same_foreign G w G'' w''"
  by (simp add: same_foreign_def)

lemma same_foreign_update:
  assumes c: "ctxs w c = Some s" and ctx': "ctxs w' = (ctxs w)(c \<mapsto> s')"
    and other: "\<And>d t b. d \<noteq> c \<Longrightarrow> ctxs w d = Some t \<Longrightarrow> b \<in> set (gblocks (G d))
      \<Longrightarrow> blks w' b = blks w b"
    and step: "\<And>a. foreign G w a \<Longrightarrow> in_region w' a 1
      \<and> (\<forall>b \<in> set (gblocks g'). a \<notin> extent (blks w') c b) \<and> mem w' a = mem w a"
  shows "same_foreign G w (G(c := g')) w'"
  unfolding same_foreign_def
proof (intro allI impI)
  fix a assume f: "foreign G w a"
  have "a \<notin> extent (blks w') d b" if d: "ctxs w' d \<noteq> None" and b: "b \<in> set (gblocks ((G(c := g')) d))" for d b
  proof (cases "d = c")
    case True
    with step[OF f] b show ?thesis by simp
  next
    case False
    with d ctx' obtain t where t: "ctxs w d = Some t" by auto
    have b': "b \<in> set (gblocks (G d))" using b False by simp
    then have "a \<notin> extent (blks w) d b" by (rule foreign_extent[OF f t])
    then show ?thesis using other[OF False t b'] by (simp add: extent_def)
  qed
  then show "foreign (G(c := g')) w' a \<and> mem w' a = mem w a"
    using step[OF f] by (auto simp: foreign_def lib_bytes_def)
qed

lemma units_cong:
  "(\<And>b. b \<in> set (gblocks g) \<Longrightarrow> B' b = B b) \<Longrightarrow> units B' g = units B g"
  by (simp add: units_def block_units_def cong: option.case_cong)

lemma chunks_of_cong:
  "(\<And>b. b \<in> set (gblocks g) \<Longrightarrow> B' b = B b) \<Longrightarrow> chunks_of B' c g = chunks_of B c g"
  using units_cong[of g B' B] by (simp add: chunks_of_def)

lemma heap_ok_update:
  assumes ok: "heap_ok G w"
    and regs: "regions_ok (regions w')" and ctx': "ctxs w' = (ctxs w)(c \<mapsto> s')"
    and aset': "aset_ok (set (regions w')) (mem w') (blks w') c s' g'"
    and noblk: "\<And>d. ctxs w' d \<noteq> None \<Longrightarrow> blks w' d = None"
    and other_blk: "\<And>d t b. d \<noteq> c \<Longrightarrow> ctxs w d = Some t \<Longrightarrow> b \<in> set (gblocks (G d))
      \<Longrightarrow> blks w' b = blks w b"
    and own: "\<And>b k. blks w' b = Some k \<Longrightarrow> b \<notin> set (gblocks g') \<Longrightarrow> blks w b = Some k \<and> aset k \<noteq> c"
    and other_reg: "\<And>d t b n. d \<noteq> c \<Longrightarrow> ctxs w d = Some t \<Longrightarrow> b \<in> set (gblocks (G d))
      \<Longrightarrow> (base d b, n) \<in> set (regions w) \<Longrightarrow> (base d b, n) \<in> set (regions w')"
    and other_mem: "\<And>d t a. d \<noteq> c \<Longrightarrow> ctxs w d = Some t \<Longrightarrow> a \<in> footprint (blks w) (G d)
      \<Longrightarrow> mem w' a = mem w a"
  shows "heap_ok (G(c := g')) w'"
    and "chunks (G(c := g')) w' = other_chunks G w c \<union> chunks_of (blks w') c g'"
proof -
  have "aset_ok (set (regions w')) (mem w') (blks w') d t ((G(c := g')) d)"
    if d: "ctxs w' d = Some t" for d t
  proof (cases "d = c")
    case True
    with d ctx' aset' show ?thesis by simp
  next
    case False
    with d ctx' have d': "ctxs w d = Some t" by simp
    have "aset_ok (set (regions w')) (mem w') (blks w') d t (G d)"
      by (rule aset_ok_cong[OF heap_okD(2)[OF ok d']])
        (use other_blk[OF False d'] other_reg[OF False d'] other_mem[OF False d'] in blast)+
    with False show ?thesis by simp
  qed
  moreover have "ctxs w' (aset k) \<noteq> None \<and> b \<in> set (gblocks ((G(c := g')) (aset k)))"
    if b: "blks w' b = Some k" for b k
  proof (cases "b \<in> set (gblocks g')")
    case True
    then have "aset k = c" using aset' b by (auto simp: aset_ok_def blocks_ok_def block_ok_def)
    with True ctx' show ?thesis by simp
  next
    case False
    with own[OF b] heap_okD(4)[OF ok, of b k] ctx' show ?thesis by auto
  qed
  ultimately show "heap_ok (G(c := g')) w'" using regs noblk by (auto simp: heap_ok_def)
  have "chunks (G(c := g')) w' =
      (\<Union>d \<in> {d. ctxs w d \<noteq> None} - {c}. chunks_of (blks w') d (G d)) \<union> chunks_of (blks w') c g'"
    using ctx' by (auto simp: chunks_def split: if_splits)
  also have "(\<Union>d \<in> {d. ctxs w d \<noteq> None} - {c}. chunks_of (blks w') d (G d))
      = (\<Union>d \<in> {d. ctxs w d \<noteq> None} - {c}. chunks_of (blks w) d (G d))"
    using other_blk by (intro SUP_cong refl chunks_of_cong) blast
  also have "\<dots> = other_chunks G w c"
    by (auto simp: other_chunks_def chunks_def chunks_of_def)
  finally show "chunks (G(c := g')) w' = other_chunks G w c \<union> chunks_of (blks w') c g'" .
qed

lemma other_footprint:
  assumes ok: "heap_ok G w" and c: "ctxs w c = Some s" and d: "ctxs w d = Some t" and "d \<noteq> c"
    and b: "b \<in> set (gblocks (G c))" and a: "a \<in> extent (blks w) c b"
  shows "a \<notin> footprint (blks w) (G d)"
proof
  assume "a \<in> footprint (blks w) (G d)"
  then obtain b' where b': "b' \<in> set (gblocks (G d))" "a \<in> extent (blks w) d b'"
    using footprint_extent[OF ok d] by blast
  have "b \<noteq> b'"
    using heap_ok_block[OF ok c b] heap_ok_block[OF ok d b'(1)] \<open>d \<noteq> c\<close> by (metis option.inject)
  with extent_disjoint[OF ok c d b b'(1)] a b'(2) show False by blast
qed

lemma other_block:
  assumes ok: "heap_ok G w" and c: "ctxs w c = Some s" and d: "ctxs w d = Some t" and "d \<noteq> c"
    and b: "b \<in> set (gblocks (G d))"
  shows "b \<notin> set (gblocks (G c))"
  using heap_ok_block[OF ok c] heap_ok_block[OF ok d b] \<open>d \<noteq> c\<close> by (metis option.inject)

text \<open>A change inside the blocks of one context.\<close>

lemma heap_ok_local:
  assumes ok: "heap_ok G w" and c: "ctxs w c = Some s"
    and regs: "regions w' = regions w" and ctx': "ctxs w' = (ctxs w)(c \<mapsto> s')"
    and aset': "aset_ok (set (regions w)) (mem w') (blks w') c s' g'"
    and same: "gblocks g' = gblocks (G c)"
    and blk: "\<And>b. b \<notin> set (gblocks (G c)) \<Longrightarrow> blks w' b = blks w b"
    and mem: "\<And>a. mem w' a \<noteq> mem w a \<Longrightarrow> \<exists>b \<in> set (gblocks (G c)). a \<in> extent (blks w) c b"
  shows "heap_ok (G(c := g')) w'"
    and "chunks (G(c := g')) w' = other_chunks G w c \<union> chunks_of (blks w') c g'"
    and "same_foreign G w (G(c := g')) w'"
proof -
  have notin: "d \<notin> set (gblocks (G c))" if "ctxs w d \<noteq> None" for d
    using heap_okD(3)[OF ok, of d] that heap_ok_block[OF ok c, of d] by (metis option.distinct(1) option.exhaust)
  have own: "blks w b = Some k \<and> aset k \<noteq> c"
    if "blks w' b = Some k" "b \<notin> set (gblocks g')" for b k
    using that blk[of b] same heap_okD(4)[OF ok, of b k] by auto
  have 1: "regions_ok (regions w')" using regs heap_okD(1)[OF ok] by simp
  have 2: "aset_ok (set (regions w')) (mem w') (blks w') c s' g'" using aset' regs by simp
  have 3: "blks w' d = None" if "ctxs w' d \<noteq> None" for d
  proof -
    have "ctxs w d \<noteq> None" using that ctx' c by (cases "d = c") auto
    then show ?thesis using blk[OF notin] heap_okD(3)[OF ok] by auto
  qed
  have 4: "blks w' b = blks w b" if "d \<noteq> c" "ctxs w d = Some t" "b \<in> set (gblocks (G d))" for d t b
    by (rule blk) (rule other_block[OF ok c that(2,1,3)])
  have 5: "(base d b, n) \<in> set (regions w')"
    if "d \<noteq> c" "ctxs w d = Some t" "b \<in> set (gblocks (G d))" "(base d b, n) \<in> set (regions w)" for d t b n
    using that(4) regs by simp
  have 6: "mem w' a = mem w a"
    if "d \<noteq> c" "ctxs w d = Some t" "a \<in> footprint (blks w) (G d)" for d t a
    using mem[of a] other_footprint[OF ok c that(2,1)] that(3) by blast
  show "heap_ok (G(c := g')) w'"
    and "chunks (G(c := g')) w' = other_chunks G w c \<union> chunks_of (blks w') c g'"
    by (rule heap_ok_update[OF ok 1 ctx' 2]; fact 3 4 own 5 6)+
  have ext: "extent (blks w') c b = extent (blks w) c b" if b: "b \<in> set (gblocks (G c))" for b
  proof -
    obtain k where k: "blks w b = Some k" "(base c b, endptr k - base c b) \<in> set (regions w)"
      "b + 40 \<le> freeptr k" "freeptr k \<le> endptr k"
      by (rule heap_ok_block[OF ok c b])
    obtain k' where k': "blks w' b = Some k'" "(base c b, endptr k' - base c b) \<in> set (regions w)"
      "b + 40 \<le> freeptr k'" "freeptr k' \<le> endptr k'"
      using aset' b same by (auto simp: aset_ok_def blocks_ok_def block_ok_def)
    have "endptr k - base c b = endptr k' - base c b"
      by (rule regions_ok_start[OF heap_okD(1)[OF ok] k(2) k'(2)])
    then have "endptr k = endptr k'" using k(3,4) k'(3,4) base_le[of c b] by linarith
    then show ?thesis using k(1) k'(1) by (simp add: extent_def)
  qed
  show "same_foreign G w (G(c := g')) w'"
  proof (rule same_foreign_update[OF c ctx' 4])
    fix a assume f: "foreign G w a"
    then have "a \<notin> extent (blks w) c b" if "b \<in> set (gblocks (G c))" for b
      using that c f by (metis foreign_extent)
    moreover have "in_region w' a 1" using f regs by (simp add: foreign_def in_region_def)
    ultimately show "in_region w' a 1 \<and> (\<forall>b \<in> set (gblocks g'). a \<notin> extent (blks w') c b)
        \<and> mem w' a = mem w a"
      using same ext mem[of a] by auto
  qed
qed

end
