(* ===== verification/HeapSteps.thy ===== *)
theory HeapSteps
  imports HeapInv
begin

text \<open>
  The elementary changes of the heap that the operations of the allocation set are made of: a chunk
  goes on a freelist or comes off one, a block gets one more chunk, a context gets one more block,
  a single-chunk block is released or moved. Each lemma says that the change keeps the invariant
  and what it does to the set of chunks.
\<close>

section \<open>Chunks and freelists\<close>

lemma tiles_gfree [simp]: "tiles (g\<lparr>gfree := f\<rparr>) = tiles g"
  by (simp add: tiles_def)

lemma units_gfree [simp]: "units B (g\<lparr>gfree := f\<rparr>) = units B g"
  by (simp add: units_def block_units_def)

lemma headers_gfree [simp]: "headers B (g\<lparr>gfree := f\<rparr>) = headers B g"
  by (simp add: headers_def)

lemma blocks_ok_gfree [simp]: "blocks_ok R m B c (g\<lparr>gfree := f\<rparr>) = blocks_ok R m B c g"
  by (simp add: blocks_ok_def)

lemma pristine_tiles: "pristine c s g \<Longrightarrow> tiles g = {}"
  by (simp add: pristine_def tiles_def)

lemma tile_facts:
  assumes ok: "heap_ok G w" and c: "ctxs w c = Some s" and x: "(x, k) \<in> tiles (G c)"
  obtains b K where "b \<in> set (gblocks (G c))" "blks w b = Some K" "aset K = c"
    "b + 40 \<le> x" "x + 8 + class_size k \<le> freeptr K" "freeptr K \<le> endptr K" "8 dvd x"
    "k < 11" "regular_hdr (mem w) x b (of_nat k) MCTX_ASET_ID" "in_region w x (8 + class_size k)"
    "x + 8 + class_size k < 2 ^ 64" "x \<noteq> 0"
proof -
  obtain b ts where b: "b \<in> set (gblocks (G c))" "gtiles (G c) b = Some ts" "(x, k) \<in> set ts"
    using x by (auto simp: tiles_def)
  obtain K where K: "blks w b = Some K" "block_ok (set (regions w)) (mem w) c b K (gtiles (G c) b)"
      "(base c b, endptr K - base c b) \<in> set (regions w)"
      "b + 40 \<le> freeptr K" "freeptr K \<le> endptr K" "endptr K < 2 ^ 64" "8 dvd b" "aset K = c"
    by (rule heap_ok_block[OF ok c b(1)])
  have t: "tiled (mem w) b (b + 40) ts (freeptr K)" using K(2) b(2) by (simp add: block_ok_def)
  have "8 dvd b + 40" using K(7) by presburger
  moreover have "in_region w x (8 + class_size k)"
    using tiled_bounds[OF t b(3)] K base_le[of c b] by (intro in_regionI[OF K(3)]) auto
  ultimately show ?thesis
    using that[of b K] b K tiled_bounds[OF t b(3)] tiled_hdr[OF t b(3)] tiled_aligned[OF t _ b(3)]
    by auto
qed

lemma free_head:
  assumes ok: "heap_ok G w" and c: "ctxs w c = Some s" and k: "k < 11"
  shows "freelist s ! k < 2 ^ 64" and "fseg (mem w) (freelist s ! k) (gfree (G c) k)"
    and "length (freelist s) = 11"
proof -
  have f: "frees_ok (mem w) (freelist s) (G c)"
    using heap_okD(2)[OF ok c] by (simp add: aset_ok_def)
  then show fs: "fseg (mem w) (freelist s ! k) (gfree (G c) k)" "length (freelist s) = 11"
    using k by (simp_all add: frees_ok_def)
  show "freelist s ! k < 2 ^ 64"
  proof (cases "gfree (G c) k")
    case (Cons x xs)
    then have "(x, k) \<in> tiles (G c)" using f k by (simp add: frees_ok_def)
    then have "x + 8 + class_size k < 2 ^ 64" by (rule tile_facts[OF ok c])
    with Cons fs show ?thesis by simp
  qed (use fs in simp)
qed

lemma free_chunks_upd:
  "k < 11 \<Longrightarrow> free_chunks (g\<lparr>gfree := (gfree g)(k := xs)\<rparr>) =
    set xs \<union> (\<Union>j \<in> {..<11} - {k}. set (gfree g j))"
  by (auto simp: free_chunks_def split: if_splits)

lemma unit_size_unique:
  "heap_ok G w \<Longrightarrow> ctxs w c = Some s \<Longrightarrow> (x, n) \<in> units (blks w) (G c)
   \<Longrightarrow> (x, j) \<in> units (blks w) (G c) \<Longrightarrow> n = j"
  using units_disjoint[of G w c s c s x n x j] by auto

lemma free_chunks_split:
  "k < 11 \<Longrightarrow> free_chunks g = set (gfree g k) \<union> (\<Union>j \<in> {..<11} - {k}. set (gfree g j))"
  using free_chunks_upd[of k g "gfree g k"] by simp

lemma same_dataI:
  "(\<And>p c n a. (p, c, n) \<in> X \<Longrightarrow> p \<le> a \<Longrightarrow> a < p + n \<Longrightarrow> mem w' a = mem w a)
   \<Longrightarrow> same_data X w w'"
  by (auto simp: same_data_def)

lemma set_eqI3: "(\<And>p d m. (p, d, m) \<in> A \<longleftrightarrow> (p, d, m) \<in> B) \<Longrightarrow> A = B"
  by (rule set_eqI) (metis prod_cases3)

lemma chunks_split:
  assumes "ctxs w c = Some s"
  shows "chunks G w = other_chunks G w c \<union> chunks_of (blks w) c (G c)"
  using assms by (auto simp: chunks_def chunks_of_def other_chunks_def)

lemma chunks_of_free:
  assumes u: "(x, n) \<in> units B g" "\<And>j. (x, j) \<in> units B g \<Longrightarrow> j = n"
    and same: "units B' g' = units B g"
  shows "free_chunks g' = insert x (free_chunks g) \<Longrightarrow> chunks_of B' c g' = chunks_of B c g - {(x + 8, c, n)}"
    and "free_chunks g' = free_chunks g - {x} \<Longrightarrow> chunks_of B' c g' = insert (x + 8, c, n) (chunks_of B c g)"
proof -
  have iff: "(p, d, m) \<in> chunks_of B0 c g0 \<longleftrightarrow>
      d = c \<and> 8 \<le> p \<and> (p - 8, m) \<in> units B0 g0 \<and> p - 8 \<notin> free_chunks g0" for p d m B0 g0
  proof
    assume "d = c \<and> 8 \<le> p \<and> (p - 8, m) \<in> units B0 g0 \<and> p - 8 \<notin> free_chunks g0"
    then show "(p, d, m) \<in> chunks_of B0 c g0"
      unfolding chunks_of_def by (intro CollectI exI[of _ "p - 8"] exI[of _ m]) auto
  qed (auto simp: chunks_of_def)
  {
    assume f: "free_chunks g' = insert x (free_chunks g)"
    have "(p, d, m) \<in> chunks_of B' c g' \<longleftrightarrow> (p, d, m) \<in> chunks_of B c g - {(x + 8, c, n)}" for p d m
      unfolding Diff_iff iff same f using u(1) u(2)[of m] by (cases "p = x + 8") auto
    then show "chunks_of B' c g' = chunks_of B c g - {(x + 8, c, n)}" by (rule set_eqI3)
  next
    assume f: "free_chunks g' = free_chunks g - {x}"
    have "(p, d, m) \<in> chunks_of B' c g' \<longleftrightarrow> (p, d, m) \<in> insert (x + 8, c, n) (chunks_of B c g)" for p d m
      unfolding insert_iff iff same f using u(1) u(2)[of m] by (cases "p = x + 8") auto
    then show "chunks_of B' c g' = insert (x + 8, c, n) (chunks_of B c g)" by (rule set_eqI3)
  }
qed

text \<open>Put a chunk on the freelist of its class: link it to the old head, make it the head.\<close>

lemma heap_push_free:
  assumes ok: "heap_ok G w" and c: "ctxs w c = Some s"
    and x: "(x, k) \<in> tiles (G c)" "x \<notin> free_chunks (G c)"
    and w': "regions w' = regions w" "blks w' = blks w"
      "ctxs w' = (ctxs w)(c \<mapsto> s\<lparr>freelist := (freelist s)[k := x]\<rparr>)"
      "mem w' = store64 (mem w) (x + 8) (of_nat (freelist s ! k))"
    and g': "g' = (G c)\<lparr>gfree := (gfree (G c))(k := x # gfree (G c) k)\<rparr>"
  shows "heap_ok (G(c := g')) w'"
    and "chunks (G(c := g')) w' = chunks G w - {(x + 8, c, class_size k)}"
    and "same_data (chunks G w - {(x + 8, c, class_size k)}) w w'"
    and "same_foreign G w (G(c := g')) w'"
proof -
  let ?X = "{x + 8 ..< x + 16}"
  obtain b K where b: "b \<in> set (gblocks (G c))" "blks w b = Some K" "b + 40 \<le> x"
      "x + 8 + class_size k \<le> freeptr K" "freeptr K \<le> endptr K" "k < 11" "x \<noteq> 0"
    by (rule tile_facts[OF ok c x(1)])
  have n8: "8 \<le> class_size k" using class_size_bounds[OF b(6)] by simp
  have u: "(x, class_size k) \<in> units (blks w) (G c)" by (rule tile_unit[OF x(1)])
  have m': "mem w' a = mem w a" if "a \<notin> ?X" for a
    using that by (auto simp: w' store64_def)
  have hdr: "a \<notin> ?X" if a: "a \<in> headers (blks w) (G c)" for a
  proof
    assume "a \<in> ?X"
    moreover obtain y j where y: "(y, j) \<in> units (blks w) (G c)" "y \<le> a" "a < y + 8"
      using a by (auto simp: headers_def)
    ultimately show False using units_disjoint[OF ok c c u y(1)] n8 by auto
  qed
  have lnk: "a \<notin> ?X" if a: "a \<in> links (G c)" for a
  proof
    assume X: "a \<in> ?X"
    obtain y where y: "y \<in> free_chunks (G c)" "y + 8 \<le> a" "a < y + 16" using a by (auto simp: links_def)
    obtain j where v: "(y, j) \<in> units (blks w) (G c)"
      using free_chunk_unit[OF _ y(1)] heap_okD(2)[OF ok c] by (metis aset_ok_def)
    have "8 \<le> j" by (rule free_unit_size(1)[OF ok c v y(1)])
    moreover have "x \<noteq> y" using x(2) y(1) by auto
    ultimately show False using units_disjoint[OF ok c c u v] X y n8 by auto
  qed
  have A: "aset_ok (set (regions w)) (mem w) (blks w) c s (G c)" by (rule heap_okD(2)[OF ok c])
  have f: "frees_ok (mem w) (freelist s) (G c)" using A by (simp add: aset_ok_def)
  have f': "frees_ok (mem w') (freelist s) (G c)"
    by (rule frees_ok_cong[OF f]) (use m' lnk in blast)
  have "frees_ok (mem w') ((freelist s)[k := x]) g'"
  proof -
    have "fseg (mem w') x (x # gfree (G c) k)"
      using free_head[OF ok c b(6)] f' b(6,7)
      by (simp add: w' unat_of_nat_small frees_ok_def)
    moreover have "x \<notin> set (gfree (G c) k)" using x(2) b(6) by (auto simp: free_chunks_def)
    ultimately show ?thesis
      using f' x(1) b(6) by (auto simp: frees_ok_def g' nth_list_update)
  qed
  moreover have "blocks_ok (set (regions w)) (mem w') (blks w) c g'"
    unfolding g' blocks_ok_gfree
    by (rule blocks_ok_cong[of "set (regions w)" "mem w" "blks w"])
      (use A m' hdr in \<open>auto simp: aset_ok_def\<close>)
  moreover have "params_ok c (s\<lparr>freelist := (freelist s)[k := x]\<rparr>) g'"
    using A x(1) pristine_tiles[of c s "G c"] by (auto simp: aset_ok_def params_ok_def)
  ultimately have aset': "aset_ok (set (regions w)) (mem w') (blks w') c
      (s\<lparr>freelist := (freelist s)[k := x]\<rparr>) g'"
    using A by (simp add: aset_ok_def w' g')
  have "\<exists>b \<in> set (gblocks (G c)). a \<in> extent (blks w) c b" if "mem w' a \<noteq> mem w a" for a
    using m'[of a] that b n8 base_le[of c b] by (force simp: extent_def)
  from heap_ok_local[OF ok c w'(1,3) aset' _ _ this]
  have *: "heap_ok (G(c := g')) w'"
    "chunks (G(c := g')) w' = other_chunks G w c \<union> chunks_of (blks w') c g'"
    "same_foreign G w (G(c := g')) w'"
    by (simp_all add: g' w')
  show "heap_ok (G(c := g')) w'" "same_foreign G w (G(c := g')) w'" by fact+
  have "free_chunks g' = insert x (free_chunks (G c))"
    using b(6) by (auto simp: g' free_chunks_def split: if_splits)
  moreover have uniq: "n = class_size k" if "(x, n) \<in> units (blks w) (G c)" for n
    by (rule unit_size_unique[OF ok c that u])
  ultimately have "chunks_of (blks w') c g' = chunks_of (blks w) c (G c) - {(x + 8, c, class_size k)}"
    by (intro chunks_of_free[OF u uniq]) (simp_all add: g' w')
  then show "chunks (G(c := g')) w' = chunks G w - {(x + 8, c, class_size k)}"
    unfolding *(2) chunks_split[OF c, of G]
    by (auto simp: other_chunks_def)
  have p: "(x + 8, c, class_size k) \<in> chunks G w"
    using c u x(2) by (auto simp: chunks_iff)
  show "same_data (chunks G w - {(x + 8, c, class_size k)}) w w'"
  proof (rule same_dataI)
    fix q d n a assume q: "(q, d, n) \<in> chunks G w - {(x + 8, c, class_size k)}"
      "q \<le> a" "a < q + n"
    then have "(q, d, n) \<in> chunks G w" "(q, d, n) \<noteq> (x + 8, c, class_size k)" by auto
    note q = this q(2,3)
    then show "mem w' a = mem w a"
      using chunks_disjoint[OF ok q(1) p] n8 by (intro m') auto
  qed
qed

text \<open>Take the head off a freelist.\<close>

lemma heap_pop_free:
  assumes ok: "heap_ok G w" and c: "ctxs w c = Some s" and k: "k < 11"
    and fr: "gfree (G c) k = x # xs"
    and w': "regions w' = regions w" "blks w' = blks w" "mem w' = mem w"
      "ctxs w' = (ctxs w)(c \<mapsto> s\<lparr>freelist := (freelist s)[k := first xs 0]\<rparr>)"
    and g': "g' = (G c)\<lparr>gfree := (gfree (G c))(k := xs)\<rparr>"
  shows "heap_ok (G(c := g')) w'"
    and "chunks (G(c := g')) w' = insert (x + 8, c, class_size k) (chunks G w)"
    and "(x, k) \<in> tiles (G c)" and "x \<in> free_chunks (G c)"
    and "unat (load64 (mem w) (x + 8)) = first xs 0" and "freelist s ! k = x"
    and "same_foreign G w (G(c := g')) w'"
proof -
  have A: "aset_ok (set (regions w)) (mem w) (blks w) c s (G c)" by (rule heap_okD(2)[OF ok c])
  then have f: "frees_ok (mem w) (freelist s) (G c)" by (simp add: aset_ok_def)
  then have fs: "fseg (mem w) (freelist s ! k) (x # xs)" "distinct (x # xs)"
    using k fr by (auto simp: frees_ok_def)
  then have tl: "fseg (mem w) (first xs 0) xs" using fseg_first by auto
  show "unat (load64 (mem w) (x + 8)) = first xs 0" "freelist s ! k = x"
    using fs(1) fseg_first by auto
  show x: "(x, k) \<in> tiles (G c)" "x \<in> free_chunks (G c)"
    using f fr k by (auto simp: frees_ok_def free_chunks_def intro!: bexI[of _ k])
  have "frees_ok (mem w') ((freelist s)[k := first xs 0]) g'"
    using f fr tl k by (auto simp: frees_ok_def g' w' nth_list_update)
  moreover have "params_ok c (s\<lparr>freelist := (freelist s)[k := first xs 0]\<rparr>) g'"
    using A x(1) pristine_tiles[of c s "G c"] by (auto simp: aset_ok_def params_ok_def)
  ultimately have aset': "aset_ok (set (regions w)) (mem w') (blks w') c
      (s\<lparr>freelist := (freelist s)[k := first xs 0]\<rparr>) g'"
    using A by (simp add: aset_ok_def w' g')
  from heap_ok_local[OF ok c w'(1,4) aset']
  have *: "heap_ok (G(c := g')) w'"
    "chunks (G(c := g')) w' = other_chunks G w c \<union> chunks_of (blks w') c g'"
    "same_foreign G w (G(c := g')) w'"
    by (simp_all add: g' w')
  show "heap_ok (G(c := g')) w'" "same_foreign G w (G(c := g')) w'" by fact+
  have u: "(x, class_size k) \<in> units (blks w) (G c)" by (rule tile_unit[OF x(1)])
  have "x \<notin> set (gfree (G c) j)" if "j < 11" "j \<noteq> k" for j
  proof
    assume "x \<in> set (gfree (G c) j)"
    then have j: "(x, j) \<in> tiles (G c)" using f that by (simp add: frees_ok_def)
    have "class_size j = class_size k"
      using units_disjoint[OF ok c c u tile_unit[OF j]] by auto
    with \<open>j \<noteq> k\<close> show False by (simp add: class_size_def)
  qed
  then have "x \<notin> (\<Union>j \<in> {..<11} - {k}. set (gfree (G c) j))" by blast
  moreover have "free_chunks (G c) = insert x (set xs) \<union> (\<Union>j \<in> {..<11} - {k}. set (gfree (G c) j))"
    using free_chunks_split[OF k, of "G c"] fr by simp
  ultimately have "free_chunks g' = free_chunks (G c) - {x}"
    using fs(2) free_chunks_upd[OF k, of "G c" xs] by (simp add: g')
  moreover have uniq: "n = class_size k" if "(x, n) \<in> units (blks w) (G c)" for n
    by (rule unit_size_unique[OF ok c that u])
  ultimately have "chunks_of (blks w') c g' = insert (x + 8, c, class_size k) (chunks_of (blks w) c (G c))"
    by (intro chunks_of_free[OF u uniq]) (simp_all add: g' w')
  then show "chunks (G(c := g')) w' = insert (x + 8, c, class_size k) (chunks G w)"
    unfolding *(2) chunks_split[OF c, of G]
    by (auto simp: other_chunks_def)
qed

section \<open>Unused space of a block\<close>

lemma gap_no_unit:
  assumes ok: "heap_ok G w" and c: "ctxs w c = Some s" and b: "b \<in> set (gblocks (G c))"
    and K: "blks w b = Some K" and a: "freeptr K \<le> a" "a < endptr K"
    and d: "ctxs w d = Some t" and u: "(y, j) \<in> units (blks w) (G d)"
  shows "\<not> (y \<le> a \<and> a < y + 8 + j)"
proof -
  obtain b' K' where b': "b' \<in> set (gblocks (G d))" "blks w b' = Some K'" "y + 8 + j \<le> freeptr K'"
      "(y, j) \<in> block_units (blks w) (G d) b'"
      "block_ok (set (regions w)) (mem w) d b' K' (gtiles (G d) b')"
    by (rule unit_in_block[OF ok d u])
  have "b + 40 \<le> freeptr K" using heap_ok_block[OF ok c b] K by (metis option.inject)
  then have "a \<in> extent (blks w) c b" using K a base_le[of c b] by (simp add: extent_def)
  moreover have "{y ..< y + 8 + j} \<subseteq> extent (blks w) d b'"
    by (rule block_units_extent[OF b'(5,2,4)])
  moreover have "b = b' \<Longrightarrow> K = K'" using K b'(2) by simp
  ultimately show ?thesis
    using extent_disjoint[OF ok c d b b'(1)] a(1) b'(3) by (cases "b = b'") fastforce+
qed

lemma gap_footprint:
  assumes ok: "heap_ok G w" and c: "ctxs w c = Some s" and b: "b \<in> set (gblocks (G c))"
    and K: "blks w b = Some K" and a: "freeptr K \<le> a" "a < endptr K" and d: "ctxs w d = Some t"
  shows "a \<notin> footprint (blks w) (G d)"
proof
  assume "a \<in> footprint (blks w) (G d)"
  then obtain x n where "(x, n) \<in> units (blks w) (G d)" "x \<le> a" "a < x + 8 + n"
    by (rule footprint_unit[OF ok d])
  then show False using gap_no_unit[OF ok c b K a d] by blast
qed

lemma gap_data:
  assumes ok: "heap_ok G w" and c: "ctxs w c = Some s" and b: "b \<in> set (gblocks (G c))"
    and K: "blks w b = Some K"
    and m': "\<And>a. \<not> (freeptr K \<le> a \<and> a < endptr K) \<Longrightarrow> mem w' a = mem w a"
  shows "same_data (chunks G w) w w'"
proof (rule same_dataI)
  fix p d n a assume "(p, d, n) \<in> chunks G w" "p \<le> a" "a < p + n"
  then show "mem w' a = mem w a"
    using gap_no_unit[OF ok c b K] by (intro m') (auto simp: chunks_iff)
qed

lemma tiles_UN: "tiles g = (\<Union>b \<in> set (gblocks g). case gtiles g b of None \<Rightarrow> {} | Some ts \<Rightarrow> set ts)"
  by (auto simp: tiles_def split: option.splits)

lemma UN_insert_at:
  assumes "b \<in> A" and "\<And>x. x \<noteq> b \<Longrightarrow> f' x = f x" and "f' b = insert z (f b)"
  shows "(\<Union>x \<in> A. f' x) = insert z (\<Union>x \<in> A. f x)"
  using assms by (auto split: if_splits) (metis insert_iff)+

section \<open>A new region is fresh\<close>

lemma heap_ok_keeper:
  assumes ok: "heap_ok G w" and c: "ctxs w c = Some s"
  shows "KeeperBlock c \<in> set (gblocks (G c))"
  using heap_okD(2)[OF ok c] by (simp add: aset_ok_def blocks_ok_def)

lemma fresh_extent:
  assumes ok: "heap_ok G w" and c: "ctxs w c = Some s" and b: "b \<in> set (gblocks (G c))"
    and adm: "admissible (regions w) q n" and a: "a \<in> extent (blks w) c b"
  shows "\<not> (q \<le> a \<and> a < q + n)"
proof -
  obtain k where k: "blks w b = Some k" "(base c b, endptr k - base c b) \<in> set (regions w)"
    by (rule heap_ok_block[OF ok c b])
  then have "q + n \<le> base c b \<or> endptr k \<le> q"
    using adm a by (auto simp: admissible_def overlaps_def list_all_iff extent_def)
  then show ?thesis using a k by (auto simp: extent_def)
qed

lemma block_in_extent:
  assumes ok: "heap_ok G w" and c: "ctxs w c = Some s" and b: "b \<in> set (gblocks (G c))"
  shows "b \<in> extent (blks w) c b"
proof -
  obtain k where "blks w b = Some k" "b + 40 \<le> freeptr k" "freeptr k \<le> endptr k"
    by (rule heap_ok_block[OF ok c b])
  then show ?thesis using base_le[of c b] by (auto simp: extent_def)
qed

lemma ctx_in_extent:
  assumes ok: "heap_ok G w" and c: "ctxs w c = Some s"
  shows "c \<in> extent (blks w) c (KeeperBlock c)"
proof -
  have b: "KeeperBlock c \<in> set (gblocks (G c))" by (rule heap_ok_keeper[OF ok c])
  obtain k where "blks w (KeeperBlock c) = Some k" "KeeperBlock c + 40 \<le> freeptr k" "freeptr k \<le> endptr k"
    by (rule heap_ok_block[OF ok c b])
  then show ?thesis by (auto simp: extent_def base_def IsKeeperBlock_def KeeperBlock_eq)
qed

lemma fresh_structs:
  assumes ok: "heap_ok G w" and adm: "admissible (regions w) q n" and a: "q \<le> a" "a < q + n"
  shows "blks w a = None" and "ctxs w a = None"
proof -
  show "ctxs w a = None"
    using fresh_extent[OF ok _ heap_ok_keeper[OF ok] adm ctx_in_extent[OF ok]] a
    by (metis not_Some_eq)
  show "blks w a = None"
  proof (rule ccontr)
    assume "blks w a \<noteq> None"
    then obtain k where k: "blks w a = Some k" by auto
    then obtain s where s: "ctxs w (aset k) = Some s" "a \<in> set (gblocks (G (aset k)))"
      using heap_okD(4)[OF ok k] by auto
    show False using fresh_extent[OF ok s adm block_in_extent[OF ok s]] a by simp
  qed
qed

text \<open>No chunk starts in a region that \<open>malloc\<close> may still hand out.\<close>

lemma fresh_chunk:
  assumes ok: "heap_ok G w" and adm: "admissible (regions w) q n" and p: "q + 8 \<le> p" "p < q + n + 8"
  shows "(p, d, j) \<notin> chunks G w"
proof
  assume "(p, d, j) \<in> chunks G w"
  from chunk_facts(4)[OF ok this] obtain b s where "(b, s) \<in> set (regions w)" "b \<le> p - 8" "p + j \<le> b + s"
    using p by (auto simp: in_region_iff)
  with adm p show False by (fastforce simp: admissible_def overlaps_def list_all_iff)
qed

section \<open>Blocks whose links change\<close>

definition core :: "AllocBlockData \<Rightarrow> addr \<times> addr \<times> addr" where
  "core k = (aset k, freeptr k, endptr k)"

lemma block_ok_core: "core k' = core k \<Longrightarrow> block_ok R m c b k' t = block_ok R m c b k t"
  by (simp add: core_def block_ok_def cong: option.case_cong)

lemma core_eq_Some:
  "map_option core (B' b) = map_option core (B b) \<Longrightarrow> B b = Some k \<Longrightarrow> \<exists>k'. B' b = Some k' \<and> core k' = core k"
  by (cases "B' b") auto

lemma block_units_core:
  assumes "map_option core (B' b) = map_option core (B b)"
  shows "block_units B' g b = block_units B g b"
  using assms by (cases "B b"; cases "B' b") (auto simp: block_units_def core_def split: option.splits)

lemma block_size_core:
  assumes "map_option core (B' b) = map_option core (B b)"
  shows "block_size B' c b = block_size B c b"
  using assms by (cases "B b"; cases "B' b") (auto simp: block_size_def core_def)

text \<open>What a change of one context's list of blocks leaves as it was.\<close>

lemma extent_core: "map_option core (B b) = map_option core (B' b) \<Longrightarrow> extent B c b = extent B' c b"
  by (cases "B b"; cases "B' b") (auto simp: extent_def core_def)

lemma block_kept:
  assumes ok: "heap_ok G w" and c: "ctxs w c = Some s" and b: "b \<in> set (gblocks (G c))"
    and core: "map_option core (B' b) = map_option core (blks w b)"
    and reg: "\<And>n. (base c b, n) \<in> set (regions w) \<Longrightarrow> (base c b, n) \<in> R"
    and mem: "\<And>a. a \<in> footprint (blks w) (G c) \<Longrightarrow> m a = mem w a"
  shows "\<exists>k. B' b = Some k \<and> block_ok R m c b k (gtiles (G c) b)"
proof -
  obtain k where k: "blks w b = Some k" "block_ok (set (regions w)) (mem w) c b k (gtiles (G c) b)"
    by (rule heap_ok_block[OF ok c b])
  have "block_ok R m c b k (gtiles (G c) b)"
  proof (rule block_ok_cong[where g = "G c" and B = "blks w", OF k(2,1)])
    fix y j a assume "(y, j) \<in> block_units (blks w) (G c) b" "y \<le> a" "a < y + 8"
    then show "m a = mem w a"
      using b by (intro mem) (auto simp: footprint_def headers_def units_def)
  qed (use reg in simp_all)
  moreover obtain k' where k': "B' b = Some k'" "core k' = core k"
    using core_eq_Some[of B' b "blks w", OF core k(1)] by blast
  ultimately show ?thesis using block_ok_core[OF k'(2)] k'(1) by simp
qed

section \<open>Cutting a chunk off a block\<close>

text \<open>Cut one more chunk off the unused space: move \<open>freeptr\<close>, write the header.\<close>

definition tile_cut :: "(addr \<Rightarrow> ghost) \<Rightarrow> world \<Rightarrow> addr \<Rightarrow> addr \<Rightarrow> (addr \<times> nat) list \<Rightarrow> AllocBlockData
    \<Rightarrow> nat \<Rightarrow> world \<Rightarrow> bool" where
  "tile_cut G w c b ts K k w' \<longleftrightarrow>
     b \<in> set (gblocks (G c)) \<and> gtiles (G c) b = Some ts \<and> blks w b = Some K \<and> k < 11
     \<and> freeptr K + 8 + class_size k \<le> endptr K \<and> regions w' = regions w \<and> ctxs w' = ctxs w
     \<and> blks w' = (blks w)(b \<mapsto> K\<lparr>freeptr := freeptr K + 8 + class_size k\<rparr>)
     \<and> mem w' = store64 (mem w) (freeptr K) (hdrmask_of (of_nat (freeptr K - b)) (of_nat k) MCTX_ASET_ID)"

definition with_tile :: "addr \<Rightarrow> (addr \<times> nat) list \<Rightarrow> addr \<Rightarrow> nat \<Rightarrow> ghost \<Rightarrow> ghost" where
  "with_tile b ts x k g = g\<lparr>gtiles := (gtiles g)(b \<mapsto> ts @ [(x, k)])\<rparr>"

lemma cut_facts:
  assumes ok: "heap_ok G w" and c: "ctxs w c = Some s" and cut: "tile_cut G w c b ts K k w'"
  shows "tiled (mem w) b (b + 40) ts (freeptr K)" and "b + 40 \<le> freeptr K" and "endptr K - b < 2 ^ 30"
    and "8 dvd freeptr K" and "8 dvd b" and "block_ok (set (regions w)) (mem w) c b K (Some ts)"
    and "\<not> (freeptr K \<le> a \<and> a < endptr K) \<Longrightarrow> mem w' a = mem w a"
    and "a' \<in> footprint (blks w) (G c) \<Longrightarrow> mem w' a' = mem w a'"
proof -
  note cut' = cut[unfolded tile_cut_def]
  obtain K0 where K0: "blks w b = Some K0" "block_ok (set (regions w)) (mem w) c b K0 (gtiles (G c) b)"
      "b + 40 \<le> freeptr K0" "8 dvd b"
    using heap_ok_block[OF ok c, of b] cut' by metis
  then show bk: "block_ok (set (regions w)) (mem w) c b K (Some ts)" "b + 40 \<le> freeptr K" "8 dvd b"
    using cut' by auto
  then show tl: "tiled (mem w) b (b + 40) ts (freeptr K)" "endptr K - b < 2 ^ 30"
    by (simp_all add: block_ok_def)
  have "8 dvd b + 40" using bk(3) by presburger
  then show "8 dvd freeptr K" by (rule tiled_dvd[OF tl(1)])
  show m': "mem w' a = mem w a" if "\<not> (freeptr K \<le> a \<and> a < endptr K)" for a
    using that cut' by (auto simp: store64_def)
  show "mem w' a' = mem w a'" if "a' \<in> footprint (blks w) (G c)"
    using gap_footprint[OF ok c _ _ _ _ c, of b K a'] cut' that by (intro m') blast
qed

lemma cut_tiled:
  assumes ok: "heap_ok G w" and c: "ctxs w c = Some s" and cut: "tile_cut G w c b ts K k w'"
  shows "tiled (mem w') b (b + 40) (ts @ [(freeptr K, k)]) (freeptr K + 8 + class_size k)"
proof -
  let ?x = "freeptr K"
  note f = cut_facts[OF assms] and cut' = cut[unfolded tile_cut_def]
  have "tiled (mem w') b (b + 40) ts ?x = tiled (mem w) b (b + 40) ts ?x"
  proof (rule tiled_cong)
    fix y j a assume "(y, j) \<in> set ts" "y \<le> a" "a < y + 8"
    then show "mem w' a = mem w a" using tiled_bounds[OF f(1)] by (intro f(7)) fastforce
  qed
  moreover have "regular_hdr (mem w') ?x b (of_nat k) MCTX_ASET_ID"
  proof -
    have "even (?x - b)" using f(4,5) by (auto elim!: dvdE)
    moreover have "?x - b < 2 ^ 30" using f(3) cut' by linarith
    moreover have "(of_nat k :: Size) \<le> MEMORYCHUNK_MAX_VALUE"
      using cut' by (simp add: word_le_nat_alt MEMORYCHUNK_MAX_VALUE_def unat_of_nat)
    moreover have "mem w' = store64 (mem w) ?x (hdrmask_of (of_nat (?x - b)) (of_nat k) MCTX_ASET_ID)"
      using cut' by blast
    ultimately show ?thesis using f(2) by (simp only:) (rule regular_hdr_store, simp_all)
  qed
  ultimately show ?thesis using f(1) cut' by (auto simp: tiled_append)
qed

lemma cut_tiles:
  assumes "tile_cut G w c b ts K k w'"
  shows "tiles (with_tile b ts (freeptr K) k (G c)) = insert (freeptr K, k) (tiles (G c))"
    and "units (blks w') (with_tile b ts (freeptr K) k (G c))
      = insert (freeptr K, class_size k) (units (blks w) (G c))"
proof -
  let ?g = "with_tile b ts (freeptr K) k (G c)"
  note cut = assms[unfolded tile_cut_def]
  have b: "b \<in> set (gblocks (G c))" and same: "gblocks ?g = gblocks (G c)"
    using cut by (simp_all add: with_tile_def)
  show "tiles ?g = insert (freeptr K, k) (tiles (G c))"
    unfolding tiles_UN same
    by (rule UN_insert_at[OF b]) (use cut in \<open>auto simp: with_tile_def\<close>)
  show "units (blks w') ?g = insert (freeptr K, class_size k) (units (blks w) (G c))"
    unfolding units_def same
    by (rule UN_insert_at[OF b]) (use cut in \<open>auto simp: with_tile_def block_units_def cong: option.case_cong\<close>)
qed

lemma cut_aset_ok:
  assumes ok: "heap_ok G w" and c: "ctxs w c = Some s" and nr: "\<not> isReset s"
    and cut: "tile_cut G w c b ts K k w'"
  shows "aset_ok (set (regions w)) (mem w') (blks w') c s (with_tile b ts (freeptr K) k (G c))"
proof -
  let ?g = "with_tile b ts (freeptr K) k (G c)"
  note f = cut_facts[OF ok c cut] and cut' = cut[unfolded tile_cut_def]
  have A: "aset_ok (set (regions w)) (mem w) (blks w) c s (G c)" by (rule heap_okD(2)[OF ok c])
  have "\<exists>k'. blks w' b' = Some k' \<and> block_ok (set (regions w)) (mem w') c b' k' (gtiles ?g b')"
    if b': "b' \<in> set (gblocks (G c))" for b'
  proof (cases "b' = b")
    case True
    then show ?thesis
      using f(3,6) cut_tiled[OF ok c cut] cut' by (auto simp: with_tile_def block_ok_def)
  next
    case False
    then have "map_option core (blks w' b') = map_option core (blks w b')" using cut' by simp
    from block_kept[where B' = "blks w'", OF ok c b' this, of "set (regions w)" "mem w'"] f(8) False
    show ?thesis by (simp add: with_tile_def)
  qed
  moreover have "dseg bnext bprev (blks w') 0 (gblocks (G c)) 0 = dseg bnext bprev (blks w) 0 (gblocks (G c)) 0"
    by (rule dseg_cong) (use cut' in auto)
  ultimately have "blocks_ok (set (regions w)) (mem w') (blks w') c ?g"
    using A by (simp add: aset_ok_def blocks_ok_def with_tile_def)
  moreover have "frees_ok (mem w') (freelist s) (G c)"
    by (rule frees_ok_cong[of "mem w"]) (use A f(8) in \<open>auto simp: aset_ok_def footprint_def\<close>)
  then have "frees_ok (mem w') (freelist s) ?g"
    using cut_tiles(1)[OF cut] by (auto simp: frees_ok_def with_tile_def)
  moreover have "block_size (blks w') c = block_size (blks w) c"
    using cut' by (auto simp: block_size_def fun_eq_iff)
  ultimately show ?thesis using A nr by (simp add: aset_ok_def with_tile_def params_ok_def)
qed

lemma heap_extend_tile:
  assumes ok: "heap_ok G w" and c: "ctxs w c = Some s" and nr: "\<not> isReset s"
    and cut: "tile_cut G w c b ts K k w'" and g': "g' = with_tile b ts (freeptr K) k (G c)"
  shows "heap_ok (G(c := g')) w'"
    and "chunks (G(c := g')) w' = insert (freeptr K + 8, c, class_size k) (chunks G w)"
    and "same_data (chunks G w) w w'"
    and "freeptr K \<notin> free_chunks (G c)"
    and "(freeptr K, k) \<in> tiles g'"
    and "same_foreign G w (G(c := g')) w'"
proof -
  note f = cut_facts[OF ok c cut] and cut' = cut[unfolded tile_cut_def]
  have b: "b \<in> set (gblocks (G c))" and K: "blks w b = Some K" using cut' by simp_all
  have reg: "regions w' = regions w" and ctx: "ctxs w' = (ctxs w)(c \<mapsto> s)"
    using cut' c by (simp_all add: fun_upd_idem)
  have "\<exists>b \<in> set (gblocks (G c)). a \<in> extent (blks w) c b" if "mem w' a \<noteq> mem w a" for a
    using f(7)[of a] that b K f(2) base_le[of c b] by (force simp: extent_def)
  moreover have "blks w' b' = blks w b'" if "b' \<notin> set (gblocks (G c))" for b' using b cut' that by auto
  ultimately have *: "heap_ok (G(c := g')) w'"
    "chunks (G(c := g')) w' = other_chunks G w c \<union> chunks_of (blks w') c g'"
    "same_foreign G w (G(c := g')) w'"
    using heap_ok_local[OF ok c reg ctx cut_aset_ok[OF ok c nr cut]] by (simp_all add: g' with_tile_def)
  show "heap_ok (G(c := g')) w'" "same_foreign G w (G(c := g')) w'" by fact+
  show "same_data (chunks G w) w w'" by (rule gap_data[OF ok c b K]) (rule f(7))
  show nf: "freeptr K \<notin> free_chunks (G c)"
  proof
    assume "freeptr K \<in> free_chunks (G c)"
    then obtain n where "(freeptr K, n) \<in> units (blks w) (G c)"
      using free_chunk_unit heap_okD(2)[OF ok c] unfolding aset_ok_def by blast
    then show False using gap_no_unit[OF ok c b K _ _ c, of "freeptr K" "freeptr K" n] cut' by auto
  qed
  show "(freeptr K, k) \<in> tiles g'" using cut_tiles(1)[OF cut] by (simp add: g')
  have "chunks_of (blks w') c g' = insert (freeptr K + 8, c, class_size k) (chunks_of (blks w) c (G c))"
    using nf cut_tiles(2)[OF cut] by (auto simp: chunks_of_def g' free_chunks_def with_tile_def)
  then show "chunks (G(c := g')) w' = insert (freeptr K + 8, c, class_size k) (chunks G w)"
    unfolding *(2) chunks_split[OF c, of G] by auto
qed

section \<open>Lists of blocks that change\<close>

text \<open>
  The list of blocks of one context gains or loses blocks: blocks that stay keep everything but their
  links, blocks that come were nobody's, blocks that go are gone, and no other block changes.
\<close>

definition relisted :: "(addr \<Rightarrow> ghost) \<Rightarrow> world \<Rightarrow> addr \<Rightarrow> AllocSetContext \<Rightarrow> ghost \<Rightarrow> world \<Rightarrow> bool" where
  "relisted G w c s' g' w' \<longleftrightarrow>
     ctxs w' = (ctxs w)(c \<mapsto> s')
     \<and> dseg bnext bprev (blks w') 0 (gblocks g') 0 \<and> distinct (gblocks g')
     \<and> (\<forall>b \<in> set (gblocks g') \<inter> set (gblocks (G c)).
          map_option core (blks w' b) = map_option core (blks w b) \<and> gtiles g' b = gtiles (G c) b)
     \<and> (\<forall>b \<in> set (gblocks g') - set (gblocks (G c)). blks w b = None \<and> ctxs w b = None)
     \<and> (\<forall>b \<in> set (gblocks (G c)) - set (gblocks g'). blks w' b = None)
     \<and> (\<forall>b. b \<notin> set (gblocks g') \<longrightarrow> b \<notin> set (gblocks (G c)) \<longrightarrow> blks w' b = blks w b)"

lemma relistedD:
  assumes "relisted G w c s' g' w'"
  shows "ctxs w' = (ctxs w)(c \<mapsto> s')"
    and "b \<in> set (gblocks g') \<Longrightarrow> b \<in> set (gblocks (G c))
      \<Longrightarrow> map_option core (blks w' b) = map_option core (blks w b)"
    and "b \<in> set (gblocks g') \<Longrightarrow> b \<in> set (gblocks (G c)) \<Longrightarrow> gtiles g' b = gtiles (G c) b"
    and "b \<in> set (gblocks g') \<Longrightarrow> b \<notin> set (gblocks (G c)) \<Longrightarrow> blks w b = None \<and> ctxs w b = None"
    and "b \<in> set (gblocks (G c)) \<Longrightarrow> b \<notin> set (gblocks g') \<Longrightarrow> blks w' b = None"
    and "b \<notin> set (gblocks g') \<Longrightarrow> b \<notin> set (gblocks (G c)) \<Longrightarrow> blks w' b = blks w b"
  using assms unfolding relisted_def by blast+

lemma relisted_blocks_ok:
  assumes ok: "heap_ok G w" and c: "ctxs w c = Some s" and rl: "relisted G w c s' g' w'"
    and keep: "KeeperBlock c \<in> set (gblocks g')"
    and reg: "\<And>b n. b \<in> set (gblocks g') \<Longrightarrow> b \<in> set (gblocks (G c)) \<Longrightarrow> (base c b, n) \<in> set (regions w)
      \<Longrightarrow> (base c b, n) \<in> set (regions w')"
    and mem: "\<And>a. a \<in> footprint (blks w) (G c) \<Longrightarrow> mem w' a = mem w a"
    and new: "\<And>b. b \<in> set (gblocks g') \<Longrightarrow> b \<notin> set (gblocks (G c))
      \<Longrightarrow> \<exists>k. blks w' b = Some k \<and> block_ok (set (regions w')) (mem w') c b k (gtiles g' b)"
  shows "blocks_ok (set (regions w')) (mem w') (blks w') c g'"
proof -
  have "\<exists>k. blks w' b = Some k \<and> block_ok (set (regions w')) (mem w') c b k (gtiles g' b)"
    if b: "b \<in> set (gblocks g')" for b
  proof (cases "b \<in> set (gblocks (G c))")
    case True
    show ?thesis
      unfolding relistedD(3)[OF rl b True]
      by (rule block_kept[where B' = "blks w'", OF ok c True relistedD(2)[OF rl b True] reg[OF b True] mem])
  qed (rule new[OF b])
  moreover have "gtiles g' (KeeperBlock c) \<noteq> None"
    using heap_okD(2)[OF ok c] relistedD(3)[OF rl keep] by (simp add: aset_ok_def blocks_ok_def)
  ultimately show ?thesis using rl keep by (simp add: blocks_ok_def relisted_def)
qed

lemma relisted_update:
  assumes ok: "heap_ok G w" and c: "ctxs w c = Some s" and rl: "relisted G w c s' g' w'"
    and regs: "regions_ok (regions w')"
    and aset': "aset_ok (set (regions w')) (mem w') (blks w') c s' g'"
    and reg: "\<And>d t b n. d \<noteq> c \<Longrightarrow> ctxs w d = Some t \<Longrightarrow> b \<in> set (gblocks (G d))
      \<Longrightarrow> (base d b, n) \<in> set (regions w) \<Longrightarrow> (base d b, n) \<in> set (regions w')"
    and mem: "\<And>d t a. d \<noteq> c \<Longrightarrow> ctxs w d = Some t \<Longrightarrow> a \<in> footprint (blks w) (G d)
      \<Longrightarrow> mem w' a = mem w a"
  shows "heap_ok (G(c := g')) w'"
    and "chunks (G(c := g')) w' = other_chunks G w c \<union> chunks_of (blks w') c g'"
    and "\<And>d t b. d \<noteq> c \<Longrightarrow> ctxs w d = Some t \<Longrightarrow> b \<in> set (gblocks (G d)) \<Longrightarrow> blks w' b = blks w b"
proof -
  show other: "blks w' b = blks w b" if "d \<noteq> c" "ctxs w d = Some t" "b \<in> set (gblocks (G d))" for d t b
  proof (rule relistedD(6)[OF rl])
    show "b \<notin> set (gblocks (G c))" by (rule other_block[OF ok c that(2,1,3)])
    then show "b \<notin> set (gblocks g')"
      using relistedD(4)[OF rl, of b] heap_ok_block[OF ok that(2,3)] by (metis option.distinct(1))
  qed
  have noblk: "blks w' d = None" if d: "ctxs w' d \<noteq> None" for d
  proof -
    have cd: "ctxs w d \<noteq> None" using d c relistedD(1)[OF rl] by (auto split: if_splits)
    then have "blks w d = None" using heap_okD(3)[OF ok] by auto
    moreover from this have "d \<notin> set (gblocks (G c))"
      using heap_ok_block[OF ok c, of d] by (metis option.distinct(1))
    ultimately show ?thesis using relistedD(4,6)[OF rl, of d] cd by metis
  qed
  have own: "blks w b = Some k \<and> aset k \<noteq> c" if b: "blks w' b = Some k" "b \<notin> set (gblocks g')" for b k
    using relistedD(5,6)[OF rl, of b] b heap_okD(4)[OF ok, of b k] by (metis option.distinct(1))
  show "heap_ok (G(c := g')) w'"
    and "chunks (G(c := g')) w' = other_chunks G w c \<union> chunks_of (blks w') c g'"
    by (rule heap_ok_update[OF ok regs relistedD(1)[OF rl] aset']; fact noblk other own reg mem)+
qed

lemma relisted_foreign:
  assumes ok: "heap_ok G w" and c: "ctxs w c = Some s" and rl: "relisted G w c s' g' w'"
    and other: "\<And>d t b. d \<noteq> c \<Longrightarrow> ctxs w d = Some t \<Longrightarrow> b \<in> set (gblocks (G d)) \<Longrightarrow> blks w' b = blks w b"
    and step: "\<And>a. foreign G w a \<Longrightarrow> in_region w' a 1 \<and> mem w' a = mem w a"
    and new: "\<And>a b. foreign G w a \<Longrightarrow> b \<in> set (gblocks g') \<Longrightarrow> b \<notin> set (gblocks (G c))
      \<Longrightarrow> a \<notin> extent (blks w') c b"
  shows "same_foreign G w (G(c := g')) w'"
proof (rule same_foreign_update[OF c relistedD(1)[OF rl] other])
  fix a assume f: "foreign G w a"
  have "a \<notin> extent (blks w') c b" if b: "b \<in> set (gblocks g')" for b
  proof (cases "b \<in> set (gblocks (G c))")
    case True
    then show ?thesis
      using foreign_extent[OF f c True] extent_core[of "blks w'" b "blks w" c, OF relistedD(2)[OF rl b True]] by simp
  qed (rule new[OF f b])
  then show "in_region w' a 1 \<and> (\<forall>b \<in> set (gblocks g'). a \<notin> extent (blks w') c b) \<and> mem w' a = mem w a"
    using step[OF f] by blast
qed

lemma relisted_units:
  assumes "relisted G w c s' g' w'" and "b \<in> set (gblocks g')" and "b \<in> set (gblocks (G c))"
  shows "block_units (blks w') g' b = block_units (blks w) (G c) b"
  using block_units_core[of "blks w'" b "blks w" "G c", OF relistedD(2)[OF assms]] relistedD(3)[OF assms]
  by (simp add: block_units_def cong: option.case_cong)

lemma relisted_sizes:
  assumes "relisted G w c s' g' w'" and "X \<subseteq> set (gblocks g')" and "X \<subseteq> set (gblocks (G c))"
  shows "(\<Sum>b \<in> X. block_size (blks w') c b) = (\<Sum>b \<in> X. block_size (blks w) c b)"
proof (rule sum.cong[OF refl])
  fix b assume "b \<in> X"
  then have "b \<in> set (gblocks g')" "b \<in> set (gblocks (G c))" using assms by blast+
  from relistedD(2)[OF assms(1) this] show "block_size (blks w') c b = block_size (blks w) c b"
    by (rule block_size_core)
qed

section \<open>Adding a block\<close>

text \<open>
  A context gets a new block with one chunk: the whole block is a single large chunk, or it is an
  active block and the chunk is its first.
\<close>

definition first_size :: "nat \<Rightarrow> (addr \<times> nat) list option \<Rightarrow> nat" where
  "first_size n t = (case t of None \<Rightarrow> n - 48 | Some ts \<Rightarrow> class_size (snd (hd ts)))"

definition block_added :: "(addr \<Rightarrow> ghost) \<Rightarrow> world \<Rightarrow> addr \<Rightarrow> AllocSetContext \<Rightarrow> addr \<Rightarrow> nat
    \<Rightarrow> (addr \<times> nat) list option \<Rightarrow> addr list \<Rightarrow> AllocBlockData \<Rightarrow> world \<Rightarrow> bool" where
  "block_added G w c s b n t bs K w' \<longleftrightarrow>
     admissible (regions w) b n \<and> regions w' = (b, n) # regions w
     \<and> ctxs w' = (ctxs w)(c \<mapsto> s\<lparr>blocks := first bs 0, mem_allocated := mem_allocated s + of_nat n\<rparr>)
     \<and> (\<forall>a. \<not> (b \<le> a \<and> a < b + n) \<longrightarrow> mem w' a = mem w a)
     \<and> blks w' b = Some K \<and> aset K = c \<and> endptr K = b + n
     \<and> block_ok (set (regions w')) (mem w') c b K t \<and> (t = None \<or> (\<exists>k. t = Some [(b + 40, k)]))
     \<and> (\<forall>b' \<in> set (gblocks (G c)). map_option core (blks w' b') = map_option core (blks w b'))
     \<and> (\<forall>b'. b' \<notin> set (gblocks (G c)) \<longrightarrow> b' \<noteq> b \<longrightarrow> blks w' b' = blks w b')
     \<and> dseg bnext bprev (blks w') 0 bs 0 \<and> distinct bs \<and> set bs = insert b (set (gblocks (G c)))"

definition with_block :: "addr \<Rightarrow> (addr \<times> nat) list option \<Rightarrow> addr list \<Rightarrow> ghost \<Rightarrow> ghost" where
  "with_block b t bs g = g\<lparr>gblocks := bs, gtiles := (gtiles g)(b := t)\<rparr>"

lemma added_fresh:
  assumes ok: "heap_ok G w" and c: "ctxs w c = Some s" and ad: "block_added G w c s b n t bs K w'"
  shows "0 < n" and "blks w b = None" and "ctxs w b = None" and "base c b = b"
    and "ctxs w d = Some u \<Longrightarrow> b \<notin> set (gblocks (G d))"
    and "ctxs w d = Some u \<Longrightarrow> b' \<in> set (gblocks (G d)) \<Longrightarrow> a \<in> extent (blks w) d b' \<Longrightarrow> mem w' a = mem w a"
    and "ctxs w d = Some u \<Longrightarrow> a \<in> footprint (blks w) (G d) \<Longrightarrow> mem w' a = mem w a"
proof -
  have adm: "admissible (regions w) b n" and m': "\<And>a. \<not> (b \<le> a \<and> a < b + n) \<Longrightarrow> mem w' a = mem w a"
    using ad by (simp_all add: block_added_def)
  show pos: "0 < n" using adm by (simp add: admissible_def)
  then show "blks w b = None" "ctxs w b = None" using fresh_structs[OF ok adm, of b] by simp_all
  note ext = fresh_extent[OF ok _ _ adm]
  show nb: "b \<notin> set (gblocks (G d))" if "ctxs w d = Some u" for d u
    using ext[OF that, of b b] block_in_extent[OF ok that, of b] pos by auto
  show em: "mem w' a = mem w a"
    if "ctxs w d = Some u" "b' \<in> set (gblocks (G d))" "a \<in> extent (blks w) d b'" for d u b' a
    using ext[OF that] by (rule m')
  show "mem w' a = mem w a" if "ctxs w d = Some u" "a \<in> footprint (blks w) (G d)" for d u a
    using footprint_extent[OF ok that(1)] that em by blast
  show "base c b = b" using heap_ok_keeper[OF ok c] nb[OF c] by (auto simp: base_def IsKeeperBlock_def)
qed

lemma added_relisted:
  assumes ok: "heap_ok G w" and c: "ctxs w c = Some s" and ad: "block_added G w c s b n t bs K w'"
  shows "relisted G w c (s\<lparr>blocks := first bs 0, mem_allocated := mem_allocated s + of_nat n\<rparr>)
    (with_block b t bs (G c)) w'"
  using ad added_fresh[OF ok c ad] c by (auto simp: relisted_def block_added_def with_block_def)

lemma added_units:
  assumes ok: "heap_ok G w" and c: "ctxs w c = Some s" and ad: "block_added G w c s b n t bs K w'"
  shows "units (blks w') (with_block b t bs (G c)) = insert (b + 40, first_size n t) (units (blks w) (G c))"
    and "tiles (G c) \<subseteq> tiles (with_block b t bs (G c))"
    and "b + 40 \<notin> free_chunks (G c)"
proof -
  let ?g = "with_block b t bs (G c)"
  note rl = added_relisted[OF assms] and fr = added_fresh[OF assms]
  have bs: "set (gblocks ?g) = insert b (set (gblocks (G c)))"
    using ad by (simp add: block_added_def with_block_def)
  have "block_units (blks w') ?g b = {(b + 40, first_size n t)}"
    using ad by (auto simp: block_units_def block_added_def with_block_def first_size_def)
  moreover have "block_units (blks w') ?g b' = block_units (blks w) (G c) b'" if "b' \<in> set (gblocks (G c))" for b'
    by (rule relisted_units[OF rl _ that]) (use bs that in simp)
  ultimately show "units (blks w') ?g = insert (b + 40, first_size n t) (units (blks w) (G c))"
    unfolding units_def bs by simp
  show "tiles (G c) \<subseteq> tiles ?g"
    using bs fr(5)[OF c] by (auto simp: tiles_def with_block_def)
  show "b + 40 \<notin> free_chunks (G c)"
  proof
    assume "b + 40 \<in> free_chunks (G c)"
    then obtain j where "(b + 40, j) \<in> units (blks w) (G c)"
      using free_chunk_unit heap_okD(2)[OF ok c] unfolding aset_ok_def by blast
    then obtain b' where b': "b' \<in> set (gblocks (G c))" "{b + 40 ..< b + 40 + 8 + j} \<subseteq> extent (blks w) c b'"
      using unit_in_block[OF ok c] block_units_extent by metis
    then have "b + 40 \<in> extent (blks w) c b'" by auto
    moreover have "40 < n" using ad by (auto simp: block_added_def block_ok_def dest: tiled_le)
    ultimately show False
      using fresh_extent[OF ok c b'(1), of b n "b + 40"] ad by (simp add: block_added_def)
  qed
qed

lemma added_aset_ok:
  assumes ok: "heap_ok G w" and c: "ctxs w c = Some s" and nr: "\<not> isReset s"
    and ad: "block_added G w c s b n t bs K w'"
  shows "aset_ok (set (regions w')) (mem w') (blks w') c
    (s\<lparr>blocks := first bs 0, mem_allocated := mem_allocated s + of_nat n\<rparr>) (with_block b t bs (G c))"
proof -
  let ?g = "with_block b t bs (G c)"
  have A: "aset_ok (set (regions w)) (mem w) (blks w) c s (G c)" by (rule heap_okD(2)[OF ok c])
  note rl = added_relisted[OF ok c ad] and fr = added_fresh[OF ok c ad]
  note ad' = ad[unfolded block_added_def]
  have bs: "gblocks ?g = bs" "set bs = insert b (set (gblocks (G c)))" "gfree ?g = gfree (G c)"
    using ad' by (simp_all add: with_block_def)
  have "blocks_ok (set (regions w')) (mem w') (blks w') c ?g"
    by (rule relisted_blocks_ok[OF ok c rl])
      (use ad' heap_ok_keeper[OF ok c] fr(7)[OF c] bs in \<open>auto simp: with_block_def\<close>)
  moreover have "frees_ok (mem w') (freelist s) (G c)"
    by (rule frees_ok_cong[of "mem w"]) (use A fr(7)[OF c] in \<open>auto simp: aset_ok_def footprint_def\<close>)
  then have "frees_ok (mem w') (freelist s) ?g"
    using added_units(2)[OF ok c ad] bs(3) by (auto simp: frees_ok_def)
  moreover have "(\<Sum>b \<in> set bs. block_size (blks w') c b)
      = n + (\<Sum>b \<in> set (gblocks (G c)). block_size (blks w) c b)"
  proof -
    have "block_size (blks w') c b = n" using ad' fr(4) by (simp add: block_size_def)
    moreover have "(\<Sum>b \<in> set (gblocks (G c)). block_size (blks w') c b)
        = (\<Sum>b \<in> set (gblocks (G c)). block_size (blks w) c b)"
      by (rule relisted_sizes[OF rl]) (use bs in auto)
    ultimately show ?thesis using bs fr(5)[OF c] by simp
  qed
  ultimately show ?thesis using A bs nr by (simp add: aset_ok_def params_ok_def)
qed

lemma heap_add_block:
  assumes ok: "heap_ok G w" and c: "ctxs w c = Some s" and nr: "\<not> isReset s"
    and ad: "block_added G w c s b n t bs K w'" and g': "g' = with_block b t bs (G c)"
  shows "heap_ok (G(c := g')) w'"
    and "chunks (G(c := g')) w' = insert (b + 48, c, first_size n t) (chunks G w)"
    and "same_data (chunks G w) w w'"
    and "same_foreign G w (G(c := g')) w'"
proof -
  note rl = added_relisted[OF ok c ad] and fr = added_fresh[OF ok c ad]
  note ad' = ad[unfolded block_added_def]
  have regs: "regions_ok (regions w')" using heap_okD(1)[OF ok] ad' by simp
  note up = relisted_update[OF ok c rl regs added_aset_ok[OF ok c nr ad], folded g']
  have reg: "(base d b', j) \<in> set (regions w')" if "(base d b', j) \<in> set (regions w)" for d b' j
    using that ad' by simp
  show "heap_ok (G(c := g')) w'" by (rule up(1)) (use reg fr(7) in blast)+
  have "chunks (G(c := g')) w' = other_chunks G w c \<union> chunks_of (blks w') c g'"
    by (rule up(2)) (use reg fr(7) in blast)+
  moreover have "chunks_of (blks w') c g' = insert (b + 48, c, first_size n t) (chunks_of (blks w) c (G c))"
    using added_units(1,3)[OF ok c ad]
    by (auto simp: chunks_of_def g' with_block_def free_chunks_def add.commute)
  ultimately show "chunks (G(c := g')) w' = insert (b + 48, c, first_size n t) (chunks G w)"
    unfolding chunks_split[OF c, of G] by auto
  show "same_data (chunks G w) w w'"
  proof (rule same_dataI)
    fix p d j a assume p: "(p, d, j) \<in> chunks G w" "p \<le> a" "a < p + j"
    then obtain x u where x: "p = x + 8" "ctxs w d = Some u" "(x, j) \<in> units (blks w) (G d)"
      by (auto simp: chunks_iff)
    obtain b' where "b' \<in> set (gblocks (G d))" "{x ..< x + 8 + j} \<subseteq> extent (blks w) d b'"
      using unit_in_block[OF ok x(2,3)] block_units_extent by metis
    moreover have "a \<in> {x ..< x + 8 + j}" using p(2,3) x(1) by simp
    ultimately show "mem w' a = mem w a" using fr(6)[OF x(2), of b' a] by blast
  qed
  have away: "\<not> (b \<le> a \<and> a < b + n) \<and> in_region w' a 1" if "foreign G w a" for a
    using that ad' by (auto simp: foreign_def in_region_iff admissible_def overlaps_def list_all_iff)
  show "same_foreign G w (G(c := g')) w'"
    unfolding g'
  proof (rule relisted_foreign[OF ok c rl])
    show "blks w' b' = blks w b'" if "d \<noteq> c" "ctxs w d = Some u" "b' \<in> set (gblocks (G d))" for d u b'
      using up(3)[OF _ _ that] reg fr(7) by blast
    show "in_region w' a 1 \<and> mem w' a = mem w a" if "foreign G w a" for a
      using away[OF that] ad' by blast
    show "a \<notin> extent (blks w') c b'"
      if "foreign G w a" "b' \<in> set (gblocks (with_block b t bs (G c)))" "b' \<notin> set (gblocks (G c))" for a b'
      using away[OF that(1)] that(2,3) ad' fr(4) by (auto simp: with_block_def extent_def)
  qed
qed

text \<open>A new block between the blocks \<open>xs\<close> and \<open>ys\<close> of a context.\<close>

lemma linked_block_added:
  assumes ok: "heap_ok G w" and c: "ctxs w c = Some s" and list: "gblocks (G c) = xs @ ys"
    and adm: "admissible (regions w) b n"
    and K: "bprev K = last (0 # xs)" "bnext K = first ys 0" "aset K = c" "endptr K = b + n"
    and w': "regions w' = (b, n) # regions w"
      "ctxs w' = (ctxs w)(c \<mapsto> s\<lparr>blocks := first (xs @ b # ys) 0, mem_allocated := mem_allocated s + of_nat n\<rparr>)"
      "blks w' = bl.surgery (bprev K) b (bnext K) b ((blks w)(b \<mapsto> K))"
    and m': "\<And>a. \<not> (b \<le> a \<and> a < b + n) \<Longrightarrow> mem w' a = mem w a"
    and bok: "block_ok (set (regions w')) (mem w') c b K t" "t = None \<or> (\<exists>k. t = Some [(b + 40, k)])"
  shows "block_added G w c s b n t (xs @ b # ys) K w'"
proof -
  have A: "aset_ok (set (regions w)) (mem w) (blks w) c s (G c)" by (rule heap_okD(2)[OF ok c])
  then have seg: "dseg bnext bprev (blks w) 0 (xs @ ys) 0" "distinct (xs @ ys)"
    by (simp_all add: aset_ok_def blocks_ok_def list)
  have b0: "b \<noteq> 0" "0 < n" using adm by (simp_all add: admissible_def)
  have fresh: "blks w b = None" using fresh_structs[OF ok adm, of b] b0 by simp
  then have bn: "b \<notin> set (xs @ ys)"
    using heap_ok_block[OF ok c, of b] list by (metis option.distinct(1))
  then have dist: "distinct (xs @ b # ys)" using seg(2) by auto
  have "dseg bnext bprev (blks w') 0 (xs @ b # ys) 0"
    unfolding w'(3) by (rule bl.insert[OF seg(1) dist K(1,2) b0(1)])
  moreover have B': "blks w' b' = ((blks w)(b \<mapsto> K)) b'" if "b' \<notin> set (xs @ ys)" for b'
    unfolding w'(3) K(1,2) by (rule bl.splice_other[OF that])
  moreover have "map_option core (blks w' b') = map_option core (blks w b')" if "b' \<in> set (xs @ ys)" for b'
  proof -
    have "map_option core (blks w' b') = map_option core (((blks w)(b \<mapsto> K)) b')"
      unfolding w'(3) by (rule bl.surgery_keeps) (simp_all add: core_def)
    then show ?thesis using that bn by auto
  qed
  ultimately show ?thesis
    using B'[OF bn] assms(4-) dist by (auto simp: block_added_def list)
qed

section \<open>Removing a block\<close>

lemma base_neq:
  assumes ok: "heap_ok G w" and c: "ctxs w c = Some s" and d: "ctxs w d = Some t"
    and b: "b \<in> set (gblocks (G c))" and b': "b' \<in> set (gblocks (G d))" and "b \<noteq> b'"
  shows "base c b \<noteq> base d b'"
proof
  assume eq: "base c b = base d b'"
  have *: "base c b \<in> extent (blks w) c b" "base d b' \<in> extent (blks w) d b'"
    using block_in_extent[OF ok c b] block_in_extent[OF ok d b'] base_le[of c b] base_le[of d b']
    by (auto simp: extent_def)
  then show False using eq extent_disjoint[OF ok c d b b' \<open>b \<noteq> b'\<close>] by auto
qed

lemma large_block:
  assumes ok: "heap_ok G w" and c: "ctxs w c = Some s" and b: "b \<in> set (gblocks (G c))"
    and t: "gtiles (G c) b = None"
  obtains K where "blks w b = Some K" "aset K = c" "base c b = b" "\<not> IsKeeperBlock c b"
    "freeptr K = endptr K" "b + 48 \<le> endptr K" "endptr K < 2 ^ 64"
    "external_hdr (mem w) (b + 40) MCTX_ASET_ID" "(b, endptr K - b) \<in> set (regions w)"
    "(b + 40, endptr K - (b + 48)) \<in> units (blks w) (G c)" "b + 40 \<notin> free_chunks (G c)"
    "(b + 48, c, endptr K - (b + 48)) \<in> chunks G w" "\<not> isReset s" "8 dvd b" "b \<noteq> 0"
proof -
  obtain K where K: "blks w b = Some K"
      "block_ok (set (regions w)) (mem w) c b K (gtiles (G c) b)"
      "(base c b, endptr K - base c b) \<in> set (regions w)"
      "endptr K < 2 ^ 64" "8 dvd b" "aset K = c" "base c b \<noteq> 0"
    by (rule heap_ok_block[OF ok c b])
  then have nk: "\<not> IsKeeperBlock c b" and le: "freeptr K = endptr K" "b + 48 \<le> endptr K"
      "external_hdr (mem w) (b + 40) MCTX_ASET_ID"
    using t by (auto simp: block_ok_def)
  have base: "base c b = b" using nk by (simp add: base_def)
  have bu: "(b + 40, endptr K - (b + 48)) \<in> block_units (blks w) (G c) b"
    using t K(1) by (auto simp: block_units_def)
  then have u: "(b + 40, endptr K - (b + 48)) \<in> units (blks w) (G c)"
    using b by (auto simp: units_def)
  have nf: "b + 40 \<notin> free_chunks (G c)"
  proof
    assume "b + 40 \<in> free_chunks (G c)"
    then obtain k where k: "(b + 40, k) \<in> tiles (G c)"
      using free_unit_size(2)[OF ok c u] by blast
    then obtain b' ts where b': "b' \<in> set (gblocks (G c))" "gtiles (G c) b' = Some ts" "(b + 40, k) \<in> set ts"
      by (auto simp: tiles_def)
    obtain K' where K': "blks w b' = Some K'" "block_ok (set (regions w)) (mem w) c b' K' (gtiles (G c) b')"
      by (rule heap_ok_block[OF ok c b'(1)])
    have "(b + 40, class_size k) \<in> block_units (blks w) (G c) b'"
      using b' by (auto simp: block_units_def)
    from block_units_extent[OF K'(2,1) this] block_units_extent[OF K(2,1) bu]
    have "b + 40 \<in> extent (blks w) c b'" "b + 40 \<in> extent (blks w) c b" by auto
    moreover have "b \<noteq> b'" using t b'(2) by auto
    ultimately show False using extent_disjoint[OF ok c c b b'(1)] by blast
  qed
  have "aset_ok (set (regions w)) (mem w) (blks w) c s (G c)" by (rule heap_okD(2)[OF ok c])
  then have "\<not> isReset s"
    using b nk by (auto simp: aset_ok_def params_ok_def pristine_def IsKeeperBlock_def)
  moreover have "(b + 48, c, endptr K - (b + 48)) \<in> chunks G w"
    unfolding chunks_iff using u nf c by (intro exI[of _ "b + 40"]) auto
  ultimately show ?thesis using that[of K] K nk le base u nf by auto
qed

definition block_removed :: "(addr \<Rightarrow> ghost) \<Rightarrow> world \<Rightarrow> addr \<Rightarrow> AllocSetContext \<Rightarrow> addr
    \<Rightarrow> addr list \<Rightarrow> AllocBlockData \<Rightarrow> world \<Rightarrow> bool" where
  "block_removed G w c s b bs K w' \<longleftrightarrow>
     b \<in> set (gblocks (G c)) \<and> gtiles (G c) b = None \<and> blks w b = Some K
     \<and> regions w' = filter (\<lambda>r. fst r \<noteq> b) (regions w) \<and> mem w' = mem w \<and> blks w' b = None
     \<and> ctxs w' = (ctxs w)(c \<mapsto> s\<lparr>blocks := first bs 0,
                                  mem_allocated := mem_allocated s - of_nat (endptr K - b)\<rparr>)
     \<and> (\<forall>b' \<in> set (gblocks (G c)) - {b}. map_option core (blks w' b') = map_option core (blks w b'))
     \<and> (\<forall>b'. b' \<notin> set (gblocks (G c)) \<longrightarrow> blks w' b' = blks w b')
     \<and> dseg bnext bprev (blks w') 0 bs 0 \<and> distinct bs \<and> set bs = set (gblocks (G c)) - {b}"

lemma removed_relisted:
  assumes "block_removed G w c s b bs K w'"
  shows "relisted G w c (s\<lparr>blocks := first bs 0, mem_allocated := mem_allocated s - of_nat (endptr K - b)\<rparr>)
    ((G c)\<lparr>gblocks := bs\<rparr>) w'"
  using assms by (auto simp: relisted_def block_removed_def)

lemma removed_aset_ok:
  assumes ok: "heap_ok G w" and c: "ctxs w c = Some s" and rm: "block_removed G w c s b bs K w'"
    and reg: "\<And>b' n. b' \<in> set bs \<Longrightarrow> (base c b', n) \<in> set (regions w) \<Longrightarrow> (base c b', n) \<in> set (regions w')"
  shows "aset_ok (set (regions w')) (mem w') (blks w') c
    (s\<lparr>blocks := first bs 0, mem_allocated := mem_allocated s - of_nat (endptr K - b)\<rparr>)
    ((G c)\<lparr>gblocks := bs\<rparr>)"
proof -
  let ?g = "(G c)\<lparr>gblocks := bs\<rparr>"
  note rl = removed_relisted[OF rm] and rm' = rm[unfolded block_removed_def]
  have b: "b \<in> set (gblocks (G c))" "gtiles (G c) b = None" using rm' by simp_all
  obtain K0 where K0: "blks w b = Some K0" "base c b = b" "\<not> IsKeeperBlock c b" "\<not> isReset s"
    by (rule large_block[OF ok c b])
  have A: "aset_ok (set (regions w)) (mem w) (blks w) c s (G c)" by (rule heap_okD(2)[OF ok c])
  have "blocks_ok (set (regions w')) (mem w') (blks w') c ?g"
    by (rule relisted_blocks_ok[OF ok c rl])
      (use rm' reg heap_ok_keeper[OF ok c] K0(3) in \<open>auto simp: IsKeeperBlock_def\<close>)
  moreover have "tiles ?g = tiles (G c)" using rm' by (auto simp: tiles_def)
  then have "frees_ok (mem w') (freelist s) ?g" using A rm' by (simp add: frees_ok_def aset_ok_def)
  moreover have "mem_allocated s - of_nat (endptr K - b) = of_nat (\<Sum>b' \<in> set bs. block_size (blks w') c b')"
  proof -
    have "(\<Sum>b' \<in> set (gblocks (G c)). block_size (blks w) c b')
        = block_size (blks w) c b + (\<Sum>b' \<in> set bs. block_size (blks w) c b')"
      using sum.remove[OF finite_set b(1)] rm' by simp
    moreover have "block_size (blks w) c b = endptr K - b" using rm' K0(2) by (simp add: block_size_def)
    moreover have "(\<Sum>b' \<in> set bs. block_size (blks w') c b') = (\<Sum>b' \<in> set bs. block_size (blks w) c b')"
      by (rule relisted_sizes[OF rl]) (use rm' in auto)
    ultimately show ?thesis using A by (simp add: aset_ok_def)
  qed
  ultimately show ?thesis using A K0(4) by (simp add: aset_ok_def params_ok_def)
qed

lemma removed_units:
  assumes ok: "heap_ok G w" and c: "ctxs w c = Some s" and rm: "block_removed G w c s b bs K w'"
  shows "units (blks w') ((G c)\<lparr>gblocks := bs\<rparr>) = units (blks w) (G c) - {(b + 40, endptr K - (b + 48))}"
proof -
  let ?g = "(G c)\<lparr>gblocks := bs\<rparr>" and ?u = "(b + 40, endptr K - (b + 48))"
  note rm' = rm[unfolded block_removed_def]
  have b: "b \<in> set (gblocks (G c))" "gtiles (G c) b = None" using rm' by simp_all
  have at: "block_units (blks w) (G c) b = {?u}" using rm' by (simp add: block_units_def)
  have disj: "?u \<notin> block_units (blks w) (G c) b'" if b': "b' \<in> set bs" for b'
  proof
    assume u: "?u \<in> block_units (blks w) (G c) b'"
    have b'': "b' \<in> set (gblocks (G c))" "b \<noteq> b'" using b' rm' by auto
    obtain K' where K': "blks w b' = Some K'" "block_ok (set (regions w)) (mem w) c b' K' (gtiles (G c) b')"
      by (rule heap_ok_block[OF ok c b''(1)])
    obtain L where L: "blks w b = Some L" "block_ok (set (regions w)) (mem w) c b L (gtiles (G c) b)"
      by (rule heap_ok_block[OF ok c b(1)])
    have "?u \<in> block_units (blks w) (G c) b" using at by simp
    from block_units_extent[OF K'(2,1) u] block_units_extent[OF L(2,1) this]
    have "b + 40 \<in> extent (blks w) c b'" "b + 40 \<in> extent (blks w) c b" by auto
    then show False using extent_disjoint[OF ok c c b(1) b''] by blast
  qed
  have "set (gblocks (G c)) = insert b (set bs)" using rm' by auto
  then have "units (blks w) (G c) = {?u} \<union> (\<Union>b' \<in> set bs. block_units (blks w) (G c) b')"
    using at by (simp add: units_def)
  moreover have "block_units (blks w') ?g b' = block_units (blks w) (G c) b'" if "b' \<in> set bs" for b'
    by (rule relisted_units[OF removed_relisted[OF rm]]) (use that rm' in auto)
  then have "units (blks w') ?g = (\<Union>b' \<in> set bs. block_units (blks w) (G c) b')"
    by (simp add: units_def)
  ultimately show ?thesis using disj by auto
qed

lemma heap_remove_block:
  assumes ok: "heap_ok G w" and c: "ctxs w c = Some s" and rm: "block_removed G w c s b bs K w'"
    and g': "g' = (G c)\<lparr>gblocks := bs\<rparr>"
  shows "heap_ok (G(c := g')) w'"
    and "chunks (G(c := g')) w' = chunks G w - {(b + 48, c, endptr K - (b + 48))}"
    and "same_foreign G w (G(c := g')) w'"
proof -
  note rl = removed_relisted[OF rm] and rm' = rm[unfolded block_removed_def]
  have b: "b \<in> set (gblocks (G c))" "gtiles (G c) b = None" using rm' by simp_all
  obtain K0 where K0: "blks w b = Some K0" "base c b = b" "b + 40 \<notin> free_chunks (G c)"
      "(b, endptr K0 - b) \<in> set (regions w)"
    by (rule large_block[OF ok c b])
  have reg: "(base d b', n) \<in> set (regions w')"
    if "ctxs w d = Some t" "b' \<in> set (gblocks (G d))" "b' \<noteq> b" "(base d b', n) \<in> set (regions w)" for d t b' n
    using base_neq[OF ok c that(1) b(1) that(2)] K0(2) that(3,4) rm' by simp
  have regs: "regions_ok (regions w')" using heap_okD(1)[OF ok] rm' by (simp add: regions_ok_filter)
  note up = relisted_update[OF ok c rl regs removed_aset_ok[OF ok c rm], folded g']
  have other: "(base d b', j) \<in> set (regions w')"
    if "d \<noteq> c" "ctxs w d = Some t" "b' \<in> set (gblocks (G d))" "(base d b', j) \<in> set (regions w)" for d t b' j
    using other_block[OF ok c that(2,1,3)] b(1) by (intro reg[OF that(2,3) _ that(4)]) auto
  have own: "(base c b', j) \<in> set (regions w')" if "b' \<in> set bs" "(base c b', j) \<in> set (regions w)" for b' j
    by (rule reg[OF c _ _ that(2)]) (use that(1) rm' in auto)
  show "heap_ok (G(c := g')) w'" by (rule up(1)) (use other own rm' in auto)
  have "chunks (G(c := g')) w' = other_chunks G w c \<union> chunks_of (blks w') c g'"
    by (rule up(2)) (use other own rm' in auto)
  moreover have "chunks_of (blks w') c g' = chunks_of (blks w) c (G c) - {(b + 48, c, endptr K - (b + 48))}"
    using K0(3) removed_units[OF ok c rm] by (auto simp: chunks_of_def g' free_chunks_def)
  ultimately show "chunks (G(c := g')) w' = chunks G w - {(b + 48, c, endptr K - (b + 48))}"
    unfolding chunks_split[OF c, of G] by (auto simp: other_chunks_def)
  show "same_foreign G w (G(c := g')) w'"
    unfolding g'
  proof (rule relisted_foreign[OF ok c rl])
    show "blks w' b' = blks w b'" if "d \<noteq> c" "ctxs w d = Some u" "b' \<in> set (gblocks (G d))" for d u b'
      using other_block[OF ok c that(2,1,3)] rm' by blast
    fix a assume f: "foreign G w a"
    then obtain r j where r: "(r, j) \<in> set (regions w)" "r \<le> a" "a < r + j"
      by (auto simp: foreign_def in_region_iff)
    have "r \<noteq> b"
      using regions_ok_start[OF heap_okD(1)[OF ok] r(1)] K0(4) r(2,3) foreign_extent[OF f c b(1)] K0(1,2)
      by (auto simp: extent_def)
    then show "in_region w' a 1 \<and> mem w' a = mem w a"
      using r rm' by (intro conjI in_regionI[of r j]) auto
  qed (use rm' in auto)
qed

end
