(* ===== verification/AllocProofs.thy ===== *)
theory AllocProofs
  imports HeapSteps
begin

text \<open>
  Correctness of allocation in an allocation set: \<open>AllocSetAlloc\<close> returns a chunk that was not in
  use, in the right context, large enough, and leaves all other chunks and their data alone; or it
  reports the error the size or \<open>malloc\<close> calls for. In particular no assertion of the code fails,
  no access leaves the live regions and the loops end.
\<close>

section \<open>What an operation may do\<close>

text \<open>The fields of a context that only the operations on its blocks touch, blanked out.\<close>

definition client_view :: "AllocSetContext \<Rightarrow> AllocSetContext" where
  "client_view s = s\<lparr>mem_allocated := 0, blocks := 0, freelist := [], nextBlockSize := 0\<rparr>"

definition same_rest :: "world \<Rightarrow> world \<Rightarrow> bool" where
  "same_rest w w' \<longleftrightarrow>
     (\<forall>d. map_option client_view (ctxs w' d) = map_option client_view (ctxs w d))
     \<and> calls w' = calls w \<and> context_freelists w' = context_freelists w
     \<and> CurrentMemoryContext w' = CurrentMemoryContext w \<and> TopMemoryContext w' = TopMemoryContext w
     \<and> ErrorContext w' = ErrorContext w"

text \<open>
  \<open>evolves G w X G' w'\<close>: the invariant holds afterwards, the data behind the chunks \<open>X\<close>, everything
  outside the library's blocks and everything but the blocks of the contexts is as before.
\<close>

definition evolves :: "(addr \<Rightarrow> ghost) \<Rightarrow> world \<Rightarrow> (addr \<times> addr \<times> nat) set
    \<Rightarrow> (addr \<Rightarrow> ghost) \<Rightarrow> world \<Rightarrow> bool" where
  "evolves G w X G' w' \<longleftrightarrow>
     heap_ok G' w' \<and> same_data X w w' \<and> same_foreign G w G' w' \<and> same_rest w w'"

lemma same_rest_refl [simp]: "same_rest w w"
  by (simp add: same_rest_def)

lemma same_rest_trans: "same_rest w w' \<Longrightarrow> same_rest w' w'' \<Longrightarrow> same_rest w w''"
  by (simp add: same_rest_def)

lemma same_data_refl [simp]: "same_data X w w"
  by (auto simp: same_data_def)

lemma same_data_trans: "same_data X w w' \<Longrightarrow> same_data X w' w'' \<Longrightarrow> same_data X w w''"
  by (fastforce simp: same_data_def)

lemma same_data_mono: "same_data X w w' \<Longrightarrow> Y \<subseteq> X \<Longrightarrow> same_data Y w w'"
  unfolding same_data_def by blast

lemma evolves_trans:
  "evolves G w X G' w' \<Longrightarrow> evolves G' w' Y G'' w'' \<Longrightarrow> X \<subseteq> Y \<Longrightarrow> evolves G w X G'' w''"
  unfolding evolves_def
  by (meson same_data_mono same_data_trans same_foreign_trans same_rest_trans)

lemma evolves_trans':
  "evolves G w X G' w' \<Longrightarrow> evolves G' w' Y G'' w'' \<Longrightarrow> Y \<subseteq> X \<Longrightarrow> evolves G w Y G'' w''"
  unfolding evolves_def
  by (meson same_data_mono same_data_trans same_foreign_trans same_rest_trans)

lemma evolves_refl: "heap_ok G w \<Longrightarrow> evolves G w X G w"
  by (simp add: evolves_def)

lemma same_rest_ctx:
  assumes "same_rest w w'" and "ctxs w c = Some s"
  obtains s' where "ctxs w' c = Some s'" and "client_view s' = client_view s"
proof -
  have "map_option client_view (ctxs w' c) = Some (client_view s)"
    using assms by (simp add: same_rest_def)
  then show ?thesis using that by auto
qed

lemma client_view_fields:
  assumes "client_view s' = client_view s"
  shows "isReset s' = isReset s" "ctx_type s' = ctx_type s" "methods s' = methods s"
    "parent s' = parent s" "firstchild s' = firstchild s" "prevchild s' = prevchild s"
    "nextchild s' = nextchild s" "reset_cbs s' = reset_cbs s" "freeListIndex s' = freeListIndex s"
    "initBlockSize s' = initBlockSize s" "maxBlockSize s' = maxBlockSize s"
    "allocChunkLimit s' = allocChunkLimit s" "ident s' = ident s" "ctx_name s' = ctx_name s"
    "allowInCritSection s' = allowInCritSection s"
  using assms by (cases s; cases s'; simp add: client_view_def AllocSetContext.defs)+

text \<open>Nothing happened to the chunks.\<close>

definition unchanged :: "(addr \<Rightarrow> ghost) \<Rightarrow> world \<Rightarrow> (addr \<Rightarrow> ghost) \<Rightarrow> world \<Rightarrow> bool" where
  "unchanged G w G' w' \<longleftrightarrow> evolves G w (chunks G w) G' w' \<and> chunks G' w' = chunks G w"

text \<open>A new chunk at \<open>p\<close> with room for \<open>sz\<close> bytes, in context \<open>c\<close>.\<close>

definition allocated :: "(addr \<Rightarrow> ghost) \<Rightarrow> world \<Rightarrow> addr \<Rightarrow> Size \<Rightarrow> addr
    \<Rightarrow> (addr \<Rightarrow> ghost) \<Rightarrow> world \<Rightarrow> bool" where
  "allocated G w c sz p G' w' \<longleftrightarrow>
     evolves G w (chunks G w) G' w' \<and> p \<noteq> 0
     \<and> (\<exists>n. unat sz \<le> n \<and> (\<forall>d j. (p, d, j) \<notin> chunks G w)
           \<and> chunks G' w' = insert (p, c, n) (chunks G w))"

lemma unchanged_refl: "heap_ok G w \<Longrightarrow> unchanged G w G w"
  by (simp add: unchanged_def evolves_refl)

lemma unchanged_trans: "unchanged G w G' w' \<Longrightarrow> unchanged G' w' G'' w'' \<Longrightarrow> unchanged G w G'' w''"
  unfolding unchanged_def by (metis evolves_trans order_refl)

lemma unchanged_allocated:
  "unchanged G w G' w' \<Longrightarrow> allocated G' w' c sz p G'' w'' \<Longrightarrow> allocated G w c sz p G'' w''"
  unfolding unchanged_def allocated_def by (metis evolves_trans order_refl)

lemma unchanged_heap: "unchanged G w G' w' \<Longrightarrow> heap_ok G' w'"
  by (simp add: unchanged_def evolves_def)

text \<open>The state of the invariant does not matter beyond these fields.\<close>

lemma heap_ok_fields:
  assumes "regions w' = regions w" "mem w' = mem w" "ctxs w' = ctxs w" "blks w' = blks w"
  shows "heap_ok G w' = heap_ok G w" and "chunks G w' = chunks G w"
    and "same_data X w w'" and "same_foreign G w G w'"
  using assms
  by (simp_all add: heap_ok_def chunks_def same_data_def same_foreign_def foreign_def lib_bytes_def
      in_region_def)

section \<open>Sizes as words\<close>

lemma unat_class:
  assumes "k < 11"
  shows "unat (GetChunkSizeFromFreeListIdx (int k)) = class_size k"
    and "unat (GetChunkSizeFromFreeListIdx (int k) + of_nat ALLOC_CHUNKHDRSZ) = class_size k + 8"
    and "unat (GetChunkSizeFromFreeListIdx (int k) + of_nat ALLOC_BLOCKHDRSZ + of_nat ALLOC_CHUNKHDRSZ)
      = class_size k + 48"
proof -
  show u: "unat (GetChunkSizeFromFreeListIdx (int k)) = class_size k"
    using unat_chunk_size[of k] assms by (simp add: class_size_def)
  have "class_size k \<le> 8192" using class_size_bounds[OF assms] by simp
  then show "unat (GetChunkSizeFromFreeListIdx (int k) + of_nat ALLOC_CHUNKHDRSZ) = class_size k + 8"
    "unat (GetChunkSizeFromFreeListIdx (int k) + of_nat ALLOC_BLOCKHDRSZ + of_nat ALLOC_CHUNKHDRSZ)
      = class_size k + 48"
    using u by (simp_all add: unat_word_ariths)
qed

lemma AllocSetFreeIndex_class:
  assumes "unat sz \<le> 8192"
  obtains k where "k < 11" and "AllocSetFreeIndex sz = Inr (int k)"
    and "unat sz \<le> class_size k" and "k = 0 \<or> class_size (k - 1) < unat sz"
proof -
  obtain k where k: "k < 11" "AllocSetFreeIndex sz = Inr (int k)"
    "unat sz \<le> 2 ^ (k + 3)" "k = 0 \<or> 2 ^ (k + 2) < unat sz"
    by (rule AllocSetFreeIndex_eq[OF assms])
  moreover have "k = 0 \<or> class_size (k - 1) = 2 ^ (k + 2)" by (cases k) (simp_all add: class_size_def power_add)
  ultimately show ?thesis
    by (intro that[of k]) (auto simp: class_size_def)
qed

section \<open>malloc\<close>

lemma malloc_cases:
  obtains (fail) as where "malloc n w = (0, w\<lparr>answers := as\<rparr>)"
    | (ok) a as where "malloc n w = (a, w\<lparr>answers := as, regions := (a, unat n) # regions w\<rparr>)"
        "admissible (regions w) a (unat n)" "a \<noteq> 0"
proof (cases "answers w")
  case Nil
  then have "w\<lparr>answers := []\<rparr> = w" by simp
  with Nil show ?thesis by (intro fail[of "[]"]) (simp add: malloc_def)
next
  case (Cons a as)
  show ?thesis
  proof (cases "admissible (regions w) a (unat n)")
    case True
    with Cons show ?thesis by (intro ok[of a as]) (auto simp: malloc_def admissible_def)
  next
    case False
    with Cons show ?thesis by (intro fail[of as]) (simp add: malloc_def)
  qed
qed

lemma malloc_block_eq:
  assumes "unat required \<le> unat blksize"
  obtains (fail) bs as where "malloc_block required blksize w = Inr (0, bs, w\<lparr>answers := as\<rparr>)"
    | (ok) b bs as where
        "malloc_block required blksize w
           = Inr (b, bs, w\<lparr>answers := as, regions := (b, unat bs) # regions w\<rparr>)"
        "admissible (regions w) b (unat bs)" "b \<noteq> 0"
        "unat required \<le> unat bs" "unat bs \<le> unat blksize"
proof -
  define R :: "addr \<Rightarrow> Size \<Rightarrow> world \<Rightarrow> bool" where "R = (\<lambda>b bs v. (\<exists>as. b = 0 \<and> v = w\<lparr>answers := as\<rparr>)
      \<or> (\<exists>as. b \<noteq> 0 \<and> v = w\<lparr>answers := as, regions := (b, unat bs) # regions w\<rparr>
            \<and> admissible (regions w) b (unat bs)))"
  have mal: "R (fst (malloc bs v)) bs (snd (malloc bs v))" if "v = w\<lparr>answers := as\<rparr>" for bs v as
    by (rule malloc_cases[of bs v]) (use that in \<open>auto simp: R_def\<close>)
  let ?P = "\<lambda>(b, bs, brk :: bool, v). R b bs v \<and> (b \<noteq> 0 \<longrightarrow> unat required \<le> unat bs)
     \<and> unat bs \<le> unat blksize"
  let ?m = "\<lambda>(b :: addr, bs :: Size, brk, v :: world). if brk then 0 else Suc (unat bs)"
  obtain b bs v where m: "malloc blksize w = (b, v)" by fastforce
  have "\<exists>t. loopE (\<lambda>(block, blksize, brk, w). block = 0 \<and> blksize > 1024 * 1024 \<and> \<not> brk)
        (\<lambda>(block, blksize, brk, w).
           let blksize = drop_bit 1 blksize in
           if blksize < required then Inr (block, blksize, True, w)
           else let (block, w) = malloc blksize w in Inr (block, blksize, brk, w))
        (b, blksize, False, v) = Inr t \<and> ?P t \<and>
        \<not> (\<lambda>(block, blksize :: Size, brk, w). block = 0 \<and> blksize > 1024 * 1024 \<and> \<not> brk) t"
  proof (rule loopE_total[where m = ?m])
    show "?P (b, blksize, False, v)"
      using mal[of w "answers w" blksize] m assms by simp
  next
    fix s assume P: "?P s"
      and g: "(\<lambda>(block, blksize :: Size, brk, w). block = 0 \<and> blksize > 1024 * 1024 \<and> \<not> brk) s"
    obtain b bs brk v where s: "s = (b, bs, brk, v)" by (cases s)
    with P g obtain as where v: "v = w\<lparr>answers := as\<rparr>" "b = 0" "\<not> brk" "unat bs \<le> unat blksize"
        "1024 * 1024 < bs"
      by (auto simp: R_def)
    have half: "unat (drop_bit 1 bs) = unat bs div 2" by (simp add: drop_bit_eq_div unat_div)
    have big: "0 < unat bs" using v(5) by (simp add: word_less_nat_alt)
    obtain b' v' where m': "malloc (drop_bit 1 bs) v = (b', v')" by fastforce
    show "\<exists>s'. (\<lambda>(block, blksize, brk, w).
           let blksize = drop_bit 1 blksize in
           if blksize < required then Inr (block, blksize, True, w)
           else let (block, w) = malloc blksize w in Inr (block, blksize, brk, w)) s = Inr s'
         \<and> ?P s' \<and> ?m s' < ?m s"
    proof (cases "drop_bit 1 bs < required")
      case True
      have "R 0 (drop_bit 1 bs) v" using v(1) by (auto simp: R_def)
      with True half v(2-4) show ?thesis
        by (intro exI[of _ "(0, drop_bit 1 bs, True, v)"]) (simp add: s)
    next
      case False
      have "R b' (drop_bit 1 bs) v'" using mal[OF v(1), of "drop_bit 1 bs"] m' by simp
      moreover have "unat required \<le> unat (drop_bit 1 bs)" using False by (simp add: word_less_nat_alt)
      ultimately show ?thesis
        using False half big v(2-4) m'
        by (intro exI[of _ "(b', drop_bit 1 bs, False, v')"]) (simp add: s)
    qed
  qed
  then obtain b' bs' brk v' where run: "malloc_block required blksize w = Inr (b', bs', v')"
      and R: "R b' bs' v'" "b' \<noteq> 0 \<Longrightarrow> unat required \<le> unat bs'" "unat bs' \<le> unat blksize"
    by (auto simp: malloc_block_def m)
  from R(1) show ?thesis
    unfolding R_def using fail ok run R(2,3) by blast
qed

section \<open>Chunks from a block\<close>

lemma block_facts:
  assumes ok: "heap_ok G w" and c: "ctxs w c = Some s" and b: "b \<in> set (gblocks (G c))"
    and ts: "gtiles (G c) b = Some ts" and K: "blks w b = Some K"
  shows "b + 40 \<le> freeptr K" and "freeptr K \<le> endptr K" and "endptr K < 2 ^ 64"
    and "endptr K - b < 2 ^ 30" and "8 dvd freeptr K" and "8 dvd b" and "b \<noteq> 0" and "aset K = c"
    and "freeptr K \<le> a \<Longrightarrow> a + n \<le> endptr K \<Longrightarrow> in_region w a n"
proof -
  obtain K0 where K0: "blks w b = Some K0"
      "block_ok (set (regions w)) (mem w) c b K0 (gtiles (G c) b)"
      "(base c b, endptr K0 - base c b) \<in> set (regions w)" "b + 40 \<le> freeptr K0"
      "freeptr K0 \<le> endptr K0" "endptr K0 < 2 ^ 64" "8 dvd b" "base c b \<noteq> 0" "aset K0 = c"
    by (rule heap_ok_block[OF ok c b])
  then have eq: "K0 = K" using K by simp
  show "b + 40 \<le> freeptr K" "freeptr K \<le> endptr K" "endptr K < 2 ^ 64" "8 dvd b" "aset K = c"
    using K0 eq by auto
  show "b \<noteq> 0" using K0(8) base_le[of c b] by auto
  have t: "tiled (mem w) b (b + 40) ts (freeptr K)" and "endptr K - b < 2 ^ 30"
    using K0(2) eq ts by (simp_all add: block_ok_def)
  then show "endptr K - b < 2 ^ 30" by simp
  have "8 dvd b + 40" using K0(7) by presburger
  then show "8 dvd freeptr K" by (rule tiled_dvd[OF t])
  assume "freeptr K \<le> a" "a + n \<le> endptr K"
  then show "in_region w a n"
    using K0 eq base_le[of c b] by (intro in_regionI[OF K0(3)]) auto
qed

text \<open>The header of a chunk that is about to be cut off.\<close>

lemma SetHdrMask_gap:
  assumes ok: "heap_ok G w" and c: "ctxs w c = Some s" and b: "b \<in> set (gblocks (G c))"
    and ts: "gtiles (G c) b = Some ts" and K: "blks w b = Some K" and k: "k < 11"
    and room: "freeptr K + 8 + class_size k \<le> endptr K" and w': "regions w' = regions w"
  shows "MemoryChunkSetHdrMask (freeptr K) b (of_nat k) MCTX_ASET_ID w'
    = Inr (w'\<lparr>mem := store64 (mem w') (freeptr K)
        (hdrmask_of (of_nat (freeptr K - b)) (of_nat k) MCTX_ASET_ID)\<rparr>)"
proof (rule MemoryChunkSetHdrMask_ok)
  note f = block_facts[OF ok c b ts K]
  show "b \<le> freeptr K" "freeptr K - b < 2 ^ 30" using f(1,2,4) by linarith+
  show "even (freeptr K - b)" using f(5,6) by (auto elim!: dvdE)
  show "(of_nat k :: Size) \<le> MEMORYCHUNK_MAX_VALUE"
    using k by (simp add: word_le_nat_alt MEMORYCHUNK_MAX_VALUE_def unat_of_nat)
  show "in_region w' (freeptr K) 8"
    using f(9)[of "freeptr K" 8] room w' by (simp add: in_region_def)
qed

text \<open>The state after the header is written, and after the chunk is put on its freelist.\<close>

definition cut_chunk :: "addr \<Rightarrow> AllocBlockData \<Rightarrow> nat \<Rightarrow> world \<Rightarrow> world" where
  "cut_chunk b K k w =
     w\<lparr>blks := (blks w)(b \<mapsto> K\<lparr>freeptr := freeptr K + 8 + class_size k\<rparr>),
       mem := store64 (mem w) (freeptr K)
         (hdrmask_of (of_nat (freeptr K - b)) (of_nat k) MCTX_ASET_ID)\<rparr>"

definition filed_chunk :: "addr \<Rightarrow> AllocSetContext \<Rightarrow> nat \<Rightarrow> addr \<Rightarrow> world \<Rightarrow> world" where
  "filed_chunk c s k x w =
     w\<lparr>mem := store64 (mem w) (x + 8) (of_nat (freelist s ! k)),
       ctxs := (ctxs w)(c \<mapsto> s\<lparr>freelist := (freelist s)[k := x]\<rparr>)\<rparr>"

lemma cut_chunk_cut:
  "b \<in> set (gblocks (G c)) \<Longrightarrow> gtiles (G c) b = Some ts \<Longrightarrow> blks w b = Some K \<Longrightarrow> k < 11
   \<Longrightarrow> freeptr K + 8 + class_size k \<le> endptr K \<Longrightarrow> tile_cut G w c b ts K k (cut_chunk b K k w)"
  by (simp add: tile_cut_def cut_chunk_def)

lemma filed_chunk_fields:
  "regions (filed_chunk c s k x w) = regions w" "blks (filed_chunk c s k x w) = blks w"
  "ctxs (filed_chunk c s k x w) = (ctxs w)(c \<mapsto> s\<lparr>freelist := (freelist s)[k := x]\<rparr>)"
  "mem (filed_chunk c s k x w) = store64 (mem w) (x + 8) (of_nat (freelist s ! k))"
  by (simp_all add: filed_chunk_def)

lemma AllocSetAllocChunkFromBlock_run:
  assumes K: "blks w b = Some K" and k: "k < 11" and room: "freeptr K + 8 + class_size k \<le> endptr K"
    and hdr: "MemoryChunkSetHdrMask (freeptr K) b (of_nat k) MCTX_ASET_ID
        (w\<lparr>blks := (blks w)(b \<mapsto> K\<lparr>freeptr := freeptr K + 8 + class_size k\<rparr>)\<rparr>) = Inr (cut_chunk b K k w)"
  shows "AllocSetAllocChunkFromBlock c b sz' (GetChunkSizeFromFreeListIdx (int k)) (int k) w
    = Inr (freeptr K + 8, cut_chunk b K k w)"
  using K room hdr
  by (simp add: AllocSetAllocChunkFromBlock_def get_blk_def upd_blk_def unat_class[OF k] Let_def
      add.assoc[symmetric] add.commute[of _ 8] MemoryChunkGetPointer_def sizeof_MemoryChunk_def del: sizes)

lemma AllocSetAllocChunkFromBlock_ok:
  assumes ok: "heap_ok G w" and c: "ctxs w c = Some s" and nr: "\<not> isReset s"
    and b: "b \<in> set (gblocks (G c))" and ts: "gtiles (G c) b = Some ts" and K: "blks w b = Some K"
    and k: "k < 11" and room: "freeptr K + 8 + class_size k \<le> endptr K"
    and sz: "unat sz \<le> class_size k"
  shows "\<exists>G' w'. AllocSetAllocChunkFromBlock c b sz' (GetChunkSizeFromFreeListIdx (int k)) (int k) w
      = Inr (freeptr K + 8, w') \<and> allocated G w c sz (freeptr K + 8) G' w'"
proof -
  have cut: "tile_cut G w c b ts K k (cut_chunk b K k w)" by (rule cut_chunk_cut) fact+
  let ?w' = "cut_chunk b K k w" and ?g = "with_tile b ts (freeptr K) k (G c)"
  have run: "AllocSetAllocChunkFromBlock c b sz' (GetChunkSizeFromFreeListIdx (int k)) (int k) w
      = Inr (freeptr K + 8, ?w')"
    by (rule AllocSetAllocChunkFromBlock_run[OF K k room])
      (simp add: SetHdrMask_gap[OF ok c b ts K k room, simplified] cut_chunk_def)
  note step = heap_extend_tile[OF ok c nr cut refl]
  have "(freeptr K + 8, d, j) \<notin> chunks G w" for d j
  proof
    assume "(freeptr K + 8, d, j) \<in> chunks G w"
    then obtain t where "ctxs w d = Some t" "(freeptr K, j) \<in> units (blks w) (G d)"
      by (auto simp: chunks_iff)
    then show False using gap_no_unit[OF ok c b K, of "freeptr K" d t "freeptr K" j] room by simp
  qed
  then have "allocated G w c sz (freeptr K + 8) (G(c := ?g)) ?w'"
    using step sz by (auto simp: allocated_def evolves_def same_rest_def cut_chunk_def)
  with run show ?thesis by blast
qed

section \<open>Carving up the rest of a block\<close>

text \<open>What holds of the old active block while it is carved up.\<close>

definition carving :: "(addr \<Rightarrow> ghost) \<Rightarrow> world \<Rightarrow> addr \<Rightarrow> addr \<Rightarrow> Size \<times> world \<Rightarrow> bool" where
  "carving G w c b = (\<lambda>(avail, w'). \<exists>G' K ts.
     unchanged G w G' w' \<and> b \<in> set (gblocks (G' c)) \<and> gtiles (G' c) b = Some ts
     \<and> blks w' b = Some K \<and> unat avail = endptr K - freeptr K \<and> unat avail \<le> 8200)"

text \<open>The class that a piece of free space is cut to: the largest that fits.\<close>

lemma carve_class:
  assumes "16 \<le> unat avail" and "unat avail \<le> 8200"
  obtains k where "k < 11" and "class_size k + 8 \<le> unat avail"
    and "seqE (AllocSetFreeIndex (avail - of_nat ALLOC_CHUNKHDRSZ)) (\<lambda>a_fidx.
       if avail - of_nat ALLOC_CHUNKHDRSZ \<noteq> GetChunkSizeFromFreeListIdx a_fidx
       then seqE (assertE (a_fidx - 1 \<ge> 0)) (\<lambda>_.
              Inr (a_fidx - 1, GetChunkSizeFromFreeListIdx (a_fidx - 1)))
       else Inr (a_fidx, avail - of_nat ALLOC_CHUNKHDRSZ))
     = Inr (int k, GetChunkSizeFromFreeListIdx (int k))"
proof -
  have u: "unat (avail - of_nat ALLOC_CHUNKHDRSZ) = unat avail - 8"
    using assms by (simp add: unat_sub word_le_nat_alt)
  then have "unat (avail - of_nat ALLOC_CHUNKHDRSZ) \<le> 8192" using assms by simp
  then obtain k where k: "k < 11" "AllocSetFreeIndex (avail - of_nat ALLOC_CHUNKHDRSZ) = Inr (int k)"
    "unat (avail - of_nat ALLOC_CHUNKHDRSZ) \<le> class_size k"
    "k = 0 \<or> class_size (k - 1) < unat (avail - of_nat ALLOC_CHUNKHDRSZ)"
    by (rule AllocSetFreeIndex_class)
  show ?thesis
  proof (cases "avail - of_nat ALLOC_CHUNKHDRSZ = GetChunkSizeFromFreeListIdx (int k)")
    case True
    then have "class_size k = unat avail - 8" using u unat_class(1)[OF k(1)] by metis
    with True k(1,2) assms(1) show ?thesis by (intro that[of k]) auto
  next
    case False
    then have "unat avail - 8 \<noteq> class_size k" using u unat_class(1)[OF k(1)] by (metis word_unat_eq_iff)
    then have "k \<noteq> 0" using k(3) u assms(1) by (intro notI) (simp add: class_size_def)
    then have "int k - 1 = int (k - 1)" by simp
    moreover have "class_size (k - 1) < unat avail - 8" using k(4) \<open>k \<noteq> 0\<close> u by simp
    ultimately show ?thesis
      using False k(1,2) \<open>k \<noteq> 0\<close> by (intro that[of "k - 1"]) auto
  qed
qed

lemma carve_chunk_run:
  assumes ok: "heap_ok G w" and c: "ctxs w c = Some s"
    and b: "b \<in> set (gblocks (G c))" and ts: "gtiles (G c) b = Some ts" and K: "blks w b = Some K"
    and k: "k < 11" and room: "freeptr K + 8 + class_size k \<le> endptr K"
    and sel: "seqE (AllocSetFreeIndex (avail - of_nat ALLOC_CHUNKHDRSZ)) (\<lambda>a_fidx.
       if avail - of_nat ALLOC_CHUNKHDRSZ \<noteq> GetChunkSizeFromFreeListIdx a_fidx
       then seqE (assertE (a_fidx - 1 \<ge> 0)) (\<lambda>_.
              Inr (a_fidx - 1, GetChunkSizeFromFreeListIdx (a_fidx - 1)))
       else Inr (a_fidx, avail - of_nat ALLOC_CHUNKHDRSZ))
     = Inr (int k, GetChunkSizeFromFreeListIdx (int k))"
  shows "carve_chunk c b (avail, w)
    = Inr (avail - (GetChunkSizeFromFreeListIdx (int k) + of_nat ALLOC_CHUNKHDRSZ),
           filed_chunk c s k (freeptr K) (cut_chunk b K k w))"
proof -
  let ?x = "freeptr K"
  have reg: "in_region (cut_chunk b K k w) (?x + 8) 8"
    using block_facts(9)[OF ok c b ts K, of "?x + 8" 8] room class_size_bounds[OF k]
    by (simp add: in_region_def cut_chunk_def)
  have len: "length (freelist s) = 11" by (rule free_head(3)[OF ok c k])
  have "carve_chunk c b (avail, w) = seqE (Inr (int k, GetChunkSizeFromFreeListIdx (int k)))
      (\<lambda>(a_fidx, availchunk).
     seqE (get_blk w b) (\<lambda>k.
     let chunk = freeptr k in
     seqE (upd_blk b (\<lambda>k. k\<lparr>freeptr := freeptr k + unat (availchunk + of_nat ALLOC_CHUNKHDRSZ)\<rparr>)
             w) (\<lambda>w.
     seqE (MemoryChunkSetHdrMask chunk b (of_int a_fidx) MCTX_ASET_ID w) (\<lambda>w.
     seqE (get_ctx w c) (\<lambda>s.
     seqE (get_freelist s a_fidx) (\<lambda>head.
     seqE (store_ptr (GetFreeListLink chunk) head w) (\<lambda>w.
     seqE (set_freelist c a_fidx chunk w) (\<lambda>w.
       Inr (avail - (availchunk + of_nat ALLOC_CHUNKHDRSZ), w)))))))))"
    unfolding sel[symmetric] carve_chunk_def seqE_assoc Let_def prod.case ..
  also have "\<dots> = Inr (avail - (GetChunkSizeFromFreeListIdx (int k) + of_nat ALLOC_CHUNKHDRSZ),
      filed_chunk c s k ?x (cut_chunk b K k w))"
    using K c len k reg room
    by (simp add: get_blk_def upd_blk_def get_ctx_def unat_class[OF k] get_freelist_def
        set_freelist_def upd_ctx_def add.assoc[symmetric] add.commute[of _ 8]
        SetHdrMask_gap[OF ok c b ts K k room, simplified] store_ptr_def store64E_def
        cut_chunk_def filed_chunk_def Let_def del: sizes)
  finally show ?thesis .
qed

lemma carved_unchanged:
  assumes ok: "heap_ok G w" and c: "ctxs w c = Some s" and nr: "\<not> isReset s"
    and b: "b \<in> set (gblocks (G c))" and ts: "gtiles (G c) b = Some ts" and K: "blks w b = Some K"
    and k: "k < 11" and room: "freeptr K + 8 + class_size k \<le> endptr K"
  obtains g where "unchanged G w (G(c := g)) (filed_chunk c s k (freeptr K) (cut_chunk b K k w))"
    and "gblocks g = gblocks (G c)" and "gtiles g b = Some (ts @ [(freeptr K, k)])"
proof -
  let ?x = "freeptr K"
  have cut: "tile_cut G w c b ts K k (cut_chunk b K k w)" by (rule cut_chunk_cut) fact+
  let ?w2 = "cut_chunk b K k w" and ?w3 = "filed_chunk c s k ?x (cut_chunk b K k w)"
  define g2 where "g2 = with_tile b ts ?x k (G c)"
  define g3 where "g3 = g2\<lparr>gfree := (gfree g2)(k := ?x # gfree g2 k)\<rparr>"
  let ?G2 = "G(c := g2)"
  let ?G3 = "?G2(c := g3)"
  note step1 = heap_extend_tile[OF ok c nr cut g2_def]
  have s2: "ctxs ?w2 c = Some s" using c by (simp add: cut_chunk_def)
  have x2: "(?x, k) \<in> tiles (?G2 c)" "?x \<notin> free_chunks (?G2 c)"
    using step1(4,5) by (simp_all add: g2_def with_tile_def free_chunks_def)
  have g3: "g3 = (?G2 c)\<lparr>gfree := (gfree (?G2 c))(k := ?x # gfree (?G2 c) k)\<rparr>" by (simp add: g3_def)
  note step2 = heap_push_free[OF step1(1) s2 x2 filed_chunk_fields g3]
  have new: "(?x + 8, c, class_size k) \<notin> chunks G w"
    using gap_no_unit[OF ok c b K, of ?x c s ?x "class_size k"] room c by (auto simp: chunks_iff)
  have "unchanged G w ?G3 ?w3"
    unfolding unchanged_def
  proof
    show ch: "chunks ?G3 ?w3 = chunks G w"
      unfolding step2(2) step1(2) using new by blast
    have "same_data (chunks G w) ?w2 ?w3" using step2(3) unfolding step2(2)[symmetric] ch .
    then have "same_data (chunks G w) w ?w3" using step1(3) same_data_trans by blast
    moreover have "same_rest w ?w3"
      using c by (auto simp: same_rest_def filed_chunk_def cut_chunk_def client_view_def)
    ultimately show "evolves G w (chunks G w) ?G3 ?w3"
      using step2(1,4) step1(6) same_foreign_trans unfolding evolves_def by blast
  qed
  then have "unchanged G w (G(c := g3)) ?w3" by simp
  then show ?thesis by (rule that) (simp_all add: g3_def g2_def with_tile_def)
qed

lemma carve_chunk_ok:
  assumes inv: "carving G w c b (avail, w1)" and c: "ctxs w c = Some s" and nr: "\<not> isReset s"
    and avail: "16 \<le> unat avail"
  shows "\<exists>avail' w2. carve_chunk c b (avail, w1) = Inr (avail', w2)
    \<and> carving G w c b (avail', w2) \<and> unat avail' < unat avail"
proof -
  obtain G1 K ts where un: "unchanged G w G1 w1" and b: "b \<in> set (gblocks (G1 c))"
      and ts: "gtiles (G1 c) b = Some ts" and K: "blks w1 b = Some K"
      and av: "unat avail = endptr K - freeptr K" "unat avail \<le> 8200"
    using inv by (auto simp: carving_def)
  have ok: "heap_ok G1 w1" by (rule unchanged_heap[OF un])
  obtain s1 where s1: "ctxs w1 c = Some s1" "\<not> isReset s1"
    using same_rest_ctx[of w w1 c s] un c nr
    by (metis client_view_fields(1) evolves_def unchanged_def)
  obtain k where k: "k < 11" "class_size k + 8 \<le> unat avail"
    and sel: "seqE (AllocSetFreeIndex (avail - of_nat ALLOC_CHUNKHDRSZ)) (\<lambda>a_fidx.
       if avail - of_nat ALLOC_CHUNKHDRSZ \<noteq> GetChunkSizeFromFreeListIdx a_fidx
       then seqE (assertE (a_fidx - 1 \<ge> 0)) (\<lambda>_.
              Inr (a_fidx - 1, GetChunkSizeFromFreeListIdx (a_fidx - 1)))
       else Inr (a_fidx, avail - of_nat ALLOC_CHUNKHDRSZ))
     = Inr (int k, GetChunkSizeFromFreeListIdx (int k))"
    by (rule carve_class[OF avail av(2)])
  have room: "freeptr K + 8 + class_size k \<le> endptr K" using k(2) av(1) by linarith
  let ?avail' = "avail - (GetChunkSizeFromFreeListIdx (int k) + of_nat ALLOC_CHUNKHDRSZ)"
  let ?w3 = "filed_chunk c s1 k (freeptr K) (cut_chunk b K k w1)"
  obtain g where g: "unchanged G1 w1 (G1(c := g)) ?w3" "gblocks g = gblocks (G1 c)"
      "gtiles g b = Some (ts @ [(freeptr K, k)])"
    by (rule carved_unchanged[OF ok s1 b ts K k(1) room])
  have "unchanged G w (G1(c := g)) ?w3" by (rule unchanged_trans[OF un g(1)])
  moreover have "unat ?avail' = unat avail - (class_size k + 8)"
    using k(2) unat_class(2)[OF k(1)] by (simp add: unat_sub word_le_nat_alt)
  ultimately show ?thesis
    using carve_chunk_run[OF ok s1(1) b ts K k(1) room sel] k(2) av b room g(2,3)
    by (intro exI[of _ ?avail'] exI[of _ ?w3])
      (auto simp: carving_def filed_chunk_def cut_chunk_def)
qed

lemma carve_block_ok:
  assumes ok: "heap_ok G w" and c: "ctxs w c = Some s" and nr: "\<not> isReset s"
    and b: "b \<in> set (gblocks (G c))" and ts: "gtiles (G c) b = Some ts" and K: "blks w b = Some K"
    and small: "endptr K - freeptr K \<le> 8200"
  shows "\<exists>avail' G' w'. carve_block c b (ptr_diff (endptr K) (freeptr K), w) = Inr (avail', w')
    \<and> unchanged G w G' w'"
proof -
  note f = block_facts[OF ok c b ts K]
  have u: "unat (ptr_diff (endptr K) (freeptr K)) = endptr K - freeptr K"
    using f(2,3) by (intro unat_ptr_diff)
  let ?b = "\<lambda>(avail, w' :: world). avail \<ge> push_bit ALLOC_MINBITS 1 + of_nat ALLOC_CHUNKHDRSZ"
  have "\<exists>t. carve_block c b (ptr_diff (endptr K) (freeptr K), w) = Inr t \<and> carving G w c b t \<and> \<not> ?b t"
    unfolding carve_block_def
  proof (rule loopE_total[where m = "\<lambda>(avail, _). unat avail"])
    show "carving G w c b (ptr_diff (endptr K) (freeptr K), w)"
      using unchanged_refl[OF ok] b ts K u small unfolding carving_def by auto
  next
    fix t assume t: "carving G w c b t" "?b t"
    obtain avail w1 where [simp]: "t = (avail, w1)" by (cases t)
    have "16 \<le> unat avail" using t(2) by (simp add: word_le_nat_alt)
    then show "\<exists>s'. carve_chunk c b t = Inr s' \<and> carving G w c b s'
        \<and> (case s' of (avail, _) \<Rightarrow> unat avail) < (case t of (avail, _) \<Rightarrow> unat avail)"
      using carve_chunk_ok[of G w c b avail w1 s] t(1) c nr by fastforce
  qed
  then show ?thesis unfolding carving_def by fastforce
qed

section \<open>New blocks\<close>

text \<open>What an allocation may return besides a chunk: it ran out of memory.\<close>

definition out_of_memory :: "(addr \<Rightarrow> ghost) \<Rightarrow> world \<Rightarrow> Size \<Rightarrow> uint32 \<Rightarrow> error + addr \<times> world \<Rightarrow> bool" where
  "out_of_memory G w sz flags res \<longleftrightarrow>
     (if flags AND MCXT_ALLOC_NO_OOM = 0 then res = Inl (OutOfMemory sz)
      else \<exists>G' w'. res = Inr (0, w') \<and> unchanged G w G' w')"

definition alloc_spec :: "(addr \<Rightarrow> ghost) \<Rightarrow> world \<Rightarrow> addr \<Rightarrow> Size \<Rightarrow> uint32
    \<Rightarrow> error + addr \<times> world \<Rightarrow> bool" where
  "alloc_spec G w c sz flags res \<longleftrightarrow>
     (\<exists>p G' w'. res = Inr (p, w') \<and> allocated G w c sz p G' w')
     \<or> out_of_memory G w sz flags res"

lemma alloc_specI:
  "res = Inr (p, w') \<Longrightarrow> allocated G w c sz p G' w' \<Longrightarrow> alloc_spec G w c sz flags res"
  by (auto simp: alloc_spec_def)

lemma AllocationFailure_spec:
  "unchanged G w G' w' \<Longrightarrow> alloc_spec G w c sz flags (MemoryContextAllocationFailure c sz flags w')"
  by (auto simp: alloc_spec_def out_of_memory_def MemoryContextAllocationFailure_def)

lemma unchanged_alloc_spec:
  assumes "unchanged G w G' w'" and "alloc_spec G' w' c sz flags res"
  shows "alloc_spec G w c sz flags res"
proof -
  from assms(2) consider p G'' w'' where "res = Inr (p, w'')" "allocated G' w' c sz p G'' w''"
    | "out_of_memory G' w' sz flags res"
    by (auto simp: alloc_spec_def)
  then show ?thesis
  proof cases
    case 1
    then show ?thesis using unchanged_allocated[OF assms(1)] by (intro alloc_specI)
  next
    case 2
    then have "out_of_memory G w sz flags res"
      using unchanged_trans[OF assms(1)] by (auto simp: out_of_memory_def split: if_splits)
    then show ?thesis by (simp add: alloc_spec_def)
  qed
qed

lemma heap_set_next:
  assumes ok: "heap_ok G w" and c: "ctxs w c = Some s" and nr: "\<not> isReset s"
    and v: "unat (initBlockSize s) \<le> unat v" "unat v \<le> unat (maxBlockSize s)"
    and w': "w' = w\<lparr>ctxs := (ctxs w)(c \<mapsto> s\<lparr>nextBlockSize := v\<rparr>)\<rparr>"
  shows "unchanged G w G w'"
proof -
  have A: "aset_ok (set (regions w)) (mem w) (blks w) c s (G c)" by (rule heap_okD(2)[OF ok c])
  then have A': "aset_ok (set (regions w)) (mem w') (blks w') c (s\<lparr>nextBlockSize := v\<rparr>) (G c)"
    using v nr by (simp add: aset_ok_def params_ok_def w')
  have "heap_ok (G(c := G c)) w'" "same_foreign G w (G(c := G c)) w'"
      "chunks (G(c := G c)) w' = other_chunks G w c \<union> chunks_of (blks w') c (G c)"
    using heap_ok_local[OF ok c _ _ A'] by (simp_all add: w')
  moreover have "other_chunks G w c \<union> chunks_of (blks w') c (G c) = chunks G w"
    unfolding chunks_split[OF c, of G] by (simp add: w')
  moreover have "same_rest w w'"
    using c by (auto simp: same_rest_def w' client_view_def)
  moreover have "same_data X w w'" for X by (simp add: w' same_data_def)
  ultimately show ?thesis by (simp add: unchanged_def evolves_def)
qed

lemma advance_eq:
  assumes "unat (nextBlockSize s) \<le> unat (maxBlockSize s)" and "unat (maxBlockSize s) < 2 ^ 30"
  obtains v where "advance_nextBlockSize s = s\<lparr>nextBlockSize := v\<rparr>"
    and "unat (nextBlockSize s) \<le> unat v" and "unat v \<le> unat (maxBlockSize s)"
proof -
  have d: "unat (push_bit 1 (nextBlockSize s)) = 2 * unat (nextBlockSize s)"
    using assms by (simp add: push_bit_eq_mult unat_word_ariths)
  show ?thesis
  proof (cases "push_bit 1 (nextBlockSize s) > maxBlockSize s")
    case True
    then have "advance_nextBlockSize s = s\<lparr>nextBlockSize := maxBlockSize s\<rparr>"
      by (simp add: advance_nextBlockSize_def Let_def)
    then show ?thesis using that assms(1) by blast
  next
    case False
    then have "advance_nextBlockSize s = s\<lparr>nextBlockSize := push_bit 1 (nextBlockSize s)\<rparr>"
      by (simp add: advance_nextBlockSize_def Let_def)
    moreover have "unat (push_bit 1 (nextBlockSize s)) \<le> unat (maxBlockSize s)"
      using False by (simp add: word_less_nat_alt)
    ultimately show ?thesis using that d by simp
  qed
qed

lemma ctx_head:
  assumes ok: "heap_ok G w" and c: "ctxs w c = Some s"
  shows "blocks s \<in> set (gblocks (G c))" and "blocks s \<noteq> 0"
proof -
  have A: "aset_ok (set (regions w)) (mem w) (blks w) c s (G c)" by (rule heap_okD(2)[OF ok c])
  then have seg: "dseg bnext bprev (blks w) 0 (gblocks (G c)) 0" "blocks s = first (gblocks (G c)) 0"
    by (simp_all add: aset_ok_def blocks_ok_def)
  have "KeeperBlock c \<in> set (gblocks (G c))" by (rule heap_ok_keeper[OF ok c])
  then show "blocks s \<in> set (gblocks (G c))" "blocks s \<noteq> 0"
    using seg by (cases "gblocks (G c)"; auto)+
qed

lemma ctx_params:
  assumes ok: "heap_ok G w" and c: "ctxs w c = Some s"
  shows "params_ok c s (G c)"
  using heap_okD(2)[OF ok c] by (simp add: aset_ok_def)

lemma valid_ctx:
  assumes ok: "heap_ok G w" and c: "ctxs w c = Some s"
  shows "Assert_valid w c = Inr ()"
  using ctx_params[OF ok c] c by (intro Assert_valid_ok) (auto simp: params_ok_def)

lemma allocated_block:
  assumes ok: "heap_ok G w" and c: "ctxs w c = Some s" and nr: "\<not> isReset s"
    and ad: "block_added G w c s b n t bs K w'" and sz: "unat sz \<le> first_size n t"
    and rest: "calls w' = calls w" "context_freelists w' = context_freelists w"
      "CurrentMemoryContext w' = CurrentMemoryContext w" "TopMemoryContext w' = TopMemoryContext w"
      "ErrorContext w' = ErrorContext w"
  shows "allocated G w c sz (b + 48) (G(c := with_block b t bs (G c))) w'"
proof -
  note step = heap_add_block[OF ok c nr ad refl] and ad' = ad[unfolded block_added_def]
  have adm: "admissible (regions w) b n" using ad' by blast
  have "b + 48 < b + n + 8" using ad' by (auto simp: block_ok_def dest: tiled_le)
  then have "(b + 48, d, j) \<notin> chunks G w" for d j by (intro fresh_chunk[OF ok adm]) simp_all
  moreover have "same_rest w w'"
    using c rest ad' by (auto simp: same_rest_def client_view_def)
  ultimately show ?thesis using step sz by (auto simp: allocated_def evolves_def)
qed

text \<open>The end of \<open>AllocSetAllocFromNewBlock\<close>: the block is there, put it in front and cut off a chunk.\<close>

definition install_block :: "addr \<Rightarrow> addr \<Rightarrow> Size \<Rightarrow> world \<Rightarrow> error + world" where
  "install_block context block blksize w =
     seqE (upd_ctx context (\<lambda>s. s\<lparr>mem_allocated := mem_allocated s + blksize\<rparr>) w) (\<lambda>w.
     seqE (get_ctx w context) (\<lambda>s.
     let w = w\<lparr>blks := (blks w)(block \<mapsto>
               \<lparr>aset = context, bprev = 0, bnext = blocks s, freeptr = block + ALLOC_BLOCKHDRSZ,
                endptr = block + unat blksize\<rparr>)\<rparr> in
     seqE (if blocks s \<noteq> 0 then upd_blk (blocks s) (\<lambda>k. k\<lparr>bprev := block\<rparr>) w else Inr w) (\<lambda>w.
       upd_ctx context (\<lambda>s. s\<lparr>blocks := block\<rparr>) w)))"

text \<open>A block of \<open>n\<close> bytes at \<open>b\<close> in front of the blocks of \<open>c\<close>, its chunks ending at \<open>fp\<close>.\<close>

definition front_block :: "addr \<Rightarrow> AllocSetContext \<Rightarrow> addr \<Rightarrow> nat \<Rightarrow> addr \<Rightarrow> AllocBlockData" where
  "front_block c s b n fp = \<lparr>aset = c, bprev = 0, bnext = blocks s, freeptr = fp, endptr = b + n\<rparr>"

definition installed :: "world \<Rightarrow> addr \<Rightarrow> AllocSetContext \<Rightarrow> addr \<Rightarrow> Size \<Rightarrow> addr \<Rightarrow> addr list \<Rightarrow> world" where
  "installed w c s b n fp as =
     w\<lparr>answers := as, regions := (b, unat n) # regions w,
       blks := bl.surgery 0 b (blocks s) b ((blks w)(b \<mapsto> front_block c s b (unat n) fp)),
       ctxs := (ctxs w)(c \<mapsto> s\<lparr>blocks := b, mem_allocated := mem_allocated s + n\<rparr>)\<rparr>"

lemma install_block_run:
  assumes ok: "heap_ok G w" and c: "ctxs w c = Some s" and adm: "admissible (regions w) b (unat n)"
  shows "install_block c b n (w\<lparr>answers := as, regions := (b, unat n) # regions w\<rparr>)
      = Inr (installed w c s b n (b + 40) as)"
    and "cut_chunk b (front_block c s b (unat n) (b + 40)) k (installed w c s b n (b + 40) as)
      = (installed w c s b n (b + 48 + class_size k) as)\<lparr>mem := store64 (mem w) (b + 40)
          (hdrmask_of (of_nat 40) (of_nat k) MCTX_ASET_ID)\<rparr>"
    and "blks (installed w c s b n fp as) b = Some (front_block c s b (unat n) fp)"
proof -
  obtain kh where kh: "blks w (blocks s) = Some kh"
    using heap_ok_block[OF ok c ctx_head(1)[OF ok c]] by metis
  have "blks w b = None" using fresh_structs[OF ok adm, of b] adm by (simp add: admissible_def)
  then have h: "blocks s \<noteq> b" "blocks s \<noteq> 0" using kh ctx_head(2)[OF ok c] by auto
  have s': "s\<lparr>mem_allocated := m, blocks := b\<rparr> = s\<lparr>blocks := b, mem_allocated := m\<rparr>" for m
    by (rule AllocSetContext.equality) simp_all
  show "install_block c b n (w\<lparr>answers := as, regions := (b, unat n) # regions w\<rparr>)
      = Inr (installed w c s b n (b + 40) as)"
    using c kh h
    by (simp add: install_block_def upd_ctx_def get_ctx_def upd_blk_def Let_def installed_def front_block_def
        bl.surgery_def modify_def s')
  show "blks (installed w c s b n fp as) b = Some (front_block c s b (unat n) fp)"
    using h by (simp add: installed_def bl.surgery_def Let_def)
  show "cut_chunk b (front_block c s b (unat n) (b + 40)) k (installed w c s b n (b + 40) as)
      = (installed w c s b n (b + 48 + class_size k) as)\<lparr>mem := store64 (mem w) (b + 40)
          (hdrmask_of (of_nat 40) (of_nat k) MCTX_ASET_ID)\<rparr>"
    using h by (simp add: cut_chunk_def installed_def front_block_def bl.surgery_def modify_def Let_def
        fun_upd_twist add.assoc add.commute[of 8])
qed

lemma installed_added:
  assumes ok: "heap_ok G w" and c: "ctxs w c = Some s" and adm: "admissible (regions w) b (unat n)"
    and n: "class_size k + 48 \<le> unat n" "unat n < 2 ^ 30" and k: "k < 11"
  shows "block_added G w c s b (unat n) (Some [(b + 40, k)]) (b # gblocks (G c))
    (front_block c s b (unat n) (b + 48 + class_size k))
    ((installed w c s b n (b + 48 + class_size k) as)\<lparr>mem := store64 (mem w) (b + 40)
          (hdrmask_of (of_nat 40) (of_nat k) MCTX_ASET_ID)\<rparr>)"
    (is "block_added G w c s b _ ?t _ ?K ?w'")
proof -
  have head: "blocks s = first (gblocks (G c)) 0"
    using heap_okD(2)[OF ok c] by (simp add: aset_ok_def)
  have "regular_hdr (store64 (mem w) (b + 40) (hdrmask_of (of_nat ((b + 40) - b)) (of_nat k) MCTX_ASET_ID))
      (b + 40) b (of_nat k) MCTX_ASET_ID"
    by (rule regular_hdr_store)
      (use k in \<open>simp_all add: word_le_nat_alt MEMORYCHUNK_MAX_VALUE_def unat_of_nat\<close>)
  then have "tiled (mem ?w') b (b + 40) [(b + 40, k)] (b + 48 + class_size k)" using k by simp
  moreover have "b \<noteq> KeeperBlock c"
    using fresh_structs(1)[OF ok adm, of b] heap_ok_block[OF ok c heap_ok_keeper[OF ok c]] adm
    by (metis admissible_def le_refl less_add_same_cancel1 option.distinct(1))
  ultimately have "block_ok (set (regions ?w')) (mem ?w') c b ?K ?t"
    using n by (simp add: block_ok_def base_def IsKeeperBlock_def installed_def front_block_def)
  moreover have "mem ?w' a = mem w a" if "\<not> (b \<le> a \<and> a < b + unat n)" for a
    using that n(1) by (auto simp: store64_def)
  ultimately show ?thesis
    using linked_block_added[OF ok c, of "[]" "gblocks (G c)" b "unat n" ?K ?w' ?t] adm head
    by (simp add: installed_def front_block_def)
qed

lemma install_chunk_ok:
  assumes ok: "heap_ok G w" and c: "ctxs w c = Some s" and nr: "\<not> isReset s"
    and adm: "admissible (regions w) b (unat n)"
    and n: "class_size k + 48 \<le> unat n" "unat n < 2 ^ 30" and k: "k < 11" and sz: "unat sz \<le> class_size k"
  shows "\<exists>G' w'. seqE (install_block c b n (w\<lparr>answers := as, regions := (b, unat n) # regions w\<rparr>))
      (AllocSetAllocChunkFromBlock c b sz' (GetChunkSizeFromFreeListIdx (int k)) (int k)) = Inr (b + 48, w')
    \<and> allocated G w c sz (b + 48) G' w'"
proof -
  note run = install_block_run[OF ok c adm]
  let ?K = "front_block c s b (unat n) (b + 40)" and ?w1 = "installed w c s b n (b + 40) as"
  let ?w' = "(installed w c s b n (b + 48 + class_size k) as)\<lparr>mem := store64 (mem w) (b + 40)
          (hdrmask_of (of_nat 40) (of_nat k) MCTX_ASET_ID)\<rparr>"
  have fp: "freeptr ?K = b + 40" "endptr ?K = b + unat n" by (simp_all add: front_block_def)
  have "MemoryChunkSetHdrMask (freeptr ?K) b (of_nat k) MCTX_ASET_ID
        (?w1\<lparr>blks := (blks ?w1)(b \<mapsto> ?K\<lparr>freeptr := freeptr ?K + 8 + class_size k\<rparr>)\<rparr>) = Inr (cut_chunk b ?K k ?w1)"
  proof -
    have "in_region (?w1\<lparr>blks := B\<rparr>) (b + 40) 8" for B
      by (rule in_regionI[of b "unat n"]) (use n(1) in \<open>simp_all add: installed_def\<close>)
    then show ?thesis
      unfolding fp cut_chunk_def using k
      by (subst MemoryChunkSetHdrMask_ok)
        (simp_all add: word_le_nat_alt MEMORYCHUNK_MAX_VALUE_def unat_of_nat)
  qed
  from AllocSetAllocChunkFromBlock_run[OF run(3) k _ this, of c sz'] n(1)
  have "seqE (install_block c b n (w\<lparr>answers := as, regions := (b, unat n) # regions w\<rparr>))
      (AllocSetAllocChunkFromBlock c b sz' (GetChunkSizeFromFreeListIdx (int k)) (int k)) = Inr (b + 48, ?w')"
    by (simp add: run(1,2) fp)
  moreover have "allocated G w c sz (b + 48)
      (G(c := with_block b (Some [(b + 40, k)]) (b # gblocks (G c)) (G c))) ?w'"
    by (rule allocated_block[OF ok c nr installed_added[OF ok c adm n k]])
      (use sz in \<open>simp_all add: first_size_def installed_def\<close>)
  ultimately show ?thesis by blast
qed

lemma NewBlock_tail:
  "seqE (upd_ctx context (\<lambda>s. s\<lparr>mem_allocated := mem_allocated s + blksize\<rparr>) w) (\<lambda>w.
     seqE (get_ctx w context) (\<lambda>s.
     let w = w\<lparr>blks := (blks w)(block \<mapsto>
               \<lparr>aset = context, bprev = 0, bnext = blocks s, freeptr = block + ALLOC_BLOCKHDRSZ,
                endptr = block + unat blksize\<rparr>)\<rparr> in
     seqE (if blocks s \<noteq> 0 then upd_blk (blocks s) (\<lambda>k. k\<lparr>bprev := block\<rparr>) w else Inr w) (\<lambda>w.
     seqE (upd_ctx context (\<lambda>s. s\<lparr>blocks := block\<rparr>) w) (\<lambda>w. f w))))
   = seqE (install_block context block blksize w) f"
  by (simp only: install_block_def seqE_assoc Let_def)

lemma carve_head:
  assumes ok: "heap_ok G w" and c: "ctxs w c = Some s" and nr: "\<not> isReset s"
    and K: "blks w (blocks s) = Some K" and small: "endptr K - freeptr K \<le> 8200"
  shows "\<exists>avail' G' w'. carve_block c (blocks s) (ptr_diff (endptr K) (freeptr K), w) = Inr (avail', w')
    \<and> unchanged G w G' w'"
proof (cases "gtiles (G c) (blocks s)")
  case (Some ts)
  then show ?thesis using carve_block_ok[OF ok c nr ctx_head(1)[OF ok c] _ K small] by blast
next
  case None
  obtain K' where "blks w (blocks s) = Some K'" "freeptr K' = endptr K'" "endptr K' < 2 ^ 64"
    by (rule large_block[OF ok c ctx_head(1)[OF ok c] None])
  then have "ptr_diff (endptr K) (freeptr K) = 0" using K by (simp add: ptr_diff_def)
  then have "carve_block c (blocks s) (ptr_diff (endptr K) (freeptr K), w) = Inr (0, w)"
    unfolding carve_block_def by (intro loopE_stop[THEN trans]) simp_all
  then show ?thesis using unchanged_refl[OF ok] by blast
qed

text \<open>Carving a block up does not ask for memory.\<close>

lemma carve_chunk_keeps:
  assumes "carve_chunk c b (x, w) = Inr (y, w')"
  shows "answers w' = answers w \<and> regions w' = regions w"
  using assms
  by (auto simp: carve_chunk_def Let_def seqE_eq_Inr upd_blk_def upd_ctx_def MemoryChunkSetHdrMask_def
      store_ptr_def store64E_def set_freelist_def split: if_splits option.splits)

lemma carve_block_keeps:
  assumes "carve_block c b (x, w) = Inr (y, w')"
  shows "answers w' = answers w \<and> regions w' = regions w"
proof -
  have "(\<lambda>(_, v). answers v = answers w \<and> regions v = regions w) (y, w')
    \<and> \<not> (\<lambda>(x, v). push_bit ALLOC_MINBITS 1 + of_nat ALLOC_CHUNKHDRSZ \<le> x) (y, w')"
    by (rule loopE_invariant[OF assms[unfolded carve_block_def]]) (auto dest!: carve_chunk_keeps)
  then show ?thesis by simp
qed

text \<open>
  What happens up to the call of \<open>malloc\<close>: the rest of the active block is carved up, the next block
  size advances, and the size of the new block is fixed.
\<close>

lemma NewBlock_run:
  assumes ok: "heap_ok G w" and c: "ctxs w c = Some s" and nr: "\<not> isReset s"
    and k: "k < 11" and sz: "unat sz \<le> class_size k"
    and K: "blks w (blocks s) = Some K" and small: "endptr K - freeptr K < class_size k + 8"
  obtains G1 w2 s2 blk_size where "unchanged G w G1 w2" and "ctxs w2 c = Some s2" and "\<not> isReset s2"
    and "answers w2 = answers w" and "regions w2 = regions w"
    and "class_size k + 48 \<le> unat blk_size" and "unat blk_size < 2 ^ 30"
    and "AllocSetAllocFromNewBlock c sz flags (int k) w =
     seqE (malloc_block (GetChunkSizeFromFreeListIdx (int k) + of_nat ALLOC_BLOCKHDRSZ + of_nat ALLOC_CHUNKHDRSZ)
             blk_size w2) (\<lambda>(block, blksize, w).
     if block = 0 then MemoryContextAllocationFailure c sz flags w else
     seqE (install_block c block blksize w)
       (AllocSetAllocChunkFromBlock c block sz (GetChunkSizeFromFreeListIdx (int k)) (int k)))"
proof -
  have "endptr K - freeptr K \<le> 8200" using small class_size_bounds[OF k] by simp
  from carve_head[OF ok c nr K this] obtain avail' G1 w1 where
    carve: "carve_block c (blocks s) (ptr_diff (endptr K) (freeptr K), w) = Inr (avail', w1)"
    and un1: "unchanged G w G1 w1" by blast
  have ok1: "heap_ok G1 w1" by (rule unchanged_heap[OF un1])
  obtain s1 where s1: "ctxs w1 c = Some s1" and nr1: "\<not> isReset s1"
    using same_rest_ctx[of w w1 c s] un1 c nr
    by (metis client_view_fields(1) evolves_def unchanged_def)
  have p1: "1024 \<le> unat (initBlockSize s1)" "unat (initBlockSize s1) \<le> unat (nextBlockSize s1)"
    "unat (nextBlockSize s1) \<le> unat (maxBlockSize s1)" "unat (maxBlockSize s1) < 2 ^ 30"
    using ctx_params[OF ok1 s1] by (simp_all add: params_ok_def)
  obtain v where adv: "advance_nextBlockSize s1 = s1\<lparr>nextBlockSize := v\<rparr>"
      and v: "unat (nextBlockSize s1) \<le> unat v" "unat v \<le> unat (maxBlockSize s1)"
    by (rule advance_eq[OF p1(3,4)])
  define w2 where "w2 = w1\<lparr>ctxs := (ctxs w1)(c \<mapsto> s1\<lparr>nextBlockSize := v\<rparr>)\<rparr>"
  have un2: "unchanged G w G1 w2"
    by (rule unchanged_trans[OF un1 heap_set_next[OF ok1 s1 nr1 _ v(2) w2_def]])
      (use p1(2) v(1) in linarith)
  have ok2: "heap_ok G1 w2" by (rule unchanged_heap[OF un2])
  have s2: "ctxs w2 c = Some (s1\<lparr>nextBlockSize := v\<rparr>)" "\<not> isReset (s1\<lparr>nextBlockSize := v\<rparr>)"
    using nr1 by (simp_all add: w2_def)
  let ?cs = "GetChunkSizeFromFreeListIdx (int k)"
  let ?req = "?cs + of_nat ALLOC_BLOCKHDRSZ + of_nat ALLOC_CHUNKHDRSZ"
  let ?nb = "ucast (nextBlockSize s1) :: Size"
  have req: "unat ?req = class_size k + 48" by (rule unat_class(3)[OF k])
  have nb: "unat ?nb = unat (nextBlockSize s1)"
    by (rule unat_ucast_small) (use p1(3,4) in simp)
  obtain n where grow: "grow_blksize ?req ?nb = Inr (?nb * 2 ^ n)"
    and gn: "unat (?nb * 2 ^ n) = unat ?nb * 2 ^ n" "unat ?req \<le> unat ?nb * 2 ^ n"
      "n = 0 \<or> unat ?nb * 2 ^ (n - 1) < unat ?req"
    by (rule grow_blksize_eq[of ?nb ?req])
      (use nb p1 req class_size_bounds[OF k] in auto)
  have bound: "unat (?nb * 2 ^ n) < 2 ^ 30"
  proof (cases n)
    case 0
    then show ?thesis using nb p1(3,4) by simp
  next
    case (Suc j)
    then show ?thesis using gn(1,3) req class_size_bounds[OF k] by simp
  qed
  have chk: "sz \<le> ?cs" using sz unat_class(1)[OF k] by (simp add: word_le_nat_alt)
  have run: "AllocSetAllocFromNewBlock c sz flags (int k) w =
     seqE (malloc_block ?req (?nb * 2 ^ n) w2) (\<lambda>(block, blksize, w).
     if block = 0 then MemoryContextAllocationFailure c sz flags w else
     seqE (install_block c block blksize w) (AllocSetAllocChunkFromBlock c block sz ?cs (int k)))"
    unfolding AllocSetAllocFromNewBlock_def NewBlock_tail
    using c ctx_head(2)[OF ok c] K carve s1 adv chk grow
    by (simp add: get_ctx_def get_blk_def upd_ctx_def Let_def w2_def del: sizes)
  have "answers w2 = answers w" "regions w2 = regions w"
    using carve_block_keeps[OF carve] by (simp_all add: w2_def)
  moreover have "class_size k + 48 \<le> unat (?nb * 2 ^ n)" using gn(1,2) req by simp
  ultimately show ?thesis using that[OF un2 s2 _ _ _ bound run] by blast
qed

lemma AllocSetAllocFromNewBlock_ok:
  assumes ok: "heap_ok G w" and c: "ctxs w c = Some s" and nr: "\<not> isReset s"
    and k: "k < 11" and sz: "unat sz \<le> class_size k"
    and K: "blks w (blocks s) = Some K" and small: "endptr K - freeptr K < class_size k + 8"
  shows "alloc_spec G w c sz flags (AllocSetAllocFromNewBlock c sz flags (int k) w)"
proof -
  let ?cs = "GetChunkSizeFromFreeListIdx (int k)"
  let ?req = "?cs + of_nat ALLOC_BLOCKHDRSZ + of_nat ALLOC_CHUNKHDRSZ"
  obtain G1 w2 s2 n0 where un2: "unchanged G w G1 w2" and s2: "ctxs w2 c = Some s2" "\<not> isReset s2"
    and bound: "class_size k + 48 \<le> unat n0" "unat n0 < 2 ^ 30"
    and run: "AllocSetAllocFromNewBlock c sz flags (int k) w =
     seqE (malloc_block ?req n0 w2) (\<lambda>(block, blksize, w).
     if block = 0 then MemoryContextAllocationFailure c sz flags w else
     seqE (install_block c block blksize w) (AllocSetAllocChunkFromBlock c block sz ?cs (int k)))"
    by (rule NewBlock_run[OF assms]) blast
  have ok2: "heap_ok G1 w2" by (rule unchanged_heap[OF un2])
  have req: "unat ?req = class_size k + 48" by (rule unat_class(3)[OF k])
  show ?thesis
  proof (cases rule: malloc_block_eq[of ?req n0 w2, consumes 0, case_names le fail ok])
    case le
    then show ?case using bound(1) req by simp
  next
    case (fail bs as)
    have "unchanged G w G1 (w2\<lparr>answers := as\<rparr>)"
      using un2 heap_ok_fields[of "w2\<lparr>answers := as\<rparr>" w2]
      by (auto simp: unchanged_def evolves_def same_rest_def same_data_def same_foreign_def
          foreign_def lib_bytes_def in_region_def)
    then show ?thesis by (simp add: run fail AllocationFailure_spec del: sizes)
  next
    case (ok b bs as)
    have bs: "class_size k + 48 \<le> unat bs" "unat bs < 2 ^ 30" using ok(4,5) req bound by simp_all
    from install_chunk_ok[OF ok2 s2 ok(2) bs k sz, of as sz] obtain G4 w4 where
      a: "seqE (install_block c b bs (w2\<lparr>answers := as, regions := (b, unat bs) # regions w2\<rparr>))
          (AllocSetAllocChunkFromBlock c b sz ?cs (int k)) = Inr (b + 48, w4)"
        "allocated G1 w2 c sz (b + 48) G4 w4" by blast
    then show ?thesis
      using ok(1,3) unchanged_allocated[OF un2 a(2)] by (intro alloc_specI) (simp_all add: run del: sizes)
  qed
qed

section \<open>Large chunks\<close>

lemma unat_MaxAlloc: "unat MaxAllocSize = 2 ^ 30 - 1" "unat MaxAllocHugeSize = 2 ^ 63 - 1"
  by (simp_all add: MaxAllocSize_def MaxAllocHugeSize_def unat_div)

text \<open>The size check, in numbers.\<close>

lemma MemoryContextCheckSize_eq:
  "MemoryContextCheckSize c sz flags =
     (if unat sz < 2 ^ 30 \<or> flags AND MCXT_ALLOC_HUGE \<noteq> 0 \<and> unat sz < 2 ^ 63
      then Inr () else Inl (BadSize sz))"
  by (auto simp: MemoryContextCheckSize_def MemoryContextSizeFailure_def AllocSizeIsValid_def AllocHugeSizeIsValid_def
      word_le_nat_alt unat_MaxAlloc)

lemma large_size:
  assumes "unat sz < 2 ^ 63"
  shows "unat (MAXALIGN sz + of_nat ALLOC_BLOCKHDRSZ + of_nat ALLOC_CHUNKHDRSZ) = unat (MAXALIGN sz) + 48"
    and "unat sz \<le> unat (MAXALIGN sz)" and "unat (MAXALIGN sz) < unat sz + 8"
proof -
  have "unat sz + 7 < 2 ^ 64" using assms by simp
  note b = MAXALIGN_bounds[OF this]
  show "unat sz \<le> unat (MAXALIGN sz)" "unat (MAXALIGN sz) < unat sz + 8" using b by simp_all
  then show "unat (MAXALIGN sz + of_nat ALLOC_BLOCKHDRSZ + of_nat ALLOC_CHUNKHDRSZ) = unat (MAXALIGN sz) + 48"
    using assms by (simp add: unat_word_ariths)
qed

lemma external_hdr_store: "external_hdr (store64 m x (hdrmask_external i)) x i"
  by (simp add: external_hdr_def)

text \<open>The new block goes second, so that the active block stays in front.\<close>

definition large_installed :: "world \<Rightarrow> addr \<Rightarrow> AllocSetContext \<Rightarrow> addr \<Rightarrow> addr \<Rightarrow> Size \<Rightarrow> addr list \<Rightarrow> world" where
  "large_installed w c s nx b n as =
     w\<lparr>answers := as, regions := (b, unat n) # regions w,
       ctxs := (ctxs w)(c \<mapsto> s\<lparr>mem_allocated := mem_allocated s + n\<rparr>),
       mem := store64 (mem w) (b + ALLOC_BLOCKHDRSZ) (hdrmask_external MCTX_ASET_ID),
       blks := bl.surgery (blocks s) b nx b ((blks w)(b \<mapsto>
         \<lparr>aset = c, bprev = blocks s, bnext = nx, freeptr = b + unat n, endptr = b + unat n\<rparr>))\<rparr>"

lemma AllocSetAllocLarge_run:
  assumes ok: "heap_ok G w" and c: "ctxs w c = Some s" and list: "gblocks (G c) = h # hs"
    and size_ok: "MemoryContextCheckSize c sz flags = Inr ()"
    and n: "n = MAXALIGN sz + of_nat ALLOC_BLOCKHDRSZ + of_nat ALLOC_CHUNKHDRSZ" "48 \<le> unat n"
    and mal: "malloc n w = (b, w\<lparr>answers := as, regions := (b, unat n) # regions w\<rparr>)"
    and adm: "admissible (regions w) b (unat n)"
  shows "AllocSetAllocLarge c sz flags w = Inr (b + 48, large_installed w c s (first hs 0) b n as)"
proof -
  have A: "aset_ok (set (regions w)) (mem w) (blks w) c s (G c)" by (rule heap_okD(2)[OF ok c])
  then have seg: "dseg bnext bprev (blks w) 0 (h # hs) 0" "distinct (h # hs)" and h: "blocks s = h" "h \<noteq> 0"
    by (simp_all add: aset_ok_def blocks_ok_def list)
  obtain kh where kh: "blks w h = Some kh" "bnext kh = first hs 0" using seg(1) by auto
  have fresh: "blks w b = None" "b \<noteq> 0"
    using fresh_structs[OF ok adm, of b] adm by (simp_all add: admissible_def)
  then have hb: "h \<noteq> b" using kh by auto
  let ?nx = "first hs 0"
  have nx: "\<exists>kn. blks w ?nx = Some kn \<and> ?nx \<noteq> b \<and> ?nx \<noteq> h" if "?nx \<noteq> 0"
  proof -
    have "?nx \<in> set hs" using that by (cases hs) auto
    then show ?thesis using dseg_some[OF seg(1), of ?nx] seg(2) fresh(1) by auto
  qed
  have hn: "h \<noteq> ?nx" using nx h(2) by auto
  let ?k = "\<lparr>aset = c, bprev = h, bnext = ?nx, freeptr = b + unat n, endptr = b + unat n\<rparr>"
  have B': "bl.surgery h b ?nx b ((blks w)(b \<mapsto> ?k)) = modify h (\<lambda>k. k\<lparr>bnext := b\<rparr>)
     (if ?nx \<noteq> 0 then modify ?nx (\<lambda>k. k\<lparr>bprev := b\<rparr>) ((blks w)(b \<mapsto> ?k)) else (blks w)(b \<mapsto> ?k))"
    using h(2) hn by (simp add: bl.surgery_commute Let_def)
  have inr: "in_region (w\<lparr>answers := as, regions := (b, unat n) # regions w\<rparr>) (b + ALLOC_BLOCKHDRSZ) 8"
    by (rule in_regionI[of b "unat n"]) (use n(2) in simp_all)
  note run = AllocSetAllocLarge_def size_ok mal n(1)[symmetric] Let_def upd_ctx_def get_ctx_def
    get_blk_def upd_blk_def MemoryChunkSetHdrMaskExternal_def store64E_def inr MemoryChunkGetPointer_def
    sizeof_MemoryChunk_def large_installed_def B' modify_def
  have "AllocSetAllocLarge c sz flags w = Inr (b + ALLOC_BLOCKHDRSZ + 8, large_installed w c s ?nx b n as)"
  proof (cases "?nx = 0")
    case True
    then show ?thesis using fresh(2) c h kh hb by (simp add: run bl.surgery_def del: sizes)
  next
    case False
    with nx obtain kn where "blks w ?nx = Some kn" "?nx \<noteq> b" "?nx \<noteq> h" by auto
    then show ?thesis using fresh(2) c h kh hb False by (simp add: run del: sizes)
  qed
  then show ?thesis by simp
qed

lemma large_installed_added:
  assumes ok: "heap_ok G w" and c: "ctxs w c = Some s" and list: "gblocks (G c) = h # hs"
    and n: "48 \<le> unat n" and adm: "admissible (regions w) b (unat n)"
  shows "block_added G w c s b (unat n) None ([h] @ b # hs)
    \<lparr>aset = c, bprev = blocks s, bnext = first hs 0, freeptr = b + unat n, endptr = b + unat n\<rparr>
    (large_installed w c s (first hs 0) b n as)"
    (is "block_added G w c s b _ None _ ?K ?w'")
proof -
  have h: "blocks s = h" using heap_okD(2)[OF ok c] by (simp add: aset_ok_def list)
  have "b \<noteq> KeeperBlock c"
    using fresh_structs(1)[OF ok adm, of b] heap_ok_block[OF ok c heap_ok_keeper[OF ok c]] adm
    by (metis admissible_def le_refl less_add_same_cancel1 option.distinct(1))
  then have "block_ok (set (regions ?w')) (mem ?w') c b ?K None"
    using n by (simp add: block_ok_def base_def IsKeeperBlock_def large_installed_def external_hdr_store)
  moreover have "mem ?w' a = mem w a" if "\<not> (b \<le> a \<and> a < b + unat n)" for a
    using that n by (auto simp: large_installed_def store64_def)
  moreover have "s\<lparr>mem_allocated := mem_allocated s + n\<rparr>
      = s\<lparr>blocks := first ([h] @ b # hs) 0, mem_allocated := mem_allocated s + of_nat (unat n)\<rparr>"
    using h by (intro AllocSetContext.equality) simp_all
  then have "ctxs ?w' = (ctxs w)(c \<mapsto> s\<lparr>blocks := first ([h] @ b # hs) 0,
      mem_allocated := mem_allocated s + of_nat (unat n)\<rparr>)"
    unfolding large_installed_def by simp
  ultimately show ?thesis
    by (intro linked_block_added[OF ok c _ adm]) (simp_all add: list h large_installed_def)
qed

lemma AllocSetAllocLarge_ok:
  assumes ok: "heap_ok G w" and c: "ctxs w c = Some s" and nr: "\<not> isReset s"
    and size_ok: "MemoryContextCheckSize c sz flags = Inr ()"
  shows "alloc_spec G w c sz flags (AllocSetAllocLarge c sz flags w)"
proof -
  let ?n = "MAXALIGN sz + of_nat ALLOC_BLOCKHDRSZ + of_nat ALLOC_CHUNKHDRSZ"
  have "unat sz < 2 ^ 63" using size_ok by (auto simp: MemoryContextCheckSize_eq split: if_splits)
  note sz = large_size[OF this]
  have n: "48 \<le> unat ?n" "unat sz \<le> unat ?n - 48" unfolding sz(1) using sz(2) by simp_all
  obtain h hs where list: "gblocks (G c) = h # hs"
    using heap_ok_keeper[OF ok c] by (cases "gblocks (G c)") auto
  show ?thesis
  proof (cases rule: malloc_cases[of ?n w, case_names fail ok])
    case (fail as)
    have "unchanged G w G (w\<lparr>answers := as\<rparr>)"
      using heap_ok_fields[of "w\<lparr>answers := as\<rparr>" w] ok
      by (auto simp: unchanged_def evolves_def same_rest_def)
    then show ?thesis
      by (simp add: AllocSetAllocLarge_def size_ok fail Let_def AllocationFailure_spec del: sizes)
  next
    case (ok b as)
    note run = AllocSetAllocLarge_run[OF assms(1) c list size_ok refl n(1) ok(1,2)]
    have "allocated G w c sz (b + 48) (G(c := with_block b None ([h] @ b # hs) (G c)))
        (large_installed w c s (first hs 0) b ?n as)"
      by (rule allocated_block[OF assms(1) c nr large_installed_added[OF assms(1) c list n(1) ok(2)]])
        (use n(2) in \<open>simp_all add: first_size_def large_installed_def del: sizes\<close>)
    then show ?thesis by (rule alloc_specI[OF run])
  qed
qed

section \<open>AllocSetAlloc\<close>

theorem AllocSetAlloc_correct:
  assumes ok: "heap_ok G w" and c: "ctxs w c = Some s" and nr: "\<not> isReset s"
  shows "if unat sz \<le> unat (allocChunkLimit s) \<or> MemoryContextCheckSize c sz flags = Inr ()
    then alloc_spec G w c sz flags (AllocSetAlloc c sz flags w)
    else AllocSetAlloc c sz flags w = Inl (BadSize sz)"
proof (cases "sz > ucast (allocChunkLimit s)")
  case True
  have lim: "unat (allocChunkLimit s) < unat sz"
    using True unat_ucast_small[of "allocChunkLimit s", where 'b = 64]
    by (simp add: word_less_nat_alt order.strict_trans[OF unsigned_less])
  have "AllocSetAlloc c sz flags w = AllocSetAllocLarge c sz flags w"
    using True c ctx_head(2)[OF ok c] by (simp add: AllocSetAlloc_def valid_ctx[OF ok c] get_ctx_def)
  moreover have "MemoryContextCheckSize c sz flags \<noteq> Inr () \<Longrightarrow>
      AllocSetAllocLarge c sz flags w = Inl (BadSize sz)"
    by (auto simp: AllocSetAllocLarge_def MemoryContextCheckSize_eq split: if_splits)
  ultimately show ?thesis using AllocSetAllocLarge_ok[OF ok c nr] lim by auto
next
  case False
  have lim: "unat sz \<le> unat (allocChunkLimit s)"
    using False unat_ucast_small[of "allocChunkLimit s", where 'b = 64]
    by (simp add: word_less_nat_alt order.strict_trans[OF unsigned_less])
  moreover have "unat (allocChunkLimit s) \<le> 8192"
    using ctx_params[OF ok c] by (simp add: params_ok_def)
  ultimately obtain k where k: "k < 11" "AllocSetFreeIndex sz = Inr (int k)" "unat sz \<le> class_size k"
    by (metis AllocSetFreeIndex_class order_trans)
  note fh = free_head[OF ok c k(1)]
  note h = ctx_head[OF ok c]
  have chk: "sz \<le> GetChunkSizeFromFreeListIdx (int k)"
    using k(3) unat_class(1)[OF k(1)] by (simp add: word_le_nat_alt)
  obtain K where K: "blks w (blocks s) = Some K" "freeptr K \<le> endptr K" "endptr K < 2 ^ 64"
    by (rule heap_ok_block[OF ok c h(1)])
  have avail: "unat (ptr_diff (endptr K) (freeptr K)) = endptr K - freeptr K"
    by (rule unat_ptr_diff[OF K(2,3)])
  have run: "AllocSetAlloc c sz flags w =
     (if freelist s ! k \<noteq> 0 then pop_freelist c (int k) (freelist s ! k) w
      else if endptr K - freeptr K < class_size k + 8
      then AllocSetAllocFromNewBlock c sz flags (int k) w
      else AllocSetAllocChunkFromBlock c (blocks s) sz (GetChunkSizeFromFreeListIdx (int k)) (int k) w)"
    using False c h(2) k(1,2) fh(3) chk K(1)
    by (simp add: AllocSetAlloc_def valid_ctx[OF ok c] get_ctx_def get_freelist_def get_blk_def Let_def
        word_less_nat_alt avail unat_class(2)[OF k(1)] del: sizes)
  have "alloc_spec G w c sz flags (AllocSetAlloc c sz flags w)"
  proof (cases "freelist s ! k = 0")
    case False
    then obtain x xs where fr: "gfree (G c) k = x # xs" "freelist s ! k = x"
      using fh(2) by (cases "gfree (G c) k") auto
    define w' where "w' = w\<lparr>ctxs := (ctxs w)(c \<mapsto> s\<lparr>freelist := (freelist s)[k := first xs 0]\<rparr>)\<rparr>"
    have w': "regions w' = regions w" "blks w' = blks w" "mem w' = mem w"
      "ctxs w' = (ctxs w)(c \<mapsto> s\<lparr>freelist := (freelist s)[k := first xs 0]\<rparr>)" by (simp_all add: w'_def)
    note step = heap_pop_free[OF ok c k(1) fr(1) w' refl]
    obtain b where hdr: "regular_hdr (mem w) x b (of_nat k) MCTX_ASET_ID"
        and reg: "in_region w x (8 + class_size k)"
      by (rule tile_facts[OF ok c step(3)])
    have r8: "in_region w x 8" "in_region w (x + 8) 8"
      using class_size_bounds[OF k(1)] by (auto intro: in_region_sub[OF reg])
    have "unat (of_nat k :: Size) = k" using k(1) by (intro unat_of_nat_small) simp
    then have "uint (of_nat k :: Size) = int k" by (metis of_nat_unat)
    then have "pop_freelist c (int k) x w = Inr (x + 8, w')"
      using c step(5) r8
      by (simp add: pop_freelist_def regular_hdr_read(2)[OF hdr r8(1)] load_ptr_def load64E_def
          set_freelist_def upd_ctx_def MemoryChunkGetPointer_def sizeof_MemoryChunk_def w'_def)
    moreover have "(x + 8, d, j) \<notin> chunks G w" for d j
    proof
      assume "(x + 8, d, j) \<in> chunks G w"
      then obtain t where t: "ctxs w d = Some t" "(x, j) \<in> units (blks w) (G d)" "x \<notin> free_chunks (G d)"
        by (auto simp: chunks_iff)
      have "c = d" using units_disjoint[OF ok c t(1) tile_unit[OF step(3)] t(2)] by auto
      then show False using t(3) step(4) by simp
    qed
    moreover have "same_data X w w'" for X by (simp add: w'_def same_data_def)
    moreover have "same_rest w w'" using c by (auto simp: same_rest_def w'_def client_view_def)
    ultimately show ?thesis
      using run fr(2) False step(1,2,7) k(3)
      by (intro alloc_specI) (auto simp: allocated_def evolves_def)
  next
    case True
    show ?thesis
    proof (cases "endptr K - freeptr K < class_size k + 8")
      case small: True
      then show ?thesis
        using AllocSetAllocFromNewBlock_ok[OF ok c nr k(1,3) K(1) small] True run by simp
    next
      case False
      have "gtiles (G c) (blocks s) \<noteq> None"
      proof
        assume "gtiles (G c) (blocks s) = None"
        from large_block[OF ok c h(1) this] obtain K' where "blks w (blocks s) = Some K'" "freeptr K' = endptr K'"
          by metis
        then show False using K(1) False by simp
      qed
      then obtain ts where ts: "gtiles (G c) (blocks s) = Some ts" by auto
      have "freeptr K + 8 + class_size k \<le> endptr K" using False by simp
      from AllocSetAllocChunkFromBlock_ok[OF ok c nr h(1) ts K(1) k(1) this k(3), of sz]
      show ?thesis using True False run by (auto intro: alloc_specI)
    qed
  qed
  then show ?thesis using lim by simp
qed

end
