(* ===== verification/FreeProofs.thy ===== *)
theory FreeProofs
  imports AllocProofs
begin

text \<open>
  Correctness of \<open>AllocSetFree\<close> and \<open>AllocSetRealloc\<close> and of the queries on a chunk: a chunk that
  is in use is released, and only that chunk; a chunk keeps its contents when it is resized; the
  context and the space of a chunk are those of the abstract state.
\<close>

section \<open>Chunks by kind\<close>

text \<open>A chunk is a tile of a block, or the single chunk of a block of its own.\<close>

lemma chunk_cases:
  assumes ok: "heap_ok G w" and p: "(p, c, n) \<in> chunks G w"
  obtains (tile) s k where "ctxs w c = Some s" "(p - 8, k) \<in> tiles (G c)" "p - 8 \<notin> free_chunks (G c)"
      "n = class_size k" "8 \<le> p"
    | (large) s b K where "ctxs w c = Some s" "b \<in> set (gblocks (G c))" "gtiles (G c) b = None"
      "blks w b = Some K" "p = b + 48" "n = endptr K - (b + 48)"
proof -
  obtain x s where x: "p = x + 8" "ctxs w c = Some s" "(x, n) \<in> units (blks w) (G c)"
      "x \<notin> free_chunks (G c)"
    using p by (auto simp: chunks_iff)
  then obtain b where b: "b \<in> set (gblocks (G c))" "(x, n) \<in> block_units (blks w) (G c) b"
    by (auto simp: units_def)
  show ?thesis
  proof (cases "gtiles (G c) b")
    case None
    then obtain K where "blks w b = Some K" "x = b + 40" "n = endptr K - (b + 48)"
      using b(2) by (auto simp: block_units_def)
    with x b None show ?thesis by (intro large[of s b K]) auto
  next
    case (Some ts)
    then obtain k where "(x, k) \<in> set ts" "n = class_size k"
      using b(2) by (auto simp: block_units_def)
    with x b Some show ?thesis by (intro tile[of s k]) (auto simp: tiles_def)
  qed
qed

lemma block_valid:
  assumes ok: "heap_ok G w" and c: "ctxs w c = Some s" and b: "b \<in> set (gblocks (G c))"
  shows "AllocBlockIsValid w b = Inr True"
proof -
  obtain K where "blks w b = Some K" "aset K = c" "base c b \<noteq> 0" by (rule heap_ok_block[OF ok c b])
  moreover have "b \<noteq> 0" using \<open>base c b \<noteq> 0\<close> base_le[of c b] by auto
  moreover have "c \<noteq> 0" "ctx_type s = T_AllocSetContext"
    using ctx_params[OF ok c] by (simp_all add: params_ok_def)
  ultimately show ?thesis
    using c by (simp add: AllocBlockIsValid_def get_blk_def MemoryContextIsValid_def get_ctx_def)
qed

text \<open>What the code reads from the header of a tile.\<close>

lemma tile_reads:
  assumes ok: "heap_ok G w" and c: "ctxs w c = Some s" and x: "(x, k) \<in> tiles (G c)"
  obtains b K where "MemoryChunkIsExternal w x = Inr False" "MemoryChunkGetBlock w x = Inr b"
    "MemoryChunkGetValue w x = Inr (of_nat k)" "AllocBlockIsValid w b = Inr True"
    "get_blk w b = Inr K" "aset K = c" "GetMemoryChunkMethodID w (x + 8) = Inr MCTX_ASET_ID"
    "k < 11" "in_region w (x + 8) (class_size k)" "x \<noteq> 0"
proof -
  obtain b K where b: "b \<in> set (gblocks (G c))" "blks w b = Some K" "aset K = c" "k < 11"
    "regular_hdr (mem w) x b (of_nat k) MCTX_ASET_ID" "in_region w x (8 + class_size k)"
    "8 dvd x" "x + 8 + class_size k < 2 ^ 64" "x \<noteq> 0"
    by (rule tile_facts[OF ok c x])
  have r8: "in_region w x 8" by (rule in_region_sub[OF b(6)]) auto
  have "in_region w (x + 8) (class_size k)" by (rule in_region_sub[OF b(6)]) auto
  then show ?thesis
    using that[of b K] b block_valid[OF ok c b(1)] regular_hdr_read[OF b(5) r8]
    by (auto simp: get_blk_def)
qed

lemma large_reads:
  assumes ok: "heap_ok G w" and c: "ctxs w c = Some s" and b: "b \<in> set (gblocks (G c))"
    and t: "gtiles (G c) b = None"
  shows "MemoryChunkIsExternal w (b + 40) = Inr True"
    and "ExternalChunkGetBlock (b + 40) = b" and "AllocBlockIsValid w b = Inr True"
    and "GetMemoryChunkMethodID w (b + 48) = Inr MCTX_ASET_ID"
proof -
  obtain K :: AllocBlockData where K: "(b, endptr K - b) \<in> set (regions w)" "b + 48 \<le> endptr K" "endptr K < 2 ^ 64"
    "external_hdr (mem w) (b + 40) MCTX_ASET_ID" "8 dvd b"
    by (rule large_block[OF ok c b t])
  have r8: "in_region w (b + 40) 8" using K(2) by (intro in_regionI[OF K(1)]) auto
  have "8 dvd b + 40" using K(5) by presburger
  then show "MemoryChunkIsExternal w (b + 40) = Inr True"
    "GetMemoryChunkMethodID w (b + 48) = Inr MCTX_ASET_ID"
    using external_hdr_read[OF K(4) r8] K(2,3) by (simp_all add: add.assoc)
  show "ExternalChunkGetBlock (b + 40) = b" by (simp add: ExternalChunkGetBlock_def)
  show "AllocBlockIsValid w b = Inr True" by (rule block_valid[OF ok c b])
qed

section \<open>Free\<close>

definition freed :: "(addr \<Rightarrow> ghost) \<Rightarrow> world \<Rightarrow> addr \<times> addr \<times> nat \<Rightarrow> (addr \<Rightarrow> ghost) \<Rightarrow> world \<Rightarrow> bool" where
  "freed G w t G' w' \<longleftrightarrow>
     evolves G w (chunks G w - {t}) G' w' \<and> chunks G' w' = chunks G w - {t}"

lemma free_regular_ok:
  assumes ok: "heap_ok G w" and c: "ctxs w c = Some s"
    and x: "(x, k) \<in> tiles (G c)" "x \<notin> free_chunks (G c)"
  shows "\<exists>G' w'. free_regular x w = Inr w' \<and> freed G w (x + 8, c, class_size k) G' w'"
proof -
  obtain b K where r: "MemoryChunkGetBlock w x = Inr b"
    "MemoryChunkGetValue w x = Inr (of_nat k)" "AllocBlockIsValid w b = Inr True"
    "get_blk w b = Inr K" "aset K = c" "k < 11" "in_region w (x + 8) (class_size k)"
    by (rule tile_reads[OF ok c x(1)])
  note fh = free_head[OF ok c r(6)]
  define w' where "w' = w\<lparr>mem := store64 (mem w) (x + 8) (of_nat (freelist s ! k)),
    ctxs := (ctxs w)(c \<mapsto> s\<lparr>freelist := (freelist s)[k := x]\<rparr>)\<rparr>"
  have w': "regions w' = regions w" "blks w' = blks w"
      "ctxs w' = (ctxs w)(c \<mapsto> s\<lparr>freelist := (freelist s)[k := x]\<rparr>)"
      "mem w' = store64 (mem w) (x + 8) (of_nat (freelist s ! k))"
    by (simp_all add: w'_def)
  have u: "unat (of_nat k :: Size) = k" using r(6) by (intro unat_of_nat_small) simp
  then have i: "uint (of_nat k :: Size) = int k" by (metis of_nat_unat)
  have r8: "in_region w (x + 8) 8"
    using class_size_bounds[OF r(6)] by (intro in_region_sub[OF r(7)]) auto
  have "free_regular x w = Inr w'"
    using r c fh(3) u i r8
    by (simp add: free_regular_def Let_def FreeListIdxIsValid_def get_ctx_def get_freelist_def
        set_freelist_def upd_ctx_def store_ptr_def store64E_def w'_def)
  moreover have "same_rest w w'" using c by (auto simp: same_rest_def w'_def client_view_def)
  ultimately show ?thesis
    using heap_push_free[OF ok c x w' refl] by (auto simp: freed_def evolves_def)
qed

lemma large_exclusive:
  assumes ok: "heap_ok G w" and c: "ctxs w c = Some s" and b: "b \<in> set (gblocks (G c))"
    and t: "gtiles (G c) b = None" and K: "blks w b = Some K" and a: "b \<le> a" "a < endptr K"
  shows "ctxs w a = None" and "a \<noteq> b \<Longrightarrow> blks w a = None"
proof -
  obtain K' where K': "blks w b = Some K'" "aset K' = c" "base c b = b" "\<not> IsKeeperBlock c b"
    by (rule large_block[OF ok c b t])
  have ext: "a \<in> extent (blks w) c b" using a K K'(3) by (simp add: extent_def)
  show "ctxs w a = None"
  proof (rule ccontr)
    assume "ctxs w a \<noteq> None"
    then obtain u where u: "ctxs w a = Some u" by auto
    have kb: "KeeperBlock a \<in> set (gblocks (G a))" by (rule heap_ok_keeper[OF ok u])
    obtain K'' where "blks w (KeeperBlock a) = Some K''" "aset K'' = a" by (rule heap_ok_block[OF ok u kb])
    then have "KeeperBlock a \<noteq> b" using K' by (auto simp: IsKeeperBlock_def)
    then show False using extent_disjoint[OF ok u c kb b] ctx_in_extent[OF ok u] ext by blast
  qed
  assume "a \<noteq> b"
  show "blks w a = None"
  proof (rule ccontr)
    assume "blks w a \<noteq> None"
    then obtain k where k: "blks w a = Some k" by auto
    then obtain u where u: "ctxs w (aset k) = Some u" "a \<in> set (gblocks (G (aset k)))"
      using heap_okD(4)[OF ok k] by auto
    show False
      using extent_disjoint[OF ok u(1) c u(2) b \<open>a \<noteq> b\<close>] block_in_extent[OF ok u] ext by blast
  qed
qed

text \<open>A block in the list of its context, and its neighbours.\<close>

lemma block_links:
  assumes ok: "heap_ok G w" and c: "ctxs w c = Some s" and split: "gblocks (G c) = xs @ b # ys"
    and K: "blks w b = Some K"
  shows "bprev K = last (0 # xs)" and "bnext K = first ys 0" and "bprev K = 0 \<longleftrightarrow> xs = []"
    and "blocks s = first (xs @ b # ys) 0" and "dseg bnext bprev (blks w) 0 (xs @ b # ys) 0"
    and "distinct (xs @ b # ys)" and "b \<noteq> 0"
    and "bprev K \<noteq> 0 \<Longrightarrow> bprev K \<in> set (xs @ ys) \<and> bprev K \<noteq> b \<and> (\<exists>k. blks w (bprev K) = Some k)"
    and "bnext K \<noteq> 0 \<Longrightarrow> bnext K \<in> set (xs @ ys) \<and> bnext K \<noteq> b \<and> (\<exists>k. blks w (bnext K) = Some k)"
proof -
  have A: "aset_ok (set (regions w)) (mem w) (blks w) c s (G c)" by (rule heap_okD(2)[OF ok c])
  then show seg: "dseg bnext bprev (blks w) 0 (xs @ b # ys) 0" "distinct (xs @ b # ys)"
    and "blocks s = first (xs @ b # ys) 0" by (simp_all add: aset_ok_def blocks_ok_def split)
  show lk: "bprev K = last (0 # xs)" "bnext K = first ys 0" using dseg_split[OF seg(1) K] by auto
  have nz: "0 \<notin> set (xs @ b # ys)" by (rule dseg_nonzero[OF seg(1)])
  then show p0: "bprev K = 0 \<longleftrightarrow> xs = []" "b \<noteq> 0" using lk(1) by (cases xs rule: rev_cases; auto)+
  have other: "x \<in> set (xs @ ys) \<and> x \<noteq> b \<and> (\<exists>k. blks w x = Some k)" if "x \<in> set (xs @ ys)" for x
    using dseg_some[OF seg(1), of x] that seg(2) by auto
  show "bprev K \<in> set (xs @ ys) \<and> bprev K \<noteq> b \<and> (\<exists>k. blks w (bprev K) = Some k)" if "bprev K \<noteq> 0"
    by (rule other) (use lk p0 that in \<open>cases xs rule: rev_cases; simp\<close>)
  show "bnext K \<in> set (xs @ ys) \<and> bnext K \<noteq> b \<and> (\<exists>k. blks w (bnext K) = Some k)" if "bnext K \<noteq> 0"
    by (rule other) (use lk that in \<open>cases ys; simp\<close>)
qed

text \<open>The state without one large block: unlinked, its region gone.\<close>

definition without_block :: "world \<Rightarrow> addr \<Rightarrow> AllocSetContext \<Rightarrow> addr \<Rightarrow> AllocBlockData \<Rightarrow> world" where
  "without_block w c s b K =
     w\<lparr>regions := filter (\<lambda>r. fst r \<noteq> b) (regions w),
       blks := (bl.surgery (bprev K) (bnext K) (bnext K) (bprev K) (blks w))(b := None),
       ctxs := (ctxs w)(c \<mapsto> s\<lparr>blocks := if bprev K = 0 then bnext K else blocks s,
                              mem_allocated := mem_allocated s - of_nat (endptr K - b)\<rparr>)\<rparr>"

lemma heap_without_block:
  assumes ok: "heap_ok G w" and c: "ctxs w c = Some s" and b: "b \<in> set (gblocks (G c))"
    and t: "gtiles (G c) b = None" and K: "blks w b = Some K"
    and split: "gblocks (G c) = xs @ b # ys"
  shows "freed G w (b + 48, c, endptr K - (b + 48)) (G(c := (G c)\<lparr>gblocks := xs @ ys\<rparr>)) (without_block w c s b K)"
proof -
  note sp = block_links[OF ok c split K]
  let ?w = "without_block w c s b K"
  have core: "map_option core (blks ?w b') = map_option core (blks w b')" if "b' \<noteq> b" for b'
    using that bl.surgery_keeps[of core] by (simp add: without_block_def core_def)
  have other: "blks ?w b' = blks w b'" if "b' \<notin> set (gblocks (G c))" for b'
    using that bl.splice_other[of b' xs ys "bnext K" "bprev K" "blks w"] split sp(1,2)
    by (simp add: without_block_def)
  have "dseg bnext bprev (blks ?w) 0 (xs @ ys) 0"
    using bl.unlink[OF sp(5,6) K] sp(6) by (simp add: without_block_def)
  moreover have "s\<lparr>blocks := if bprev K = 0 then bnext K else blocks s,
        mem_allocated := mem_allocated s - of_nat (endptr K - b)\<rparr>
      = s\<lparr>blocks := first (xs @ ys) 0, mem_allocated := mem_allocated s - of_nat (endptr K - b)\<rparr>"
    using sp(2-4) by (cases xs) auto
  then have "ctxs ?w = (ctxs w)(c \<mapsto> s\<lparr>blocks := first (xs @ ys) 0,
      mem_allocated := mem_allocated s - of_nat (endptr K - b)\<rparr>)" by (simp add: without_block_def)
  ultimately have "block_removed G w c s b (xs @ ys) K ?w"
    using b t K core other split sp(6) by (auto simp: block_removed_def without_block_def)
  note step = heap_remove_block[OF ok c this refl]
  have "same_rest w ?w" using c by (auto simp: same_rest_def without_block_def client_view_def)
  moreover have "same_data X w ?w" for X by (simp add: same_data_def without_block_def)
  ultimately show ?thesis using step by (simp add: freed_def evolves_def)
qed

lemma of_nat_ptr_diff: "q \<le> p \<Longrightarrow> of_nat (p - q) = ptr_diff p q"
  by (simp add: ptr_diff_ge)

lemma forget_fresh:
  assumes "\<And>a. b \<le> a \<Longrightarrow> a < b + n \<Longrightarrow> f a = None"
  shows "forget b n f = f"
  using assms by (auto simp: forget_def)

text \<open>The region of an unlinked large block is released: the block is all that was in it.\<close>

lemma free_large_region:
  assumes ok: "heap_ok G w" and c: "ctxs w c = Some s" and b: "b \<in> set (gblocks (G c))"
    and t: "gtiles (G c) b = None" and K: "blks w b = Some K"
    and S: "\<And>a. S a = None \<longleftrightarrow> blks w a = None"
  shows "free b (w\<lparr>blks := S, ctxs := (ctxs w)(c \<mapsto> s')\<rparr>)
    = Inr (w\<lparr>regions := filter (\<lambda>r. fst r \<noteq> b) (regions w), blks := S(b := None), ctxs := (ctxs w)(c \<mapsto> s')\<rparr>)"
proof -
  obtain K' where "blks w b = Some K'" "b + 48 \<le> endptr K'" "(b, endptr K' - b) \<in> set (regions w)" "b \<noteq> 0"
    by (rule large_block[OF ok c b t])
  then have f: "b + 48 \<le> endptr K" "(b, endptr K - b) \<in> set (regions w)" "b \<noteq> 0" using K by auto
  note ex = large_exclusive[OF ok c b t K]
  have "S a = None" if "b \<le> a" "a < endptr K" "a \<noteq> b" for a
    using ex(2)[OF that] S by blast
  then have "forget b (endptr K - b) S = S(b := None)"
    using f(1) by (auto simp: forget_def fun_eq_iff)
  moreover have "forget b (endptr K - b) ((ctxs w)(c \<mapsto> s')) = (ctxs w)(c \<mapsto> s')"
    using ex(1) c f(1) by (intro forget_fresh) auto
  moreover have "map_of (regions w) b = Some (endptr K - b)"
    by (rule map_of_regions[OF heap_okD(1)[OF ok] f(2)])
  ultimately show ?thesis using f(3) by (simp add: free_def region_at_def)
qed

lemma free_external_ok:
  assumes ok: "heap_ok G w" and c: "ctxs w c = Some s" and b: "b \<in> set (gblocks (G c))"
    and t: "gtiles (G c) b = None" and K: "blks w b = Some K"
  shows "\<exists>G' w'. free_external (b + 40) w = Inr w'
    \<and> freed G w (b + 48, c, endptr K - (b + 48)) G' w'"
proof -
  obtain K' where "blks w b = Some K'" "aset K' = c" "freeptr K' = endptr K'" "b + 48 \<le> endptr K'"
    by (rule large_block[OF ok c b t])
  then have f: "aset K = c" "freeptr K = endptr K" "b + 48 \<le> endptr K" using K by auto
  note rd = large_reads[OF ok c b t]
  obtain xs ys where split: "gblocks (G c) = xs @ b # ys" using b by (meson split_list)
  note sp = block_links[OF ok c split K]
  let ?S = "bl.surgery (bprev K) (bnext K) (bnext K) (bprev K) (blks w)"
  let ?s' = "s\<lparr>blocks := if bprev K = 0 then bnext K else blocks s,
               mem_allocated := mem_allocated s - of_nat (endptr K - b)\<rparr>"
  have d: "of_nat (endptr K - b) = ptr_diff (endptr K) b" using f(3) by (intro of_nat_ptr_diff) simp
  have get: "blks v b = Some K \<Longrightarrow> get_blk v b = Inr K" for v by (simp add: get_blk_def)
  define B1 where "B1 = (if bprev K \<noteq> 0 then modify (bprev K) (\<lambda>p. p\<lparr>bnext := bnext K\<rparr>) (blks w) else blks w)"
  define w1 where "w1 = w\<lparr>blks := B1, ctxs := (ctxs w)(c \<mapsto> s\<lparr>blocks := if bprev K = 0 then bnext K else blocks s\<rparr>)\<rparr>"
  have 1: "(if bprev K \<noteq> 0 then upd_blk (bprev K) (\<lambda>p. p\<lparr>bnext := bnext K\<rparr>) w
          else upd_ctx c (\<lambda>s. s\<lparr>blocks := bnext K\<rparr>) w) = Inr w1"
    using sp(8) c by (auto simp: upd_blk_modify upd_ctx_def w1_def B1_def fun_upd_idem intro!: world.equality)
  have K1: "blks w1 b = Some K" using K sp(8) by (auto simp: w1_def B1_def)
  have 2: "(if bnext K \<noteq> 0 then upd_blk (bnext K) (\<lambda>k. k\<lparr>bprev := bprev K\<rparr>) w1 else Inr w1)
      = Inr (w1\<lparr>blks := ?S\<rparr>)"
    using sp(9) by (auto simp: upd_blk_modify w1_def B1_def bl.surgery_def Let_def)
  have 3: "upd_ctx c (\<lambda>s. s\<lparr>mem_allocated := mem_allocated s - ptr_diff (endptr K) b\<rparr>) (w1\<lparr>blks := ?S\<rparr>)
      = Inr (w\<lparr>blks := ?S, ctxs := (ctxs w)(c \<mapsto> ?s')\<rparr>)"
    by (simp add: upd_ctx_def w1_def d)
  have 4: "free b (w\<lparr>blks := ?S, ctxs := (ctxs w)(c \<mapsto> ?s')\<rparr>) = Inr (without_block w c s b K)"
    using free_large_region[OF ok c b t K, of ?S] by (simp add: bl.surgery_None without_block_def)
  have "free_external (b + 40) w = Inr (without_block w c s b K)"
    by (simp only: free_external_def Let_def rd(2,3) get[OF K] seqE_simps if_True f(1,2) refl
        not_True_eq_False if_False 1 get[OF K1] 2 3 4)
  with heap_without_block[OF ok c b t K split] show ?thesis by blast
qed

theorem AllocSetFree_correct:
  assumes ok: "heap_ok G w" and p: "(p, c, n) \<in> chunks G w"
  shows "\<exists>G' w'. AllocSetFree p w = Inr w' \<and> freed G w (p, c, n) G' w'"
  using ok p
proof (cases rule: chunk_cases)
  case (tile s k)
  have "MemoryChunkIsExternal w (p - 8) = Inr False"
    by (rule tile_reads[OF ok tile(1,2)])
  moreover obtain G' w' where "free_regular (p - 8) w = Inr w'" "freed G w (p - 8 + 8, c, class_size k) G' w'"
    using free_regular_ok[OF ok tile(1-3)] by blast
  ultimately show ?thesis
    using tile(4,5) by (auto simp: AllocSetFree_def PointerGetMemoryChunk_def sizeof_MemoryChunk_def)
next
  case (large s b K)
  have "p - 8 = b + 40" using large(5) by simp
  then have "AllocSetFree p w = free_external (b + 40) w"
    using large_reads(1)[OF ok large(1-3)]
    by (simp only: AllocSetFree_def PointerGetMemoryChunk_def sizeof_MemoryChunk_def Let_def seqE_simps if_True)
  then show ?thesis
    using free_external_ok[OF ok large(1-4)] large(5,6) by simp
qed

section \<open>Queries\<close>

theorem chunk_queries:
  assumes ok: "heap_ok G w" and p: "(p, c, n) \<in> chunks G w"
  shows "GetMemoryChunkMethodID w p = Inr MCTX_ASET_ID"
    and "AllocSetGetChunkContext w p = Inr c"
    and "AllocSetGetChunkSpace w p = Inr (of_nat (n + 8))"
proof -
  note defs = AllocSetGetChunkContext_def AllocSetGetChunkSpace_def PointerGetMemoryChunk_def
    sizeof_MemoryChunk_def Let_def
  have "GetMemoryChunkMethodID w p = Inr MCTX_ASET_ID \<and> AllocSetGetChunkContext w p = Inr c
    \<and> AllocSetGetChunkSpace w p = Inr (of_nat (n + 8))"
    using ok p
  proof (cases rule: chunk_cases)
    case t: (tile s k)
    obtain b K where r: "MemoryChunkIsExternal w (p - 8) = Inr False" "MemoryChunkGetBlock w (p - 8) = Inr b"
      "MemoryChunkGetValue w (p - 8) = Inr (of_nat k)" "AllocBlockIsValid w b = Inr True"
      "get_blk w b = Inr K" "aset K = c" "GetMemoryChunkMethodID w (p - 8 + 8) = Inr MCTX_ASET_ID" "k < 11"
      by (rule tile_reads[OF ok t(1,2)])
    have "unat (of_nat k :: Size) = k" using r(8) by (intro unat_of_nat_small) simp
    then have u: "uint (of_nat k :: Size) = int k" by (metis of_nat_unat)
    have "GetMemoryChunkMethodID w p = Inr MCTX_ASET_ID" using r(7) t(5) by simp
    moreover have "AllocSetGetChunkContext w p = Inr c" using r by (simp add: defs)
    moreover have "GetChunkSizeFromFreeListIdx (int k) = of_nat (class_size k)"
      using unat_class(1)[OF r(8)] class_size_bounds[OF r(8)] unat_of_nat_small[of "class_size k"]
      by (simp add: word_unat_eq_iff)
    then have "AllocSetGetChunkSpace w p = Inr (of_nat (n + 8))"
      using r u t(4) by (simp add: defs FreeListIdxIsValid_def)
    ultimately show ?thesis by simp
  next
    case t: (large s b K)
    have p8: "p - 8 = b + 40" using t(5) by simp
    obtain K' where "blks w b = Some K'" "aset K' = c" "base c b = b" "\<not> IsKeeperBlock c b"
       "freeptr K' = endptr K'" "b + 48 \<le> endptr K'"
      by (rule large_block[OF ok t(1-3)])
    then have k: "aset K = c" "b + 48 \<le> endptr K" using t(4) by auto
    note rd = large_reads[OF ok t(1-3)]
    have "GetMemoryChunkMethodID w p = Inr MCTX_ASET_ID" using rd(4) t(5) by simp
    moreover have "AllocSetGetChunkContext w p = Inr c"
      using rd k t(4) by (simp only: defs p8 get_blk_def seqE_simps if_True assertE_simps option.case)
    moreover have "ptr_diff (endptr K) (b + 40) = of_nat (n + 8)"
    proof -
      have "n + 8 = endptr K - (b + 40)" "b + 40 \<le> endptr K" using k(2) t(6) by linarith+
      then show ?thesis by (simp only: ptr_diff_ge)
    qed
    then have "AllocSetGetChunkSpace w p = Inr (of_nat (n + 8))"
      using rd k t(4) by (simp only: defs p8 get_blk_def seqE_simps if_True assertE_simps option.case)
    ultimately show ?thesis by simp
  qed
  then show "GetMemoryChunkMethodID w p = Inr MCTX_ASET_ID" "AllocSetGetChunkContext w p = Inr c"
    "AllocSetGetChunkSpace w p = Inr (of_nat (n + 8))" by simp_all
qed

section \<open>Realloc\<close>

definition resized :: "(addr \<Rightarrow> ghost) \<Rightarrow> world \<Rightarrow> addr \<times> addr \<times> nat \<Rightarrow> Size \<Rightarrow> addr
    \<Rightarrow> (addr \<Rightarrow> ghost) \<Rightarrow> world \<Rightarrow> bool" where
  "resized G w t sz q G' w' \<longleftrightarrow>
     (case t of (p, c, n) \<Rightarrow>
       evolves G w (chunks G w - {t}) G' w' \<and> q \<noteq> 0
       \<and> (\<forall>d j. (q, d, j) \<notin> chunks G w - {t})
       \<and> (\<exists>n'. unat sz \<le> n' \<and> chunks G' w' = insert (q, c, n') (chunks G w - {t})
             \<and> (\<forall>i < min n n'. mem w' (q + i) = mem w (p + i))))"

lemma resizedI:
  assumes "evolves G w (chunks G w - {(p, c, n)}) G' w'" and "q \<noteq> 0"
    and "\<And>d j. (q, d, j) \<notin> chunks G w - {(p, c, n)}" and "unat sz \<le> n'"
    and "chunks G' w' = insert (q, c, n') (chunks G w - {(p, c, n)})"
    and "\<And>i. i < min n n' \<Longrightarrow> mem w' (q + i) = mem w (p + i)"
  shows "resized G w (p, c, n) sz q G' w'"
  unfolding resized_def using assms by blast

definition realloc_spec :: "(addr \<Rightarrow> ghost) \<Rightarrow> world \<Rightarrow> addr \<times> addr \<times> nat \<Rightarrow> Size \<Rightarrow> uint32
    \<Rightarrow> error + addr \<times> world \<Rightarrow> bool" where
  "realloc_spec G w t sz flags res \<longleftrightarrow>
     (\<exists>q G' w'. res = Inr (q, w') \<and> resized G w t sz q G' w')
     \<or> out_of_memory G w sz flags res"

lemma same_dataD:
  "same_data X w w' \<Longrightarrow> (p, c, n) \<in> X \<Longrightarrow> i < n \<Longrightarrow> mem w' (p + i) = mem w (p + i)"
  unfolding same_data_def by (drule (1) bspec) simp

lemma evolves_data:
  "evolves G w X G' w' \<Longrightarrow> (p, c, n) \<in> X \<Longrightarrow> i < n \<Longrightarrow> mem w' (p + i) = mem w (p + i)"
  unfolding evolves_def by (blast intro: same_dataD)

lemma chunk_lib_bytes:
  assumes ok: "heap_ok G w" and p: "(p, c, n) \<in> chunks G w" and a: "p \<le> a" "a < p + n"
  shows "a \<in> lib_bytes G w"
proof -
  obtain x s where x: "p = x + 8" "ctxs w c = Some s" "(x, n) \<in> units (blks w) (G c)"
    using p by (auto simp: chunks_iff)
  obtain b where b: "b \<in> set (gblocks (G c))" "{x ..< x + 8 + n} \<subseteq> extent (blks w) c b"
    using unit_in_block[OF ok x(2,3)] block_units_extent by metis
  have "a \<in> {x ..< x + 8 + n}" using a x(1) by simp
  then show ?thesis using b x(2) unfolding lib_bytes_def by blast
qed

lemma client_write_evolves:
  assumes ok: "heap_ok G w" and p: "(p, c, n) \<in> chunks G w"
    and m': "\<And>a. \<not> (p \<le> a \<and> a < p + n) \<Longrightarrow> m' a = mem w a"
  shows "evolves G w (chunks G w - {(p, c, n)}) G (w\<lparr>mem := m'\<rparr>)"
    and "chunks G (w\<lparr>mem := m'\<rparr>) = chunks G w"
proof -
  note cw = client_write[OF ok p m']
  show "chunks G (w\<lparr>mem := m'\<rparr>) = chunks G w" by (rule cw(2))
  have "same_data (chunks G w - {(p, c, n)}) w (w\<lparr>mem := m'\<rparr>)"
  proof (rule same_dataI)
    fix q d j a assume q: "(q, d, j) \<in> chunks G w - {(p, c, n)}" "q \<le> a" "a < q + j"
    then have "p + n + 8 \<le> q \<or> q + j + 8 \<le> p"
      using chunks_disjoint[OF ok p, of q d j] by auto
    then show "mem (w\<lparr>mem := m'\<rparr>) a = mem w a" using m'[of a] q(2,3) by auto
  qed
  moreover have "same_foreign G w G (w\<lparr>mem := m'\<rparr>)"
    unfolding same_foreign_def
  proof (intro allI impI)
    fix a assume f: "foreign G w a"
    then have "\<not> (p \<le> a \<and> a < p + n)" using chunk_lib_bytes[OF ok p, of a] by (auto simp: foreign_def)
    with f show "foreign G (w\<lparr>mem := m'\<rparr>) a \<and> mem (w\<lparr>mem := m'\<rparr>) a = mem w a"
      by (simp add: m' foreign_def lib_bytes_def)
  qed
  ultimately show "evolves G w (chunks G w - {(p, c, n)}) G (w\<lparr>mem := m'\<rparr>)"
    using cw(1) by (simp add: evolves_def same_rest_def)
qed

lemma AllocSetAlloc_cases:
  assumes ok: "heap_ok G w" and c: "ctxs w c = Some s" and nr: "\<not> isReset s"
  obtains (chunk) q G' w' where "AllocSetAlloc c sz flags w = Inr (q, w')" "allocated G w c sz q G' w'"
    | (oom) "out_of_memory G w sz flags (AllocSetAlloc c sz flags w)"
    | (bad) "AllocSetAlloc c sz flags w = Inl (BadSize sz)" "\<not> unat sz \<le> unat (allocChunkLimit s)"
        "MemoryContextCheckSize c sz flags \<noteq> Inr ()"
  using AllocSetAlloc_correct[OF ok c nr, of sz flags] by (auto simp: alloc_spec_def split: if_splits)

lemma realloc_regular_ok:
  assumes ok: "heap_ok G w" and c: "ctxs w c = Some s"
    and x: "(x, k) \<in> tiles (G c)" "x \<notin> free_chunks (G c)"
    and good: "MemoryContextCheckSize c sz flags = Inr ()"
  shows "realloc_spec G w (x + 8, c, class_size k) sz flags (realloc_regular (x + 8) x sz flags w)"
proof -
  obtain b K where r: "MemoryChunkIsExternal w x = Inr False" "MemoryChunkGetBlock w x = Inr b"
    "MemoryChunkGetValue w x = Inr (of_nat k)" "AllocBlockIsValid w b = Inr True"
    "get_blk w b = Inr K" "aset K = c" "GetMemoryChunkMethodID w (x + 8) = Inr MCTX_ASET_ID" "k < 11"
    by (rule tile_reads[OF ok c x(1)])
  let ?p = "x + 8" and ?n = "class_size k"
  let ?t = "(?p, c, ?n)"
  have t: "?t \<in> chunks G w" using x c tile_unit[OF x(1)] by (auto simp: chunks_iff)
  have nr: "\<not> isReset s"
    using ctx_params[OF ok c] pristine_tiles[of c s "G c"] x(1) by (auto simp: params_ok_def)
  have "unat (of_nat k :: Size) = k" using r(8) by (intro unat_of_nat_small) simp
  note u = this
  note uc = unat_class(1)[OF r(8)]
  let ?cs = "GetChunkSizeFromFreeListIdx (int k)"
  have run: "realloc_regular ?p x sz flags w =
     (if unat sz \<le> ?n then Inr (?p, w) else
      seqE (AllocSetAlloc c sz flags w) (\<lambda>(newPointer, w).
      if newPointer = 0 then MemoryContextAllocationFailure c sz flags w else
      seqE (memcpyE newPointer ?p ?cs w) (\<lambda>w.
      seqE (AllocSetFree ?p w) (\<lambda>w. Inr (newPointer, w)))))"
  proof -
    have "FreeListIdxIsValid (int k)" using r(8) by (simp add: FreeListIdxIsValid_def)
    moreover have "sz \<le> ?cs \<longleftrightarrow> unat sz \<le> ?n" by (simp add: word_le_nat_alt uc)
    ultimately show ?thesis
      by (simp only: realloc_regular_def Let_def r(2-6) u seqE_simps assertE_simps)
  qed
  show ?thesis
  proof (cases "unat sz \<le> ?n")
    case True
    have fr: "(?p, d, j) \<notin> chunks G w - {?t}" for d j using chunk_unique[OF ok t] by blast
    have ins: "chunks G w = insert ?t (chunks G w - {?t})" using t by blast
    have "resized G w ?t sz ?p G w"
      by (rule resizedI[OF evolves_refl[OF ok] _ fr True ins]) simp_all
    then show ?thesis using True run by (auto simp: realloc_spec_def)
  next
    case big: False
    show ?thesis
    proof (cases rule: AllocSetAlloc_cases[OF ok c nr, of sz flags, case_names chunk oom bad])
      case bad
      then show ?thesis using good by simp
    next
      case oom
      then show ?thesis
        using big run by (auto simp: realloc_spec_def out_of_memory_def MemoryContextAllocationFailure_def
            split: if_splits)
    next
      case (chunk q G1 w1)
      then obtain n' where q: "evolves G w (chunks G w) G1 w1" "q \<noteq> 0" "unat sz \<le> n'"
          "\<And>d j. (q, d, j) \<notin> chunks G w" "chunks G1 w1 = insert (q, c, n') (chunks G w)"
        by (auto simp: allocated_def)
      have ok1: "heap_ok G1 w1" using q(1) by (simp add: evolves_def)
      have qc: "(q, c, n') \<in> chunks G1 w1" "?t \<in> chunks G1 w1" using q(5) t by auto
      have "q \<noteq> ?p" using q(4) t by auto
      then have disj: "q + n' + 8 \<le> ?p \<or> ?p + ?n + 8 \<le> q"
        using chunks_disjoint[OF ok1 qc] by auto
      define m' where "m' = (\<lambda>y. if q \<le> y \<and> y < q + ?n then mem w1 (?p + (y - q)) else mem w1 y)"
      have cpy: "memcpyE q ?p ?cs w1 = Inr (w1\<lparr>mem := m'\<rparr>)"
      proof -
        have "in_region w1 q ?n"
          by (rule in_region_sub[OF chunk_facts(5)[OF ok1 qc(1)]]) (use big q(3) in auto)
        moreover have "in_region w1 ?p ?n" by (rule chunk_facts(5)[OF ok1 qc(2)])
        moreover have "?cs \<noteq> 0" using uc class_size_bounds[OF r(8)] by (intro notI) simp
        moreover have "q + ?n \<le> ?p \<or> ?p + ?n \<le> q" using disj big q(3) by linarith
        ultimately show ?thesis by (simp add: memcpyE_def uc m'_def)
      qed
      have m'_out: "m' a = mem w1 a" if "\<not> (q \<le> a \<and> a < q + n')" for a
        using that big q(3) by (auto simp: m'_def)
      let ?w2 = "w1\<lparr>mem := m'\<rparr>"
      note cw = client_write_evolves[OF ok1 qc(1) m'_out]
      have ok2: "heap_ok G1 ?w2" using cw(1) by (simp add: evolves_def)
      have "?t \<in> chunks G1 ?w2" using qc(2) cw(2) by simp
      from AllocSetFree_correct[OF ok2 this] obtain G3 w3 where
        f: "AllocSetFree ?p ?w2 = Inr w3" "freed G1 ?w2 ?t G3 w3" by blast
      have ch: "chunks G3 w3 = insert (q, c, n') (chunks G w - {?t})"
        using f(2) cw(2) q(5) \<open>q \<noteq> ?p\<close> by (auto simp: freed_def)
      have "evolves G w (chunks G w) G1 ?w2"
        by (rule evolves_trans[OF q(1) cw(1)]) (use q(4,5) in auto)
      moreover have f_ev: "evolves G1 ?w2 (chunks G1 ?w2 - {?t}) G3 w3" using f(2) by (simp add: freed_def)
      moreover have "chunks G w - {?t} \<subseteq> chunks G1 ?w2 - {?t}" using cw(2) q(5) by auto
      ultimately have ev: "evolves G w (chunks G w - {?t}) G3 w3"
        unfolding evolves_def
        by (meson Diff_subset same_data_mono same_data_trans same_foreign_trans same_rest_trans)
      have data: "mem w3 (q + i) = mem w (?p + i)" if "i < min ?n n'" for i
      proof -
        have "mem w3 (q + i) = mem ?w2 (q + i)"
        proof -
          have "(q, c, n') \<in> chunks G1 ?w2 - {?t}" using cw(2) qc(1) \<open>q \<noteq> ?p\<close> by simp
          from evolves_data[OF f_ev this] that show ?thesis by simp
        qed
        also have "\<dots> = mem w1 (?p + i)" using that by (simp add: m'_def)
        also have "\<dots> = mem w (?p + i)"
          using evolves_data[OF q(1) t] that by simp
        finally show ?thesis .
      qed
      have "resized G w ?t sz q G3 w3"
        using ev q(2,3,4) ch data by (auto simp: resized_def)
      then show ?thesis
        using big run chunk(1) q(2) cpy f(1) by (auto simp: realloc_spec_def)
    qed
  qed
qed

text \<open>\<open>realloc\<close> of a large block, when it succeeds: the block is at \<open>q\<close> and has \<open>m\<close> bytes.\<close>

definition moved_block :: "world \<Rightarrow> addr \<Rightarrow> AllocBlockData \<Rightarrow> addr \<Rightarrow> nat \<Rightarrow> addr list \<Rightarrow> world" where
  "moved_block w b K q m as =
     w\<lparr>answers := as, regions := (q, m) # filter (\<lambda>r. fst r \<noteq> b) (regions w),
       mem := (\<lambda>x. if q \<le> x \<and> x < q + min (endptr K - b) m then mem w (b + (x - q)) else mem w x),
       blks := (blks w)(b := None, q \<mapsto> K)\<rparr>"

lemma realloc_cases:
  assumes inv: "heap_ok G w" and c: "ctxs w c = Some s" and b: "b \<in> set (gblocks (G c))"
    and t: "gtiles (G c) b = None" and K: "blks w b = Some K" and m: "48 \<le> unat m"
  obtains (fail) as where "realloc b m w = Inr (0, w\<lparr>answers := as\<rparr>)"
    | (ok) q as where "realloc b m w = Inr (q, moved_block w b K q (unat m) as)"
      "admissible (filter (\<lambda>r. fst r \<noteq> b) (regions w)) q (unat m)" "q \<noteq> 0"
proof -
  obtain K' where "blks w b = Some K'" "aset K' = c" "base c b = b" "\<not> IsKeeperBlock c b"
    "freeptr K' = endptr K'" "b + 48 \<le> endptr K'" "endptr K' < 2 ^ 64"
    "external_hdr (mem w) (b + 40) MCTX_ASET_ID" "(b, endptr K' - b) \<in> set (regions w)"
    by (rule large_block[OF inv c b t])
  then have f: "b + 48 \<le> endptr K" "(b, endptr K - b) \<in> set (regions w)" using K by auto
  have reg: "region_at w b = Some (endptr K - b)"
    unfolding region_at_def by (rule map_of_regions[OF heap_okD(1)[OF inv] f(2)])
  note ex = large_exclusive[OF inv c b t K]
  obtain xs ys where split: "gblocks (G c) = xs @ b # ys" using b by (meson split_list)
  obtain g' where "freed G w (b + 48, c, endptr K - (b + 48)) (G(c := g')) (without_block w c s b K)"
    using heap_without_block[OF inv c b t K split] by blast
  then have ok1: "heap_ok (G(c := g')) (without_block w c s b K)" by (simp add: freed_def evolves_def)
  show ?thesis
  proof (cases "answers w")
    case Nil
    then have "w\<lparr>answers := []\<rparr> = w" by simp
    with Nil reg show ?thesis by (intro fail[of "[]"]) (simp add: realloc_def)
  next
    case (Cons q as)
    let ?others = "filter (\<lambda>r. fst r \<noteq> b) (regions w)"
    show ?thesis
    proof (cases "admissible ?others q (unat m)")
      case False
      with Cons reg show ?thesis by (intro fail[of as]) (simp add: realloc_def Let_def)
    next
      case True
      have "admissible (regions (without_block w c s b K)) q (unat m)"
        using True by (simp add: without_block_def)
      note fs = fresh_structs[OF ok1 this]
      have none: "ctxs w x = None" "x \<noteq> b \<Longrightarrow> blks w x = None" if "q \<le> x" "x < q + unat m" for x
        using fs[OF that] by (auto simp: without_block_def bl.surgery_None split: if_splits)
      let ?k = "min (endptr K - b) (unat m)"
      have ctxs': "moved b (endptr K - b) q ?k (ctxs w) = ctxs w"
      proof
        fix x show "moved b (endptr K - b) q ?k (ctxs w) x = ctxs w x"
        proof (cases "q \<le> x \<and> x < q + ?k")
          case True
          then show ?thesis using ex(1)[of "b + (x - q)"] none(1)[of x] by (auto simp: moved_def)
        next
          case False
          then show ?thesis using ex(1)[of x] f(1) by (auto simp: moved_def)
        qed
      qed
      have blks': "moved b (endptr K - b) q ?k (blks w) = (blks w)(b := None, q \<mapsto> K)"
      proof
        fix x show "moved b (endptr K - b) q ?k (blks w) x = ((blks w)(b := None, q \<mapsto> K)) x"
        proof (cases "q \<le> x \<and> x < q + ?k")
          case True
          then show ?thesis
            using ex(2)[of "b + (x - q)"] none(2)[of x] K by (auto simp: moved_def)
        next
          case out: False
          then have "x \<noteq> q" using f(1) m by auto
          then show ?thesis using out ex(2)[of x] f(1) by (auto simp: moved_def)
        qed
      qed
      have "realloc b m w = Inr (q, moved_block w b K q (unat m) as)"
        using Cons True reg by (simp add: realloc_def Let_def ctxs' blks' moved_block_def)
      then show ?thesis using True by (intro ok[of q as]) (auto simp: admissible_def)
    qed
  qed
qed

lemma load64_move:
  assumes "\<And>i. i < 8 \<Longrightarrow> m (a + i) = m' (a' + i)"
  shows "load64 m a = load64 m' a'"
  using assms[of 0] assms[of 1] assms[of 2] assms[of 3] assms[of 4] assms[of 5] assms[of 6] assms[of 7]
  by (simp add: load64_def)

definition relinked_block :: "world \<Rightarrow> addr \<Rightarrow> AllocSetContext \<Rightarrow> addr \<Rightarrow> AllocBlockData \<Rightarrow> addr \<Rightarrow> Size
    \<Rightarrow> addr list \<Rightarrow> world" where
  "relinked_block w c s b K q m as =
     (moved_block w b K q (unat m) as)
       \<lparr>ctxs := (ctxs w)(c \<mapsto> s\<lparr>mem_allocated := mem_allocated s - ptr_diff (endptr K) b + m,
                               blocks := if bprev K = 0 then q else blocks s\<rparr>),
        blks := bl.surgery (bprev K) q (bnext K) q ((blks w)(b := None,
                  q \<mapsto> K\<lparr>endptr := q + unat m, freeptr := q + unat m\<rparr>))\<rparr>"

lemma relinked_added:
  assumes ok: "heap_ok G w" and c: "ctxs w c = Some s" and b: "b \<in> set (gblocks (G c))"
    and t: "gtiles (G c) b = None" and K: "blks w b = Some K" and m: "48 \<le> unat m"
    and adm: "admissible (filter (\<lambda>r. fst r \<noteq> b) (regions w)) q (unat m)"
    and split: "gblocks (G c) = xs @ b # ys"
    and G1: "G1 = G(c := (G c)\<lparr>gblocks := xs @ ys\<rparr>)" and w1: "w1 = without_block w c s b K"
  obtains s1 K2 where "heap_ok G1 w1" and "ctxs w1 c = Some s1" and "\<not> isReset s1"
    and "block_added G1 w1 c s1 q (unat m) None (xs @ q # ys) K2 (relinked_block w c s b K q m as)"
proof -
  obtain K' where "blks w b = Some K'" "aset K' = c" "b + 48 \<le> endptr K'"
      "external_hdr (mem w) (b + 40) MCTX_ASET_ID" "\<not> isReset s"
    by (rule large_block[OF ok c b t])
  then have f: "aset K = c" "b + 48 \<le> endptr K" "external_hdr (mem w) (b + 40) MCTX_ASET_ID" "\<not> isReset s"
    using K by auto
  note sp = block_links[OF ok c split K]
  have "freed G w (b + 48, c, endptr K - (b + 48)) G1 w1"
    unfolding G1 w1 by (rule heap_without_block[OF ok c b t K split])
  then have ok1: "heap_ok G1 w1" by (simp add: freed_def evolves_def)
  let ?s1 = "s\<lparr>blocks := if bprev K = 0 then bnext K else blocks s,
               mem_allocated := mem_allocated s - of_nat (endptr K - b)\<rparr>"
  let ?K2 = "K\<lparr>endptr := q + unat m, freeptr := q + unat m\<rparr>" and ?w' = "relinked_block w c s b K q m as"
  have c1: "ctxs w1 c = Some ?s1" by (simp add: w1 without_block_def)
  have list: "gblocks (G1 c) = xs @ ys" by (simp add: G1)
  have adm1: "admissible (regions w1) q (unat m)" using adm by (simp add: w1 without_block_def)
  have fq: "blks w1 q = None" using fresh_structs(1)[OF ok1 adm1, of q] m by simp
  have qn: "q \<notin> set (xs @ ys)" using heap_ok_block[OF ok1 c1, of q] fq list by (metis option.distinct(1))
  have B': "blks ?w' = bl.surgery (bprev K) q (bnext K) q ((blks w1)(q \<mapsto> ?K2))"
  proof -
    have "b \<noteq> bprev K \<or> bprev K = 0" "b \<noteq> bnext K \<or> bnext K = 0" "q \<noteq> bprev K \<or> bprev K = 0" "q \<noteq> bnext K \<or> bnext K = 0"
      using sp(8,9) qn by auto
    then show ?thesis
      by (simp add: relinked_block_def w1 without_block_def bl_surgery_forget surgery_again)
  qed
  let ?k = "min (endptr K - b) (unat m)"
  have k48: "48 \<le> ?k" using f(2) m by simp
  have mem': "mem ?w' x = (if q \<le> x \<and> x < q + ?k then mem w (b + (x - q)) else mem w x)" for x
    by (simp add: relinked_block_def moved_block_def)
  have "load64 (mem ?w') (q + 40) = load64 (mem w) (b + 40)"
    using k48 by (intro load64_move) (simp add: mem' add.assoc)
  then have hdr: "external_hdr (mem ?w') (q + 40) MCTX_ASET_ID" using f(3) by (simp add: external_hdr_def)
  have reg': "regions ?w' = (q, unat m) # regions w1"
    by (simp add: relinked_block_def moved_block_def w1 without_block_def)
  have "\<not> IsKeeperBlock c q" using heap_ok_keeper[OF ok1 c1] qn list by (auto simp: IsKeeperBlock_def)
  then have bok: "block_ok (set (regions ?w')) (mem ?w') c q ?K2 None"
    using hdr f(1) m by (simp add: block_ok_def base_def reg')
  have d: "of_nat (endptr K - b) = ptr_diff (endptr K) b" using f(2) by (intro of_nat_ptr_diff) simp
  have "s\<lparr>mem_allocated := mem_allocated s - ptr_diff (endptr K) b + m, blocks := if bprev K = 0 then q else blocks s\<rparr>
      = ?s1\<lparr>blocks := first (xs @ q # ys) 0, mem_allocated := mem_allocated ?s1 + of_nat (unat m)\<rparr>"
    using sp(3,4) by (intro AllocSetContext.equality; cases xs) (simp_all add: d)
  then have ctx': "ctxs ?w' = (ctxs w1)(c \<mapsto> ?s1\<lparr>blocks := first (xs @ q # ys) 0,
      mem_allocated := mem_allocated ?s1 + of_nat (unat m)\<rparr>)"
    by (simp add: relinked_block_def w1 without_block_def)
  have m': "mem ?w' a = mem w1 a" if "\<not> (q \<le> a \<and> a < q + unat m)" for a
    using that by (auto simp: mem' w1 without_block_def)
  have "block_added G1 w1 c ?s1 q (unat m) None (xs @ q # ys) ?K2 ?w'"
    by (rule linked_block_added[OF ok1 c1 list adm1 _ _ _ _ reg' ctx' _ m' bok])
      (use sp(1,2) f(1) B' in simp_all)
  then show ?thesis by (intro that[OF ok1 c1]) (use f(4) in simp_all)
qed

lemma heap_relinked_block:
  assumes ok: "heap_ok G w" and c: "ctxs w c = Some s" and b: "b \<in> set (gblocks (G c))"
    and t: "gtiles (G c) b = None" and K: "blks w b = Some K" and m: "unat m = unat sz' + 48"
    and sz: "unat sz \<le> unat sz'"
    and adm: "admissible (filter (\<lambda>r. fst r \<noteq> b) (regions w)) q (unat m)" and q: "q \<noteq> 0"
  shows "\<exists>G'. resized G w (b + 48, c, endptr K - (b + 48)) sz (q + 48) G' (relinked_block w c s b K q m as)"
proof -
  let ?t = "(b + 48, c, endptr K - (b + 48))" and ?w1 = "without_block w c s b K"
  let ?w' = "relinked_block w c s b K q m as"
  obtain xs ys where split: "gblocks (G c) = xs @ b # ys" using b by (meson split_list)
  let ?G1 = "G(c := (G c)\<lparr>gblocks := xs @ ys\<rparr>)"
  have fr: "freed G w ?t ?G1 ?w1" by (rule heap_without_block[OF ok c b t K split])
  have "48 \<le> unat m" using m by simp
  then obtain s1 K2 where ad: "heap_ok ?G1 ?w1" "ctxs ?w1 c = Some s1" "\<not> isReset s1"
      "block_added ?G1 ?w1 c s1 q (unat m) None (xs @ q # ys) K2 ?w'"
    by (rule relinked_added[OF ok c b t K _ adm split refl refl])
  let ?G2 = "?G1(c := with_block q None (xs @ q # ys) (?G1 c))"
  have al: "allocated ?G1 ?w1 c sz (q + 48) ?G2 ?w'"
    by (rule allocated_block[OF ad])
      (use m sz in \<open>simp_all add: first_size_def relinked_block_def moved_block_def without_block_def\<close>)
  have ch1: "chunks ?G1 ?w1 = chunks G w - {?t}" using fr unfolding freed_def by blast
  then have ev: "evolves G w (chunks G w - {?t}) ?G2 ?w'"
    using evolves_trans[of G w "chunks G w - {?t}" ?G1 ?w1 "chunks ?G1 ?w1" ?G2 ?w'] fr al
    by (simp add: freed_def allocated_def)
  have ch: "chunks ?G2 ?w' = insert (q + 48, c, unat m - 48) (chunks G w - {?t})"
    using heap_add_block(2)[OF ad refl] ch1 by (simp add: first_size_def)
  have fresh: "(q + 48, d, j) \<notin> chunks G w - {?t}" for d j
    using al unfolding ch1[symmetric] allocated_def by blast
  have data: "mem ?w' (q + 48 + i) = mem w (b + 48 + i)" if "i < min (endptr K - (b + 48)) (unat m - 48)" for i
  proof -
    have "48 + i < endptr K - b" "48 + i < unat m" using that by auto
    then show ?thesis by (simp add: relinked_block_def moved_block_def add.assoc)
  qed
  have "resized G w ?t sz (q + 48) ?G2 ?w'"
    by (rule resizedI[OF ev _ fresh _ ch data]) (use m sz in simp_all)
  then show ?thesis by blast
qed

text \<open>The steps of \<open>realloc_external\<close> after the call of \<open>realloc\<close>.\<close>

definition relink_block :: "addr \<Rightarrow> Size \<Rightarrow> addr \<Rightarrow> Size \<Rightarrow> world \<Rightarrow> error + world" where
  "relink_block cset oldblksize block blksize w =
     seqE (upd_ctx cset (\<lambda>s. s\<lparr>mem_allocated := mem_allocated s - oldblksize\<rparr>) w) (\<lambda>w.
     seqE (upd_ctx cset (\<lambda>s. s\<lparr>mem_allocated := mem_allocated s + blksize\<rparr>) w) (\<lambda>w.
     seqE (upd_blk block (\<lambda>k. k\<lparr>endptr := block + unat blksize, freeptr := block + unat blksize\<rparr>) w) (\<lambda>w.
     seqE (get_blk w block) (\<lambda>k.
     seqE (if bprev k \<noteq> 0 then upd_blk (bprev k) (\<lambda>p. p\<lparr>bnext := block\<rparr>) w
           else upd_ctx cset (\<lambda>s. s\<lparr>blocks := block\<rparr>) w) (\<lambda>w.
     seqE (get_blk w block) (\<lambda>k.
       if bnext k \<noteq> 0 then upd_blk (bnext k) (\<lambda>n. n\<lparr>bprev := block\<rparr>) w else Inr w))))))"

lemma relink_block_run:
  assumes ok: "heap_ok G w" and c: "ctxs w c = Some s" and b: "b \<in> set (gblocks (G c))"
    and t: "gtiles (G c) b = None" and K: "blks w b = Some K" and m: "48 \<le> unat m"
    and adm: "admissible (filter (\<lambda>r. fst r \<noteq> b) (regions w)) q (unat m)"
  shows "relink_block c (ptr_diff (endptr K) b) q m (moved_block w b K q (unat m) as)
    = Inr (relinked_block w c s b K q m as)"
proof -
  obtain xs ys where split: "gblocks (G c) = xs @ b # ys" using b by (meson split_list)
  note sp = block_links[OF ok c split K]
  have ok1: "heap_ok (G(c := (G c)\<lparr>gblocks := xs @ ys\<rparr>)) (without_block w c s b K)"
    using heap_without_block[OF ok c b t K split] by (simp add: freed_def evolves_def)
  have "admissible (regions (without_block w c s b K)) q (unat m)"
    using adm by (simp add: without_block_def)
  then have "blks (without_block w c s b K) q = None"
    by (rule fresh_structs(1)[OF ok1]) (use m in auto)
  then have "q = b \<or> blks w q = None" by (auto simp: without_block_def bl.surgery_None split: if_splits)
  then have q: "bprev K \<noteq> 0 \<Longrightarrow> bprev K \<noteq> q" "bnext K \<noteq> 0 \<Longrightarrow> bnext K \<noteq> q"
    using sp(8,9) by (metis option.distinct(1))+
  let ?w0 = "moved_block w b K q (unat m) as"
  let ?K2 = "K\<lparr>endptr := q + unat m, freeptr := q + unat m\<rparr>"
  let ?B = "(blks w)(b := None, q \<mapsto> ?K2)"
  let ?ma = "mem_allocated s - ptr_diff (endptr K) b + m"
  define B1 where "B1 = (if bprev K \<noteq> 0 then modify (bprev K) (\<lambda>p. p\<lparr>bnext := q\<rparr>) ?B else ?B)"
  let ?w2 = "?w0\<lparr>ctxs := (ctxs w)(c \<mapsto> s\<lparr>mem_allocated := ?ma\<rparr>), blks := ?B\<rparr>"
  let ?w3 = "?w0\<lparr>ctxs := (ctxs w)(c \<mapsto> s\<lparr>mem_allocated := ?ma,
      blocks := if bprev K = 0 then q else blocks s\<rparr>), blks := B1\<rparr>"
  have "s\<lparr>mem_allocated := ?ma, blocks := blocks s\<rparr> = s\<lparr>mem_allocated := ?ma\<rparr>"
    by (rule AllocSetContext.equality) simp_all
  then have 1: "(if bprev ?K2 \<noteq> 0 then upd_blk (bprev ?K2) (\<lambda>p. p\<lparr>bnext := q\<rparr>) ?w2
          else upd_ctx c (\<lambda>s. s\<lparr>blocks := q\<rparr>) ?w2) = Inr ?w3"
    using sp(8) q(1) by (auto simp: upd_ctx_def upd_blk_modify B1_def)
  have 2: "blks ?w2 q = Some ?K2" "blks ?w3 q = Some ?K2" using q(1) by (auto simp: B1_def)
  have 3: "(if bnext ?K2 \<noteq> 0 then upd_blk (bnext ?K2) (\<lambda>n. n\<lparr>bprev := q\<rparr>) ?w3 else Inr ?w3)
      = Inr (relinked_block w c s b K q m as)"
    using sp(9) q(2) by (auto simp: upd_blk_modify relinked_block_def B1_def bl.surgery_def Let_def)
  have 0: "upd_ctx c (\<lambda>s. s\<lparr>mem_allocated := mem_allocated s - ptr_diff (endptr K) b\<rparr>) ?w0
      = Inr (?w0\<lparr>ctxs := (ctxs w)(c \<mapsto> s\<lparr>mem_allocated := mem_allocated s - ptr_diff (endptr K) b\<rparr>)\<rparr>)"
    "upd_ctx c (\<lambda>s. s\<lparr>mem_allocated := mem_allocated s + m\<rparr>)
        (?w0\<lparr>ctxs := (ctxs w)(c \<mapsto> s\<lparr>mem_allocated := mem_allocated s - ptr_diff (endptr K) b\<rparr>)\<rparr>)
      = Inr (?w0\<lparr>ctxs := (ctxs w)(c \<mapsto> s\<lparr>mem_allocated := ?ma\<rparr>)\<rparr>)"
    "upd_blk q (\<lambda>k. k\<lparr>endptr := q + unat m, freeptr := q + unat m\<rparr>)
        (?w0\<lparr>ctxs := (ctxs w)(c \<mapsto> s\<lparr>mem_allocated := ?ma\<rparr>)\<rparr>) = Inr ?w2"
    using c by (simp_all add: upd_ctx_def upd_blk_def moved_block_def)
  show ?thesis
    by (simp only: relink_block_def 0 seqE_simps get_blk_Some[OF 2(1)] 1 get_blk_Some[OF 2(2)] 3)
qed

lemma realloc_external_ok:
  assumes inv: "heap_ok G w" and c: "ctxs w c = Some s" and b: "b \<in> set (gblocks (G c))"
    and t: "gtiles (G c) b = None" and K: "blks w b = Some K"
    and good: "MemoryContextCheckSize c sz flags = Inr ()"
  shows "realloc_spec G w (b + 48, c, endptr K - (b + 48)) sz flags (realloc_external p (b + 40) sz flags w)"
proof -
  obtain K' where "blks w b = Some K'" "aset K' = c" "freeptr K' = endptr K'"
    by (rule large_block[OF inv c b t])
  then have f: "aset K = c" "freeptr K = endptr K" using K by auto
  note rd = large_reads[OF inv c b t]
  let ?m = "MAXALIGN sz + of_nat ALLOC_BLOCKHDRSZ + of_nat ALLOC_CHUNKHDRSZ"
  have "unat sz < 2 ^ 63" using good by (auto simp: MemoryContextCheckSize_eq split: if_splits)
  note sz = large_size[OF this]
  then have m: "48 \<le> unat ?m" by simp
  have run: "realloc_external p (b + 40) sz flags w =
      seqE (realloc b ?m w) (\<lambda>(newblock, w).
      if newblock = 0 then MemoryContextAllocationFailure c sz flags w
      else seqE (relink_block c (ptr_diff (endptr K) b) newblock ?m w)
        (\<lambda>w. Inr (MemoryChunkGetPointer (newblock + ALLOC_BLOCKHDRSZ), w)))"
    by (simp only: realloc_external_def relink_block_def Let_def rd(2,3) get_blk_Some[OF K] seqE_simps
        seqE_assoc if_True f refl not_True_eq_False if_False good)
  show ?thesis
  proof (cases rule: realloc_cases[OF inv c b t K m, case_names fail ok])
    case (fail as)
    have "unchanged G w G (w\<lparr>answers := as\<rparr>)"
      using heap_ok_fields[of "w\<lparr>answers := as\<rparr>" w] inv
      by (auto simp: unchanged_def evolves_def same_rest_def)
    then show ?thesis
      by (auto simp: run fail realloc_spec_def out_of_memory_def MemoryContextAllocationFailure_def
          simp del: sizes)
  next
    case (ok q as)
    have "MemoryChunkGetPointer (q + ALLOC_BLOCKHDRSZ) = q + 48"
      by (simp add: MemoryChunkGetPointer_def sizeof_MemoryChunk_def)
    then have "realloc_external p (b + 40) sz flags w = Inr (q + 48, relinked_block w c s b K q ?m as)"
      by (simp only: run ok(1) seqE_simps prod.case ok(3) if_False relink_block_run[OF inv c b t K m ok(2)])
    moreover obtain G' where
      "resized G w (b + 48, c, endptr K - (b + 48)) sz (q + 48) G' (relinked_block w c s b K q ?m as)"
      using heap_relinked_block[OF inv c b t K sz(1,2) ok(2,3)] by blast
    ultimately show ?thesis by (auto simp: realloc_spec_def)
  qed
qed

theorem AllocSetRealloc_correct:
  assumes ok: "heap_ok G w" and p: "(p, c, n) \<in> chunks G w"
  shows "if MemoryContextCheckSize c sz flags = Inr ()
    then realloc_spec G w (p, c, n) sz flags (AllocSetRealloc p sz flags w)
    else AllocSetRealloc p sz flags w = Inl (BadSize sz)"
  using ok p
proof (cases rule: chunk_cases)
  case (tile s k)
  have p8: "p = p - 8 + 8" using tile(5) by simp
  obtain b K where r: "MemoryChunkIsExternal w (p - 8) = Inr False" "MemoryChunkGetBlock w (p - 8) = Inr b"
    "MemoryChunkGetValue w (p - 8) = Inr (of_nat k)" "AllocBlockIsValid w b = Inr True"
    "get_blk w b = Inr K" "aset K = c" "GetMemoryChunkMethodID w (p - 8 + 8) = Inr MCTX_ASET_ID" "k < 11"
    by (rule tile_reads[OF ok tile(1,2)])
  have run: "AllocSetRealloc p sz flags w = realloc_regular p (p - 8) sz flags w"
    using r(1) by (simp add: AllocSetRealloc_def PointerGetMemoryChunk_def sizeof_MemoryChunk_def Let_def)
  show ?thesis
  proof (cases "MemoryContextCheckSize c sz flags = Inr ()")
    case True
    then show ?thesis
      using realloc_regular_ok[OF ok tile(1-3) True] p8 run tile(4) by simp
  next
    case False
    then have big: "2 ^ 30 \<le> unat sz" by (auto simp: MemoryContextCheckSize_eq split: if_splits)
    have nr: "\<not> isReset s"
      using ctx_params[OF ok tile(1)] pristine_tiles[of c s "G c"] tile(2) by (auto simp: params_ok_def)
    have "unat (allocChunkLimit s) \<le> 8192" using ctx_params[OF ok tile(1)] by (simp add: params_ok_def)
    then have bad: "AllocSetAlloc c sz flags w = Inl (BadSize sz)"
      using AllocSetAlloc_correct[OF ok tile(1) nr, of sz flags] False big by simp
    have "unat (of_nat k :: Size) = k" using r(8) by (intro unat_of_nat_small) simp
    note u = this
    have "FreeListIdxIsValid (int k)" using r(8) by (simp add: FreeListIdxIsValid_def)
    moreover have "\<not> sz \<le> GetChunkSizeFromFreeListIdx (int k)"
      using big unat_class(1)[OF r(8)] class_size_bounds[OF r(8)] by (simp add: word_le_nat_alt)
    ultimately have "realloc_regular p (p - 8) sz flags w = Inl (BadSize sz)"
      by (simp only: realloc_regular_def Let_def r(2-6) u seqE_simps assertE_simps if_False bad)
    then show ?thesis using False run by simp
  qed
next
  case (large s b K)
  have p8: "p - 8 = b + 40" using large(5) by simp
  note rd = large_reads[OF ok large(1-3)]
  have run: "AllocSetRealloc p sz flags w = realloc_external p (b + 40) sz flags w"
    using rd(1)
    by (simp only: AllocSetRealloc_def PointerGetMemoryChunk_def sizeof_MemoryChunk_def Let_def p8
        seqE_simps if_True)
  show ?thesis
  proof (cases "MemoryContextCheckSize c sz flags = Inr ()")
    case True
    then show ?thesis
      using realloc_external_ok[OF ok large(1-4) True] run large(5,6) by simp
  next
    case False
    obtain K' where "blks w b = Some K'" "aset K' = c" "base c b = b" "\<not> IsKeeperBlock c b"
      "freeptr K' = endptr K'"
      by (rule large_block[OF ok large(1-3)])
    then have f: "aset K = c" "freeptr K = endptr K" using large(4) by auto
    have "MemoryContextCheckSize c sz flags = Inl (BadSize sz)"
      using False by (auto simp: MemoryContextCheckSize_eq)
    then have "realloc_external p (b + 40) sz flags w = Inl (BadSize sz)"
      using large(4)
      by (simp only: realloc_external_def Let_def rd(2,3) get_blk_Some seqE_simps if_True f refl
          not_True_eq_False if_False)
    then show ?thesis using False run by simp
  qed
qed

end
