(* ===== verification/Stats.thy ===== *)
theory Stats
  imports AllocSet
begin

text \<open>
  \<open>AllocSetStats\<close> of \<open>src/aset.c\<close>: it counts blocks and free chunks of an allocation set, hands the
  numbers as a text to a print function of its caller, if there is one, and adds them to the caller's
  totals, if it gave any. The print function is client code and a parameter here. The lemmas are about
  the text: no number is cut, and the buffer of 200 bytes holds all of it.
\<close>

section \<open>Counting\<close>

definition stats_blocks :: "world \<Rightarrow> addr \<Rightarrow> MemoryContextCounters \<Rightarrow> error + MemoryContextCounters" where
  "stats_blocks w block c =
     seqE (loopE (\<lambda>(block, c). block \<noteq> 0)
       (\<lambda>(block, c).
          seqE (get_blk w block) (\<lambda>k.
            Inr (bnext k, c\<lparr>nblocks := nblocks c + 1,
              totalspace := totalspace c + ptr_diff (endptr k) block,
              freespace := freespace c + ptr_diff (endptr k) (freeptr k)\<rparr>)))
       (block, c)) (\<lambda>(_, c). Inr c)"

definition stats_freelist ::
    "world \<Rightarrow> int \<Rightarrow> addr \<Rightarrow> MemoryContextCounters \<Rightarrow> error + MemoryContextCounters" where
  "stats_freelist w fidx chunk c =
     seqE (loopE (\<lambda>(chunk, c). chunk \<noteq> 0)
       (\<lambda>(chunk, c).
          seqE (MemoryChunkGetValue w chunk) (\<lambda>v.
          seqE (assertE (int (unat v) = fidx)) (\<lambda>_.
          seqE (load_ptr w (GetFreeListLink chunk)) (\<lambda>nxt.
            Inr (nxt, c\<lparr>freechunks := freechunks c + 1,
              freespace := freespace c + (GetChunkSizeFromFreeListIdx fidx + of_nat ALLOC_CHUNKHDRSZ)\<rparr>)))))
       (chunk, c)) (\<lambda>(_, c). Inr c)"

definition count_set :: "world \<Rightarrow> AllocSetContext \<Rightarrow> error + MemoryContextCounters" where
  "count_set w s =
     seqE (stats_blocks w (blocks s)
        \<lparr>nblocks = 0, freechunks = 0, totalspace = of_nat ALIGNED_CONTEXTSZ, freespace = 0\<rparr>) (\<lambda>c.
     seqE (loopE (\<lambda>(fidx, c). fidx < int ALLOCSET_NUM_FREELISTS)
        (\<lambda>(fidx, c). seqE (get_freelist s fidx) (\<lambda>chunk.
           seqE (stats_freelist w fidx chunk c) (\<lambda>c. Inr (fidx + 1, c)))) (0, c)) (\<lambda>(_, c). Inr c))"

section \<open>The text\<close>

text \<open>\<open>%zu\<close> of \<open>snprintf\<close>, and the cut at the size of the buffer, which holds a null byte as well.\<close>

fun decimal :: "nat \<Rightarrow> string" where
  "decimal n = (if n < 10 then [char_of (48 + n)] else decimal (n div 10) @ [char_of (48 + n mod 10)])"

definition zu :: "Size \<Rightarrow> string" where "zu sz = decimal (unat sz)"

definition snprintf :: "nat \<Rightarrow> string \<Rightarrow> string" where "snprintf sz s = take (sz - 1) s"

definition stats_text :: "MemoryContextCounters \<Rightarrow> string" where
  "stats_text c =
     zu (totalspace c) @ '' total in '' @ zu (nblocks c) @ '' blocks; '' @ zu (freespace c)
     @ '' free ('' @ zu (freechunks c) @ '' chunks); '' @ zu (totalspace c - freespace c) @ '' used''"

section \<open>The function\<close>

text \<open>A print function gets the context, the caller's pointer, the text, and whether to use \<open>stderr\<close>.\<close>

type_synonym printer = "addr \<Rightarrow> addr \<Rightarrow> string \<Rightarrow> bool \<Rightarrow> world \<Rightarrow> error + world"

definition AllocSetStats :: "addr \<Rightarrow> printer option \<Rightarrow> addr \<Rightarrow> MemoryContextCounters option \<Rightarrow> bool
    \<Rightarrow> world \<Rightarrow> error + MemoryContextCounters option \<times> world" where
  "AllocSetStats context printfunc passthru totals print_to_stderr w =
     seqE (Assert_valid w context) (\<lambda>_.
     seqE (get_ctx w context) (\<lambda>s.
     seqE (count_set w s) (\<lambda>c.
     seqE (case printfunc of None \<Rightarrow> Inr w
           | Some f \<Rightarrow> f context passthru (snprintf 200 (stats_text c)) print_to_stderr w) (\<lambda>w.
       Inr (map_option (\<lambda>t. t\<lparr>nblocks := nblocks t + nblocks c,
                   freechunks := freechunks t + freechunks c,
                   totalspace := totalspace t + totalspace c,
                   freespace := freespace t + freespace c\<rparr>) totals, w)))))"

section \<open>Numbers and their texts\<close>

text \<open>A text of digits reads back as the number.\<close>

fun read_decimal :: "nat \<Rightarrow> string \<Rightarrow> nat" where
  "read_decimal n [] = n"
| "read_decimal n (c # cs) = read_decimal (10 * n + (of_char c - 48)) cs"

lemma read_decimal_append: "read_decimal n (cs @ ds) = read_decimal (read_decimal n cs) ds"
  by (induction cs arbitrary: n) simp_all

lemma digit_char: "d < 10 \<Longrightarrow> of_char (char_of (48 + d :: nat)) - 48 = (d :: nat)"
  by simp

declare decimal.simps [simp del]

lemma read_decimal_decimal: "read_decimal 0 (decimal n) = n"
proof (induction n rule: decimal.induct)
  case (1 n)
  show ?case
  proof (cases "n < 10")
    case True
    then show ?thesis using digit_char[of n] by (simp add: decimal.simps[of n])
  next
    case False
    then show ?thesis
      using 1 digit_char[of "n mod 10"] by (simp add: decimal.simps[of n] read_decimal_append)
  qed
qed

lemma length_decimal: "n < 10 ^ k \<Longrightarrow> 0 < k \<Longrightarrow> length (decimal n) \<le> k"
proof (induction k arbitrary: n)
  case (Suc k)
  show ?case
  proof (cases "n < 10")
    case False
    then have "0 < k" "n div 10 < 10 ^ k" using Suc.prems(1) by (cases k, auto)
    then show ?thesis using Suc.IH[of "n div 10"] False by (simp add: decimal.simps[of n])
  qed (simp add: decimal.simps[of n])
qed simp

lemma length_zu: "length (zu sz) \<le> 20"
  unfolding zu_def by (rule length_decimal) (use unsigned_less[of sz, where 'a = nat] in simp_all)

text \<open>So the text of the statistics is never cut.\<close>

lemma stats_text_fits: "snprintf 200 (stats_text c) = stats_text c"
  using length_zu[of "totalspace c"] length_zu[of "nblocks c"] length_zu[of "freespace c"]
    length_zu[of "freechunks c"] length_zu[of "totalspace c - freespace c"]
  by (simp add: snprintf_def stats_text_def)

end
