(* ===== verification/Lifecycle.thy ===== *)
theory Lifecycle
  imports Stats
begin

text \<open>
  The life of a context in \<open>src/mcxt.c\<close>: initialisation, reset and deletion of a context with its
  descendants, emptiness and the statistics over a subtree.
\<close>

section \<open>Operations\<close>

definition mcxt_delete_context ::
    "MemoryContextMethodID \<Rightarrow> callbacks \<Rightarrow> addr \<Rightarrow> world \<Rightarrow> error + world" where
  "mcxt_delete_context i cbf context w =
     (if i = MCTX_ASET_ID then AllocSetDelete cbf context w else Inl Fault)"

definition mcxt_is_empty :: "MemoryContextMethodID \<Rightarrow> world \<Rightarrow> addr \<Rightarrow> error + bool" where
  "mcxt_is_empty i w context = (if i = MCTX_ASET_ID then AllocSetIsEmpty w context else Inl Fault)"

definition mcxt_stats :: "MemoryContextMethodID \<Rightarrow> addr \<Rightarrow> printer option \<Rightarrow> addr \<Rightarrow> MemoryContextCounters option
    \<Rightarrow> bool \<Rightarrow> world \<Rightarrow> error + MemoryContextCounters option \<times> world" where
  "mcxt_stats i context printfunc passthru totals print_to_stderr w =
     (if i = MCTX_ASET_ID then AllocSetStats context printfunc passthru totals print_to_stderr w else Inl Fault)"

text \<open>The call of \<open>MemoryContextMemConsumed\<close>, with no print function.\<close>

definition add_stats :: "MemoryContextMethodID \<Rightarrow> world \<Rightarrow> addr \<Rightarrow> MemoryContextCounters
    \<Rightarrow> error + MemoryContextCounters" where
  "add_stats i w context consumed =
     seqE (mcxt_stats i context None 0 (Some consumed) False w) (\<lambda>(totals, w).
       case totals of Some t \<Rightarrow> Inr t | None \<Rightarrow> Inl Fault)"

definition MemoryContextInit :: "world \<Rightarrow> error + world" where
  "MemoryContextInit w =
     seqE (assertE (TopMemoryContext w = 0)) (\<lambda>_.
     seqE (AllocSetContextCreateInternal 0 ''TopMemoryContext'' ALLOCSET_DEFAULT_MINSIZE
             ALLOCSET_DEFAULT_INITSIZE ALLOCSET_DEFAULT_MAXSIZE w) (\<lambda>(c, w).
     let w = w\<lparr>TopMemoryContext := c\<rparr>;
         w = w\<lparr>CurrentMemoryContext := TopMemoryContext w\<rparr> in
     seqE (AllocSetContextCreateInternal (TopMemoryContext w) ''ErrorContext''
             (8 * 1024) (8 * 1024) (8 * 1024) w) (\<lambda>(e, w).
       MemoryContextAllowInCriticalSection e True (w\<lparr>ErrorContext := e\<rparr>))))"

definition MemoryContextSwitchTo :: "addr \<Rightarrow> world \<Rightarrow> addr \<times> world" where
  "MemoryContextSwitchTo context w =
     (CurrentMemoryContext w, w\<lparr>CurrentMemoryContext := context\<rparr>)"

text \<open>Delete a context that has no children.\<close>

definition MemoryContextDeleteOnly :: "callbacks \<Rightarrow> addr \<Rightarrow> world \<Rightarrow> error + world" where
  "MemoryContextDeleteOnly cbf context w =
     seqE (Assert_valid w context) (\<lambda>_.
     seqE (assertE (context \<noteq> TopMemoryContext w)) (\<lambda>_.
     seqE (assertE (context \<noteq> CurrentMemoryContext w)) (\<lambda>_.
     seqE (get_ctx w context) (\<lambda>s.
     seqE (assertE (firstchild s = 0)) (\<lambda>_.
     seqE (MemoryContextCallResetCallbacks cbf context w) (\<lambda>w.
     seqE (MemoryContextSetParent context 0 w) (\<lambda>w.
     seqE (upd_ctx context (\<lambda>s. s\<lparr>ident := 0\<rparr>) w) (\<lambda>w.
     seqE (get_ctx w context) (\<lambda>s.
       mcxt_delete_context (methods s) cbf context w)))))))))"

text \<open>Descend until a context without children is found.\<close>

definition descend_to_leaf :: "world \<Rightarrow> addr \<Rightarrow> error + addr" where
  "descend_to_leaf w cur =
     seqE (get_ctx w cur) (\<lambda>s.
     seqE (loopE (\<lambda>(cur, child). child \<noteq> 0)
             (\<lambda>(cur, child). seqE (get_ctx w child) (\<lambda>s. Inr (child, firstchild s)))
             (cur, firstchild s)) (\<lambda>(cur, _). Inr cur))"

text \<open>
  \<open>MemoryContextDelete\<close>: delete leaf after leaf, from the bottom up; the loop state is the current
  context, whether the loop was left by \<open>break\<close>, and the state.
\<close>

definition delete_step :: "callbacks \<Rightarrow> addr \<Rightarrow> addr \<times> bool \<times> world
    \<Rightarrow> error + addr \<times> bool \<times> world" where
  "delete_step cbf context = (\<lambda>(cur, brk, w).
     seqE (descend_to_leaf w cur) (\<lambda>cur.
     seqE (get_ctx w cur) (\<lambda>s.
     let par = parent s in
     seqE (MemoryContextDeleteOnly cbf cur w) (\<lambda>w.
     if cur = context then Inr (cur, True, w) else Inr (par, False, w)))))"

definition MemoryContextDelete :: "callbacks \<Rightarrow> addr \<Rightarrow> world \<Rightarrow> error + world" where
  "MemoryContextDelete cbf context w =
     seqE (Assert_valid w context) (\<lambda>_.
     seqE (loopE (\<lambda>(cur, brk, w). \<not> brk) (delete_step cbf context) (context, False, w))
       (\<lambda>(_, _, w). Inr w))"

definition MemoryContextDeleteChildren :: "callbacks \<Rightarrow> addr \<Rightarrow> world \<Rightarrow> error + world" where
  "MemoryContextDeleteChildren cbf context w =
     seqE (Assert_valid w context) (\<lambda>_.
     seqE (get_ctx w context) (\<lambda>s.
     seqE (loopE (\<lambda>(child, w). child \<noteq> 0)
       (\<lambda>(child, w).
          seqE (MemoryContextDelete cbf child w) (\<lambda>w.
          seqE (get_ctx w context) (\<lambda>s. Inr (firstchild s, w))))
       (firstchild s, w)) (\<lambda>(_, w). Inr w)))"

definition MemoryContextReset :: "callbacks \<Rightarrow> addr \<Rightarrow> world \<Rightarrow> error + world" where
  "MemoryContextReset cbf context w =
     seqE (Assert_valid w context) (\<lambda>_.
     seqE (get_ctx w context) (\<lambda>s.
     seqE (if firstchild s \<noteq> 0 then MemoryContextDeleteChildren cbf context w else Inr w) (\<lambda>w.
     seqE (get_ctx w context) (\<lambda>s.
     if \<not> isReset s then MemoryContextResetOnly cbf context w else Inr w))))"

definition MemoryContextResetChildren :: "callbacks \<Rightarrow> addr \<Rightarrow> world \<Rightarrow> error + world" where
  "MemoryContextResetChildren cbf context w =
     seqE (Assert_valid w context) (\<lambda>_.
     seqE (get_ctx w context) (\<lambda>s.
     seqE (loopE (\<lambda>(cur, w). cur \<noteq> 0)
       (\<lambda>(cur, w).
          seqE (MemoryContextResetOnly cbf cur w) (\<lambda>w.
          seqE (MemoryContextTraverseNext w cur context) (\<lambda>nxt. Inr (nxt, w))))
       (firstchild s, w)) (\<lambda>(_, w). Inr w)))"

definition MemoryContextIsEmpty :: "world \<Rightarrow> addr \<Rightarrow> error + bool" where
  "MemoryContextIsEmpty w context =
     seqE (Assert_valid w context) (\<lambda>_.
     seqE (get_ctx w context) (\<lambda>s.
     if firstchild s \<noteq> 0 then Inr False else mcxt_is_empty (methods s) w context))"

definition zero_counters :: MemoryContextCounters where
  "zero_counters = \<lparr>nblocks = 0, freechunks = 0, totalspace = 0, freespace = 0\<rparr>"

definition MemoryContextMemConsumed :: "world \<Rightarrow> addr \<Rightarrow> error + MemoryContextCounters" where
  "MemoryContextMemConsumed w context =
     seqE (Assert_valid w context) (\<lambda>_.
     seqE (get_ctx w context) (\<lambda>s.
     seqE (add_stats (methods s) w context zero_counters) (\<lambda>consumed.
     seqE (loopE (\<lambda>(cur, consumed). cur \<noteq> 0)
        (\<lambda>(cur, consumed).
           seqE (get_ctx w cur) (\<lambda>c.
           seqE (add_stats (methods c) w cur consumed) (\<lambda>consumed.
           seqE (MemoryContextTraverseNext w cur context) (\<lambda>nxt. Inr (nxt, consumed)))))
        (firstchild s, consumed)) (\<lambda>(_, consumed). Inr consumed))))"

end
