(* ===== verification/Palloc.thy ===== *)
theory Palloc
  imports Lifecycle
begin

text \<open>
  The allocation interface of \<open>src/mcxt.c\<close> (\<open>palloc\<close>, \<open>pfree\<close>, \<open>repalloc\<close> and their variants, the
  string functions) and the aligned allocations of \<open>src/alignedalloc.c\<close>.

  A call on a chunk is dispatched on the method id in its header. An aligned chunk redirects to the
  chunk that contains it, so \<open>pfree\<close>, \<open>GetMemoryChunkContext\<close> and \<open>GetMemoryChunkSpace\<close> are
  mutually recursive with their \<open>AlignedAlloc\<close> versions; the recursion ends because a redirection
  leads to a smaller address.
\<close>

section \<open>Dispatch on a pointer\<close>

text \<open>\<open>BogusFree\<close> and its kin: the rows of the reserved and unused method ids.\<close>

definition BogusFree :: "addr \<Rightarrow> world \<Rightarrow> error + world" where
  "BogusFree pointer w = Inl (Corruption pointer)"
definition BogusRealloc :: "addr \<Rightarrow> Size \<Rightarrow> uint32 \<Rightarrow> world \<Rightarrow> error + addr \<times> world" where
  "BogusRealloc pointer sz flags w = Inl (Corruption pointer)"
definition BogusGetChunkContext :: "world \<Rightarrow> addr \<Rightarrow> error + addr" where
  "BogusGetChunkContext w pointer = Inl (Corruption pointer)"
definition BogusGetChunkSpace :: "world \<Rightarrow> addr \<Rightarrow> error + Size" where
  "BogusGetChunkSpace w pointer = Inl (Corruption pointer)"

text \<open>What \<open>AlignedAllocFree\<close> and its kin read first: the chunk that a redirection leads to.\<close>

lemma GetMemoryChunkMethodID_ge: "GetMemoryChunkMethodID w p = Inr i \<Longrightarrow> 8 \<le> p"
  by (auto simp: GetMemoryChunkMethodID_def seqE_eq_Inr sizeof_MemoryChunk_def split: if_splits)

lemma MemoryChunkGetBlock_le: "MemoryChunkGetBlock w chunk = Inr b \<Longrightarrow> b \<le> chunk"
  by (auto simp: MemoryChunkGetBlock_def seqE_eq_Inr split: if_splits)

function pfree :: "addr \<Rightarrow> world \<Rightarrow> error + world"
  and AlignedAllocFree :: "addr \<Rightarrow> world \<Rightarrow> error + world" where
  "pfree pointer w =
     seqE (GetMemoryChunkMethodID w pointer) (\<lambda>i.
     if i = MCTX_ASET_ID then AllocSetFree pointer w
     else if i = MCTX_ALIGNED_REDIRECT_ID then AlignedAllocFree pointer w
     else BogusFree pointer w)"
| "AlignedAllocFree pointer w =
     (if pointer < sizeof_MemoryChunk then Inl Fault else
      let chunk = PointerGetMemoryChunk pointer in
      seqE (MemoryChunkIsExternal w chunk) (\<lambda>external.
      seqE (assertE (\<not> external)) (\<lambda>_.
      seqE (MemoryChunkGetBlock w chunk) (\<lambda>unaligned. pfree unaligned w))))"
  by pat_completeness auto
termination
  by (relation "measure (\<lambda>x. case x of Inl (p, w) \<Rightarrow> 2 * p + 1 | Inr (p, w) \<Rightarrow> 2 * p)")
    (auto simp: PointerGetMemoryChunk_def sizeof_MemoryChunk_def dest!: MemoryChunkGetBlock_le)

function GetMemoryChunkContext :: "world \<Rightarrow> addr \<Rightarrow> error + addr"
  and AlignedAllocGetChunkContext :: "world \<Rightarrow> addr \<Rightarrow> error + addr" where
  "GetMemoryChunkContext w pointer =
     seqE (GetMemoryChunkMethodID w pointer) (\<lambda>i.
     if i = MCTX_ASET_ID then AllocSetGetChunkContext w pointer
     else if i = MCTX_ALIGNED_REDIRECT_ID then AlignedAllocGetChunkContext w pointer
     else BogusGetChunkContext w pointer)"
| "AlignedAllocGetChunkContext w pointer =
     (if pointer < sizeof_MemoryChunk then Inl Fault else
      let redirchunk = PointerGetMemoryChunk pointer in
      seqE (MemoryChunkIsExternal w redirchunk) (\<lambda>external.
      seqE (assertE (\<not> external)) (\<lambda>_.
      seqE (MemoryChunkGetBlock w redirchunk) (\<lambda>b. GetMemoryChunkContext w b))))"
  by pat_completeness auto
termination
  by (relation "measure (\<lambda>x. case x of Inl (w, p) \<Rightarrow> 2 * p + 1 | Inr (w, p) \<Rightarrow> 2 * p)")
    (auto simp: PointerGetMemoryChunk_def sizeof_MemoryChunk_def dest!: MemoryChunkGetBlock_le)

function GetMemoryChunkSpace :: "world \<Rightarrow> addr \<Rightarrow> error + Size"
  and AlignedAllocGetChunkSpace :: "world \<Rightarrow> addr \<Rightarrow> error + Size" where
  "GetMemoryChunkSpace w pointer =
     seqE (GetMemoryChunkMethodID w pointer) (\<lambda>i.
     if i = MCTX_ASET_ID then AllocSetGetChunkSpace w pointer
     else if i = MCTX_ALIGNED_REDIRECT_ID then AlignedAllocGetChunkSpace w pointer
     else BogusGetChunkSpace w pointer)"
| "AlignedAllocGetChunkSpace w pointer =
     (if pointer < sizeof_MemoryChunk then Inl Fault else
      let redirchunk = PointerGetMemoryChunk pointer in
      seqE (MemoryChunkGetBlock w redirchunk) (\<lambda>unaligned. GetMemoryChunkSpace w unaligned))"
  by pat_completeness auto
termination
  by (relation "measure (\<lambda>x. case x of Inl (w, p) \<Rightarrow> 2 * p + 1 | Inr (w, p) \<Rightarrow> 2 * p)")
    (auto simp: PointerGetMemoryChunk_def sizeof_MemoryChunk_def dest!: MemoryChunkGetBlock_le)

declare pfree.simps [simp del] AlignedAllocFree.simps [simp del]
  GetMemoryChunkContext.simps [simp del] AlignedAllocGetChunkContext.simps [simp del]
  GetMemoryChunkSpace.simps [simp del] AlignedAllocGetChunkSpace.simps [simp del]

section \<open>Allocation in a context\<close>

text \<open>The \<open>alloc\<close> column of \<open>mcxt_methods[]\<close>.\<close>

definition mcxt_alloc ::
    "MemoryContextMethodID \<Rightarrow> addr \<Rightarrow> Size \<Rightarrow> uint32 \<Rightarrow> world \<Rightarrow> error + addr \<times> world" where
  "mcxt_alloc i context sz flags w =
     (if i = MCTX_ASET_ID then AllocSetAlloc context sz flags w else Inl Fault)"

text \<open>
  What the allocation functions share: the context is valid, it is marked as not reset, and its
  \<open>alloc\<close> method runs.
\<close>

definition context_alloc :: "addr \<Rightarrow> Size \<Rightarrow> uint32 \<Rightarrow> world \<Rightarrow> error + addr \<times> world" where
  "context_alloc context sz flags w =
     seqE (upd_ctx context (\<lambda>s. s\<lparr>isReset := False\<rparr>) w) (\<lambda>w.
     seqE (get_ctx w context) (\<lambda>s. mcxt_alloc (methods s) context sz flags w))"

definition MemoryContextAlloc :: "addr \<Rightarrow> Size \<Rightarrow> world \<Rightarrow> error + addr \<times> world" where
  "MemoryContextAlloc context sz w =
     seqE (Assert_valid w context) (\<lambda>_. context_alloc context sz 0 w)"

definition MemoryContextAllocZero :: "addr \<Rightarrow> Size \<Rightarrow> world \<Rightarrow> error + addr \<times> world" where
  "MemoryContextAllocZero context sz w =
     seqE (Assert_valid w context) (\<lambda>_.
     seqE (context_alloc context sz 0 w) (\<lambda>(ret, w).
     seqE (MemSetAligned ret sz w) (\<lambda>w. Inr (ret, w))))"

definition MemoryContextAllocExtended ::
    "addr \<Rightarrow> Size \<Rightarrow> uint32 \<Rightarrow> world \<Rightarrow> error + addr \<times> world" where
  "MemoryContextAllocExtended context sz flags w =
     seqE (Assert_valid w context) (\<lambda>_.
     if \<not> (if flags AND MCXT_ALLOC_HUGE \<noteq> 0 then AllocHugeSizeIsValid sz else AllocSizeIsValid sz)
     then Inl (BadSize sz) else
     seqE (context_alloc context sz flags w) (\<lambda>(ret, w).
     if ret = 0 then Inr (0, w)
     else if flags AND MCXT_ALLOC_ZERO \<noteq> 0
     then seqE (MemSetAligned ret sz w) (\<lambda>w. Inr (ret, w))
     else Inr (ret, w)))"

definition MemoryContextAllocHuge :: "addr \<Rightarrow> Size \<Rightarrow> world \<Rightarrow> error + addr \<times> world" where
  "MemoryContextAllocHuge context sz w =
     seqE (Assert_valid w context) (\<lambda>_. context_alloc context sz MCXT_ALLOC_HUGE w)"

definition palloc :: "Size \<Rightarrow> world \<Rightarrow> error + addr \<times> world" where
  "palloc sz w =
     (let context = CurrentMemoryContext w in
      seqE (Assert_valid w context) (\<lambda>_.
      seqE (context_alloc context sz 0 w) (\<lambda>(ret, w).
      seqE (assertE (ret \<noteq> 0)) (\<lambda>_. Inr (ret, w)))))"

definition palloc0 :: "Size \<Rightarrow> world \<Rightarrow> error + addr \<times> world" where
  "palloc0 sz w =
     (let context = CurrentMemoryContext w in
      seqE (Assert_valid w context) (\<lambda>_.
      seqE (context_alloc context sz 0 w) (\<lambda>(ret, w).
      seqE (assertE (ret \<noteq> 0)) (\<lambda>_.
      seqE (MemSetAligned ret sz w) (\<lambda>w. Inr (ret, w))))))"

definition palloc_extended :: "Size \<Rightarrow> uint32 \<Rightarrow> world \<Rightarrow> error + addr \<times> world" where
  "palloc_extended sz flags w =
     (let context = CurrentMemoryContext w in
      seqE (Assert_valid w context) (\<lambda>_.
      seqE (context_alloc context sz flags w) (\<lambda>(ret, w).
      if ret = 0 then seqE (assertE (flags AND MCXT_ALLOC_NO_OOM \<noteq> 0)) (\<lambda>_. Inr (0, w))
      else if flags AND MCXT_ALLOC_ZERO \<noteq> 0
      then seqE (MemSetAligned ret sz w) (\<lambda>w. Inr (ret, w))
      else Inr (ret, w))))"

section \<open>Aligned allocation\<close>

definition PallocAlignedExtraBytes :: "Size \<Rightarrow> Size" where
  "PallocAlignedExtraBytes alignto = alignto + (of_nat sizeof_MemoryChunk - MAXIMUM_ALIGNOF)"

definition MemoryContextAllocAligned ::
    "addr \<Rightarrow> Size \<Rightarrow> Size \<Rightarrow> uint32 \<Rightarrow> world \<Rightarrow> error + addr \<times> world" where
  "MemoryContextAllocAligned context sz alignto flags w =
     seqE (assertE (alignto < 128 * 1024 * 1024)) (\<lambda>_.
     seqE (assertE (alignto AND (alignto - 1) = 0)) (\<lambda>_.
     if alignto \<le> MAXIMUM_ALIGNOF then MemoryContextAllocExtended context sz flags w else
     let alloc_size = sz + PallocAlignedExtraBytes alignto in
     seqE (MemoryContextAllocExtended context alloc_size (flags AND NOT MCXT_ALLOC_ZERO) w)
       (\<lambda>(unaligned, w).
     if unaligned = 0 then seqE (assertE (flags AND MCXT_ALLOC_NO_OOM \<noteq> 0)) (\<lambda>_. Inr (0, w)) else
     let aligned = unat (TYPEALIGN alignto (of_nat (unaligned + sizeof_MemoryChunk)));
         alignedchunk = PointerGetMemoryChunk aligned in
     seqE (MemoryChunkSetHdrMask alignedchunk unaligned alignto MCTX_ALIGNED_REDIRECT_ID w) (\<lambda>w.
     seqE (assertE (TYPEALIGN alignto (of_nat aligned) = of_nat aligned)) (\<lambda>_.
     if flags AND MCXT_ALLOC_ZERO \<noteq> 0
     then seqE (MemSetAligned aligned sz w) (\<lambda>w. Inr (aligned, w))
     else Inr (aligned, w))))))"

definition palloc_aligned :: "Size \<Rightarrow> Size \<Rightarrow> uint32 \<Rightarrow> world \<Rightarrow> error + addr \<times> world" where
  "palloc_aligned sz alignto flags w =
     MemoryContextAllocAligned (CurrentMemoryContext w) sz alignto flags w"

definition AlignedAllocRealloc :: "addr \<Rightarrow> Size \<Rightarrow> uint32 \<Rightarrow> world \<Rightarrow> error + addr \<times> world" where
  "AlignedAllocRealloc pointer sz flags w =
     (let redirchunk = PointerGetMemoryChunk pointer in
      seqE (MemoryChunkGetValue w redirchunk) (\<lambda>alignto.
      seqE (MemoryChunkGetBlock w redirchunk) (\<lambda>unaligned.
      seqE (assertE (alignto AND (alignto - 1) = 0)) (\<lambda>_.
      seqE (GetMemoryChunkSpace w unaligned) (\<lambda>space.
      let old_size = space - PallocAlignedExtraBytes alignto - of_nat sizeof_MemoryChunk in
      seqE (GetMemoryChunkContext w unaligned) (\<lambda>ctx.
      seqE (MemoryContextAllocAligned ctx sz alignto flags w) (\<lambda>(newptr, w).
      if newptr = 0 then MemoryContextAllocationFailure ctx sz flags w else
      seqE (memcpyE newptr pointer (min sz old_size) w) (\<lambda>w.
      seqE (pfree unaligned w) (\<lambda>w. Inr (newptr, w))))))))))"

section \<open>Reallocation\<close>

text \<open>The \<open>realloc\<close> column of \<open>mcxt_methods[]\<close>, selected by the pointer.\<close>

definition mcxt_realloc :: "addr \<Rightarrow> Size \<Rightarrow> uint32 \<Rightarrow> world \<Rightarrow> error + addr \<times> world" where
  "mcxt_realloc pointer sz flags w =
     seqE (GetMemoryChunkMethodID w pointer) (\<lambda>i.
     if i = MCTX_ASET_ID then AllocSetRealloc pointer sz flags w
     else if i = MCTX_ALIGNED_REDIRECT_ID then AlignedAllocRealloc pointer sz flags w
     else BogusRealloc pointer sz flags w)"

definition repalloc :: "addr \<Rightarrow> Size \<Rightarrow> world \<Rightarrow> error + addr \<times> world" where
  "repalloc pointer sz w = mcxt_realloc pointer sz 0 w"

definition repalloc_extended :: "addr \<Rightarrow> Size \<Rightarrow> uint32 \<Rightarrow> world \<Rightarrow> error + addr \<times> world" where
  "repalloc_extended pointer sz flags w = mcxt_realloc pointer sz flags w"

definition repalloc0 :: "addr \<Rightarrow> Size \<Rightarrow> Size \<Rightarrow> world \<Rightarrow> error + addr \<times> world" where
  "repalloc0 pointer oldsize sz w =
     (if oldsize > sz then Inl (BadSize sz)
      else seqE (repalloc pointer sz w) (\<lambda>(ret, w).
           seqE (memsetE (ret + unat oldsize) 0 (sz - oldsize) w) (\<lambda>w. Inr (ret, w))))"

definition repalloc_huge :: "addr \<Rightarrow> Size \<Rightarrow> world \<Rightarrow> error + addr \<times> world" where
  "repalloc_huge pointer sz w = repalloc_extended pointer sz MCXT_ALLOC_HUGE w"

section \<open>Array variants\<close>

definition palloc_mul :: "Size \<Rightarrow> Size \<Rightarrow> world \<Rightarrow> error + addr \<times> world" where
  "palloc_mul s1 s2 w =
     (let (overflow, req) = pg_mul_size_overflow s1 s2 in
      if overflow then Inl SizeOverflow else palloc req w)"

definition palloc0_mul :: "Size \<Rightarrow> Size \<Rightarrow> world \<Rightarrow> error + addr \<times> world" where
  "palloc0_mul s1 s2 w =
     (let (overflow, req) = pg_mul_size_overflow s1 s2 in
      if overflow then Inl SizeOverflow else palloc0 req w)"

definition palloc_mul_extended :: "Size \<Rightarrow> Size \<Rightarrow> uint32 \<Rightarrow> world \<Rightarrow> error + addr \<times> world" where
  "palloc_mul_extended s1 s2 flags w =
     (let (overflow, req) = pg_mul_size_overflow s1 s2 in
      if overflow then Inl SizeOverflow else palloc_extended req flags w)"

definition repalloc_mul :: "addr \<Rightarrow> Size \<Rightarrow> Size \<Rightarrow> world \<Rightarrow> error + addr \<times> world" where
  "repalloc_mul p s1 s2 w =
     (let (overflow, req) = pg_mul_size_overflow s1 s2 in
      if overflow then Inl SizeOverflow else repalloc p req w)"

definition repalloc_mul_extended ::
    "addr \<Rightarrow> Size \<Rightarrow> Size \<Rightarrow> uint32 \<Rightarrow> world \<Rightarrow> error + addr \<times> world" where
  "repalloc_mul_extended p s1 s2 flags w =
     (let (overflow, req) = pg_mul_size_overflow s1 s2 in
      if overflow then Inl SizeOverflow else repalloc_extended p req flags w)"

text \<open>
  The macros of \<open>src/palloc.h\<close> for objects and arrays of a type; the type is here its size.
\<close>

definition palloc_object :: "Size \<Rightarrow> world \<Rightarrow> error + addr \<times> world" where
  "palloc_object type_size w = palloc type_size w"

definition palloc0_object :: "Size \<Rightarrow> world \<Rightarrow> error + addr \<times> world" where
  "palloc0_object type_size w = palloc0 type_size w"

definition palloc_array :: "Size \<Rightarrow> Size \<Rightarrow> world \<Rightarrow> error + addr \<times> world" where
  "palloc_array type_size count w = palloc_mul type_size count w"

definition palloc0_array :: "Size \<Rightarrow> Size \<Rightarrow> world \<Rightarrow> error + addr \<times> world" where
  "palloc0_array type_size count w = palloc0_mul type_size count w"

definition palloc_array_extended ::
    "Size \<Rightarrow> Size \<Rightarrow> uint32 \<Rightarrow> world \<Rightarrow> error + addr \<times> world" where
  "palloc_array_extended type_size count flags w = palloc_mul_extended type_size count flags w"

definition repalloc_array :: "addr \<Rightarrow> Size \<Rightarrow> Size \<Rightarrow> world \<Rightarrow> error + addr \<times> world" where
  "repalloc_array pointer type_size count w = repalloc_mul pointer type_size count w"

definition repalloc0_array ::
    "addr \<Rightarrow> Size \<Rightarrow> Size \<Rightarrow> Size \<Rightarrow> world \<Rightarrow> error + addr \<times> world" where
  "repalloc0_array pointer type_size oldcount count w =
     seqE (mul_size type_size oldcount) (\<lambda>oldsize.
     seqE (mul_size type_size count) (\<lambda>sz. repalloc0 pointer oldsize sz w))"

definition repalloc_array_extended ::
    "addr \<Rightarrow> Size \<Rightarrow> Size \<Rightarrow> uint32 \<Rightarrow> world \<Rightarrow> error + addr \<times> world" where
  "repalloc_array_extended pointer type_size count flags w =
     repalloc_mul_extended pointer type_size count flags w"

section \<open>Strings\<close>

text \<open>\<open>strlen\<close> and \<open>strnlen\<close> of the C library.\<close>

definition strlen :: "world \<Rightarrow> addr \<Rightarrow> error + Size" where
  "strlen w str =
     seqE (load8E w str) (\<lambda>c.
     seqE (loopE (\<lambda>(n, c). c \<noteq> 0)
       (\<lambda>(n, c). seqE (load8E w (str + unat (n + 1))) (\<lambda>c. Inr (n + 1, c))) (0, c))
       (\<lambda>(n, _). Inr n))"

definition strnlen :: "world \<Rightarrow> addr \<Rightarrow> Size \<Rightarrow> error + Size" where
  "strnlen w str len =
     seqE (loopE (\<lambda>(n, stop). n < len \<and> \<not> stop)
       (\<lambda>(n, stop). seqE (load8E w (str + unat n)) (\<lambda>c.
          Inr (if c = 0 then (n, True) else (n + 1, False)))) (0, False))
       (\<lambda>(n, _). Inr n)"

definition MemoryContextStrdup :: "addr \<Rightarrow> addr \<Rightarrow> world \<Rightarrow> error + addr \<times> world" where
  "MemoryContextStrdup context str w =
     seqE (strlen w str) (\<lambda>l.
     let len = l + 1 in
     seqE (MemoryContextAlloc context len w) (\<lambda>(nstr, w).
     seqE (memcpyE nstr str len w) (\<lambda>w. Inr (nstr, w))))"

definition pstrdup :: "addr \<Rightarrow> world \<Rightarrow> error + addr \<times> world" where
  "pstrdup str w = MemoryContextStrdup (CurrentMemoryContext w) str w"

definition pnstrdup :: "addr \<Rightarrow> Size \<Rightarrow> world \<Rightarrow> error + addr \<times> world" where
  "pnstrdup str len w =
     seqE (strnlen w str len) (\<lambda>len.
     seqE (palloc (len + 1) w) (\<lambda>(out, w).
     seqE (memcpyE out str len w) (\<lambda>w.
     seqE (store8E (out + unat len) 0 w) (\<lambda>w. Inr (out, w)))))"

text \<open>\<open>pchomp\<close>: a copy without the trailing newlines (character 10).\<close>

definition chomp_char :: "world \<Rightarrow> addr \<Rightarrow> Size \<Rightarrow> error + byte" where
  "chomp_char w str n = (if 0 < n then load8E w (str + unat (n - 1)) else Inr 0)"

definition pchomp :: "addr \<Rightarrow> world \<Rightarrow> error + addr \<times> world" where
  "pchomp str w =
     seqE (strlen w str) (\<lambda>n.
     seqE (chomp_char w str n) (\<lambda>c.
     seqE (loopE (\<lambda>(n, c). 0 < n \<and> c = 10)
        (\<lambda>(n, c). seqE (chomp_char w str (n - 1)) (\<lambda>c. Inr (n - 1, c))) (n, c)) (\<lambda>(n, _).
       pnstrdup str n w)))"

end
