(* ===== verification/PallocProofs.thy ===== *)
theory PallocProofs
  imports FreeProofs Palloc
begin

text \<open>
  Correctness of the allocation interface of \<open>src/mcxt.c\<close> and \<open>src/alignedalloc.c\<close>, on top of the
  correctness of the allocation sets: every function that allocates gives a new chunk of the right
  context or the error that the size, the flags and \<open>malloc\<close> call for; a chunk can be given back,
  resized and queried through the dispatch on its header.
\<close>

unbundle bit_operations_syntax

section \<open>Marking a context as used\<close>

definition touched :: "world \<Rightarrow> addr \<Rightarrow> world" where
  "touched w c = w\<lparr>ctxs := modify c (\<lambda>s. s\<lparr>isReset := False\<rparr>) (ctxs w)\<rparr>"

lemma aset_ok_touched: "aset_ok R m B c s g \<Longrightarrow> aset_ok R m B c (s\<lparr>isReset := False\<rparr>) g"
  by (simp add: aset_ok_def params_ok_def)

lemma touched_fields [simp]:
  "regions (touched w c) = regions w" "mem (touched w c) = mem w" "blks (touched w c) = blks w"
  "calls (touched w c) = calls w" "CurrentMemoryContext (touched w c) = CurrentMemoryContext w"
  "ctxs (touched w c) d = None \<longleftrightarrow> ctxs w d = None"
  by (simp_all add: touched_def)

lemma touched_ctx: "ctxs w c = Some s \<Longrightarrow> ctxs (touched w c) c = Some (s\<lparr>isReset := False\<rparr>)"
  by (simp add: touched_def)

lemma heap_touched:
  assumes ok: "heap_ok G w"
  shows "heap_ok G (touched w c)" and "chunks G (touched w c) = chunks G w"
    and "same_foreign G w G (touched w c)"
proof -
  have "aset_ok (set (regions w)) (mem w) (blks w) d s (G d)"
    if "ctxs (touched w c) d = Some s" for d s
    using that heap_okD(2)[OF ok] aset_ok_touched
    by (auto simp: touched_def modify_apply split: if_splits)
  moreover have "blks w d = None" if "ctxs (touched w c) d = Some s" for d s
  proof -
    have "ctxs w d \<noteq> None" using that touched_fields(6)[of w c d] by (metis option.distinct(1))
    then show ?thesis using heap_okD(3)[OF ok] by blast
  qed
  ultimately show "heap_ok G (touched w c)" using ok by (simp add: heap_ok_def)
  show "chunks G (touched w c) = chunks G w" by (simp add: chunks_def)
  show "same_foreign G w G (touched w c)"
    by (simp add: same_foreign_def foreign_def lib_bytes_def in_region_def)
qed

section \<open>What an allocation function promises\<close>

definition size_accepted :: "Size \<Rightarrow> uint32 \<Rightarrow> bool" where
  "size_accepted sz flags \<longleftrightarrow>
     unat sz \<le> 0x3fffffff \<or> flags AND MCXT_ALLOC_HUGE \<noteq> 0 \<and> unat sz < 2 ^ 63"

lemma size_accepted_check: "size_accepted sz flags \<longleftrightarrow> MemoryContextCheckSize c sz flags = Inr ()"
  using MemoryContextCheckSize_eq[of c sz flags] by (auto simp: size_accepted_def split: if_splits)

text \<open>
  An accepted size gives a new chunk of the context (zeroed where that is asked for) or the
  out-of-memory behaviour of the flags; any other size is reported.
\<close>

definition alloc_post :: "(addr \<Rightarrow> ghost) \<Rightarrow> world \<Rightarrow> addr \<Rightarrow> Size \<Rightarrow> uint32 \<Rightarrow> bool
    \<Rightarrow> error + addr \<times> world \<Rightarrow> bool" where
  "alloc_post G w c sz flags zero res \<longleftrightarrow>
     (if size_accepted sz flags then
        (\<exists>p G' w'. res = Inr (p, w') \<and> allocated G (touched w c) c sz p G' w'
           \<and> (zero \<longrightarrow> (\<forall>i < unat sz. mem w' (p + i) = 0)))
        \<or> out_of_memory G (touched w c) sz flags res
      else res = Inl (BadSize sz))"

lemma context_alloc_post:
  assumes ok: "heap_ok G w" and c: "ctxs w c = Some s"
  shows "alloc_post G w c sz flags False (context_alloc c sz flags w)"
proof -
  let ?w = "touched w c" let ?s = "s\<lparr>isReset := False\<rparr>"
  note ok' = heap_touched(1)[OF ok, of c] and c' = touched_ctx[OF c]
  have "aset_ok (set (regions w)) (mem w) (blks w) c s (G c)" by (rule heap_okD(2)[OF ok c])
  then have s: "methods s = MCTX_ASET_ID" "unat (allocChunkLimit s) \<le> 8192"
    by (simp_all add: aset_ok_def params_ok_def)
  have run: "context_alloc c sz flags w = AllocSetAlloc c sz flags ?w"
    using c s by (simp add: context_alloc_def upd_ctx_def touched_def modify_def get_ctx_def mcxt_alloc_def)
  have small: "unat sz \<le> unat (allocChunkLimit s) \<Longrightarrow> size_accepted sz flags"
    using s(2) by (simp add: size_accepted_def)
  show ?thesis
    using AllocSetAlloc_correct[OF ok' c', of sz flags] small
    by (auto simp: alloc_post_def run alloc_spec_def size_accepted_check[of _ _ c] split: if_splits)
qed

lemma zero_fill:
  assumes al: "allocated G (touched w c) c sz p G' w'"
  obtains w'' where "MemSetAligned p sz w' = Inr w''" "allocated G (touched w c) c sz p G' w''"
    "\<forall>i < unat sz. mem w'' (p + i) = 0"
proof -
  obtain n where n: "unat sz \<le> n" "\<forall>d j. (p, d, j) \<notin> chunks G (touched w c)"
      "chunks G' w' = insert (p, c, n) (chunks G (touched w c))"
    using al by (auto simp: allocated_def)
  have ev: "evolves G (touched w c) (chunks G (touched w c)) G' w'" and p: "p \<noteq> 0"
    using al by (simp_all add: allocated_def)
  then have ok': "heap_ok G' w'" by (simp add: evolves_def)
  have ch: "(p, c, n) \<in> chunks G' w'" using n by simp
  let ?m = "fill (mem w') p 0 (unat sz)"
  have reg: "in_region w' p (unat sz)"
    by (rule in_region_sub[OF chunk_facts(5)[OF ok' ch]]) (use n in auto)
  then have run: "MemSetAligned p sz w' = Inr (w'\<lparr>mem := ?m\<rparr>)"
    by (cases "sz = 0") (simp_all add: MemSetAligned_eq_memset memsetE_def)
  have m: "?m a = mem w' a" if "\<not> (p \<le> a \<and> a < p + n)" for a
    using that n(1) by (auto simp: fill_def)
  note cw = client_write_evolves[OF ok' ch m]
  have "chunks G' w' - {(p, c, n)} = chunks G (touched w c)" using n by auto
  then have "evolves G (touched w c) (chunks G (touched w c)) G' (w'\<lparr>mem := ?m\<rparr>)"
    using evolves_trans[OF ev cw(1)] by simp
  then have "allocated G (touched w c) c sz p G' (w'\<lparr>mem := ?m\<rparr>)"
    using n p cw(2) by (auto simp: allocated_def)
  with run show ?thesis using that[of "w'\<lparr>mem := ?m\<rparr>"] by (simp add: fill_def)
qed

text \<open>What the callers of \<open>context_alloc\<close> distinguish.\<close>

lemma alloc_post_cases:
  assumes "alloc_post G w c sz flags zero res"
  obtains (bad) "\<not> size_accepted sz flags" "res = Inl (BadSize sz)"
    | (chunk) p G' w' where "size_accepted sz flags" "res = Inr (p, w')" "p \<noteq> 0"
        "allocated G (touched w c) c sz p G' w'" "zero \<longrightarrow> (\<forall>i < unat sz. mem w' (p + i) = 0)"
    | (abort) "size_accepted sz flags" "res = Inl (OutOfMemory sz)" "flags AND MCXT_ALLOC_NO_OOM = 0"
    | (null) G' w' where "size_accepted sz flags" "res = Inr (0, w')"
        "flags AND MCXT_ALLOC_NO_OOM \<noteq> 0" "unchanged G (touched w c) G' w'"
  using assms
  by (auto simp: alloc_post_def out_of_memory_def allocated_def split: if_splits)

lemma alloc_postI:
  "\<not> size_accepted sz flags \<Longrightarrow> alloc_post G w c sz flags zero (Inl (BadSize sz))"
  "size_accepted sz flags \<Longrightarrow> allocated G (touched w c) c sz p G' w'
    \<Longrightarrow> zero \<longrightarrow> (\<forall>i < unat sz. mem w' (p + i) = 0) \<Longrightarrow> alloc_post G w c sz flags zero (Inr (p, w'))"
  "size_accepted sz flags \<Longrightarrow> flags AND MCXT_ALLOC_NO_OOM = 0
    \<Longrightarrow> alloc_post G w c sz flags zero (Inl (OutOfMemory sz))"
  "size_accepted sz flags \<Longrightarrow> flags AND MCXT_ALLOC_NO_OOM \<noteq> 0 \<Longrightarrow> unchanged G (touched w c) G' w'
    \<Longrightarrow> alloc_post G w c sz flags zero (Inr (0, w'))"
  by (auto simp: alloc_post_def out_of_memory_def)

lemma Assert_heap:
  "heap_ok G w \<Longrightarrow> ctxs w c = Some s \<Longrightarrow> Assert_valid w c = Inr ()"
  using heap_okD(2)[of G w c s] by (simp add: Assert_valid_ok aset_ok_def params_ok_def)

section \<open>The allocation functions\<close>

lemma alloc_zero_post:
  assumes "alloc_post G w c sz flags False res"
  shows "alloc_post G w c sz flags True
    (seqE res (\<lambda>(ret, w). if ret = 0 then Inr (0, w)
       else seqE (MemSetAligned ret sz w) (\<lambda>w. Inr (ret, w))))"
  using assms
proof (cases rule: alloc_post_cases)
  case (chunk p G' w')
  obtain w'' where "MemSetAligned p sz w' = Inr w''" "allocated G (touched w c) c sz p G' w''"
    "\<forall>i < unat sz. mem w'' (p + i) = 0"
    by (rule zero_fill[OF chunk(4)])
  with chunk show ?thesis by (auto intro: alloc_postI)
qed (auto intro: alloc_postI)

lemma MemoryContextAlloc_post:
  assumes "heap_ok G w" and "ctxs w c = Some s"
  shows "alloc_post G w c sz 0 False (MemoryContextAlloc c sz w)"
    and "alloc_post G w c sz 0 True (MemoryContextAllocZero c sz w)"
    and "alloc_post G w c sz MCXT_ALLOC_HUGE False (MemoryContextAllocHuge c sz w)"
    and "alloc_post G w c sz flags (flags AND MCXT_ALLOC_ZERO \<noteq> 0)
      (MemoryContextAllocExtended c sz flags w)"
proof -
  note v = Assert_heap[OF assms] and post = context_alloc_post[OF assms, of sz]
  show "alloc_post G w c sz 0 False (MemoryContextAlloc c sz w)"
    using post[of 0] by (simp add: MemoryContextAlloc_def v)
  show "alloc_post G w c sz MCXT_ALLOC_HUGE False (MemoryContextAllocHuge c sz w)"
    using post by (simp add: MemoryContextAllocHuge_def v)
  show "alloc_post G w c sz 0 True (MemoryContextAllocZero c sz w)"
    using post[of 0] alloc_zero_post[OF post[of 0]]
    by (cases rule: alloc_post_cases) (auto simp: MemoryContextAllocZero_def v)
  have acc: "(if flags AND MCXT_ALLOC_HUGE \<noteq> 0 then AllocHugeSizeIsValid sz else AllocSizeIsValid sz)
      = size_accepted sz flags"
    by (auto simp: AllocHugeSizeIsValid_def AllocSizeIsValid_def size_accepted_def word_le_nat_alt
        unat_MaxAlloc)
  show "alloc_post G w c sz flags (flags AND MCXT_ALLOC_ZERO \<noteq> 0)
      (MemoryContextAllocExtended c sz flags w)"
    using post[of flags] alloc_zero_post[OF post[of flags]]
    by (cases rule: alloc_post_cases)
      (auto simp: MemoryContextAllocExtended_def v acc intro: alloc_postI)
qed

lemma palloc_post:
  assumes "heap_ok G w" and "ctxs w (CurrentMemoryContext w) = Some s"
  shows "alloc_post G w (CurrentMemoryContext w) sz 0 False (palloc sz w)"
    and "alloc_post G w (CurrentMemoryContext w) sz 0 True (palloc0 sz w)"
    and "alloc_post G w (CurrentMemoryContext w) sz flags (flags AND MCXT_ALLOC_ZERO \<noteq> 0)
      (palloc_extended sz flags w)"
proof -
  note v = Assert_heap[OF assms] and post = context_alloc_post[OF assms, of sz]
  show "alloc_post G w (CurrentMemoryContext w) sz 0 False (palloc sz w)"
    using post[of 0] by (cases rule: alloc_post_cases) (auto simp: palloc_def v intro: alloc_postI)
  show "alloc_post G w (CurrentMemoryContext w) sz 0 True (palloc0 sz w)"
    using post[of 0] alloc_zero_post[OF post[of 0]]
    by (cases rule: alloc_post_cases) (auto simp: palloc0_def v)
  show "alloc_post G w (CurrentMemoryContext w) sz flags (flags AND MCXT_ALLOC_ZERO \<noteq> 0)
      (palloc_extended sz flags w)"
    using post[of flags] alloc_zero_post[OF post[of flags]]
    by (cases rule: alloc_post_cases) (auto simp: palloc_extended_def v intro: alloc_postI)
qed

section \<open>Free and realloc\<close>

lemma pfree_chunk:
  assumes "heap_ok G w" and "(p, c, n) \<in> chunks G w"
  shows "\<exists>G' w'. pfree p w = Inr w' \<and> freed G w (p, c, n) G' w'"
  using AllocSetFree_correct[OF assms] chunk_queries(1)[OF assms] by (simp add: pfree.simps)

lemma repalloc_chunk:
  assumes "heap_ok G w" and "(p, c, n) \<in> chunks G w"
  shows "if size_accepted sz flags then realloc_spec G w (p, c, n) sz flags (mcxt_realloc p sz flags w)
    else mcxt_realloc p sz flags w = Inl (BadSize sz)"
  using AllocSetRealloc_correct[OF assms, of sz flags] chunk_queries(1)[OF assms]
  by (simp add: mcxt_realloc_def size_accepted_check[of _ _ c])

lemma GetMemoryChunk_chunk:
  assumes "heap_ok G w" and "(p, c, n) \<in> chunks G w"
  shows "GetMemoryChunkContext w p = Inr c" and "GetMemoryChunkSpace w p = Inr (of_nat (n + 8))"
  using chunk_queries[OF assms]
  by (simp_all add: GetMemoryChunkContext.simps GetMemoryChunkSpace.simps del: of_nat_add)

section \<open>Array variants\<close>

lemma palloc_mul_post:
  assumes "heap_ok G w" and "ctxs w (CurrentMemoryContext w) = Some s"
  shows "if unat s1 * unat s2 < 2 ^ 64
    then alloc_post G w (CurrentMemoryContext w) (s1 * s2) 0 False (palloc_mul s1 s2 w)
      \<and> alloc_post G w (CurrentMemoryContext w) (s1 * s2) 0 True (palloc0_mul s1 s2 w)
      \<and> alloc_post G w (CurrentMemoryContext w) (s1 * s2) flags (flags AND MCXT_ALLOC_ZERO \<noteq> 0)
          (palloc_mul_extended s1 s2 flags w)
    else palloc_mul s1 s2 w = Inl SizeOverflow \<and> palloc0_mul s1 s2 w = Inl SizeOverflow
      \<and> palloc_mul_extended s1 s2 flags w = Inl SizeOverflow"
  using palloc_post[OF assms]
  by (simp add: palloc_mul_def palloc0_mul_def palloc_mul_extended_def pg_mul_size_overflow_def)

section \<open>Aligned allocation\<close>

text \<open>
  An aligned chunk: inside the chunk \<open>(q, c, n)\<close> there is a pointer \<open>p\<close> whose header redirects to
  \<open>q\<close>.
\<close>

definition aligned_at :: "(addr \<Rightarrow> ghost) \<Rightarrow> world \<Rightarrow> addr \<Rightarrow> Size \<Rightarrow> addr \<times> addr \<times> nat \<Rightarrow> bool" where
  "aligned_at G w p a = (\<lambda>(q, c, n).
     (q, c, n) \<in> chunks G w \<and> q + 8 \<le> p \<and> p \<le> q + unat a \<and> q + unat a \<le> q + n
     \<and> unat a dvd p \<and> regular_hdr (mem w) (p - 8) q a MCTX_ALIGNED_REDIRECT_ID)"

definition alignment_ok :: "Size \<Rightarrow> bool" where
  "alignment_ok a \<longleftrightarrow> (\<exists>k. 3 < k \<and> k < 27 \<and> a = 2 ^ k)"

lemma alignment_okD:
  assumes "alignment_ok a"
  obtains k where "3 < k" "k < 27" "a = 2 ^ k" "unat a = 2 ^ k" "16 \<le> unat a" "unat a < 2 ^ 27"
    "8 dvd unat a"
proof -
  obtain k where k: "3 < k" "k < 27" "a = 2 ^ k" using assms by (auto simp: alignment_ok_def)
  have u: "unat a = 2 ^ k" using k by (simp add: unat_two_power)
  have "(2::nat) ^ 4 \<le> 2 ^ k" by (rule power_increasing) (use k in auto)
  moreover have "(2::nat) ^ k < 2 ^ 27" by (rule power_strict_increasing) (use k in auto)
  moreover have "(2::nat) ^ 3 dvd 2 ^ k" by (rule le_imp_power_dvd) (use k in auto)
  ultimately show ?thesis using that k u by simp
qed

lemma power2_and_pred: "a = 2 ^ k \<Longrightarrow> k < 64 \<Longrightarrow> (a :: Size) AND (a - 1) = 0"
  by (rule bit_word_eqI) (auto simp: bit_simps mask_eq_exp_minus_1[symmetric])

lemma aligned_reads:
  assumes ok: "heap_ok G w" and al: "aligned_at G w p a (q, c, n)"
  shows "MemoryChunkIsExternal w (p - 8) = Inr False" "MemoryChunkGetValue w (p - 8) = Inr a"
    "MemoryChunkGetBlock w (p - 8) = Inr q" "8 dvd p \<Longrightarrow> GetMemoryChunkMethodID w p = Inr MCTX_ALIGNED_REDIRECT_ID"
    "8 \<le> p" "PointerGetMemoryChunk p = p - 8"
proof -
  have q: "(q, c, n) \<in> chunks G w" "q + 8 \<le> p" "p \<le> q + n"
    and hdr: "regular_hdr (mem w) (p - 8) q a MCTX_ALIGNED_REDIRECT_ID"
    using al by (auto simp: aligned_at_def)
  have reg: "in_region w (p - 8) 8"
    by (rule in_region_sub[OF chunk_facts(5)[OF ok q(1)]]) (use q in auto)
  note r = regular_hdr_read[OF hdr reg]
  show "MemoryChunkIsExternal w (p - 8) = Inr False" "MemoryChunkGetValue w (p - 8) = Inr a"
    "MemoryChunkGetBlock w (p - 8) = Inr q" by (rule r)+
  show "8 \<le> p" using q by simp
  show "PointerGetMemoryChunk p = p - 8" by (simp add: PointerGetMemoryChunk_def sizeof_MemoryChunk_def)
  assume "8 dvd p"
  then have "8 dvd p - 8" by (simp add: dvd_diff_nat)
  moreover have "p < 2 ^ 64" using chunk_facts(3)[OF ok q(1)] q by simp
  ultimately show "GetMemoryChunkMethodID w p = Inr MCTX_ALIGNED_REDIRECT_ID"
    using r(4) q by simp
qed

text \<open>A pointer to an aligned chunk stands for the chunk around it.\<close>

lemma aligned_dispatch:
  assumes ok: "heap_ok G w" and al: "aligned_at G w p a (q, c, n)" and "8 dvd p"
  shows "pfree p w = pfree q w" and "GetMemoryChunkContext w p = Inr c"
    and "GetMemoryChunkSpace w p = Inr (of_nat (n + 8))"
proof -
  note r = aligned_reads[OF ok al]
  have q: "(q, c, n) \<in> chunks G w" using al by (simp add: aligned_at_def)
  note r' = r(1-3) r(4)[OF \<open>8 dvd p\<close>] r(5,6)
  have s: "\<not> p < sizeof_MemoryChunk" using r(5) by (simp add: sizeof_MemoryChunk_def)
  show "pfree p w = pfree q w"
    by (subst pfree.simps) (simp add: AlignedAllocFree.simps r' s)
  show "GetMemoryChunkContext w p = Inr c"
    by (subst GetMemoryChunkContext.simps)
      (simp add: AlignedAllocGetChunkContext.simps r' s GetMemoryChunk_chunk[OF ok q])
  show "GetMemoryChunkSpace w p = Inr (of_nat (n + 8))"
    by (subst GetMemoryChunkSpace.simps)
      (simp add: AlignedAllocGetChunkSpace.simps r' s GetMemoryChunk_chunk[OF ok q] del: of_nat_add)
qed

text \<open>
  What an aligned allocation promises: an aligned pointer, at most \<open>a\<close> bytes behind the start of a new
  chunk that has room for \<open>sz\<close> and \<open>a\<close> bytes.
\<close>

definition aligned_alloc :: "(addr \<Rightarrow> ghost) \<Rightarrow> world \<Rightarrow> addr \<Rightarrow> Size \<Rightarrow> Size \<Rightarrow> addr
    \<Rightarrow> (addr \<Rightarrow> ghost) \<Rightarrow> world \<Rightarrow> bool" where
  "aligned_alloc G w c sz a p G' w' \<longleftrightarrow>
     (\<exists>q n. allocated G w c (sz + a) q G' w' \<and> chunks G' w' = insert (q, c, n) (chunks G w)
        \<and> aligned_at G' w' p a (q, c, n) \<and> unat sz + unat a \<le> n)"

definition aligned_post :: "(addr \<Rightarrow> ghost) \<Rightarrow> world \<Rightarrow> addr \<Rightarrow> Size \<Rightarrow> Size \<Rightarrow> uint32
    \<Rightarrow> error + addr \<times> world \<Rightarrow> bool" where
  "aligned_post G w c sz a flags res \<longleftrightarrow>
     (if size_accepted (sz + a) flags then
        (\<exists>p G' w'. res = Inr (p, w') \<and> p \<noteq> 0 \<and> aligned_alloc G (touched w c) c sz a p G' w'
           \<and> (flags AND MCXT_ALLOC_ZERO \<noteq> 0 \<longrightarrow> (\<forall>i < unat sz. mem w' (p + i) = 0)))
        \<or> out_of_memory G (touched w c) (sz + a) flags res
      else res = Inl (BadSize (sz + a)))"

lemma align_pointer:
  assumes a: "alignment_ok a" and u: "8 dvd u" and lt: "u + unat a < 2 ^ 64"
  defines "p \<equiv> unat (TYPEALIGN a (of_nat (u + sizeof_MemoryChunk)))"
  shows "u + 8 \<le> p" "p \<le> u + unat a" "unat a dvd p" "8 dvd p"
    and "TYPEALIGN a (of_nat p) = of_nat p"
proof -
  obtain k where k: "3 < k" "k < 27" "a = 2 ^ k" "unat a = 2 ^ k" "16 \<le> unat a" "8 dvd unat a"
    using a by (rule alignment_okD)
  have 8: "unat (of_nat (u + 8) :: Size) = u + 8"
    by (rule unat_of_nat_small) (use k lt in simp)
  have d: "8 dvd u + unat a" using u k(6) by simp
  then have lt': "u + 8 + (unat a - 1) < 2 ^ 64"
  proof -
    have "u + unat a + 8 \<le> 2 ^ 64"
      using d lt by (auto elim!: dvdE)
    then show ?thesis using k(5) by linarith
  qed
  have p: "p = (u + 8 + (unat a - 1)) div unat a * unat a"
    unfolding p_def using unat_TYPEALIGN[OF k(3), of "of_nat (u + sizeof_MemoryChunk)"] k(2,4) lt' 8
    by (simp add: sizeof_MemoryChunk_def)
  note au = align_up_nat[of "unat a" "u + 8"]
  show "u + 8 \<le> p" "unat a dvd p" using au k(5) p by auto
  show "8 dvd p" using k(6) \<open>unat a dvd p\<close> by (rule dvd_trans)
  have "p < u + 8 + unat a" using au(2) k(5) p by auto
  then show "p \<le> u + unat a" using \<open>8 dvd p\<close> d by (auto elim!: dvdE)
  then have pl: "unat (of_nat p :: Size) = p" by (intro unat_of_nat_small) (use lt in simp)
  have "unat a dvd 2 ^ 64"
    unfolding k(4) by (rule le_imp_power_dvd) (use k(2) in simp)
  then have "unat a dvd 2 ^ 64 - p" using \<open>unat a dvd p\<close> by (rule dvd_diff_nat)
  moreover have "0 < 2 ^ 64 - p" using \<open>p \<le> u + unat a\<close> lt by simp
  ultimately have "unat a \<le> 2 ^ 64 - p" by (rule dvd_imp_le)
  then have "p + (unat a - 1) < 2 ^ 64" using k(5) by linarith
  then have "unat (TYPEALIGN a (of_nat p)) = (p + (unat a - 1)) div unat a * unat a"
    using unat_TYPEALIGN[OF k(3), of "of_nat p"] k(2,4) pl by simp
  also have "\<dots> = p"
    using align_up_nat(1)[of "unat a" p] align_up_nat(4)[of "unat a" p p] \<open>unat a dvd p\<close> k(5)
    by (intro antisym) auto
  finally show "TYPEALIGN a (of_nat p) = of_nat p" using pl by (metis word_unat_eq_iff)
qed

text \<open>Writing the redirection header, and what follows it, stays inside the new chunk.\<close>

lemma allocated_write:
  assumes al: "allocated G w c sz q G' w'" and ch: "chunks G' w' = insert (q, c, n) (chunks G w)"
    and m: "\<And>a. \<not> (q \<le> a \<and> a < q + n) \<Longrightarrow> m a = mem w' a"
  shows "allocated G w c sz q G' (w'\<lparr>mem := m\<rparr>)"
    and "chunks G' (w'\<lparr>mem := m\<rparr>) = chunks G' w'"
proof -
  have ok: "heap_ok G' w'" and q: "(q, c, n) \<in> chunks G' w'"
    using al ch by (simp_all add: allocated_def evolves_def)
  note cw = client_write_evolves[OF ok q m]
  show "chunks G' (w'\<lparr>mem := m\<rparr>) = chunks G' w'" by (rule cw(2))
  have "\<forall>d j. (q, d, j) \<notin> chunks G w" using al by (auto simp: allocated_def)
  then have "chunks G' w' - {(q, c, n)} = chunks G w" using ch by auto
  then have "evolves G w (chunks G w) G' (w'\<lparr>mem := m\<rparr>)"
    using al evolves_trans[OF _ cw(1), of G w "chunks G w"] by (simp add: allocated_def)
  then show "allocated G w c sz q G' (w'\<lparr>mem := m\<rparr>)"
    using al cw(2) by (auto simp: allocated_def)
qed

lemma redirect_header_in:
  assumes al: "allocated G w c sz q G' w'" and ch: "chunks G' w' = insert (q, c, n) (chunks G w)"
    and a: "alignment_ok a" and n: "unat a \<le> n"
  defines "p \<equiv> unat (TYPEALIGN a (of_nat (q + sizeof_MemoryChunk)))"
  obtains w'' where "MemoryChunkSetHdrMask (p - 8) q a MCTX_ALIGNED_REDIRECT_ID w' = Inr w''"
    "allocated G w c sz q G' w''" "chunks G' w'' = insert (q, c, n) (chunks G w)"
    "aligned_at G' w'' p a (q, c, n)" "8 \<le> p" "p \<noteq> 0" "TYPEALIGN a (of_nat p) = of_nat p"
proof -
  have ok: "heap_ok G' w'" and q: "(q, c, n) \<in> chunks G' w'"
    using al ch by (simp_all add: allocated_def evolves_def)
  note f = chunk_facts[OF ok q]
  have qa: "q + unat a < 2 ^ 64" using f(3) n by simp
  note ap = align_pointer[OF a f(1) qa, folded p_def]
  obtain k :: nat where k: "k < 27" "16 \<le> unat a" "unat a < 2 ^ 27" "8 dvd unat a"
    using a by (rule alignment_okD)
  have reg: "in_region w' (p - 8) 8"
    by (rule in_region_sub[OF f(5)]) (use ap n in auto)
  have ev: "even (p - 8 - q)" using ap(1,4) f(1) by presburger
  have off: "p - 8 - q < 2 ^ 30" using ap(2) k(3) by simp
  have val: "a \<le> MEMORYCHUNK_MAX_VALUE"
    using k(3) by (simp add: word_le_nat_alt MEMORYCHUNK_MAX_VALUE_def)
  have le: "q \<le> p - 8" using ap(1) by simp
  let ?m = "store64 (mem w') (p - 8) (hdrmask_of (of_nat (p - 8 - q)) a MCTX_ALIGNED_REDIRECT_ID)"
  have run: "MemoryChunkSetHdrMask (p - 8) q a MCTX_ALIGNED_REDIRECT_ID w' = Inr (w'\<lparr>mem := ?m\<rparr>)"
    by (rule MemoryChunkSetHdrMask_ok[OF le off ev val reg])
  have m: "?m x = mem w' x" if "\<not> (q \<le> x \<and> x < q + n)" for x
    using that ap(1,2) n by (auto simp: store64_def)
  note aw = allocated_write[OF al ch m]
  have "regular_hdr ?m (p - 8) q a MCTX_ALIGNED_REDIRECT_ID"
    by (rule regular_hdr_store[OF le off ev val])
  then have "aligned_at G' (w'\<lparr>mem := ?m\<rparr>) p a (q, c, n)"
    using ap q n aw(2) by (simp add: aligned_at_def)
  then show ?thesis using that[OF run aw(1)] aw(2) ch ap by simp
qed

lemma redirect_header:
  assumes al: "allocated G w c (sz + a) q G' w'" and ch: "chunks G' w' = insert (q, c, n) (chunks G w)"
    and a: "alignment_ok a" and nw: "unat sz + unat a < 2 ^ 64"
  defines "p \<equiv> unat (TYPEALIGN a (of_nat (q + sizeof_MemoryChunk)))"
  obtains w'' where "MemoryChunkSetHdrMask (p - 8) q a MCTX_ALIGNED_REDIRECT_ID w' = Inr w''"
    "aligned_alloc G w c sz a p G' w''" "8 \<le> p" "p \<noteq> 0" "TYPEALIGN a (of_nat p) = of_nat p"
proof -
  have ok: "heap_ok G' w'" and q: "(q, c, n) \<in> chunks G' w'"
    using al ch by (simp_all add: allocated_def evolves_def)
  obtain n' where n': "unat (sz + a) \<le> n'" "chunks G' w' = insert (q, c, n') (chunks G w)"
    using al by (auto simp: allocated_def)
  have "(q, c, n') \<in> chunks G' w'" using n'(2) by simp
  then have n: "unat sz + unat a \<le> n"
    using chunk_unique[OF ok q] n'(1) nw by (simp add: unat_word_ariths)
  then have na: "unat a \<le> n" by simp
  obtain w'' where r: "MemoryChunkSetHdrMask (p - 8) q a MCTX_ALIGNED_REDIRECT_ID w' = Inr w''"
    "allocated G w c (sz + a) q G' w''" "chunks G' w'' = insert (q, c, n) (chunks G w)"
    "aligned_at G' w'' p a (q, c, n)" "8 \<le> p" "p \<noteq> 0" "TYPEALIGN a (of_nat p) = of_nat p"
    unfolding p_def by (rule redirect_header_in[OF al ch a na])
  have "aligned_alloc G w c sz a p G' w''"
    unfolding aligned_alloc_def using r(2-4) n by blast
  then show ?thesis using that[OF r(1)] r(5-7) by blast
qed

lemma aligned_zero:
  assumes al: "aligned_alloc G w c sz a p G' w'"
  obtains w'' where "MemSetAligned p sz w' = Inr w''" "aligned_alloc G w c sz a p G' w''"
    "\<forall>i < unat sz. mem w'' (p + i) = 0"
proof -
  obtain q n where q: "allocated G w c (sz + a) q G' w'" "chunks G' w' = insert (q, c, n) (chunks G w)"
      "aligned_at G' w' p a (q, c, n)" "unat sz + unat a \<le> n"
    using al by (auto simp: aligned_alloc_def)
  have ok: "heap_ok G' w'" using q(1) by (simp add: allocated_def evolves_def)
  have p: "q + 8 \<le> p" "(q, c, n) \<in> chunks G' w'" "p + unat sz \<le> q + n"
    using q(3,4) by (auto simp: aligned_at_def)
  let ?m = "fill (mem w') p 0 (unat sz)"
  have "in_region w' p (unat sz)"
    by (rule in_region_sub[OF chunk_facts(5)[OF ok p(2)]]) (use p in auto)
  then have run: "MemSetAligned p sz w' = Inr (w'\<lparr>mem := ?m\<rparr>)"
    by (cases "sz = 0") (simp_all add: MemSetAligned_eq_memset memsetE_def)
  have m: "?m x = mem w' x" if "\<not> (q \<le> x \<and> x < q + n)" for x
    using that p(1,3) by (auto simp: fill_def)
  note aw = allocated_write[OF q(1,2) m]
  have "regular_hdr ?m (p - 8) q a MCTX_ALIGNED_REDIRECT_ID = regular_hdr (mem w') (p - 8) q a MCTX_ALIGNED_REDIRECT_ID"
    by (rule regular_hdr_cong) (use p(1) in \<open>auto simp: fill_def\<close>)
  then have "aligned_at G' (w'\<lparr>mem := ?m\<rparr>) p a (q, c, n)"
    using q(3) aw(2) by (simp add: aligned_at_def)
  then have "aligned_alloc G w c sz a p G' (w'\<lparr>mem := ?m\<rparr>)"
    using aw q by (auto simp: aligned_alloc_def)
  then show ?thesis using that[OF run] by (simp add: fill_def)
qed

lemma PallocAlignedExtraBytes_eq [simp]: "PallocAlignedExtraBytes a = a"
  by (simp add: PallocAlignedExtraBytes_def sizeof_MemoryChunk_def MAXIMUM_ALIGNOF_def)

lemma flags_without_zero [simp]:
  "(flags AND NOT MCXT_ALLOC_ZERO) AND MCXT_ALLOC_ZERO = 0"
  "(flags AND NOT MCXT_ALLOC_ZERO) AND MCXT_ALLOC_HUGE = flags AND MCXT_ALLOC_HUGE"
  "(flags AND NOT MCXT_ALLOC_ZERO) AND MCXT_ALLOC_NO_OOM = flags AND MCXT_ALLOC_NO_OOM"
proof -
  have "NOT MCXT_ALLOC_ZERO AND MCXT_ALLOC_HUGE = MCXT_ALLOC_HUGE"
    "NOT MCXT_ALLOC_ZERO AND MCXT_ALLOC_NO_OOM = MCXT_ALLOC_NO_OOM"
    by (simp_all add: MCXT_ALLOC_ZERO_def MCXT_ALLOC_HUGE_def MCXT_ALLOC_NO_OOM_def)
  then show "(flags AND NOT MCXT_ALLOC_ZERO) AND MCXT_ALLOC_HUGE = flags AND MCXT_ALLOC_HUGE"
    "(flags AND NOT MCXT_ALLOC_ZERO) AND MCXT_ALLOC_NO_OOM = flags AND MCXT_ALLOC_NO_OOM"
    by (simp_all add: and.assoc)
qed (simp add: and.assoc)

lemma size_accepted_flags [simp]:
  "size_accepted sz (flags AND NOT MCXT_ALLOC_ZERO) = size_accepted sz flags"
  by (simp add: size_accepted_def)

lemma MemoryContextAllocAligned_post:
  assumes ok: "heap_ok G w" and c: "ctxs w c = Some s" and a: "alignment_ok a"
    and nw: "unat sz + unat a < 2 ^ 64"
  shows "aligned_post G w c sz a flags (MemoryContextAllocAligned c sz a flags w)"
proof -
  obtain k where k: "k < 27" "a = 2 ^ k" "16 \<le> unat a" "unat a < 2 ^ 27"
    using a by (rule alignment_okD)
  have guards: "a < 128 * 1024 * 1024" "a AND (a - 1) = 0" "\<not> a \<le> MAXIMUM_ALIGNOF"
    using k power2_and_pred[of a k]
    by (simp_all add: word_less_nat_alt word_le_nat_alt MAXIMUM_ALIGNOF_def)
  let ?f = "flags AND NOT MCXT_ALLOC_ZERO"
  have "alloc_post G w c (sz + a) ?f False (MemoryContextAllocExtended c (sz + a) ?f w)"
    using MemoryContextAlloc_post(4)[OF ok c, of "sz + a" ?f] by simp
  then show ?thesis
  proof (cases rule: alloc_post_cases)
    case (chunk q G' w')
    obtain n where n: "chunks G' w' = insert (q, c, n) (chunks G (touched w c))"
      using chunk(4) by (auto simp: allocated_def)
    define p where "p = unat (TYPEALIGN a (of_nat (q + sizeof_MemoryChunk)))"
    obtain w1 where w1: "MemoryChunkSetHdrMask (p - 8) q a MCTX_ALIGNED_REDIRECT_ID w' = Inr w1"
        "aligned_alloc G (touched w c) c sz a p G' w1" "8 \<le> p" "p \<noteq> 0" "TYPEALIGN a (of_nat p) = of_nat p"
      unfolding p_def by (rule redirect_header[OF chunk(4) n a nw])
    obtain w2 where w2: "MemSetAligned p sz w1 = Inr w2"
        "aligned_alloc G (touched w c) c sz a p G' w2" "\<forall>i < unat sz. mem w2 (p + i) = 0"
      by (rule aligned_zero[OF w1(2)])
    have "PointerGetMemoryChunk p = p - 8"
      by (simp add: PointerGetMemoryChunk_def sizeof_MemoryChunk_def)
    then have "MemoryContextAllocAligned c sz a flags w
        = (if flags AND MCXT_ALLOC_ZERO \<noteq> 0 then Inr (p, w2) else Inr (p, w1))"
      using chunk(1-3) guards w1 w2
      by (simp add: MemoryContextAllocAligned_def Let_def p_def[symmetric] del: of_nat_add)
    then show ?thesis using chunk(1) w1(2,4) w2(2,3) by (auto simp: aligned_post_def)
  qed (use guards in \<open>auto simp: MemoryContextAllocAligned_def aligned_post_def out_of_memory_def\<close>)
qed

text \<open>
  The sum of the size and the padding is not checked: when it wraps around, the small remainder is
  allocated, and no size is ever reported as bad.
\<close>

lemma AllocAligned_no_BadSize:
  assumes ok: "heap_ok G w" and c: "ctxs w c = Some s" and a: "alignment_ok a"
    and wraps: "2 ^ 64 \<le> unat sz + unat a" and nz: "flags AND MCXT_ALLOC_ZERO = 0"
  shows "MemoryContextAllocAligned c sz a flags w \<noteq> Inl (BadSize n)"
proof -
  obtain k where k: "k < 27" "a = 2 ^ k" "16 \<le> unat a" "unat a < 2 ^ 27"
    using a by (rule alignment_okD)
  have guards: "a < 128 * 1024 * 1024" "a AND (a - 1) = 0" "\<not> a \<le> MAXIMUM_ALIGNOF"
    using k power2_and_pred[of a k]
    by (simp_all add: word_less_nat_alt word_le_nat_alt MAXIMUM_ALIGNOF_def)
  let ?f = "flags AND NOT MCXT_ALLOC_ZERO"
  have "unat (sz + a) = unat sz + unat a - 2 ^ 64"
    using wraps unsigned_less[of sz, where 'a = nat] k(4) by (simp add: unat_word_ariths mod_if)
  moreover have "\<dots> < 2 ^ 27" using unsigned_less[of sz, where 'a = nat] k(4) by simp
  ultimately have "unat (sz + a) < 2 ^ 27" by (rule ord_eq_less_trans)
  then have acc: "size_accepted (sz + a) ?f" by (simp add: size_accepted_def)
  have "alloc_post G w c (sz + a) ?f False (MemoryContextAllocExtended c (sz + a) ?f w)"
    using MemoryContextAlloc_post(4)[OF ok c, of "sz + a" ?f] by simp
  then show ?thesis
  proof (cases rule: alloc_post_cases)
    case (chunk q G' w')
    show ?thesis
      using chunk(1,2,3) guards nz
      by (auto simp: MemoryContextAllocAligned_def Let_def MemoryChunkSetHdrMask_def store64E_def
          assertE_def seqE_eq_Inl split: if_splits)
  qed (use guards acc in \<open>auto simp: MemoryContextAllocAligned_def out_of_memory_def\<close>)
qed

lemma aligned_at_same_data:
  assumes al: "aligned_at G w p a (q, c, n)" and same: "same_data X w w'"
    and X: "(q, c, n) \<in> X" and ch: "(q, c, n) \<in> chunks G' w'"
  shows "aligned_at G' w' p a (q, c, n)"
proof -
  have p: "q + 8 \<le> p" "p \<le> q + n" using al by (auto simp: aligned_at_def)
  have "regular_hdr (mem w') (p - 8) q a i = regular_hdr (mem w) (p - 8) q a i" for i
  proof (rule regular_hdr_cong)
    fix x assume "p - 8 \<le> x" "x < p - 8 + 8"
    then show "mem w' x = mem w x"
      using same_dataD[OF same X, of "x - q"] p by simp
  qed
  with al ch show ?thesis by (simp add: aligned_at_def)
qed

section \<open>Resizing an aligned chunk\<close>

text \<open>
  A new aligned chunk takes the place of the old one; the data of the old one is kept as far as it
  is surely there: up to the size of its chunk less the alignment.
\<close>

definition aligned_resized :: "(addr \<Rightarrow> ghost) \<Rightarrow> world \<Rightarrow> addr \<Rightarrow> addr \<times> addr \<times> nat \<Rightarrow> Size \<Rightarrow> Size
    \<Rightarrow> addr \<Rightarrow> (addr \<Rightarrow> ghost) \<Rightarrow> world \<Rightarrow> bool" where
  "aligned_resized G w p t sz a p' G' w' \<longleftrightarrow>
     (case t of (q, c, n) \<Rightarrow>
       evolves G w (chunks G w - {t}) G' w' \<and> p' \<noteq> 0
       \<and> (\<exists>q' n'. chunks G' w' = insert (q', c, n') (chunks G w - {t})
             \<and> aligned_at G' w' p' a (q', c, n') \<and> unat sz + unat a \<le> n'
             \<and> (q', c, n') \<notin> chunks G w)
       \<and> (\<forall>i < min (unat sz) (n - unat a). mem w' (p' + i) = mem w (p + i)))"

lemma aligned_copy_and_free:
  assumes ok: "heap_ok G w" and al: "aligned_at G w p a (q, c, n)" and "16 \<le> unat a"
    and na: "aligned_alloc G w c sz a p' G' w'"
    and len: "unat len \<le> min (unat sz) (n - unat a)"
  obtains w1 G2 w2 where "memcpyE p' p len w' = Inr w1" "pfree q w1 = Inr w2"
    "evolves G w (chunks G w - {(q, c, n)}) G2 w2"
    "\<exists>q' n'. chunks G2 w2 = insert (q', c, n') (chunks G w - {(q, c, n)})
       \<and> aligned_at G2 w2 p' a (q', c, n') \<and> unat sz + unat a \<le> n' \<and> (q', c, n') \<notin> chunks G w"
    "\<forall>i < unat len. mem w2 (p' + i) = mem w (p + i)" "p' \<noteq> 0"
proof -
  obtain q' n' where new: "allocated G w c (sz + a) q' G' w'" "chunks G' w' = insert (q', c, n') (chunks G w)"
      "aligned_at G' w' p' a (q', c, n')" and room: "unat sz + unat a \<le> n'"
    using na by (auto simp: aligned_alloc_def)
  then have new4: "p' + unat sz \<le> q' + n'" by (auto simp: aligned_at_def)
  have ev: "evolves G w (chunks G w) G' w'" and ok': "heap_ok G' w'"
    and fresh: "\<And>d j. (q', d, j) \<notin> chunks G w"
    using new(1) by (auto simp: allocated_def evolves_def)
  have q: "(q, c, n) \<in> chunks G w" "q + 8 \<le> p" "p \<le> q + unat a" "q + unat a \<le> q + n"
    using al by (auto simp: aligned_at_def)
  have ch: "(q, c, n) \<in> chunks G' w'" "(q', c, n') \<in> chunks G' w'" using q(1) new(2) by auto
  have ne: "q' \<noteq> q" using fresh q(1) by auto
  have dis: "q + n + 8 \<le> q' \<or> q' + n' + 8 \<le> q" using chunks_disjoint[OF ok' ch] ne by auto
  have p': "q' + 8 \<le> p'" using new(3) by (simp add: aligned_at_def)
  let ?m = "\<lambda>x. if p' \<le> x \<and> x < p' + unat len then mem w' (p + (x - p')) else mem w' x"
  have in1: "in_region w' p' (unat len)"
    by (rule in_region_sub[OF chunk_facts(5)[OF ok' ch(2)]]) (use p' new4 len in auto)
  have in2: "in_region w' p (unat len)"
    by (rule in_region_sub[OF chunk_facts(5)[OF ok' ch(1)]]) (use q len in auto)
  have "p' + unat len \<le> p \<or> p + unat len \<le> p'" using dis p' q new4 len by auto
  moreover have "?m = mem w'" if "len = 0" using that by (auto simp: fun_eq_iff)
  ultimately have cp: "memcpyE p' p len w' = Inr (w'\<lparr>mem := ?m\<rparr>)"
    using in1 in2 by (cases "len = 0") (simp_all add: memcpyE_def)
  have m: "?m x = mem w' x" if "\<not> (q' \<le> x \<and> x < q' + n')" for x
    using that p' new4 len by auto
  note aw = allocated_write[OF new(1,2) m]
  let ?w1 = "w'\<lparr>mem := ?m\<rparr>"
  have ok1: "heap_ok G' ?w1" and ev1: "evolves G w (chunks G w) G' ?w1"
    using aw(1) by (simp_all add: allocated_def evolves_def)
  have "regular_hdr ?m (p' - 8) q' a i = regular_hdr (mem w') (p' - 8) q' a i" for i
    by (rule regular_hdr_cong) (use p' in auto)
  then have al1: "aligned_at G' ?w1 p' a (q', c, n')" using new(3) aw(2) by (simp add: aligned_at_def)
  have "(q, c, n) \<in> chunks G' ?w1" using ch(1) aw(2) by simp
  then obtain G2 w2 where fr: "pfree q ?w1 = Inr w2" "freed G' ?w1 (q, c, n) G2 w2"
    using pfree_chunk[OF ok1] by blast
  have ev2: "evolves G' ?w1 (chunks G' ?w1 - {(q, c, n)}) G2 w2"
    and ch2: "chunks G2 w2 = chunks G' ?w1 - {(q, c, n)}" using fr(2) by (simp_all add: freed_def)
  have ch2': "chunks G2 w2 = insert (q', c, n') (chunks G w - {(q, c, n)})"
    using ch2 aw(2) new(2) ne by auto
  have in': "(q', c, n') \<in> chunks G' ?w1 - {(q, c, n)}" using aw(2) ch(2) ne by auto
  have sd: "same_data (chunks G' ?w1 - {(q, c, n)}) ?w1 w2" using ev2 by (simp add: evolves_def)
  have al2: "aligned_at G2 w2 p' a (q', c, n')"
    by (rule aligned_at_same_data[OF al1 sd in']) (use ch2' in simp)
  have ev3: "evolves G w (chunks G w - {(q, c, n)}) G2 w2"
  proof (rule evolves_trans)
    show "evolves G w (chunks G w - {(q, c, n)}) G' ?w1"
      using ev1 by (auto simp: evolves_def intro: same_data_mono)
    show "chunks G w - {(q, c, n)} \<subseteq> chunks G' ?w1 - {(q, c, n)}" using aw(2) new(2) by auto
  qed (rule ev2)
  have data: "mem w2 (p' + i) = mem w (p + i)" if i: "i < unat len" for i
  proof -
    have "unat len \<le> unat sz" using len by simp
    then have "p' - q' + i < n'" using p' new4 i by linarith
    then have "mem w2 (p' + i) = ?m (p' + i)"
      using same_dataD[OF sd in', of "p' - q' + i"] p' new4 len i by simp
    also have "\<dots> = mem w' (p + i)" using i by simp
    also have "\<dots> = mem w (p + i)"
    proof -
      have "unat len \<le> n - unat a" using len by simp
      then have "p - q + i < n" using q i by linarith
      then show ?thesis using evolves_data[OF ev q(1), of "p - q + i"] q by simp
    qed
    finally show ?thesis .
  qed
  have "\<exists>q' n'. chunks G2 w2 = insert (q', c, n') (chunks G w - {(q, c, n)})
       \<and> aligned_at G2 w2 p' a (q', c, n') \<and> unat sz + unat a \<le> n' \<and> (q', c, n') \<notin> chunks G w"
    using ch2' al2 room fresh by blast
  then show ?thesis using that[OF cp fr(1) ev3] data p' by simp
qed

definition aligned_realloc_post :: "(addr \<Rightarrow> ghost) \<Rightarrow> world \<Rightarrow> addr \<Rightarrow> addr \<times> addr \<times> nat \<Rightarrow> Size \<Rightarrow> Size
    \<Rightarrow> uint32 \<Rightarrow> error + addr \<times> world \<Rightarrow> bool" where
  "aligned_realloc_post G w p t sz a flags res \<longleftrightarrow>
     (if size_accepted (sz + a) flags then
        (\<exists>p' G' w'. res = Inr (p', w')
           \<and> aligned_resized G (touched w (fst (snd t))) p t sz a p' G' w')
        \<or> out_of_memory G (touched w (fst (snd t))) (sz + a) flags res
      else res = Inl (BadSize (sz + a)))"

lemma AlignedAllocRealloc_post:
  assumes ok: "heap_ok G w" and al: "aligned_at G w p a (q, c, n)" and a: "alignment_ok a"
    and nw: "unat sz + unat a < 2 ^ 64"
  shows "aligned_realloc_post G w p (q, c, n) sz a flags (AlignedAllocRealloc p sz flags w)"
proof -
  obtain k :: nat where k: "k < 27" "a = 2 ^ k" "16 \<le> unat a" "unat a < 2 ^ 27"
    using a by (rule alignment_okD)
  have q: "(q, c, n) \<in> chunks G w" "q + unat a \<le> q + n" using al by (auto simp: aligned_at_def)
  obtain s where s: "ctxs w c = Some s" using q(1) by (auto simp: chunks_iff)
  note r = aligned_reads[OF ok al] and gc = GetMemoryChunk_chunk[OF ok q(1)]
  define len where "len = min sz (of_nat (n + 8) - a - of_nat sizeof_MemoryChunk)"
  have "n + 8 < 2 ^ 64" using chunk_facts(2,3)[OF ok q(1)] by simp
  then have old: "unat (of_nat (n + 8) - a - of_nat sizeof_MemoryChunk :: Size) = n - unat a"
  proof -
    have "of_nat (n + 8) - a - of_nat sizeof_MemoryChunk = (of_nat (n - unat a) :: Size)"
      using q(2) by (simp add: sizeof_MemoryChunk_def of_nat_diff)
    then show ?thesis using unat_of_nat_small[of "n - unat a"] \<open>n + 8 < 2 ^ 64\<close> by simp
  qed
  have len: "unat len = min (unat sz) (n - unat a)"
    unfolding len_def using old by (auto simp: min_def word_le_nat_alt simp del: of_nat_add)
  have run: "AlignedAllocRealloc p sz flags w =
     seqE (MemoryContextAllocAligned c sz a flags w) (\<lambda>(newptr, w).
      if newptr = 0 then MemoryContextAllocationFailure c sz flags w else
      seqE (memcpyE newptr p len w) (\<lambda>w. seqE (pfree q w) (\<lambda>w. Inr (newptr, w))))"
    using power2_and_pred[OF k(2)] k(1) unfolding len_def
    by (simp add: AlignedAllocRealloc_def r gc Let_def del: of_nat_add)
  have ok': "heap_ok G (touched w c)" and ch': "chunks G (touched w c) = chunks G w"
    using heap_touched[OF ok] by simp_all
  have al': "aligned_at G (touched w c) p a (q, c, n)" using al ch' by (simp add: aligned_at_def)
  consider (bad) "\<not> size_accepted (sz + a) flags" "MemoryContextAllocAligned c sz a flags w = Inl (BadSize (sz + a))"
    | (new) p' G' w' where "size_accepted (sz + a) flags" "MemoryContextAllocAligned c sz a flags w = Inr (p', w')"
        "p' \<noteq> 0" "aligned_alloc G (touched w c) c sz a p' G' w'"
    | (oom) "size_accepted (sz + a) flags"
        "out_of_memory G (touched w c) (sz + a) flags (MemoryContextAllocAligned c sz a flags w)"
    using MemoryContextAllocAligned_post[OF ok s a nw, of flags]
    by (auto simp: aligned_post_def split: if_splits)
  then show ?thesis
  proof cases
    case (new p' G' w')
    obtain w1 G2 w2 where x: "memcpyE p' p len w' = Inr w1" "pfree q w1 = Inr w2"
      "evolves G (touched w c) (chunks G (touched w c) - {(q, c, n)}) G2 w2"
      "\<exists>q' n'. chunks G2 w2 = insert (q', c, n') (chunks G (touched w c) - {(q, c, n)})
       \<and> aligned_at G2 w2 p' a (q', c, n') \<and> unat sz + unat a \<le> n'
         \<and> (q', c, n') \<notin> chunks G (touched w c)"
      "\<forall>i < unat len. mem w2 (p' + i) = mem (touched w c) (p + i)" "p' \<noteq> 0"
      by (rule aligned_copy_and_free[OF ok' al' k(3) new(4), of len]) (use len in auto)
    then have "aligned_resized G (touched w c) p (q, c, n) sz a p' G2 w2"
      using len by (simp add: aligned_resized_def)
    then show ?thesis using new(1,2,3) x(1,2) by (auto simp: run aligned_realloc_post_def)
  qed (auto simp: run aligned_realloc_post_def out_of_memory_def MemoryContextAllocationFailure_def
      split: if_splits)
qed

lemma mcxt_realloc_aligned:
  assumes "heap_ok G w" and "aligned_at G w p a (q, c, n)" and "8 dvd p"
  shows "mcxt_realloc p sz flags w = AlignedAllocRealloc p sz flags w"
  using aligned_reads(4)[OF assms] by (simp add: mcxt_realloc_def)

section \<open>Resizing arrays\<close>

text \<open>A chunk is resized as \<open>repalloc\<close> and \<open>repalloc_extended\<close> promise.\<close>

definition realloc_post :: "(addr \<Rightarrow> ghost) \<Rightarrow> world \<Rightarrow> addr \<times> addr \<times> nat \<Rightarrow> Size \<Rightarrow> uint32
    \<Rightarrow> error + addr \<times> world \<Rightarrow> bool" where
  "realloc_post G w t sz flags res \<longleftrightarrow>
     (if size_accepted sz flags then realloc_spec G w t sz flags res else res = Inl (BadSize sz))"

lemma repalloc_posts:
  assumes "heap_ok G w" and "(p, c, n) \<in> chunks G w"
  shows "realloc_post G w (p, c, n) sz 0 (repalloc p sz w)"
    and "realloc_post G w (p, c, n) sz flags (repalloc_extended p sz flags w)"
    and "realloc_post G w (p, c, n) sz MCXT_ALLOC_HUGE (repalloc_huge p sz w)"
  using repalloc_chunk[OF assms, of sz 0] repalloc_chunk[OF assms, of sz flags]
    repalloc_chunk[OF assms, of sz MCXT_ALLOC_HUGE]
  by (simp_all add: realloc_post_def repalloc_def repalloc_extended_def repalloc_huge_def)

lemma repalloc_mul_post:
  assumes "heap_ok G w" and "(p, c, n) \<in> chunks G w"
  shows "if unat s1 * unat s2 < 2 ^ 64
    then realloc_post G w (p, c, n) (s1 * s2) 0 (repalloc_mul p s1 s2 w)
      \<and> realloc_post G w (p, c, n) (s1 * s2) flags (repalloc_mul_extended p s1 s2 flags w)
    else repalloc_mul p s1 s2 w = Inl SizeOverflow \<and> repalloc_mul_extended p s1 s2 flags w = Inl SizeOverflow"
  using repalloc_posts[OF assms]
  by (simp add: repalloc_mul_def repalloc_mul_extended_def pg_mul_size_overflow_def)

section \<open>Zeroing the new part\<close>

lemma repalloc0_post:
  assumes ok: "heap_ok G w" and p: "(p, c, n) \<in> chunks G w"
  shows "if unat sz < unat oldsize \<or> \<not> size_accepted sz 0
    then repalloc0 p oldsize sz w = Inl (BadSize sz)
    else repalloc0 p oldsize sz w = Inl (OutOfMemory sz)
      \<or> (\<exists>q G' w'. repalloc0 p oldsize sz w = Inr (q, w') \<and> q \<noteq> 0
          \<and> evolves G w (chunks G w - {(p, c, n)}) G' w'
          \<and> (\<exists>n'. unat sz \<le> n' \<and> chunks G' w' = insert (q, c, n') (chunks G w - {(p, c, n)}))
          \<and> (\<forall>i < min n (unat oldsize). mem w' (q + i) = mem w (p + i))
          \<and> (\<forall>i. unat oldsize \<le> i \<and> i < unat sz \<longrightarrow> mem w' (q + i) = 0))"
proof (cases "unat sz < unat oldsize")
  case True
  then show ?thesis by (simp add: repalloc0_def word_less_nat_alt)
next
  case le: False
  show ?thesis
  proof (cases "size_accepted sz 0")
    case False
    then show ?thesis
      using le repalloc_chunk[OF ok p, of sz 0] by (simp add: repalloc0_def repalloc_def word_less_nat_alt)
  next
    case True
    then consider (oom) "repalloc p sz w = Inl (OutOfMemory sz)"
      | (got) q G' w' where "repalloc p sz w = Inr (q, w')" "resized G w (p, c, n) sz q G' w'"
      using repalloc_chunk[OF ok p, of sz 0]
      by (auto simp: realloc_spec_def out_of_memory_def repalloc_def)
    then show ?thesis
    proof cases
      case oom
      then show ?thesis using le True by (simp add: repalloc0_def word_less_nat_alt)
    next
      case (got q G' w')
      obtain n' where n': "unat sz \<le> n'" "chunks G' w' = insert (q, c, n') (chunks G w - {(p, c, n)})"
          "\<forall>i < min n n'. mem w' (q + i) = mem w (p + i)"
        using got(2) by (auto simp: resized_def)
      have ev: "evolves G w (chunks G w - {(p, c, n)}) G' w'" "q \<noteq> 0"
        using got(2) by (simp_all add: resized_def)
      then have ok': "heap_ok G' w'" by (simp add: evolves_def)
      have q: "(q, c, n') \<in> chunks G' w'" using n' by simp
      have u: "unat (sz - oldsize) = unat sz - unat oldsize"
        using le by (simp add: unat_sub word_le_nat_alt)
      let ?m = "fill (mem w') (q + unat oldsize) 0 (unat (sz - oldsize))"
      have "in_region w' (q + unat oldsize) (unat (sz - oldsize))"
        by (rule in_region_sub[OF chunk_facts(5)[OF ok' q]]) (use u n' le in auto)
      then have run: "memsetE (q + unat oldsize) 0 (sz - oldsize) w' = Inr (w'\<lparr>mem := ?m\<rparr>)"
        by (cases "sz - oldsize = 0") (simp_all add: memsetE_def)
      have m: "?m x = mem w' x" if "\<not> (q \<le> x \<and> x < q + n')" for x
        using that n'(1) u le by (auto simp: fill_def)
      note cw = client_write_evolves[OF ok' q m]
      have fresh: "(q, d, j) \<notin> chunks G w - {(p, c, n)}" for d j
        using got(2) by (simp add: resized_def)
      then have ch: "chunks G' w' - {(q, c, n')} = chunks G w - {(p, c, n)}" using n'(2) by auto
      have ev': "evolves G w (chunks G w - {(p, c, n)}) G' (w'\<lparr>mem := ?m\<rparr>)"
        by (rule evolves_trans[OF ev(1) cw(1) eq_refl[OF ch[symmetric]]])
      have "?m (q + i) = mem w (p + i)" if "i < min n (unat oldsize)" for i
        using that n' le by (simp add: fill_def)
      moreover have "?m (q + i) = 0" if "unat oldsize \<le> i" "i < unat sz" for i
        using that u by (simp add: fill_def)
      ultimately have "\<exists>q G' w'. repalloc0 p oldsize sz w = Inr (q, w') \<and> q \<noteq> 0
          \<and> evolves G w (chunks G w - {(p, c, n)}) G' w'
          \<and> (\<exists>n'. unat sz \<le> n' \<and> chunks G' w' = insert (q, c, n') (chunks G w - {(p, c, n)}))
          \<and> (\<forall>i < min n (unat oldsize). mem w' (q + i) = mem w (p + i))
          \<and> (\<forall>i. unat oldsize \<le> i \<and> i < unat sz \<longrightarrow> mem w' (q + i) = 0)"
        using le got(1) run ev' ev(2) n' cw(2)
        by (intro exI[of _ q] exI[of _ G'] exI[of _ "w'\<lparr>mem := ?m\<rparr>"])
          (auto simp: repalloc0_def word_less_nat_alt)
      then show ?thesis using le True by simp
    qed
  qed
qed

section \<open>Corrupted headers\<close>

lemma Bogus_dispatch:
  assumes p: "8 dvd p" "8 \<le> p" "p < 2 ^ 64" and h: "load64E w (p - 8) = Inr h"
    and i: "unat (h AND MEMORY_CONTEXT_METHODID_MASK) \<notin> {3, 6}"
  shows "pfree p w = Inl (Corruption p) \<and> repalloc_extended p sz flags w = Inl (Corruption p)
    \<and> GetMemoryChunkContext w p = Inl (Corruption p) \<and> GetMemoryChunkSpace w p = Inl (Corruption p)"
proof -
  let ?i = "hdrmask_methodid h"
  have lt: "unat (h AND MEMORY_CONTEXT_METHODID_MASK) < 16"
    using word_and_le1[of h MEMORY_CONTEXT_METHODID_MASK]
    by (simp add: word_le_nat_alt MEMORY_CONTEXT_METHODID_MASK_def MEMORY_CONTEXT_METHODID_BITS_def)
  have "methodid_num ?i = unat (h AND MEMORY_CONTEXT_METHODID_MASK)" if "unat (h AND MEMORY_CONTEXT_METHODID_MASK) < 16"
    using that unfolding hdrmask_methodid_def all_methodids_def
    by (auto simp: less_Suc_eq numeral_eq_Suc)
  then have "methodid_num ?i \<notin> {3, 6}" using lt i by simp
  then have ne: "?i \<noteq> MCTX_ASET_ID" "?i \<noteq> MCTX_ALIGNED_REDIRECT_ID" by auto
  have u: "unat (of_nat p :: Size) = p" by (rule unat_of_nat_small[OF p(3)])
  have "p + 7 < 2 ^ 64" using p(1,3) by (auto elim!: dvdE)
  then have al: "of_nat p = MAXALIGN (of_nat p)" using MAXALIGN_id_iff[of "of_nat p"] p(1) u by simp
  have m: "GetMemoryChunkMethodID w p = Inr ?i"
    unfolding GetMemoryChunkMethodID_def al[symmetric] using p(2) h by (simp add: sizeof_MemoryChunk_def)
  show ?thesis
    using ne by (simp add: pfree.simps[of p] GetMemoryChunkContext.simps[of w p] GetMemoryChunkSpace.simps[of w p]
        repalloc_extended_def mcxt_realloc_def m BogusFree_def BogusRealloc_def BogusGetChunkContext_def
        BogusGetChunkSpace_def)
qed

end
