(* ===== verification/ResetProofs.thy ===== *)
theory ResetProofs
  imports PallocProofs
begin

text \<open>
  Resetting a context: the walk over the blocks that \<open>AllocSetReset\<close> and \<open>AllocSetDelete\<close> share, and
  the correctness of \<open>AllocSetReset\<close>: every block but the keeper is released, the keeper is empty,
  the accounting assertion holds, and no other context is affected.
\<close>

unbundle bit_operations_syntax

section \<open>Releasing blocks\<close>

text \<open>Nothing else lives in the region of a block other than the keeper.\<close>

lemma block_exclusive:
  assumes ok: "heap_ok G w" and c: "ctxs w c = Some s" and b: "b \<in> set (gblocks (G c))"
    and nk: "\<not> IsKeeperBlock c b" and K: "blks w b = Some K" and a: "b \<le> a" "a < endptr K"
  shows "ctxs w a = None" and "a \<noteq> b \<Longrightarrow> blks w a = None"
proof -
  have ext: "a \<in> extent (blks w) c b" using a K nk by (simp add: extent_def base_def)
  show "ctxs w a = None"
  proof (rule ccontr)
    assume "ctxs w a \<noteq> None"
    then obtain u where u: "ctxs w a = Some u" by auto
    have kb: "KeeperBlock a \<in> set (gblocks (G a))" by (rule heap_ok_keeper[OF ok u])
    have "KeeperBlock a \<noteq> b"
      using heap_ok_block[OF ok u kb] heap_ok_block[OF ok c b] nk
      by (metis IsKeeperBlock_def option.inject)
    then show False using extent_disjoint[OF ok u c kb b] ctx_in_extent[OF ok u] ext by blast
  qed
  assume "a \<noteq> b"
  show "blks w a = None"
  proof (rule ccontr)
    assume "blks w a \<noteq> None"
    then obtain k where k: "blks w a = Some k" by auto
    then obtain u where u: "ctxs w (aset k) = Some u" "a \<in> set (gblocks (G (aset k)))"
      using heap_okD(4)[OF ok k] by auto
    show False
      using extent_disjoint[OF ok u(1) c u(2) b \<open>a \<noteq> b\<close>] block_in_extent[OF ok u] ext by blast
  qed
qed

text \<open>The blocks of a list that are not the keeper, and the state without them.\<close>

definition nonkeepers :: "addr \<Rightarrow> addr list \<Rightarrow> addr set" where
  "nonkeepers c bs = {b \<in> set bs. \<not> IsKeeperBlock c b}"

definition drop_blocks :: "world \<Rightarrow> addr set \<Rightarrow> world" where
  "drop_blocks w S =
     w\<lparr>regions := filter (\<lambda>r. fst r \<notin> S) (regions w),
       blks := (\<lambda>x. if x \<in> S then None else blks w x)\<rparr>"

lemma nonkeepers_snoc:
  "nonkeepers c (us @ [b]) = (if IsKeeperBlock c b then nonkeepers c us else insert b (nonkeepers c us))"
  by (auto simp: nonkeepers_def)

lemma free_block_step:
  assumes ok: "heap_ok G w" and c: "ctxs w c = Some s" and b: "b \<in> set (gblocks (G c))"
    and nk: "\<not> IsKeeperBlock c b" and S: "b \<notin> S"
    and v: "regions v = filter (\<lambda>r. fst r \<notin> S) (regions w)" "ctxs v = (ctxs w)(c \<mapsto> s')"
      "\<And>x. blks w x = None \<Longrightarrow> blks v x = None"
  shows "free b v = Inr (v\<lparr>regions := filter (\<lambda>r. fst r \<notin> insert b S) (regions w),
    blks := (blks v)(b := None)\<rparr>)"
proof -
  obtain K where K: "blks w b = Some K" "block_ok (set (regions w)) (mem w) c b K (gtiles (G c) b)"
      "(base c b, endptr K - base c b) \<in> set (regions w)" "b + 40 \<le> freeptr K" "freeptr K \<le> endptr K"
    by (rule heap_ok_block[OF ok c b])
  have base: "base c b = b" using nk by (simp add: base_def)
  have "b \<noteq> 0" using regions_ok_bounds[OF heap_okD(1)[OF ok] K(3)] base by simp
  have "(b, endptr K - b) \<in> set (regions v)" using K(3) base S v(1) by simp
  moreover have "regions_ok (regions v)" using heap_okD(1)[OF ok] by (simp add: v(1) regions_ok_filter)
  ultimately have reg: "region_at v b = Some (endptr K - b)"
    unfolding region_at_def by (intro map_of_regions)
  note ex = block_exclusive[OF ok c b nk K(1)]
  have end': "b + (endptr K - b) = endptr K" using K(4,5) by simp
  have 1: "forget b (endptr K - b) (ctxs v) = ctxs v"
    unfolding v(2) by (rule forget_fresh) (use ex(1) c end' in \<open>auto dest: ex(1)\<close>)
  have 2: "forget b (endptr K - b) (blks v) = (blks v)(b := None)"
    using ex(2) v(3) end' K(4,5) by (auto simp: forget_def fun_eq_iff)
  have "filter (\<lambda>r. fst r \<noteq> b) (regions v) = filter (\<lambda>r. fst r \<notin> insert b S) (regions w)"
    by (auto simp: v(1) intro!: filter_cong)
  with \<open>b \<noteq> 0\<close> reg 1 2 show ?thesis by (simp add: free_def)
qed

text \<open>
  The state in the middle of the walk over the blocks that \<open>AllocSetReset\<close> and \<open>AllocSetDelete\<close>
  share: the blocks \<open>us\<close> are done, \<open>f\<close> is what happens to the header of the keeper.
\<close>

definition released :: "world \<Rightarrow> addr \<Rightarrow> AllocSetContext \<Rightarrow> (AllocBlockData \<Rightarrow> AllocBlockData)
    \<Rightarrow> addr list \<Rightarrow> world" where
  "released w c s f us =
     w\<lparr>regions := filter (\<lambda>r. fst r \<notin> nonkeepers c us) (regions w),
       blks := (\<lambda>x. if x \<in> nonkeepers c us then None
                  else if x = KeeperBlock c \<and> x \<in> set us then map_option f (blks w x) else blks w x),
       ctxs := (ctxs w)(c \<mapsto> s\<lparr>mem_allocated := mem_allocated s
                  - of_nat (\<Sum>b \<in> nonkeepers c us. block_size (blks w) c b)\<rparr>)\<rparr>"

lemma released_Nil:
  "released w c s f [] = w\<lparr>ctxs := (ctxs w)(c \<mapsto> s)\<rparr>"
  by (simp add: released_def nonkeepers_def)

lemma released_keeper:
  assumes "KeeperBlock c \<notin> set us" and "blks w (KeeperBlock c) = Some K"
  shows "released w c s f (us @ [KeeperBlock c]) =
    (let v = released w c s f us in v\<lparr>blks := (blks v)(KeeperBlock c \<mapsto> f K)\<rparr>)"
proof -
  have "nonkeepers c (us @ [KeeperBlock c]) = nonkeepers c us"
    by (simp add: nonkeepers_snoc IsKeeperBlock_def)
  moreover have "KeeperBlock c \<notin> nonkeepers c us" by (simp add: nonkeepers_def IsKeeperBlock_def)
  ultimately show ?thesis
    using assms by (simp add: released_def Let_def fun_eq_iff)
qed

lemma released_free:
  assumes ok: "heap_ok G w" and c: "ctxs w c = Some s0" and bs: "gblocks (G c) = us @ b # vs"
    and nk: "\<not> IsKeeperBlock c b" and K: "blks w b = Some K"
  shows "seqE (upd_ctx c (\<lambda>s. s\<lparr>mem_allocated := mem_allocated s - ptr_diff (endptr K) b\<rparr>)
      (released w c s f us)) (free b) = Inr (released w c s f (us @ [b]))"
proof -
  have b: "b \<in> set (gblocks (G c))" by (simp add: bs)
  have dist: "distinct (us @ b # vs)"
    using heap_okD(2)[OF ok c] by (simp add: aset_ok_def blocks_ok_def bs)
  then have S: "b \<notin> nonkeepers c us" by (simp add: nonkeepers_def)
  let ?v = "released w c s f us"
  let ?sum = "\<lambda>us. \<Sum>b \<in> nonkeepers c us. block_size (blks w) c b"
  let ?s' = "s\<lparr>mem_allocated := mem_allocated s - of_nat (?sum us) - ptr_diff (endptr K) b\<rparr>"
  let ?v' = "?v\<lparr>ctxs := (ctxs w)(c \<mapsto> ?s')\<rparr>"
  have upd: "upd_ctx c (\<lambda>s. s\<lparr>mem_allocated := mem_allocated s - ptr_diff (endptr K) b\<rparr>) ?v = Inr ?v'"
    by (simp add: upd_ctx_def released_def)
  have v': "regions ?v' = filter (\<lambda>r. fst r \<notin> nonkeepers c us) (regions w)"
    "ctxs ?v' = (ctxs w)(c \<mapsto> ?s')" "\<And>x. blks w x = None \<Longrightarrow> blks ?v' x = None"
    by (auto simp: released_def)
  note fr = free_block_step[OF ok c b nk S v'(1,2,3)]
  obtain K' where "blks w b = Some K'" "b + 40 \<le> freeptr K'" "freeptr K' \<le> endptr K'"
    by (rule heap_ok_block[OF ok c b])
  then have le: "b \<le> endptr K" using K by simp
  have sz: "of_nat (block_size (blks w) c b) = ptr_diff (endptr K) b"
    using K nk le by (simp add: block_size_def base_def ptr_diff_def of_nat_diff)
  have ins: "nonkeepers c (us @ [b]) = insert b (nonkeepers c us)" using nk by (simp add: nonkeepers_snoc)
  have "finite (nonkeepers c us)" by (simp add: nonkeepers_def)
  then have sum: "of_nat (?sum (us @ [b])) = of_nat (?sum us) + ptr_diff (endptr K) b"
    using S sz by (simp add: ins add.commute)
  have "KeeperBlock c \<noteq> b" using nk by (simp add: IsKeeperBlock_def)
  then have "?v'\<lparr>regions := filter (\<lambda>r. fst r \<notin> insert b (nonkeepers c us)) (regions w),
      blks := (blks ?v')(b := None)\<rparr> = released w c s f (us @ [b])"
    unfolding released_def sum by (intro world.equality) (auto simp: ins fun_eq_iff diff_diff_eq)
  then show ?thesis using upd fr by simp
qed

lemma keeper_size:
  assumes ok: "heap_ok G w" and c: "ctxs w c = Some s"
  obtains K where "blks w (KeeperBlock c) = Some K" "aset K = c"
    "mem_allocated s - of_nat (\<Sum>b \<in> nonkeepers c (gblocks (G c)). block_size (blks w) c b)
      = ptr_diff (endptr K) c"
    "c + 240 \<le> endptr K" "(c, endptr K - c) \<in> set (regions w)" "endptr K - KeeperBlock c < 2 ^ 30"
    "c \<noteq> 0" "8 dvd c" "endptr K < 2 ^ 64"
proof -
  have A: "aset_ok (set (regions w)) (mem w) (blks w) c s (G c)" by (rule heap_okD(2)[OF ok c])
  have kb: "KeeperBlock c \<in> set (gblocks (G c))" by (rule heap_ok_keeper[OF ok c])
  obtain K where K: "blks w (KeeperBlock c) = Some K"
    "block_ok (set (regions w)) (mem w) c (KeeperBlock c) K (gtiles (G c) (KeeperBlock c))"
    "(base c (KeeperBlock c), endptr K - base c (KeeperBlock c)) \<in> set (regions w)"
    "KeeperBlock c + 40 \<le> freeptr K" "freeptr K \<le> endptr K" "endptr K < 2 ^ 64"
    "base c (KeeperBlock c) \<noteq> 0" "aset K = c"
    by (rule heap_ok_block[OF ok c kb])
  have base: "base c (KeeperBlock c) = c" by (simp add: base_def IsKeeperBlock_def)
  have le: "c \<le> endptr K" using K(4,5) by (simp add: KeeperBlock_eq)
  have "gtiles (G c) (KeeperBlock c) \<noteq> None" using A by (simp add: aset_ok_def blocks_ok_def)
  then have small: "endptr K - KeeperBlock c < 2 ^ 30" using K(2) by (auto simp: block_ok_def)
  have split: "set (gblocks (G c)) = insert (KeeperBlock c) (nonkeepers c (gblocks (G c)))"
    using kb by (auto simp: nonkeepers_def IsKeeperBlock_def)
  have "finite (nonkeepers c (gblocks (G c)))" "KeeperBlock c \<notin> nonkeepers c (gblocks (G c))"
    by (simp_all add: nonkeepers_def IsKeeperBlock_def)
  then have "(\<Sum>b \<in> set (gblocks (G c)). block_size (blks w) c b)
      = block_size (blks w) c (KeeperBlock c) + (\<Sum>b \<in> nonkeepers c (gblocks (G c)). block_size (blks w) c b)"
    unfolding split by simp
  moreover have "mem_allocated s = of_nat (\<Sum>b \<in> set (gblocks (G c)). block_size (blks w) c b)"
    using A by (simp add: aset_ok_def)
  ultimately have m: "mem_allocated s - of_nat (\<Sum>b \<in> nonkeepers c (gblocks (G c)). block_size (blks w) c b)
      = of_nat (block_size (blks w) c (KeeperBlock c))" by simp
  also have "\<dots> = ptr_diff (endptr K) c"
    using K(1) le by (simp add: block_size_def base ptr_diff_def of_nat_diff)
  finally have "mem_allocated s - of_nat (\<Sum>b \<in> nonkeepers c (gblocks (G c)). block_size (blks w) c b)
      = ptr_diff (endptr K) c" .
  moreover have "8 dvd c"
    using regions_ok_bounds[OF heap_okD(1)[OF ok] K(3)] base by simp
  ultimately show ?thesis
    using that[OF K(1,8)] K(3-7) base small by (simp add: KeeperBlock_eq)
qed

lemma released_walk:
  assumes ok: "heap_ok G w" and c: "ctxs w c = Some s0" and bs: "gblocks (G c) = us @ b # vs"
  obtains K where "blks w b = Some K" "blks (released w c s f us) b = Some K" "bnext K = first vs 0"
proof -
  have b: "b \<in> set (gblocks (G c))" by (simp add: bs)
  have A: "dseg bnext bprev (blks w) 0 (us @ b # vs) 0" "distinct (us @ b # vs)"
    using heap_okD(2)[OF ok c] by (simp_all add: aset_ok_def blocks_ok_def bs)
  obtain K where K: "blks w b = Some K" by (rule heap_ok_block[OF ok c b])
  moreover have "blks (released w c s f us) b = Some K"
    using A(2) K by (auto simp: released_def nonkeepers_def)
  moreover have "bnext K = first vs 0" by (rule dseg_split(2)[OF A(1) K])
  ultimately show ?thesis by (rule that)
qed

lemma reset_blocks_run:
  assumes ok: "heap_ok G w" and c: "ctxs w c = Some s0"
  shows "reset_blocks c (first (gblocks (G c)) 0) (w\<lparr>ctxs := (ctxs w)(c \<mapsto> s)\<rparr>)
    = Inr (released w c s (\<lambda>k. k\<lparr>freeptr := KeeperBlock c + ALLOC_BLOCKHDRSZ, bprev := 0, bnext := 0\<rparr>)
        (gblocks (G c)))"
proof -
  let ?bs = "gblocks (G c)"
  let ?f = "\<lambda>k. k\<lparr>freeptr := KeeperBlock c + ALLOC_BLOCKHDRSZ, bprev := 0, bnext := 0\<rparr>"
  let ?c = "\<lambda>(block, w). seqE (get_blk w block) (\<lambda>k.
          let nxt = bnext k in
          if IsKeeperBlock c block then
            seqE (upd_blk block
                   (\<lambda>k. k\<lparr>freeptr := block + ALLOC_BLOCKHDRSZ, bprev := 0, bnext := 0\<rparr>) w) (\<lambda>w.
              Inr (nxt, w))
          else
            seqE (upd_ctx c (\<lambda>s. s\<lparr>mem_allocated :=
                    mem_allocated s - ptr_diff (endptr k) block\<rparr>) w) (\<lambda>w.
            seqE (free block w) (\<lambda>w. Inr (nxt, w))))"
  have seg: "dseg bnext bprev (blks w) 0 ?bs 0" "distinct ?bs"
    using heap_okD(2)[OF ok c] by (simp_all add: aset_ok_def blocks_ok_def)
  have "\<exists>x'. loopE (\<lambda>(block, w). block \<noteq> 0) ?c (first ?bs 0, released w c s ?f []) = Inr (0, x')
      \<and> x' = released w c s ?f ?bs"
  proof (rule loopE_list[where I = "\<lambda>us x. x = released w c s ?f us"])
    show "0 \<notin> set ?bs" by (rule dseg_nonzero[OF seg(1)])
    fix us b vs x assume bs: "?bs = us @ b # vs" and x: "x = released w c s ?f us"
    obtain K where K: "blks w b = Some K" "blks (released w c s ?f us) b = Some K" "bnext K = first vs 0"
      by (rule released_walk[OF ok c bs])
    show "\<exists>x'. ?c (b, x) = Inr (first vs 0, x') \<and> x' = released w c s ?f (us @ [b])"
    proof (cases "IsKeeperBlock c b")
      case True
      then have b: "b = KeeperBlock c" by (simp add: IsKeeperBlock_def)
      have "b \<notin> set us" using seg(2) bs by simp
      then have "released w c s ?f (us @ [b]) = x\<lparr>blks := (blks x)(b \<mapsto> ?f K)\<rparr>"
        using released_keeper[of c us w K s ?f] K(1) by (simp add: b x Let_def)
      then show ?thesis using True K by (simp add: x get_blk_def upd_blk_def b)
    next
      case False
      obtain y where y: "upd_ctx c (\<lambda>s. s\<lparr>mem_allocated := mem_allocated s - ptr_diff (endptr K) b\<rparr>) x = Inr y"
          "free b y = Inr (released w c s ?f (us @ [b]))"
        using released_free[OF ok c bs False K(1), of s ?f] by (auto simp: x seqE_eq_Inr)
      show ?thesis using False K y by (simp add: x get_blk_def)
    qed
  qed simp
  then show ?thesis by (auto simp: reset_blocks_def released_Nil)
qed

section \<open>A context with its keeper only\<close>

definition fresh_ghost :: "addr \<Rightarrow> ghost" where
  "fresh_ghost c = \<lparr>gblocks = [KeeperBlock c], gtiles = [KeeperBlock c \<mapsto> []], gfree = (\<lambda>_. [])\<rparr>"

lemma fresh_ghost_facts [simp]:
  "gblocks (fresh_ghost c) = [KeeperBlock c]" "gtiles (fresh_ghost c) (KeeperBlock c) = Some []"
  "gfree (fresh_ghost c) k = []" "units B (fresh_ghost c) = {}" "tiles (fresh_ghost c) = {}"
  "chunks_of B c (fresh_ghost c) = {}"
  by (simp_all add: fresh_ghost_def units_def block_units_def tiles_def chunks_of_def)

lemma fresh_aset_ok:
  assumes params: "params_ok c s (fresh_ghost c)"
    and K: "B (KeeperBlock c) = Some K" "aset K = c" "freeptr K = KeeperBlock c + 40"
      "bprev K = 0" "bnext K = 0" "c + 240 \<le> endptr K" "endptr K - KeeperBlock c < 2 ^ 30"
      "(c, endptr K - c) \<in> R"
    and s: "freelist s = replicate ALLOCSET_NUM_FREELISTS 0" "blocks s = KeeperBlock c"
      "mem_allocated s = ptr_diff (endptr K) c"
  shows "aset_ok R m B c s (fresh_ghost c)"
proof -
  have base: "base c (KeeperBlock c) = c" by (simp add: base_def IsKeeperBlock_def)
  have "KeeperBlock c + 40 \<le> endptr K" "KeeperBlock c \<noteq> 0" using K(6) by (simp_all add: KeeperBlock_eq)
  then have "block_ok R m c (KeeperBlock c) K (Some [])"
    using K base by (simp add: block_ok_def IsKeeperBlock_def)
  then have "blocks_ok R m B c (fresh_ghost c)"
    using K \<open>KeeperBlock c \<noteq> 0\<close> by (simp add: blocks_ok_def)
  moreover have "frees_ok m (freelist s) (fresh_ghost c)" by (simp add: frees_ok_def s)
  moreover have "mem_allocated s = of_nat (block_size B c (KeeperBlock c))"
    using K(1,6) base by (simp add: s block_size_def ptr_diff_def of_nat_diff)
  ultimately show ?thesis using params s by (simp add: aset_ok_def)
qed

lemma fresh_pristine: "nextBlockSize s = initBlockSize s \<Longrightarrow> pristine c s (fresh_ghost c)"
  by (simp add: pristine_def)

text \<open>The regions of other contexts and of clients are not the ones of this context's blocks.\<close>

lemma other_region:
  assumes ok: "heap_ok G w" and c: "ctxs w c = Some s" and d: "ctxs w d = Some t" and ne: "d \<noteq> c"
    and b: "b \<in> set (gblocks (G d))"
  shows "base d b \<notin> nonkeepers c (gblocks (G c))" and "base d b \<noteq> c"
proof -
  obtain K where K: "blks w b = Some K" by (rule heap_ok_block[OF ok d b])
  have base: "base d b = d \<or> base d b = b" by (simp add: base_def)
  have "b \<noteq> c" using heap_okD(3)[OF ok c] K by auto
  then show "base d b \<noteq> c" using base ne by metis
  show "base d b \<notin> nonkeepers c (gblocks (G c))"
  proof
    assume "base d b \<in> nonkeepers c (gblocks (G c))"
    then have x: "base d b \<in> set (gblocks (G c))" by (simp add: nonkeepers_def)
    obtain K' where "blks w (base d b) = Some K'" by (rule heap_ok_block[OF ok c x])
    then have "base d b \<noteq> d" using heap_okD(3)[OF ok d] by auto
    then show False using base x other_block[OF ok c d ne b] by simp
  qed
qed

lemma foreign_region:
  assumes ok: "heap_ok G w" and c: "ctxs w c = Some s" and f: "foreign G w a"
  obtains r n where "(r, n) \<in> set (regions w)" "r \<le> a" "a < r + n"
    and "r \<notin> nonkeepers c (gblocks (G c))" and "r \<noteq> c"
proof -
  obtain r n where r: "(r, n) \<in> set (regions w)" "r \<le> a" "a < r + n"
    using f by (auto simp: foreign_def in_region_iff)
  have "base c x \<noteq> r" if x: "x \<in> set (gblocks (G c))" for x
  proof
    assume eq: "base c x = r"
    obtain K where K: "blks w x = Some K" "(base c x, endptr K - base c x) \<in> set (regions w)"
      by (rule heap_ok_block[OF ok c x])
    have "n = endptr K - r" using regions_ok_start[OF heap_okD(1)[OF ok] r(1)] K(2) eq by simp
    then have "a \<in> extent (blks w) c x" using r K(1) eq by (simp add: extent_def)
    then show False using foreign_extent[OF f c x] by blast
  qed
  note * = this
  have "r \<notin> nonkeepers c (gblocks (G c))" using *[of r] by (auto simp: nonkeepers_def base_def split: if_splits)
  moreover have "r \<noteq> c"
    using *[OF heap_ok_keeper[OF ok c]] by (simp add: base_def IsKeeperBlock_def)
  ultimately show ?thesis by (rule that[OF r])
qed

text \<open>
  The state after the blocks of a context were released down to its keeper, which was emptied; the
  header fields that the invariant reads have the values of \<open>AllocSetReset\<close>.
\<close>

lemma heap_emptied:
  assumes ok: "heap_ok G w" and c: "ctxs w c = Some s"
    and K: "blks w (KeeperBlock c) = Some K"
    and w': "regions w' = filter (\<lambda>r. fst r \<notin> nonkeepers c (gblocks (G c))) (regions w)"
      "mem w' = mem w" "ctxs w' = (ctxs w)(c \<mapsto> s')"
      "blks w' = (\<lambda>x. if x \<in> nonkeepers c (gblocks (G c)) then None
         else if x = KeeperBlock c then Some (K\<lparr>freeptr := KeeperBlock c + 40, bprev := 0, bnext := 0\<rparr>)
         else blks w x)"
    and s': "params_ok c s' (fresh_ghost c)" "freelist s' = replicate ALLOCSET_NUM_FREELISTS 0"
      "blocks s' = KeeperBlock c" "mem_allocated s' = ptr_diff (endptr K) c"
  shows "heap_ok (G(c := fresh_ghost c)) w'"
    and "chunks (G(c := fresh_ghost c)) w' = other_chunks G w c"
    and "same_foreign G w (G(c := fresh_ghost c)) w'"
proof -
  let ?S = "nonkeepers c (gblocks (G c))"
  obtain K' where "blks w (KeeperBlock c) = Some K'" "aset K' = c" "c + 240 \<le> endptr K'"
    "(c, endptr K' - c) \<in> set (regions w)" "endptr K' - KeeperBlock c < 2 ^ 30"
    by (rule keeper_size[OF ok c])
  then have k: "aset K = c" "c + 240 \<le> endptr K" "(c, endptr K - c) \<in> set (regions w)"
    "endptr K - KeeperBlock c < 2 ^ 30" using K by simp_all
  have Sin: "b \<in> set (gblocks (G c))" "\<not> IsKeeperBlock c b" if "b \<in> ?S" for b
    using that by (simp_all add: nonkeepers_def)
  have "c \<notin> ?S"
    using heap_okD(3)[OF ok c] heap_ok_block[OF ok c, of c] by (auto simp: nonkeepers_def)
  then have reg: "(c, endptr K - c) \<in> set (regions w')" using k(3) by (simp add: w'(1))
  have kS: "KeeperBlock c \<notin> ?S" by (simp add: nonkeepers_def IsKeeperBlock_def)
  have kb: "KeeperBlock c \<in> set (gblocks (G c))" by (rule heap_ok_keeper[OF ok c])
  have regs: "regions_ok (regions w')" by (simp add: w'(1) regions_ok_filter heap_okD(1)[OF ok])
  have aset': "aset_ok (set (regions w')) (mem w') (blks w') c s' (fresh_ghost c)"
    by (rule fresh_aset_ok[OF s'(1), where K = "K\<lparr>freeptr := KeeperBlock c + 40, bprev := 0, bnext := 0\<rparr>",
          OF _ _ _ _ _ _ _ _ s'(2,3)])
      (use k reg kS s'(4) in \<open>simp_all add: w'(4)\<close>)
  have noblk: "blks w' d = None" if "ctxs w' d \<noteq> None" for d
  proof -
    have "ctxs w d \<noteq> None" using that c by (auto simp: w'(3) split: if_splits)
    then have "blks w d = None" using heap_okD(3)[OF ok] by blast
    moreover from this have "d \<noteq> KeeperBlock c" using K by auto
    ultimately show ?thesis by (simp add: w'(4))
  qed
  have other_blk: "blks w' b = blks w b" if "d \<noteq> c" "ctxs w d = Some t" "b \<in> set (gblocks (G d))" for d t b
    using other_block[OF ok c that(2,1,3)] kb Sin by (auto simp: w'(4))
  have own: "blks w b = Some k \<and> aset k \<noteq> c"
    if "blks w' b = Some k" "b \<notin> set (gblocks (fresh_ghost c))" for b k
  proof -
    have b: "b \<notin> ?S" "b \<noteq> KeeperBlock c" "blks w b = Some k"
      using that by (auto simp: w'(4) split: if_splits)
    then have "b \<notin> set (gblocks (G c))" by (simp add: nonkeepers_def IsKeeperBlock_def)
    with heap_okD(4)[OF ok b(3)] b(3) show ?thesis by auto
  qed
  have other_reg: "(base d b, n) \<in> set (regions w')"
    if "d \<noteq> c" "ctxs w d = Some t" "b \<in> set (gblocks (G d))" "(base d b, n) \<in> set (regions w)" for d t b n
  proof -
    have "base d b \<notin> ?S" by (rule other_region[OF ok c that(2,1,3)])
    then show ?thesis using that(4) by (simp add: w'(1))
  qed
  note up = heap_ok_update[OF ok regs w'(3) aset']
  show "heap_ok (G(c := fresh_ghost c)) w'"
    by (rule up(1)) (fact noblk other_blk own other_reg | simp add: w'(2))+
  have "chunks (G(c := fresh_ghost c)) w' = other_chunks G w c \<union> chunks_of (blks w') c (fresh_ghost c)"
    by (rule up(2)) (fact noblk other_blk own other_reg | simp add: w'(2))+
  then show "chunks (G(c := fresh_ghost c)) w' = other_chunks G w c" by simp
  show "same_foreign G w (G(c := fresh_ghost c)) w'"
  proof (rule same_foreign_update[OF c w'(3) other_blk])
    fix a assume f: "foreign G w a"
    obtain r n where r: "(r, n) \<in> set (regions w)" "r \<le> a" "a < r + n" "r \<notin> ?S"
      by (rule foreign_region[OF ok c f])
    then have "in_region w' a 1" using r by (intro in_regionI[of r n]) (auto simp: w'(1))
    moreover have "a \<notin> extent (blks w') c (KeeperBlock c)"
    proof
      assume "a \<in> extent (blks w') c (KeeperBlock c)"
      then have "a \<in> extent (blks w) c (KeeperBlock c)" using kS K by (simp add: extent_def w'(4))
      then show False using foreign_extent[OF f c kb] by blast
    qed
    ultimately show "in_region w' a 1 \<and> (\<forall>b \<in> set (gblocks (fresh_ghost c)). a \<notin> extent (blks w') c b)
        \<and> mem w' a = mem w a" by (simp add: w'(2))
  qed
qed

section \<open>Reset\<close>

lemma released_blks:
  assumes "KeeperBlock c \<in> set bs" and "blks w (KeeperBlock c) = Some K"
  shows "blks (released w c s f bs) = (\<lambda>x. if x \<in> nonkeepers c bs then None
     else if x = KeeperBlock c then Some (f K) else blks w x)"
proof -
  have "KeeperBlock c \<notin> nonkeepers c bs" by (simp add: nonkeepers_def IsKeeperBlock_def)
  then show ?thesis using assms by (auto simp: released_def fun_eq_iff)
qed

definition emptied :: "AllocSetContext \<Rightarrow> addr \<Rightarrow> Size \<Rightarrow> AllocSetContext" where
  "emptied s c n = s\<lparr>freelist := replicate ALLOCSET_NUM_FREELISTS 0, blocks := KeeperBlock c,
     mem_allocated := n, nextBlockSize := initBlockSize s\<rparr>"

lemma emptied_params:
  "params_ok c s g \<Longrightarrow> params_ok c (emptied s c n) (fresh_ghost c)"
  by (auto simp: params_ok_def emptied_def fresh_pristine)

text \<open>
  \<open>AllocSetReset\<close> succeeds, its assertion on the accounting included, and leaves the keeper only,
  with nothing in it; the chunks of the other contexts are untouched.
\<close>

definition reset_done :: "(addr \<Rightarrow> ghost) \<Rightarrow> world \<Rightarrow> addr \<Rightarrow> (addr \<Rightarrow> ghost) \<Rightarrow> world \<Rightarrow> bool" where
  "reset_done G w c G' w' \<longleftrightarrow>
     evolves G w (other_chunks G w c) G' w' \<and> chunks G' w' = other_chunks G w c
     \<and> mem w' = mem w \<and> set (regions w') \<subseteq> set (regions w) \<and> (\<forall>d. d \<noteq> c \<longrightarrow> ctxs w' d = ctxs w d)
     \<and> (\<exists>s'. ctxs w' c = Some s' \<and> pristine c s' (G' c))"

theorem AllocSetReset_correct:
  assumes ok: "heap_ok G w" and c: "ctxs w c = Some s"
  shows "\<exists>w'. AllocSetReset c w = Inr w' \<and> reset_done G w c (G(c := fresh_ghost c)) w'"
proof -
  let ?bs = "gblocks (G c)"
  let ?f = "\<lambda>k. k\<lparr>freeptr := KeeperBlock c + ALLOC_BLOCKHDRSZ, bprev := 0, bnext := 0\<rparr>"
  obtain K where K: "blks w (KeeperBlock c) = Some K"
    "mem_allocated s - of_nat (\<Sum>b \<in> nonkeepers c ?bs. block_size (blks w) c b) = ptr_diff (endptr K) c"
    by (rule keeper_size[OF ok c])
  have A: "aset_ok (set (regions w)) (mem w) (blks w) c s (G c)" by (rule heap_okD(2)[OF ok c])
  have head: "blocks s = first ?bs 0" using A by (simp add: aset_ok_def)
  let ?s1 = "s\<lparr>freelist := replicate ALLOCSET_NUM_FREELISTS 0, blocks := KeeperBlock c\<rparr>"
  let ?w1 = "released w c ?s1 ?f ?bs"
  let ?w' = "?w1\<lparr>ctxs := (ctxs w)(c \<mapsto> emptied s c (ptr_diff (endptr K) c))\<rparr>"
  have run1: "reset_blocks c (first ?bs 0) (w\<lparr>ctxs := (ctxs w)(c \<mapsto> ?s1)\<rparr>) = Inr ?w1"
    by (rule reset_blocks_run[OF ok c])
  have s1: "ctxs ?w1 = (ctxs w)(c \<mapsto> ?s1\<lparr>mem_allocated := ptr_diff (endptr K) c\<rparr>)"
    using K(2) by (simp add: released_def)
  have run: "AllocSetReset c w = Inr ?w'"
    using valid_ctx[OF ok c] K(1) c head run1 s1
    by (simp add: AllocSetReset_def get_blk_def get_ctx_def upd_ctx_def Let_def emptied_def)
  have kb: "KeeperBlock c \<in> set ?bs" by (rule heap_ok_keeper[OF ok c])
  have w': "regions ?w' = filter (\<lambda>r. fst r \<notin> nonkeepers c ?bs) (regions w)" "mem ?w' = mem w"
    "ctxs ?w' = (ctxs w)(c \<mapsto> emptied s c (ptr_diff (endptr K) c))"
    by (simp_all add: released_def)
  have b': "blks ?w' = (\<lambda>x. if x \<in> nonkeepers c ?bs then None
         else if x = KeeperBlock c then Some (K\<lparr>freeptr := KeeperBlock c + 40, bprev := 0, bnext := 0\<rparr>)
         else blks w x)"
    using released_blks[OF kb K(1), of ?s1 ?f] by (simp cong: if_cong)
  have e: "freelist (emptied s c n) = replicate ALLOCSET_NUM_FREELISTS 0"
    "blocks (emptied s c n) = KeeperBlock c" "mem_allocated (emptied s c n) = n"
    "nextBlockSize (emptied s c n) = initBlockSize (emptied s c n)" for n
    by (simp_all add: emptied_def)
  note he = heap_emptied[OF ok c K(1) w' b' emptied_params[OF ctx_params[OF ok c]] e(1-3)]
  have "client_view (emptied s c n) = client_view s" for n
    by (simp add: client_view_def emptied_def)
  then have "map_option client_view (ctxs ?w' d) = map_option client_view (ctxs w d)" for d
    using c by (simp add: w'(3))
  then have "same_rest w ?w'" by (simp add: same_rest_def released_def)
  moreover have "same_data X w ?w'" for X using w'(2) by (auto simp: same_data_def)
  ultimately have "evolves G w (other_chunks G w c) (G(c := fresh_ghost c)) ?w'"
    using he(1,3) unfolding evolves_def by blast
  moreover have "\<exists>s'. ctxs ?w' c = Some s' \<and> pristine c s' ((G(c := fresh_ghost c)) c)"
    using fresh_pristine[OF e(4)] by simp
  moreover have "\<forall>d. d \<noteq> c \<longrightarrow> ctxs ?w' d = ctxs w d" unfolding w'(3) by simp
  moreover have "set (regions ?w') \<subseteq> set (regions w)" unfolding w'(1) by auto
  ultimately have "reset_done G w c (G(c := fresh_ghost c)) ?w'"
    using he(2) w'(2) unfolding reset_done_def by blast
  then show ?thesis using run by blast
qed

end
