(* ===== verification/HeapFrame.thy ===== *)
theory HeapFrame
  imports ResetProofs
begin

text \<open>
  Two frames of the heap invariant that the rest of the library relies on: the operations on the
  context tree and the callbacks change header fields that the invariant does not read
  (\<open>same_heap\<close>), and clients may write everywhere but in the library's own bytes
  (\<open>client_owned\<close>).
\<close>

unbundle bit_operations_syntax

section \<open>Header fields the heap invariant does not read\<close>

definition heap_view :: "AllocSetContext \<Rightarrow> AllocSetContext" where
  "heap_view s = s\<lparr>allowInCritSection := False, parent := 0, firstchild := 0, prevchild := 0,
     nextchild := 0, ctx_name := [], ident := 0, reset_cbs := 0\<rparr>"

definition same_heap :: "world \<Rightarrow> world \<Rightarrow> bool" where
  "same_heap w w' \<longleftrightarrow>
     regions w' = regions w \<and> blks w' = blks w \<and> mem w' = mem w
     \<and> (\<forall>d. map_option heap_view (ctxs w' d) = map_option heap_view (ctxs w d))"

lemma same_heap_refl [simp]: "same_heap w w"
  by (simp add: same_heap_def)

lemma same_heap_trans: "same_heap w w' \<Longrightarrow> same_heap w' w'' \<Longrightarrow> same_heap w w''"
  by (simp add: same_heap_def)

lemma heap_view_fields:
  assumes "heap_view s' = heap_view s"
  shows "isReset s' = isReset s" "ctx_type s' = ctx_type s" "methods s' = methods s"
    "freeListIndex s' = freeListIndex s" "initBlockSize s' = initBlockSize s"
    "maxBlockSize s' = maxBlockSize s" "nextBlockSize s' = nextBlockSize s"
    "allocChunkLimit s' = allocChunkLimit s" "blocks s' = blocks s" "freelist s' = freelist s"
    "mem_allocated s' = mem_allocated s"
  using assms by (cases s; cases s'; simp add: heap_view_def AllocSetContext.defs)+

lemma aset_ok_heap_view:
  assumes "heap_view s' = heap_view s"
  shows "aset_ok R m B c s' g = aset_ok R m B c s g"
  using heap_view_fields[OF assms] by (simp add: aset_ok_def params_ok_def pristine_def)

lemma same_heap_None: "same_heap w w' \<Longrightarrow> ctxs w' d = None \<longleftrightarrow> ctxs w d = None"
  unfolding same_heap_def by (metis option.map_disc_iff)

lemma same_heap_ctx:
  assumes "same_heap w w'" and "ctxs w d = Some s"
  obtains s' where "ctxs w' d = Some s'" and "heap_view s' = heap_view s"
proof -
  have "map_option heap_view (ctxs w' d) = Some (heap_view s)"
    using assms by (simp add: same_heap_def)
  then show ?thesis using that by auto
qed

lemma same_heap_ok:
  assumes sh: "same_heap w w'" and ok: "heap_ok G w"
  shows "heap_ok G w'" and "chunks G w' = chunks G w" and "same_foreign G w G w'"
proof -
  note eq = sh[unfolded same_heap_def]
  note none = same_heap_None[OF sh]
  have "aset_ok (set (regions w)) (mem w) (blks w) c s' (G c) \<and> blks w c = None"
    if c': "ctxs w' c = Some s'" for c s'
  proof -
    have "map_option heap_view (ctxs w' c) = map_option heap_view (ctxs w c)" using eq by blast
    then have "map_option heap_view (ctxs w c) = Some (heap_view s')" using c' by simp
    then obtain s where s: "ctxs w c = Some s" "heap_view s' = heap_view s" by auto
    then show ?thesis using heap_okD(2,3)[OF ok s(1)] aset_ok_heap_view[OF s(2)] by simp
  qed
  moreover have "\<forall>b k. blks w b = Some k \<longrightarrow> ctxs w' (aset k) \<noteq> None \<and> b \<in> set (gblocks (G (aset k)))"
    using heap_okD(4)[OF ok] none by blast
  ultimately show "heap_ok G w'" using heap_okD(1)[OF ok] eq by (simp add: heap_ok_def)
  show "chunks G w' = chunks G w" using eq none by (simp add: chunks_def)
  show "same_foreign G w G w'"
    using eq none by (simp add: same_foreign_def foreign_def lib_bytes_def in_region_def)
qed

lemma same_heap_upd:
  "ctxs w c = Some s \<Longrightarrow> heap_view s' = heap_view s
   \<Longrightarrow> regions w' = regions w \<Longrightarrow> blks w' = blks w \<Longrightarrow> mem w' = mem w
   \<Longrightarrow> ctxs w' = (ctxs w)(c \<mapsto> s') \<Longrightarrow> same_heap w w'"
  by (simp add: same_heap_def)

section \<open>Memory that belongs to the clients\<close>

text \<open>Outside the library's blocks, or the data of a chunk in use.\<close>

definition client_owned :: "(addr \<Rightarrow> ghost) \<Rightarrow> world \<Rightarrow> addr \<Rightarrow> bool" where
  "client_owned G w a \<longleftrightarrow> a \<notin> lib_bytes G w \<or> (\<exists>p c n. (p, c, n) \<in> chunks G w \<and> p \<le> a \<and> a < p + n)"

lemma client_owned_not_footprint:
  assumes ok: "heap_ok G w" and a: "client_owned G w a" and d: "ctxs w d = Some t"
  shows "a \<notin> footprint (blks w) (G d)"
proof
  assume fp: "a \<in> footprint (blks w) (G d)"
  then have "a \<in> lib_bytes G w"
    using footprint_extent[OF ok d] d unfolding lib_bytes_def by blast
  then obtain p c n where "(p, c, n) \<in> chunks G w" "p \<le> a" "a < p + n"
    using a by (auto simp: client_owned_def)
  with chunk_not_footprint[OF ok _ d] fp show False by blast
qed

lemma client_writes:
  assumes ok: "heap_ok G w" and m': "\<And>a. m' a \<noteq> mem w a \<Longrightarrow> client_owned G w a"
  shows "heap_ok G (w\<lparr>mem := m'\<rparr>)" and "chunks G (w\<lparr>mem := m'\<rparr>) = chunks G w"
proof -
  have "aset_ok (set (regions w)) m' (blks w) d t (G d)" if d: "ctxs w d = Some t" for d t
    using heap_okD(2)[OF ok d]
  proof (rule aset_ok_cong)
    fix a assume "a \<in> footprint (blks w) (G d)"
    then show "m' a = mem w a" using m' client_owned_not_footprint[OF ok _ d] by blast
  qed simp_all
  then show "heap_ok G (w\<lparr>mem := m'\<rparr>)" using ok by (simp add: heap_ok_def)
qed (simp add: chunks_def)

end
