(* ===== verification/CallbackProofs.thy ===== *)
theory CallbackProofs
  imports HeapFrame
begin

text \<open>
  Reset callbacks: the structs of a context form a list in client memory (\<open>cb_list\<close>); registering
  pushes, unregistering unlinks, calling runs each callback once, the last registered first, and
  empties the list. The callback functions themselves are client code; \<open>quiet\<close> states what is
  assumed of them. With that, \<open>MemoryContextResetOnly\<close>.
\<close>

unbundle bit_operations_syntax

section \<open>The list of callback structs\<close>

fun cb_list :: "world \<Rightarrow> addr \<Rightarrow> addr list \<Rightarrow> bool" where
  "cb_list w a [] \<longleftrightarrow> a = 0"
| "cb_list w a (x # xs) \<longleftrightarrow>
     a = x \<and> x \<noteq> 0 \<and> in_region w x 24 \<and> cb_list w (unat (load64 (mem w) (cb_next x))) xs"

definition cb_bytes :: "addr list \<Rightarrow> addr set" where
  "cb_bytes cbs = {a. \<exists>x \<in> set cbs. x \<le> a \<and> a < x + 24}"

lemma cb_list_first: "cb_list w a xs \<Longrightarrow> a = first xs 0"
  by (cases xs) auto

lemma cb_list_nonzero: "cb_list w a xs \<Longrightarrow> 0 \<notin> set xs"
  by (induction xs arbitrary: a) auto

lemma cb_list_cong:
  assumes "regions w' = regions w" and "\<And>a. a \<in> cb_bytes xs \<Longrightarrow> mem w' a = mem w a"
  shows "cb_list w' a xs = cb_list w a xs"
  using assms(2)
proof (induction xs arbitrary: a)
  case (Cons x xs)
  have "load64 (mem w') (cb_next x) = load64 (mem w) (cb_next x)"
    by (rule load64_cong) (rule Cons.prems, auto simp: cb_bytes_def cb_next_def)
  moreover have "cb_list w' a xs = cb_list w a xs" for a
    by (rule Cons.IH) (rule Cons.prems, auto simp: cb_bytes_def)
  moreover have "in_region w' = in_region w" by (simp add: in_region_def assms(1) fun_eq_iff)
  ultimately show ?case by simp
qed simp

lemma cb_list_split:
  assumes "cb_list w a (us @ x # vs)"
  shows "in_region w x 24" and "unat (load64 (mem w) (cb_next x)) = first vs 0" and "x \<noteq> 0"
  using assms by (induction us arbitrary: a) (auto dest: cb_list_first)

section \<open>Calling\<close>

text \<open>
  What is assumed of the callback functions, which are client code: a call returns, and changes
  no memory but that at the addresses \<open>A\<close>.
\<close>

definition quiet :: "addr set \<Rightarrow> callbacks \<Rightarrow> bool" where
  "quiet A cbf \<longleftrightarrow>
     (\<forall>f a w. \<exists>m. cbf f a w = Inr (w\<lparr>mem := m\<rparr>) \<and> (\<forall>x. x \<notin> A \<longrightarrow> m x = mem w x))"

definition cb_entry :: "(addr \<Rightarrow> byte) \<Rightarrow> addr \<Rightarrow> uint64 \<times> uint64" where
  "cb_entry m x = (load64 m (cb_func x), load64 m (cb_arg x))"

lemma cb_entry_cong:
  assumes "\<And>a. x \<le> a \<Longrightarrow> a < x + 24 \<Longrightarrow> m a = m' a"
  shows "cb_entry m x = cb_entry m' x"
proof -
  have "load64 m (cb_func x) = load64 m' (cb_func x)"
    by (rule load64_cong) (rule assms, auto simp: cb_func_def)
  moreover have "load64 m (cb_arg x) = load64 m' (cb_arg x)"
    by (rule load64_cong) (rule assms, auto simp: cb_arg_def)
  ultimately show ?thesis by (simp add: cb_entry_def)
qed

text \<open>
  All registered callbacks are called, each once, from the head of the list (the last registered
  one) to its end, and the list is empty afterwards.
\<close>

lemma CallResetCallbacks_run:
  assumes c: "ctxs w c = Some s" and l: "cb_list w (reset_cbs s) cbs" and q: "quiet A cbf"
    and A: "A \<inter> cb_bytes cbs = {}"
  obtains m where "MemoryContextCallResetCallbacks cbf c w =
      Inr (w\<lparr>calls := calls w @ map (cb_entry (mem w)) cbs,
             ctxs := (ctxs w)(c \<mapsto> s\<lparr>reset_cbs := 0\<rparr>), mem := m\<rparr>)"
    and "\<And>x. x \<notin> A \<Longrightarrow> m x = mem w x"
proof -
  let ?c = "\<lambda>(cb, w). seqE (load_ptr w (cb_next cb)) (\<lambda>nxt.
           seqE (upd_ctx c (\<lambda>s. s\<lparr>reset_cbs := nxt\<rparr>) w) (\<lambda>w.
           seqE (load64E w (cb_func cb)) (\<lambda>func.
           seqE (load64E w (cb_arg cb)) (\<lambda>arg.
           seqE (call_callback cbf func arg w) (\<lambda>w.
           seqE (get_ctx w c) (\<lambda>s. Inr (reset_cbs s, w)))))))"
  let ?st = "\<lambda>us m. w\<lparr>calls := calls w @ map (cb_entry (mem w)) us,
      ctxs := (ctxs w)(c \<mapsto> s\<lparr>reset_cbs := first (drop (length us) cbs) 0\<rparr>), mem := m\<rparr>"
  let ?I = "\<lambda>us x. \<exists>m. x = ?st us m \<and> (\<forall>a. a \<notin> A \<longrightarrow> m a = mem w a)"
  have head: "reset_cbs s = first cbs 0" by (rule cb_list_first[OF l])
  have "\<exists>x'. loopE (\<lambda>(cb, w). cb \<noteq> 0) ?c (first cbs 0, w) = Inr (0, x') \<and> ?I cbs x'"
  proof (rule loopE_list[where I = ?I])
    show "0 \<notin> set cbs" by (rule cb_list_nonzero[OF l])
    have "s\<lparr>reset_cbs := first cbs 0\<rparr> = s" using head by simp
    then have "w = ?st [] (mem w)" using c by (intro world.equality) (auto simp: fun_eq_iff)
    then show "?I [] w" by blast
    fix us b vs x assume cbs: "cbs = us @ b # vs" and I: "?I us x"
    obtain m where x: "x = ?st us m" and m: "\<And>a. a \<notin> A \<Longrightarrow> m a = mem w a" using I by blast
    note sp = cb_list_split[OF l[unfolded cbs]]
    have byte: "m a = mem w a" if "b \<le> a" "a < b + 24" for a
      using m[of a] A that cbs by (auto simp: cb_bytes_def)
    have reg: "in_region w (cb_func b) 8" "in_region w (cb_arg b) 8" "in_region w (cb_next b) 8"
      by (rule in_region_sub[OF sp(1)]; simp add: cb_func_def cb_arg_def cb_next_def)+
    have ent: "cb_entry m b = cb_entry (mem w) b" by (rule cb_entry_cong) (rule byte)
    have nx: "unat (load64 m (cb_next b)) = first vs 0"
      using sp(2) load64_cong[of "cb_next b" m "mem w"] byte by (simp add: cb_next_def)
    let ?y = "?st (us @ [b]) m"
    have "\<exists>m'. cbf (load64 m (cb_func b)) (load64 m (cb_arg b)) ?y = Inr (?y\<lparr>mem := m'\<rparr>)
        \<and> (\<forall>a. a \<notin> A \<longrightarrow> m' a = mem ?y a)"
      using q unfolding quiet_def by blast
    then obtain m' where m': "cbf (load64 m (cb_func b)) (load64 m (cb_arg b)) ?y = Inr (?st (us @ [b]) m')"
        "\<And>a. a \<notin> A \<Longrightarrow> m' a = m a" by auto
    define x1 where "x1 = x\<lparr>ctxs := (ctxs w)(c \<mapsto> s\<lparr>reset_cbs := first vs 0\<rparr>)\<rparr>"
    have "calls x1 = calls w @ map (cb_entry (mem w)) us" by (simp add: x1_def x)
    then have y: "x1\<lparr>calls := calls x1 @ [(load64 m (cb_func b), load64 m (cb_arg b))]\<rparr> = ?y"
      using ent by (intro world.equality) (simp_all add: x1_def x cbs cb_entry_def)
    have r1: "load_ptr x (cb_next b) = Inr (first vs 0)"
      using reg(3) nx by (simp add: x load_ptr_def load64E_def)
    have r2: "upd_ctx c (\<lambda>s. s\<lparr>reset_cbs := first vs 0\<rparr>) x = Inr x1"
      by (simp add: x1_def x upd_ctx_def)
    have r3: "load64E x1 (cb_func b) = Inr (load64 m (cb_func b))"
      "load64E x1 (cb_arg b) = Inr (load64 m (cb_arg b))"
      using reg by (simp_all add: x1_def x load64E_def)
    have r4: "call_callback cbf (load64 m (cb_func b)) (load64 m (cb_arg b)) x1 = Inr (?st (us @ [b]) m')"
      unfolding call_callback_def y by (rule m'(1))
    define x2 where "x2 = ?st (us @ [b]) m'"
    have r4': "call_callback cbf (load64 m (cb_func b)) (load64 m (cb_arg b)) x1 = Inr x2"
      unfolding x2_def by (rule r4)
    have r5: "get_ctx x2 c = Inr (s\<lparr>reset_cbs := first vs 0\<rparr>)" by (simp add: x2_def get_ctx_def cbs)
    have "?c (b, x) = Inr (first vs 0, x2)"
      unfolding prod.case r1 seqE_simps r2 r3 r4' r5 by simp
    moreover have "?I (us @ [b]) x2"
      using m m'(2) unfolding x2_def by (intro exI[of _ m'] conjI refl) simp
    ultimately show "\<exists>x'. ?c (b, x) = Inr (first vs 0, x') \<and> ?I (us @ [b]) x'"
      by (intro exI[of _ x2] conjI)
  qed
  then obtain m where m: "loopE (\<lambda>(cb, w). cb \<noteq> 0) ?c (first cbs 0, w) = Inr (0, ?st cbs m)"
      "\<And>a. a \<notin> A \<Longrightarrow> m a = mem w a" by blast
  then have "MemoryContextCallResetCallbacks cbf c w = Inr (?st cbs m)"
    using c head by (simp add: MemoryContextCallResetCallbacks_def get_ctx_def)
  then show ?thesis using m(2) by (intro that[of m]) simp_all
qed

section \<open>Registering\<close>

definition cb_apart :: "addr \<Rightarrow> addr \<Rightarrow> bool" where
  "cb_apart x y \<longleftrightarrow> x + 24 \<le> y \<or> y + 24 \<le> x"

text \<open>A new callback goes to the head of the list, and the context counts as used.\<close>

lemma Register_run:
  assumes reg: "regions_ok (regions w)" and v: "Assert_valid w c = Inr ()" and c: "ctxs w c = Some s"
    and l: "cb_list w (reset_cbs s) cbs" and cb: "cb \<noteq> 0" "in_region w cb 24"
    and apart: "\<And>x. x \<in> set cbs \<Longrightarrow> cb_apart cb x"
  obtains w' where "MemoryContextRegisterResetCallback c cb w = Inr w'"
    "w' = w\<lparr>mem := store64 (mem w) (cb + 16) (of_nat (reset_cbs s)),
            ctxs := (ctxs w)(c \<mapsto> s\<lparr>reset_cbs := cb, isReset := False\<rparr>)\<rparr>"
    "cb_list w' cb (cb # cbs)"
proof -
  let ?m = "store64 (mem w) (cb + 16) (of_nat (reset_cbs s))"
  let ?w' = "w\<lparr>mem := ?m, ctxs := (ctxs w)(c \<mapsto> s\<lparr>reset_cbs := cb, isReset := False\<rparr>)\<rparr>"
  have "in_region w (cb_next cb) 8"
    by (rule in_region_sub[OF cb(2)]) (simp_all add: cb_next_def)
  then have run: "MemoryContextRegisterResetCallback c cb w = Inr ?w'"
    using v c by (simp add: MemoryContextRegisterResetCallback_def get_ctx_def upd_ctx_def store_ptr_def
        store64E_def cb_next_def)
  have "reset_cbs s < 2 ^ 64"
  proof (cases cbs)
    case (Cons x xs)
    then have "in_region w x 24" "reset_cbs s = x" using l by simp_all
    then show ?thesis using regions_ok_bounds[OF reg] by (fastforce simp: in_region_iff)
  qed (use l in simp)
  then have "unat (load64 ?m (cb_next cb)) = reset_cbs s"
    by (simp add: cb_next_def unat_of_nat_small)
  moreover have "cb_list ?w' (reset_cbs s) cbs = cb_list w (reset_cbs s) cbs"
  proof (rule cb_list_cong)
    fix a assume "a \<in> cb_bytes cbs"
    then obtain x where "x \<in> set cbs" "x \<le> a" "a < x + 24" by (auto simp: cb_bytes_def)
    with apart[of x] show "mem ?w' a = mem w a" by (auto simp: cb_apart_def store64_def)
  qed simp
  ultimately have "cb_list ?w' cb (cb # cbs)" using l cb by simp
  then show ?thesis using that[OF run refl] by simp
qed

section \<open>Unregistering\<close>

lemma find_callback:
  defines "step \<equiv> \<lambda>w (prev, cur). seqE (load_ptr w (cb_next cur)) (\<lambda>nxt. Inr (cur, nxt))"
  shows "cb_list w a (us @ cb # vs) \<Longrightarrow> cb \<notin> set us
      \<Longrightarrow> loopE (\<lambda>(prev, cur). cur \<noteq> 0 \<and> cur \<noteq> cb) (step w) (p, a) = Inr (last (p # us), cb)"
    and "cb_list w a us \<Longrightarrow> cb \<notin> set us
      \<Longrightarrow> loopE (\<lambda>(prev, cur). cur \<noteq> 0 \<and> cur \<noteq> cb) (step w) (p, a) = Inr (last (p # us), 0)"
proof -
  have load: "load_ptr w (cb_next x) = Inr (unat (load64 (mem w) (cb_next x)))" if "in_region w x 24" for x
  proof -
    have "in_region w (cb_next x) 8"
      by (rule in_region_sub[OF that]) (simp_all add: cb_next_def)
    then show ?thesis by (simp add: load_ptr_def load64E_def)
  qed
  show "cb_list w a (us @ cb # vs) \<Longrightarrow> cb \<notin> set us
      \<Longrightarrow> loopE (\<lambda>(prev, cur). cur \<noteq> 0 \<and> cur \<noteq> cb) (step w) (p, a) = Inr (last (p # us), cb)"
  proof (induction us arbitrary: p a)
    case (Cons x us)
    then show ?case by (subst loopE_unfold) (simp add: step_def load)
  qed (simp add: loopE_stop)
  show "cb_list w a us \<Longrightarrow> cb \<notin> set us
      \<Longrightarrow> loopE (\<lambda>(prev, cur). cur \<noteq> 0 \<and> cur \<noteq> cb) (step w) (p, a) = Inr (last (p # us), 0)"
  proof (induction us arbitrary: p a)
    case (Cons x us)
    then show ?case by (subst loopE_unfold) (simp add: step_def load)
  qed (simp add: loopE_stop)
qed

text \<open>
  The first struct at the address is unlinked; the others stay, in their order. A struct that is
  not on the list is a failed assertion.
\<close>

lemma cb_list_append:
  "cb_list w a (us @ vs) \<Longrightarrow> \<exists>b. cb_list w b vs \<and> b = first vs 0"
  by (induction us arbitrary: a) (auto dest: cb_list_first)

lemma cb_list_relink:
  assumes l: "cb_list w a (us @ y # x # vs)" and apart: "\<And>z. z \<in> set (us @ vs) \<Longrightarrow> cb_apart y z"
    and v: "v = unat (load64 (mem w) (cb_next x))"
    and w': "regions w' = regions w" "mem w' = store64 (mem w) (cb_next y) (of_nat v)" "v < 2 ^ 64"
  shows "cb_list w' a (us @ y # vs)"
  using l apart
proof (induction us arbitrary: a)
  case Nil
  have "cb_list w' v vs = cb_list w v vs"
  proof (rule cb_list_cong[OF w'(1)])
    fix b assume "b \<in> cb_bytes vs"
    then obtain z where "z \<in> set vs" "z \<le> b" "b < z + 24" by (auto simp: cb_bytes_def)
    with Nil(2)[of z] show "mem w' b = mem w b" by (auto simp: cb_apart_def w'(2) store64_def cb_next_def)
  qed
  moreover have "in_region w' = in_region w" by (simp add: in_region_def w'(1) fun_eq_iff)
  ultimately show ?case using Nil(1) v w'(3) by (simp add: w'(2) unat_of_nat_small)
next
  case (Cons z us)
  have "cb_apart y z" using Cons.prems(2) by simp
  then have "load64 (mem w') (cb_next z) = load64 (mem w) (cb_next z)"
    by (auto simp: w'(2) cb_apart_def cb_next_def intro!: load64_store64_disjoint)
  moreover have "in_region w' = in_region w" by (simp add: in_region_def w'(1) fun_eq_iff)
  ultimately show ?case using Cons by simp
qed

lemma Unregister_run:
  assumes v: "Assert_valid w c = Inr ()" and c: "ctxs w c = Some s"
    and l: "cb_list w (reset_cbs s) (us @ cb # vs)" and cb: "cb \<notin> set us"
    and apart: "\<And>x y. x \<in> set us \<Longrightarrow> y \<in> set (us @ vs) \<Longrightarrow> x \<noteq> y \<Longrightarrow> cb_apart x y"
    and dist: "distinct us" "set us \<inter> set vs = {}"
  obtains w' s' where "MemoryContextUnregisterResetCallback c cb w = Inr w'"
    "w' = w\<lparr>mem := mem w', ctxs := (ctxs w)(c \<mapsto> s')\<rparr>" "s' = s\<lparr>reset_cbs := reset_cbs s'\<rparr>"
    "cb_list w' (reset_cbs s') (us @ vs)"
    "\<And>a. mem w' a \<noteq> mem w a \<Longrightarrow> \<exists>x \<in> set us. x + 16 \<le> a \<and> a < x + 24"
proof -
  let ?v = "unat (load64 (mem w) (cb_next cb))"
  have vlt: "?v < 2 ^ 64" using unsigned_less[of "load64 (mem w) (cb_next cb)", where 'a = nat] by simp
  note sp = cb_list_split[OF l]
  have reg: "in_region w (cb_next cb) 8"
    by (rule in_region_sub[OF sp(1)]) (simp_all add: cb_next_def)
  have run: "MemoryContextUnregisterResetCallback c cb w =
     (if last (0 # us) \<noteq> 0 then store_ptr (cb_next (last (0 # us))) ?v w
      else upd_ctx c (\<lambda>s. s\<lparr>reset_cbs := ?v\<rparr>) w)"
    using v c find_callback(1)[OF l cb, of 0] sp(3) reg
    by (simp add: MemoryContextUnregisterResetCallback_def get_ctx_def load_ptr_def load64E_def)
  have vs: "cb_list w ?v vs"
    using cb_list_append[of w "reset_cbs s" "us @ [cb]" vs] l sp(2) by simp
  show ?thesis
  proof (cases us rule: rev_cases)
    case Nil
    let ?w' = "w\<lparr>ctxs := (ctxs w)(c \<mapsto> s\<lparr>reset_cbs := ?v\<rparr>)\<rparr>"
    have "cb_list ?w' ?v vs = cb_list w ?v vs" by (rule cb_list_cong) simp_all
    then show ?thesis
      using run c Nil vs by (intro that[of ?w' "s\<lparr>reset_cbs := ?v\<rparr>"])
        (simp_all add: upd_ctx_def)
  next
    case (snoc us' y)
    let ?w' = "w\<lparr>mem := store64 (mem w) (cb_next y) (of_nat ?v)\<rparr>"
    have l': "cb_list w (reset_cbs s) (us' @ y # cb # vs)" using l by (simp add: snoc)
    note spy = cb_list_split[OF l']
    have "in_region w (cb_next y) 8"
      by (rule in_region_sub[OF spy(1)]) (simp_all add: cb_next_def)
    then have run': "MemoryContextUnregisterResetCallback c cb w = Inr ?w'"
      using run spy(3) by (simp add: snoc store_ptr_def store64E_def)
    have "cb_list ?w' (reset_cbs s) (us' @ y # vs)"
    proof (rule cb_list_relink[OF l' _ refl])
      show "cb_apart y z" if "z \<in> set (us' @ vs)" for z
        using apart[of y z] that dist by (auto simp: snoc)
    qed (use vlt in simp_all)
    moreover have "?w' = w\<lparr>mem := mem ?w', ctxs := (ctxs w)(c \<mapsto> s)\<rparr>"
      using c by (simp add: fun_upd_idem)
    moreover have "\<exists>x \<in> set us. x + 16 \<le> a \<and> a < x + 24" if "mem ?w' a \<noteq> mem w a" for a
      using that by (auto simp: snoc cb_next_def store64_def split: if_splits)
    ultimately show ?thesis
      using run' by (intro that[of ?w' s]) (simp_all add: snoc)
  qed
qed

lemma Unregister_missing:
  assumes "Assert_valid w c = Inr ()" and "ctxs w c = Some s"
    and "cb_list w (reset_cbs s) cbs" and "cb \<notin> set cbs"
  shows "MemoryContextUnregisterResetCallback c cb w = Inl AssertFailed"
  using assms(1,2) find_callback(2)[OF assms(3,4), of 0]
  by (simp add: MemoryContextUnregisterResetCallback_def get_ctx_def)

section \<open>Resetting a context, with its callbacks\<close>

lemma heap_mark_reset:
  assumes ok: "heap_ok G w" and c: "ctxs w c = Some s" and p: "pristine c s (G c)"
  shows "heap_ok G (w\<lparr>ctxs := (ctxs w)(c \<mapsto> s\<lparr>isReset := True\<rparr>)\<rparr>)"
    and "chunks G (w\<lparr>ctxs := (ctxs w)(c \<mapsto> s\<lparr>isReset := True\<rparr>)\<rparr>) = chunks G w"
proof -
  have "aset_ok R m B c (s\<lparr>isReset := True\<rparr>) (G c) = aset_ok R m B c s (G c)" for R m B
    using p by (auto simp: aset_ok_def params_ok_def pristine_def)
  then show "heap_ok G (w\<lparr>ctxs := (ctxs w)(c \<mapsto> s\<lparr>isReset := True\<rparr>)\<rparr>)"
    using ok c by (auto simp: heap_ok_def)
  show "chunks G (w\<lparr>ctxs := (ctxs w)(c \<mapsto> s\<lparr>isReset := True\<rparr>)\<rparr>) = chunks G w"
    using c by (auto simp: chunks_def)
qed

text \<open>The callbacks may write into memory of the clients that holds no callback struct.\<close>

definition callbacks_allowed :: "(addr \<Rightarrow> ghost) \<Rightarrow> world \<Rightarrow> addr set \<Rightarrow> addr list \<Rightarrow> callbacks \<Rightarrow> bool" where
  "callbacks_allowed G w A cbs cbf \<longleftrightarrow>
     quiet A cbf \<and> A \<inter> cb_bytes cbs = {} \<and> (\<forall>a \<in> A. client_owned G w a)"

definition after_callbacks :: "world \<Rightarrow> addr \<Rightarrow> AllocSetContext \<Rightarrow> addr list \<Rightarrow> (addr \<Rightarrow> byte) \<Rightarrow> world" where
  "after_callbacks w c s cbs m =
     w\<lparr>calls := calls w @ map (cb_entry (mem w)) cbs,
       ctxs := (ctxs w)(c \<mapsto> s\<lparr>reset_cbs := 0\<rparr>), mem := m\<rparr>"

lemma callbacks_heap:
  assumes ok: "heap_ok G w" and c: "ctxs w c = Some s" and l: "cb_list w (reset_cbs s) cbs"
    and a: "callbacks_allowed G w A cbs cbf"
  obtains m where "MemoryContextCallResetCallbacks cbf c w = Inr (after_callbacks w c s cbs m)"
    and "\<And>x. x \<notin> A \<Longrightarrow> m x = mem w x" and "heap_ok G (after_callbacks w c s cbs m)"
    and "chunks G (after_callbacks w c s cbs m) = chunks G w"
    and "lib_bytes G (after_callbacks w c s cbs m) = lib_bytes G w"
proof -
  obtain m where m: "MemoryContextCallResetCallbacks cbf c w = Inr (after_callbacks w c s cbs m)"
      "\<And>x. x \<notin> A \<Longrightarrow> m x = mem w x"
    using CallResetCallbacks_run[OF c l] a unfolding callbacks_allowed_def after_callbacks_def by metis
  have "client_owned G w x" if "m x \<noteq> mem w x" for x
    using a m(2) that by (auto simp: callbacks_allowed_def)
  note cw = client_writes[OF ok this]
  let ?w = "w\<lparr>mem := m\<rparr>"
  have sh: "same_heap ?w (after_callbacks w c s cbs m)"
    using c by (simp add: same_heap_def after_callbacks_def heap_view_def)
  have "lib_bytes G (after_callbacks w c s cbs m) = lib_bytes G w"
    using c by (auto simp: lib_bytes_def after_callbacks_def)
  then show ?thesis
    using that[OF m] same_heap_ok[OF sh cw(1)] cw(2) by simp
qed

definition reset_post :: "(addr \<Rightarrow> ghost) \<Rightarrow> world \<Rightarrow> addr \<Rightarrow> addr set \<Rightarrow> addr list
    \<Rightarrow> (addr \<Rightarrow> ghost) \<Rightarrow> world \<Rightarrow> bool" where
  "reset_post G w c A cbs G' w' \<longleftrightarrow>
     heap_ok G' w' \<and> chunks G' w' = other_chunks G w c
     \<and> (\<forall>a. a \<notin> A \<longrightarrow> mem w' a = mem w a) \<and> (\<forall>a. foreign G w a \<longrightarrow> foreign G' w' a)
     \<and> set (regions w') \<subseteq> set (regions w) \<and> (\<forall>d. d \<noteq> c \<longrightarrow> ctxs w' d = ctxs w d \<and> G' d = G d)
     \<and> calls w' = calls w @ map (cb_entry (mem w)) cbs
     \<and> (\<exists>s s'. ctxs w c = Some s \<and> ctxs w' c = Some s' \<and> isReset s' \<and> pristine c s' (G' c)
          \<and> client_view s' = client_view (s\<lparr>reset_cbs := 0, isReset := True\<rparr>))
     \<and> context_freelists w' = context_freelists w \<and> CurrentMemoryContext w' = CurrentMemoryContext w
     \<and> TopMemoryContext w' = TopMemoryContext w \<and> ErrorContext w' = ErrorContext w"

text \<open>
  A context that is marked as reset is left alone. Any other one is emptied, after its callbacks
  have been called.
\<close>

lemma ResetOnly_reset:
  assumes "heap_ok G w" and "ctxs w c = Some s" and "isReset s"
  shows "MemoryContextResetOnly cbf c w = Inr w"
  using valid_ctx[OF assms(1,2)] assms(2,3) by (simp add: MemoryContextResetOnly_def get_ctx_def)

lemma ResetOnly_run:
  assumes ok: "heap_ok G w" and c: "ctxs w c = Some s" and nr: "\<not> isReset s"
    and l: "cb_list w (reset_cbs s) cbs" and a: "callbacks_allowed G w A cbs cbf"
  shows "\<exists>w'. MemoryContextResetOnly cbf c w = Inr w'
    \<and> reset_post G w c A cbs (G(c := fresh_ghost c)) w'"
proof -
  obtain m where m: "MemoryContextCallResetCallbacks cbf c w = Inr (after_callbacks w c s cbs m)"
    "\<And>x. x \<notin> A \<Longrightarrow> m x = mem w x" "heap_ok G (after_callbacks w c s cbs m)"
    "chunks G (after_callbacks w c s cbs m) = chunks G w"
    "lib_bytes G (after_callbacks w c s cbs m) = lib_bytes G w"
    by (rule callbacks_heap[OF ok c l a]) blast
  let ?w1 = "after_callbacks w c s cbs m" and ?G = "G(c := fresh_ghost c)"
  have c1: "ctxs ?w1 c = Some (s\<lparr>reset_cbs := 0\<rparr>)" by (simp add: after_callbacks_def)
  obtain w2 where w2: "AllocSetReset c ?w1 = Inr w2" "reset_done G ?w1 c ?G w2"
    using AllocSetReset_correct[OF m(3) c1] by blast
  note rd = w2(2)[unfolded reset_done_def]
  from rd have ev: "evolves G ?w1 (other_chunks G ?w1 c) ?G w2" by blast
  then have ok2: "heap_ok ?G w2" and sr: "same_rest ?w1 w2" and sf: "same_foreign G ?w1 ?G w2"
    by (simp_all add: evolves_def)
  from rd obtain s2 where s2: "ctxs w2 c = Some s2" "pristine c s2 (?G c)" by blast
  have cv: "client_view s2 = client_view (s\<lparr>reset_cbs := 0\<rparr>)"
    using sr s2(1) c1 unfolding same_rest_def by (metis option.map(2) option.sel)
  let ?w' = "w2\<lparr>ctxs := (ctxs w2)(c \<mapsto> s2\<lparr>isReset := True\<rparr>)\<rparr>"
  note mr = heap_mark_reset[OF ok2 s2]
  have "methods s = MCTX_ASET_ID" using ctx_params[OF ok c] by (simp add: params_ok_def)
  then have run: "MemoryContextResetOnly cbf c w = Inr ?w'"
    using valid_ctx[OF ok c] c nr m(1) c1 w2(1) s2(1)
    by (simp add: MemoryContextResetOnly_def get_ctx_def mcxt_reset_def upd_ctx_def)
  have oc: "other_chunks G ?w1 c = other_chunks G w c" unfolding other_chunks_def m(4) ..
  have other: "ctxs ?w' d = ctxs w d" if "d \<noteq> c" for d
  proof -
    have "ctxs w2 d = ctxs ?w1 d" using rd that by blast
    then show ?thesis using that by (simp add: after_callbacks_def)
  qed
  have fo: "foreign ?G ?w' a" if f: "foreign G w a" for a
  proof -
    have "foreign G ?w1 a" using f m(5) by (simp add: foreign_def in_region_def after_callbacks_def)
    then have "foreign ?G w2 a" using sf by (simp add: same_foreign_def)
    moreover have "lib_bytes ?G ?w' = lib_bytes ?G w2" using s2(1) by (auto simp: lib_bytes_def)
    ultimately show ?thesis by (simp add: foreign_def)
  qed
  have cv': "client_view (s2\<lparr>isReset := True\<rparr>) = client_view (s\<lparr>reset_cbs := 0, isReset := True\<rparr>)"
    using cv by (cases s2; cases s; simp add: client_view_def AllocSetContext.defs)
  have pr: "pristine c (s2\<lparr>isReset := True\<rparr>) (?G c)" using s2(2) by (simp add: pristine_def)
  have "reset_post G w c A cbs ?G ?w'"
    unfolding reset_post_def
  proof (intro conjI allI impI subsetI)
    show "heap_ok ?G ?w'" by (rule mr(1))
    have "chunks ?G w2 = other_chunks G ?w1 c" using rd by blast
    then show "chunks ?G ?w' = other_chunks G w c" unfolding mr(2) oc .
    show "mem ?w' a = mem w a" if "a \<notin> A" for a using rd m(2)[OF that] by (simp add: after_callbacks_def)
    show "ctxs ?w' d = ctxs w d" if "d \<noteq> c" for d using other[OF that] .
    show "a \<in> set (regions w)" if "a \<in> set (regions ?w')" for a
      using rd that by (auto simp: after_callbacks_def)
    show "calls ?w' = calls w @ map (cb_entry (mem w)) cbs"
      using sr by (simp add: same_rest_def after_callbacks_def)
    show "\<exists>s s'. ctxs w c = Some s \<and> ctxs ?w' c = Some s' \<and> isReset s' \<and> pristine c s' (?G c)
          \<and> client_view s' = client_view (s\<lparr>reset_cbs := 0, isReset := True\<rparr>)"
      using c cv' pr by (intro exI[of _ s] exI[of _ "s2\<lparr>isReset := True\<rparr>"]) simp
  qed (use sr fo in \<open>auto simp: same_rest_def after_callbacks_def\<close>)
  then show ?thesis using run by blast
qed

end
