(* ===== verification/TreeProofs.thy ===== *)
theory TreeProofs
  imports CallbackProofs
begin

text \<open>
  The context tree: \<open>links_ok\<close> is the invariant of the parent, child and sibling links, stated with
  the list \<open>T c\<close> of the children of every context \<open>c\<close>. \<open>MemoryContextCreate\<close> and
  \<open>MemoryContextSetParent\<close> keep it and change nothing but links; \<open>MemoryContextTraverseNext\<close>
  walks over a subtree in preorder.
\<close>

unbundle bit_operations_syntax

section \<open>The children of every context\<close>

text \<open>\<open>T c\<close> lists the contexts whose parent is \<open>c\<close>, in the order of the sibling links.\<close>

definition links_ok :: "(addr \<Rightarrow> addr list) \<Rightarrow> (addr \<Rightarrow> AllocSetContext option) \<Rightarrow> bool" where
  "links_ok T C \<longleftrightarrow>
     C 0 = None
     \<and> (\<forall>c. C c \<noteq> None \<longrightarrow> map_option firstchild (C c) = Some (first (T c) 0))
     \<and> (\<forall>c. C c = None \<longrightarrow> T c = [])
     \<and> (\<forall>c. dseg nextchild prevchild C 0 (T c) 0) \<and> (\<forall>c. distinct (c # T c))
     \<and> (\<forall>x p. x \<in> set (T p) \<longleftrightarrow> p \<noteq> 0 \<and> map_option parent (C x) = Some p)"

lemma links_okD:
  assumes "links_ok T C"
  shows "C 0 = None" and "C c \<noteq> None \<Longrightarrow> map_option firstchild (C c) = Some (first (T c) 0)"
    and "C c = None \<Longrightarrow> T c = []" and "dseg nextchild prevchild C 0 (T c) 0" and "distinct (c # T c)"
    and "x \<in> set (T p) \<longleftrightarrow> p \<noteq> 0 \<and> map_option parent (C x) = Some p"
  using assms by (simp_all add: links_ok_def)

lemma links_ok_firstchild: "links_ok T C \<Longrightarrow> C c = Some s \<Longrightarrow> firstchild s = first (T c) 0"
  using links_okD(2)[of T C c] by simp

lemma links_ok_nonzero: "links_ok T C \<Longrightarrow> C c = Some s \<Longrightarrow> c \<noteq> 0"
  by (auto simp: links_ok_def)

lemma links_ok_no_zero: "links_ok T C \<Longrightarrow> T 0 = []"
  by (simp add: links_ok_def)

lemma links_ok_parent:
  assumes ok: "links_ok T C" and x: "C x = Some k" and p: "parent k \<noteq> 0"
  shows "x \<in> set (T (parent k))" and "C (parent k) \<noteq> None"
proof -
  show "x \<in> set (T (parent k))" using links_okD(6)[OF ok] x p by simp
  then show "C (parent k) \<noteq> None" using links_okD(3)[OF ok] by fastforce
qed

lemma child_facts:
  assumes ok: "links_ok T C" and x: "x \<in> set (T c)"
  obtains s k where "C c = Some s" "C x = Some k" "parent k = c" "x \<noteq> 0" "c \<noteq> 0" "x \<noteq> c"
proof -
  obtain s where s: "C c = Some s" using links_okD(3)[OF ok, of c] x by (cases "C c") auto
  obtain k where k: "C x = Some k" "parent k = c" "c \<noteq> 0"
    using links_okD(6)[OF ok, of x c] x by auto
  have "x \<noteq> c" using links_okD(5)[OF ok, of c] x by auto
  then show ?thesis using that[OF s k(1,2)] links_ok_nonzero[OF ok k(1)] k(3) by blast
qed

lemma children_disjoint:
  assumes ok: "links_ok T C" and "x \<in> set (T c)" and "x \<in> set (T d)"
  shows "c = d"
  using links_okD(6)[OF ok, of x c] links_okD(6)[OF ok, of x d] assms(2,3) by auto

lemma root_no_child: "links_ok T C \<Longrightarrow> C x = Some k \<Longrightarrow> parent k = 0 \<Longrightarrow> x \<notin> set (T c)"
  by (auto simp: links_ok_def)

text \<open>Only the link fields matter.\<close>

definition links_of :: "AllocSetContext \<Rightarrow> addr \<times> addr \<times> addr \<times> addr" where
  "links_of s = (parent s, firstchild s, prevchild s, nextchild s)"

definition same_links :: "(addr \<Rightarrow> AllocSetContext option) \<Rightarrow> (addr \<Rightarrow> AllocSetContext option) \<Rightarrow> bool" where
  "same_links C C' \<longleftrightarrow> (\<forall>c. map_option links_of (C' c) = map_option links_of (C c))"

lemma same_links_fields:
  assumes "same_links C C'"
  shows "C' c = None \<longleftrightarrow> C c = None" and "map_option parent (C' c) = map_option parent (C c)"
    and "map_option firstchild (C' c) = map_option firstchild (C c)"
    and "map_option prevchild (C' c) = map_option prevchild (C c)"
    and "map_option nextchild (C' c) = map_option nextchild (C c)"
proof -
  have "map_option links_of (C' c) = map_option links_of (C c)" using assms by (simp add: same_links_def)
  then show "C' c = None \<longleftrightarrow> C c = None" "map_option parent (C' c) = map_option parent (C c)"
    "map_option firstchild (C' c) = map_option firstchild (C c)"
    "map_option prevchild (C' c) = map_option prevchild (C c)"
    "map_option nextchild (C' c) = map_option nextchild (C c)"
    by (cases "C c"; cases "C' c"; simp add: links_of_def)+
qed

lemma links_ok_cong:
  assumes "same_links C C'"
  shows "links_ok T C' = links_ok T C"
proof -
  have "dseg nextchild prevchild C' p xs n = dseg nextchild prevchild C p xs n" for p xs n
    by (rule dseg_cong) (rule same_links_fields[OF assms])+
  then show ?thesis unfolding links_ok_def same_links_fields[OF assms] by simp
qed

section \<open>Linking and unlinking\<close>

text \<open>What \<open>delink_from_parent\<close> does to the store of contexts.\<close>

definition delinked :: "addr \<Rightarrow> AllocSetContext \<Rightarrow> (addr \<Rightarrow> AllocSetContext option)
    \<Rightarrow> addr \<Rightarrow> AllocSetContext option" where
  "delinked x k C =
     sl.surgery (prevchild k) (nextchild k) (nextchild k) (prevchild k)
       (if prevchild k \<noteq> 0 then C else modify (parent k) (\<lambda>s. s\<lparr>firstchild := nextchild k\<rparr>) C)"

definition unlinked :: "AllocSetContext \<Rightarrow> AllocSetContext" where
  "unlinked s = s\<lparr>parent := 0, prevchild := 0, nextchild := 0\<rparr>"

definition detached :: "addr \<Rightarrow> AllocSetContext \<Rightarrow> (addr \<Rightarrow> AllocSetContext option)
    \<Rightarrow> addr \<Rightarrow> AllocSetContext option" where
  "detached x k C = modify x unlinked (if parent k = 0 then C else delinked x k C)"

lemma sibling_split:
  assumes ok: "links_ok T C" and x: "C x = Some k" and p: "parent k \<noteq> 0"
  obtains us vs where "T (parent k) = us @ x # vs" "prevchild k = last (0 # us)" "nextchild k = first vs 0"
    "dseg nextchild prevchild C 0 (us @ x # vs) 0" "distinct (us @ x # vs)"
proof -
  obtain us vs where us: "T (parent k) = us @ x # vs"
    using links_ok_parent(1)[OF ok x p] by (meson split_list)
  have "dseg nextchild prevchild C 0 (us @ x # vs) 0" "distinct (us @ x # vs)"
    using links_okD(4,5)[OF ok, of "parent k"] us by simp_all
  moreover from dseg_split[of nextchild prevchild C 0 us x vs 0 k] this(1) x
  have "prevchild k = last (0 # us)" "nextchild k = first vs 0" by simp_all
  ultimately show ?thesis using that[OF us] by blast
qed

lemma surgery_field:
  assumes "\<And>v k. f (k\<lparr>nextchild := v\<rparr>) = f k" and "\<And>v k. f (k\<lparr>prevchild := v\<rparr>) = f (k :: AllocSetContext)"
  shows "map_option f (sl.surgery p a n b C y) = map_option f (C y)"
  by (rule sl.surgery_keeps) (use assms in simp_all)

lemma delinked_fields:
  "delinked x k C y = None \<longleftrightarrow> C y = None"
  "map_option parent (delinked x k C y) = map_option parent (C y)"
  "map_option firstchild (delinked x k C y) =
     (if prevchild k = 0 \<and> y = parent k then map_option (\<lambda>_. nextchild k) (C y) else map_option firstchild (C y))"
  by (simp_all add: delinked_def sl.surgery_None surgery_field modify_apply option.map_comp comp_def)

lemma detached_fields:
  "detached x k C y = None \<longleftrightarrow> C y = None"
  "map_option parent (detached x k C y) =
     (if y = x then map_option (\<lambda>_. 0) (C y) else map_option parent (C y))"
  "map_option firstchild (detached x k C y) =
     (if parent k \<noteq> 0 \<and> prevchild k = 0 \<and> y = parent k then map_option (\<lambda>_. nextchild k) (C y)
      else map_option firstchild (C y))"
  subgoal by (simp add: detached_def delinked_fields)
  subgoal using delinked_fields(1,2)[of x k C y]
    by (auto simp: detached_def modify_apply unlinked_def option.map_comp comp_def intro: option.map_cong)
  subgoal using delinked_fields(3)[of x k C y]
    by (auto simp: detached_def modify_apply unlinked_def option.map_comp comp_def)
  done

lemma first_not_last:
  assumes "distinct (us @ x # vs)" and "0 \<notin> set (us @ x # vs)"
  shows "y \<notin> set (us @ vs) \<Longrightarrow> y \<noteq> 0 \<Longrightarrow> y \<noteq> last (0 # us) \<and> y \<noteq> first vs 0"
  using assms by (cases us rule: rev_cases; cases vs) auto

lemma detached_seg:
  assumes ok: "links_ok T C" and x: "C x = Some k" and p: "parent k \<noteq> 0"
  shows "dseg nextchild prevchild (detached x k C) 0 (remove1 x (T (parent k))) 0"
    and "c \<noteq> parent k \<Longrightarrow> dseg nextchild prevchild (detached x k C) 0 (T c) 0"
    and "first (remove1 x (T (parent k))) 0
      = (if prevchild k = 0 then nextchild k else first (T (parent k)) 0)"
proof -
  obtain us vs where us: "T (parent k) = us @ x # vs" "prevchild k = last (0 # us)" "nextchild k = first vs 0"
    and seg: "dseg nextchild prevchild C 0 (us @ x # vs) 0" and dist: "distinct (us @ x # vs)"
    by (rule sibling_split[OF ok x p])
  have rem: "remove1 x (T (parent k)) = us @ vs" using us(1) dist by (simp add: remove1_append)
  let ?B = "if prevchild k \<noteq> 0 then C else modify (parent k) (\<lambda>s. s\<lparr>firstchild := nextchild k\<rparr>) C"
  have px: "parent k \<noteq> x" using links_okD(5)[OF ok, of "parent k"] us(1) by auto
  have segB: "dseg nextchild prevchild ?B 0 xs 0 = dseg nextchild prevchild C 0 xs 0" for xs
    by (rule dseg_cong) (auto simp: modify_apply option.map_comp comp_def)
  have "dseg nextchild prevchild (delinked x k C) 0 (us @ vs) 0"
    unfolding delinked_def
    by (rule sl.unlink[OF _ dist]) (use seg segB x px in \<open>simp_all\<close>)
  then show "dseg nextchild prevchild (detached x k C) 0 (remove1 x (T (parent k))) 0"
    using p dist by (simp add: rem detached_def)
  show "first (remove1 x (T (parent k))) 0
      = (if prevchild k = 0 then nextchild k else first (T (parent k)) 0)"
    using us seg dseg_nonzero[OF seg] unfolding rem by (cases us rule: rev_cases) auto
  show "dseg nextchild prevchild (detached x k C) 0 (T c) 0" if c: "c \<noteq> parent k"
  proof -
    have "map_option f (detached x k C y) = map_option f (C y)"
      if f: "\<And>v s. f (s\<lparr>firstchild := v\<rparr>) = f s" and y: "y \<in> set (T c)" for f y
    proof -
      have "y \<notin> set (us @ x # vs)" using children_disjoint[OF ok y, of "parent k"] c us(1) by auto
      moreover have "y \<noteq> 0" using child_facts[OF ok y] by blast
      ultimately have "y \<noteq> x" "y \<noteq> prevchild k" "y \<noteq> nextchild k"
        using us(2,3) by (cases us rule: rev_cases; cases vs; auto)+
      then show ?thesis
        using f by (simp add: detached_def delinked_def sl.surgery_other modify_apply option.map_comp comp_def)
    qed
    from dseg_cong[of "T c", OF this this] links_okD(4)[OF ok, of c] show ?thesis by simp
  qed
qed

lemma links_ok_root:
  assumes ok: "links_ok T C" and x: "C x = Some k" and root: "parent k = 0"
    and g: "parent (g k) = 0" "firstchild (g k) = firstchild k"
  shows "links_ok T (modify x g C)"
proof -
  have x': "x \<notin> set (T c)" for c by (rule root_no_child[OF ok x root])
  have par: "map_option parent (modify x g C y) = map_option parent (C y)" for y
    using x root g by (simp add: modify_apply)
  have fc: "map_option firstchild (modify x g C y) = map_option firstchild (C y)" for y
    using x g by (simp add: modify_apply)
  show ?thesis
    unfolding links_ok_def par fc using ok x' by (auto simp: links_ok_def)
qed

lemma detached_ok:
  assumes ok: "links_ok T C" and x: "C x = Some k"
  shows "links_ok (T(parent k := remove1 x (T (parent k)))) (detached x k C)"
    (is "links_ok ?T ?C")
proof (cases "parent k = 0")
  case True
  have T: "?T = T" using links_ok_no_zero[OF ok] True by auto
  show ?thesis
    using links_ok_root[OF ok x True] True unfolding T by (simp add: detached_def unlinked_def)
next
  case False
  note seg = detached_seg[OF ok x False]
  have p: "C (parent k) \<noteq> None" by (rule links_ok_parent[OF ok x False])
  show ?thesis
    unfolding links_ok_def
  proof (intro conjI allI impI)
    fix c
    show "?C 0 = None" using links_okD(1)[OF ok] by (simp add: detached_fields)
    show "dseg nextchild prevchild ?C 0 (?T c) 0" using seg(1,2) by simp
    show "distinct (c # ?T c)" using links_okD(5)[OF ok, of c] by (auto dest: notin_set_remove1)
    show "?T c = []" if "?C c = None"
      using that links_okD(3)[OF ok, of c] p by (auto simp: detached_fields)
    show "map_option firstchild (?C c) = Some (first (?T c) 0)" if c: "?C c \<noteq> None"
    proof -
      obtain s where s: "C c = Some s" using c detached_fields(1)[of x k C c] by auto
      then show ?thesis
        using links_ok_firstchild[OF ok s] seg(3) False p by (auto simp: detached_fields)
    qed
    show "y \<in> set (?T q) \<longleftrightarrow> q \<noteq> 0 \<and> map_option parent (?C y) = Some q" for y q
      using links_okD(5)[OF ok, of q] links_okD(6)[OF ok, of y q] x
      by (auto simp: detached_fields)
  qed
qed

text \<open>What \<open>link_to_parent\<close> does: the context becomes the first child.\<close>

definition attached :: "addr \<Rightarrow> addr \<Rightarrow> addr \<Rightarrow> (addr \<Rightarrow> AllocSetContext option)
    \<Rightarrow> addr \<Rightarrow> AllocSetContext option" where
  "attached x np f C =
     modify np (\<lambda>s. s\<lparr>firstchild := x\<rparr>)
       ((if f \<noteq> 0 then modify f (\<lambda>s. s\<lparr>prevchild := x\<rparr>) else (\<lambda>C. C))
         (modify x (\<lambda>s. s\<lparr>parent := np, prevchild := 0, nextchild := f\<rparr>) C))"

lemma attached_fields:
  "attached x np f C y = None \<longleftrightarrow> C y = None"
  "x \<noteq> np \<Longrightarrow> f \<noteq> x \<Longrightarrow> map_option parent (attached x np f C y) =
     (if y = x then map_option (\<lambda>_. np) (C y) else map_option parent (C y))"
  "x \<noteq> np \<Longrightarrow> map_option firstchild (attached x np f C y) =
     (if y = np then map_option (\<lambda>_. x) (C y) else map_option firstchild (C y))"
  by (auto simp: attached_def modify_apply option.map_comp comp_def)

lemma attached_unlinked: "attached x np f (modify x unlinked C) = attached x np f C"
  by (simp add: attached_def unlinked_def)

lemma attached_seg:
  assumes ok: "links_ok T C" and x: "C x = Some k" and root: "parent k = 0" and np: "x \<noteq> np"
  shows "dseg nextchild prevchild (attached x np (first (T np) 0) C) 0 (x # T np) 0"
    and "c \<noteq> np \<Longrightarrow> dseg nextchild prevchild (attached x np (first (T np) 0) C) 0 (T c) 0"
proof -
  let ?f = "first (T np) 0"
  let ?k = "k\<lparr>parent := np, prevchild := 0, nextchild := ?f\<rparr>"
  let ?S = "sl.surgery 0 0 ?f x (C(x \<mapsto> ?k))"
  have x': "x \<notin> set (T d)" for d by (rule root_no_child[OF ok x root])
  have at: "attached x np ?f C = modify np (\<lambda>s. s\<lparr>firstchild := x\<rparr>) ?S"
    using x by (simp add: attached_def sl.surgery_def modify_def Let_def)
  have seg: "dseg nextchild prevchild (attached x np ?f C) 0 xs 0 = dseg nextchild prevchild ?S 0 xs 0" for xs
    unfolding at by (rule dseg_cong) (auto simp: modify_apply option.map_comp comp_def)
  have "distinct (x # T np)" using x' links_okD(5)[OF ok, of np] by simp
  then show "dseg nextchild prevchild (attached x np ?f C) 0 (x # T np) 0"
    unfolding seg by (rule sl.push_front[OF links_okD(4)[OF ok]])
      (use links_ok_nonzero[OF ok x] in simp_all)
  show "dseg nextchild prevchild (attached x np ?f C) 0 (T c) 0" if c: "c \<noteq> np"
  proof -
    have "?f \<notin> set (T c)"
    proof (cases "T np")
      case Nil
      then show ?thesis using child_facts[OF ok, of 0 c] by auto
    next
      case (Cons a l)
      then show ?thesis using children_disjoint[OF ok, of a np c] c by auto
    qed
    then have "?S y = C y" if "y \<in> set (T c)" for y
      using that x' [of c] by (auto simp: sl.surgery_def Let_def modify_apply)
    then have "dseg nextchild prevchild ?S 0 (T c) 0 = dseg nextchild prevchild C 0 (T c) 0"
      by (intro dseg_cong) simp_all
    then show ?thesis unfolding seg using links_okD(4)[OF ok] by simp
  qed
qed

lemma attached_ok:
  assumes ok: "links_ok T C" and x: "C x = Some k" and root: "parent k = 0" and np: "x \<noteq> np"
    and p: "C np \<noteq> None"
  shows "links_ok (T(np := x # T np)) (attached x np (first (T np) 0) C)"
    (is "links_ok ?T ?C")
proof -
  note seg = attached_seg[OF ok x root np]
  have x': "x \<notin> set (T d)" for d by (rule root_no_child[OF ok x root])
  have np0: "np \<noteq> 0" using p links_okD(1)[OF ok] by (cases "np = 0") auto
  have f: "first (T np) 0 \<noteq> x"
    using x'[of np] links_ok_nonzero[OF ok x] by (cases "T np") auto
  show ?thesis
    unfolding links_ok_def
  proof (intro conjI allI impI)
    fix c
    show "?C 0 = None" using links_okD(1)[OF ok] by (simp add: attached_fields)
    show "dseg nextchild prevchild ?C 0 (?T c) 0" using seg by simp
    show "distinct (c # ?T c)" using links_okD(5)[OF ok, of c] x' np by auto
    show "?T c = []" if "?C c = None"
      using that links_okD(3)[OF ok, of c] p by (auto simp: attached_fields)
    show "map_option firstchild (?C c) = Some (first (?T c) 0)" if c: "?C c \<noteq> None"
    proof -
      obtain s where s: "C c = Some s" using c attached_fields(1)[of x np "first (T np) 0" C c] by auto
      then show ?thesis
        using links_ok_firstchild[OF ok s] np p by (auto simp: attached_fields)
    qed
    show "y \<in> set (?T q) \<longleftrightarrow> q \<noteq> 0 \<and> map_option parent (?C y) = Some q" for y q
      using links_okD(6)[OF ok, of y q] x x' np f np0
      by (auto simp: attached_fields)
  qed
qed

section \<open>The operations on the tree\<close>

lemma delink_run:
  assumes ok: "links_ok T (ctxs w)" and x: "ctxs w x = Some k"
  shows "delink_from_parent x w
    = Inr (w\<lparr>ctxs := (if parent k = 0 then ctxs w else delinked x k (ctxs w))\<rparr>)"
proof (cases "parent k = 0")
  case True
  then show ?thesis using x by (simp add: delink_from_parent_def get_ctx_def)
next
  case False
  obtain us vs where us: "T (parent k) = us @ x # vs" "prevchild k = last (0 # us)" "nextchild k = first vs 0"
    and seg: "dseg nextchild prevchild (ctxs w) 0 (us @ x # vs) 0" and dist: "distinct (us @ x # vs)"
    by (rule sibling_split[OF ok x False])
  obtain p where p: "ctxs w (parent k) = Some p" using links_ok_parent(2)[OF ok x False] by auto
  have px: "parent k \<noteq> x" using links_okD(5)[OF ok, of "parent k"] us(1) by auto
  let ?B = "if prevchild k \<noteq> 0 then modify (prevchild k) (\<lambda>s. s\<lparr>nextchild := nextchild k\<rparr>) (ctxs w)
     else modify (parent k) (\<lambda>s. s\<lparr>firstchild := nextchild k\<rparr>) (ctxs w)"
  have some: "y \<in> set (us @ vs) \<Longrightarrow> ctxs w y \<noteq> None" for y
    using dseg_some[OF seg, of y] by auto
  have pv: "prevchild k \<noteq> 0 \<Longrightarrow> ctxs w (prevchild k) \<noteq> None" "prevchild k \<noteq> x"
    using some[of "prevchild k"] us(2) dist links_ok_nonzero[OF ok x]
    by (cases us rule: rev_cases; auto)+
  have nx: "nextchild k \<noteq> 0 \<Longrightarrow> ctxs w (nextchild k) \<noteq> None"
    using some[of "nextchild k"] us(3) by (cases vs) auto
  have fc: "prevchild k = 0 \<Longrightarrow> firstchild p = x"
    using links_ok_firstchild[OF ok p] us dseg_nonzero[OF seg] by (cases us rule: rev_cases) auto
  have Bx: "?B x = Some k" using pv(2) px x by simp
  have "seqE (if prevchild k \<noteq> 0
             then upd_ctx (prevchild k) (\<lambda>p. p\<lparr>nextchild := nextchild k\<rparr>) w
             else seqE (get_ctx w (parent k)) (\<lambda>p.
                  seqE (assertE (firstchild p = x)) (\<lambda>_.
                    upd_ctx (parent k) (\<lambda>p. p\<lparr>firstchild := nextchild k\<rparr>) w))) F
    = F (w\<lparr>ctxs := ?B\<rparr>)" for F :: "world \<Rightarrow> error + world"
    using p pv(1) fc by (simp add: get_ctx_def upd_ctx_modify)
  then have "delink_from_parent x w = (if nextchild k \<noteq> 0
       then upd_ctx (nextchild k) (\<lambda>n. n\<lparr>prevchild := prevchild k\<rparr>) (w\<lparr>ctxs := ?B\<rparr>)
       else Inr (w\<lparr>ctxs := ?B\<rparr>))"
    using x False Bx by (simp add: delink_from_parent_def get_ctx_Some)
  also have "\<dots> = Inr (w\<lparr>ctxs := delinked x k (ctxs w)\<rparr>)"
    using nx by (auto simp: delinked_def sl.surgery_def Let_def upd_ctx_modify)
  finally show ?thesis using False by simp
qed

lemma link_run:
  assumes x: "ctxs w x \<noteq> None" and np: "np \<noteq> x" "np \<noteq> 0"
    and p: "ctxs w np = Some p" "ctx_type p = T_AllocSetContext"
    and f: "firstchild p \<noteq> 0 \<Longrightarrow> ctxs w (firstchild p) \<noteq> None"
  shows "link_to_parent x np w = Inr (w\<lparr>ctxs := attached x np (firstchild p) (ctxs w)\<rparr>)"
proof -
  have v: "Assert_valid w np = Inr ()" by (rule Assert_valid_ok) (use np p in simp_all)
  show ?thesis
    using x np p(1) f
    by (cases "firstchild p = 0")
      (simp_all add: link_to_parent_def v upd_ctx_modify get_ctx_def attached_def comp_def)
qed

lemma unlink_run:
  assumes "ctxs w x \<noteq> None"
  shows "link_to_parent x 0 w = Inr (w\<lparr>ctxs := modify x unlinked (ctxs w)\<rparr>)"
  using assms by (simp add: link_to_parent_def upd_ctx_modify unlinked_def[abs_def])

text \<open>Everything but the links.\<close>

definition strip_links :: "AllocSetContext \<Rightarrow> AllocSetContext" where
  "strip_links s = s\<lparr>parent := 0, firstchild := 0, prevchild := 0, nextchild := 0\<rparr>"

definition only_links :: "(addr \<Rightarrow> AllocSetContext option) \<Rightarrow> (addr \<Rightarrow> AllocSetContext option) \<Rightarrow> bool" where
  "only_links C C' \<longleftrightarrow> (\<forall>d. map_option strip_links (C' d) = map_option strip_links (C d))"

lemma only_links_refl [simp]: "only_links C C"
  by (simp add: only_links_def)

lemma only_links_trans: "only_links C C' \<Longrightarrow> only_links C' C'' \<Longrightarrow> only_links C C''"
  by (simp add: only_links_def)

lemma only_links_modify:
  "(\<And>s. strip_links (f s) = strip_links s) \<Longrightarrow> only_links C (modify x f C)"
  by (simp add: only_links_def modify_apply option.map_comp comp_def)

lemma strip_links_simps [simp]:
  "strip_links (s\<lparr>parent := a\<rparr>) = strip_links s" "strip_links (s\<lparr>firstchild := a\<rparr>) = strip_links s"
  "strip_links (s\<lparr>prevchild := a\<rparr>) = strip_links s" "strip_links (s\<lparr>nextchild := a\<rparr>) = strip_links s"
  by (simp_all add: strip_links_def)

lemma heap_view_strip_links: "strip_links s' = strip_links s \<Longrightarrow> heap_view s' = heap_view s"
  by (cases s; cases s'; simp add: strip_links_def heap_view_def AllocSetContext.defs)

lemma only_links_same_heap:
  assumes "only_links (ctxs w) C'"
  shows "same_heap w (w\<lparr>ctxs := C'\<rparr>)"
proof -
  have "map_option heap_view (C' d) = map_option heap_view (ctxs w d)" for d
  proof -
    have "map_option strip_links (C' d) = map_option strip_links (ctxs w d)"
      using assms by (simp add: only_links_def)
    then show ?thesis by (cases "C' d"; cases "ctxs w d") (auto intro: heap_view_strip_links)
  qed
  then show ?thesis by (simp add: same_heap_def)
qed

lemma only_links_delinked: "only_links C (delinked x k C)"
  by (auto simp: only_links_def delinked_def sl.surgery_def Let_def modify_apply option.map_comp comp_def)

lemma only_links_unlinked: "only_links C (modify x unlinked C)"
  by (rule only_links_modify) (simp add: unlinked_def)

lemma only_links_detached: "only_links C (detached x k C)"
  using only_links_trans[OF only_links_delinked only_links_unlinked]
  by (simp add: detached_def only_links_unlinked)

lemma only_links_attached: "only_links C (attached x np f C)"
  by (auto simp: only_links_def attached_def modify_apply option.map_comp comp_def)

text \<open>Contexts elsewhere in the tree are not touched.\<close>

lemma detached_other:
  assumes ok: "links_ok T C" and x: "C x = Some k" and y: "y \<notin> insert x (insert (parent k) (set (T (parent k))))"
  shows "detached x k C y = C y"
proof (cases "y = 0 \<or> parent k = 0")
  case True
  then show ?thesis
    using y links_okD(1)[OF ok] detached_fields(1)[of x k C 0] by (auto simp: detached_def)
next
  case False
  then obtain us vs where us: "T (parent k) = us @ x # vs" "prevchild k = last (0 # us)" "nextchild k = first vs 0"
    using sibling_split[OF ok x] by metis
  then have "y \<noteq> prevchild k" "y \<noteq> nextchild k"
    using y False by (cases us rule: rev_cases; cases vs; auto)+
  then show ?thesis
    using y False by (simp add: detached_def delinked_def sl.surgery_other)
qed

lemma attached_other:
  assumes ok: "links_ok T C" and y: "y \<notin> insert x (insert np (set (T np)))"
  shows "attached x np (first (T np) 0) C y = C y"
proof (cases "y = 0")
  case True
  then show ?thesis using links_okD(1)[OF ok] attached_fields(1)[of x np "first (T np) 0" C 0] by simp
next
  case False
  then have "y \<noteq> first (T np) 0" using y by (cases "T np") auto
  then show ?thesis using y by (simp add: attached_def)
qed

text \<open>The children lists after a context has moved under another parent.\<close>

definition moved_child :: "addr \<Rightarrow> addr \<Rightarrow> addr \<Rightarrow> (addr \<Rightarrow> addr list) \<Rightarrow> addr \<Rightarrow> addr list" where
  "moved_child x p np T =
     (let T' = T(p := remove1 x (T p)) in if np = 0 then T' else T'(np := x # T' np))"

lemma SetParent_run:
  assumes ok: "heap_ok G w" and lk: "links_ok T (ctxs w)" and x: "ctxs w x = Some k"
    and ne: "np \<noteq> x" and p: "np = 0 \<or> ctxs w np \<noteq> None"
  shows "\<exists>C'. MemoryContextSetParent x np w = Inr (w\<lparr>ctxs := C'\<rparr>) \<and> only_links (ctxs w) C'
    \<and> links_ok (if np = parent k then T else moved_child x (parent k) np T) C'
    \<and> (\<forall>d. d \<notin> {x, parent k, np} \<union> set (T (parent k)) \<union> set (T np) \<longrightarrow> C' d = ctxs w d)"
proof (cases "np = parent k")
  case True
  then have "MemoryContextSetParent x np w = Inr w"
    using valid_ctx[OF ok x] x ne by (auto simp: MemoryContextSetParent_def get_ctx_def)
  then show ?thesis using True lk by (intro exI[of _ "ctxs w"]) simp
next
  case False
  let ?C1 = "if parent k = 0 then ctxs w else delinked x k (ctxs w)"
  let ?w1 = "w\<lparr>ctxs := ?C1\<rparr>"
  let ?T1 = "T(parent k := remove1 x (T (parent k)))"
  let ?D = "detached x k (ctxs w)"
  note dok = detached_ok[OF lk x]
  have run: "MemoryContextSetParent x np w = link_to_parent x np ?w1"
    using valid_ctx[OF ok x] x ne False delink_run[OF lk x]
    by (auto simp: MemoryContextSetParent_def get_ctx_def)
  have dx: "?D x = Some (unlinked (the (?C1 x)))" "?C1 x \<noteq> None"
    using x delinked_fields(1)[of x k "ctxs w" x] by (auto simp: detached_def)
  show ?thesis
  proof (cases "np = 0")
    case True
    then have "MemoryContextSetParent x np w = Inr (w\<lparr>ctxs := ?D\<rparr>)"
      using unlink_run[of ?w1 x] dx(2) run by (simp add: detached_def)
    then show ?thesis
      using dok False True only_links_detached detached_other[OF lk x]
      by (intro exI[of _ ?D]) (simp add: moved_child_def Let_def)
  next
    case np: False
    obtain q where q: "ctxs w np = Some q" using p np by auto
    have "?D np \<noteq> None" using q detached_fields(1)[of x k "ctxs w" np] by simp
    then obtain q' where q': "?D np = Some q'" by auto
    have q1: "?C1 np = Some q'" using q' ne by (auto simp: detached_def split: if_splits)
    have "strip_links q' = strip_links q"
      using only_links_detached[of "ctxs w" x k] q q' unfolding only_links_def by (metis option.map(2) option.inject)
    then have "ctx_type q' = ctx_type q" using heap_view_fields(2)[OF heap_view_strip_links] by blast
    then have ty: "ctx_type q' = T_AllocSetContext" using ctx_params[OF ok q] by (simp add: params_ok_def)
    have f: "firstchild q' = first (?T1 np) 0" by (rule links_ok_firstchild[OF dok q'])
    have fc: "firstchild q' \<noteq> 0 \<Longrightarrow> ?C1 (firstchild q') \<noteq> None"
    proof -
      assume "firstchild q' \<noteq> 0"
      then have "firstchild q' \<in> set (?T1 np)" unfolding f by (cases "?T1 np") auto
      from child_facts[OF dok this] have "?D (firstchild q') \<noteq> None" by (metis option.distinct(1))
      then show ?thesis by (auto simp: detached_def modify_apply split: if_splits)
    qed
    have "link_to_parent x np ?w1 = Inr (?w1\<lparr>ctxs := attached x np (firstchild q') (ctxs ?w1)\<rparr>)"
      by (rule link_run) (use dx(2) ne np q1 ty fc in simp_all)
    also have "attached x np (firstchild q') (ctxs ?w1) = attached x np (first (?T1 np) 0) ?D"
      by (simp add: f[symmetric] detached_def attached_unlinked del: fun_upd_apply)
    finally have "MemoryContextSetParent x np w = Inr (w\<lparr>ctxs := attached x np (first (?T1 np) 0) ?D\<rparr>)"
      using run by (simp del: fun_upd_apply)
    moreover have "links_ok (?T1(np := x # ?T1 np)) (attached x np (first (?T1 np) 0) ?D)"
      by (rule attached_ok[OF dok dx(1)]) (use ne q' in \<open>simp_all add: unlinked_def\<close>)
    moreover have "only_links (ctxs w) (attached x np (first (?T1 np) 0) ?D)"
      by (rule only_links_trans[OF only_links_detached only_links_attached])
    moreover have "attached x np (first (?T1 np) 0) ?D d = ctxs w d"
      if "d \<notin> {x, parent k, np} \<union> set (T (parent k)) \<union> set (T np)" for d
      using attached_other[OF dok, of d x np] detached_other[OF lk x, of d] that False by simp
    ultimately show ?thesis
      using False np by (intro exI[of _ "attached x np (first (?T1 np) 0) ?D"])
        (simp add: moved_child_def Let_def del: fun_upd_apply Un_iff)
  qed
qed

text \<open>The header \<open>MemoryContextCreate\<close> fills in.\<close>

definition created :: "NodeTag \<Rightarrow> MemoryContextMethodID \<Rightarrow> addr \<Rightarrow> string \<Rightarrow> addr \<Rightarrow> bool
    \<Rightarrow> AllocSetContext \<Rightarrow> AllocSetContext" where
  "created tag mid p nm nxt allow s = s\<lparr>ctx_type := tag, isReset := True, methods := mid,
     parent := p, firstchild := 0, mem_allocated := 0, prevchild := 0, ctx_name := nm, ident := 0,
     reset_cbs := 0, nextchild := nxt, allowInCritSection := allow\<rparr>"

lemma Create_run:
  assumes lk: "links_ok T (ctxs w)" and node: "ctxs w node = Some s" "parent s = 0" "T node = []"
    and p: "par = 0 \<or> (\<exists>p. ctxs w par = Some p \<and> ctx_type p = T_AllocSetContext)" and ne: "node \<noteq> par"
  shows "\<exists>C' nxt. MemoryContextCreate node tag mid par nm w = Inr (w\<lparr>ctxs := C'\<rparr>)
    \<and> links_ok (if par = 0 then T else T(par := node # T par)) C'
    \<and> C' node = Some (created tag mid par nm nxt
         (par \<noteq> 0 \<and> allowInCritSection (the (ctxs w par))) s)
    \<and> (\<forall>d. d \<noteq> node \<longrightarrow> map_option strip_links (C' d) = map_option strip_links (ctxs w d))
    \<and> (\<forall>d. d \<notin> {node, par} \<union> set (T par) \<longrightarrow> C' d = ctxs w d)"
proof -
  let ?i = "\<lambda>s :: AllocSetContext. s\<lparr>ctx_type := tag, isReset := True, methods := mid,
        parent := par, firstchild := 0, mem_allocated := 0, prevchild := 0,
        ctx_name := nm, ident := 0, reset_cbs := 0\<rparr>"
  let ?r = "\<lambda>s :: AllocSetContext. (?i s)\<lparr>parent := 0\<rparr>"
  have fc: "firstchild s = 0" using links_ok_firstchild[OF lk node(1)] node(3) by simp
  show ?thesis
  proof (cases "par = 0")
    case True
    let ?C = "modify node (created tag mid 0 nm 0 False) (ctxs w)"
    have "MemoryContextCreate node tag mid par nm w = Inr (w\<lparr>ctxs := ?C\<rparr>)"
      using True ne node(1) by (simp add: MemoryContextCreate_def upd_ctx_modify assertE_def created_def[abs_def] comp_def)
    moreover have "links_ok T ?C"
      by (rule links_ok_root[OF lk node(1,2)]) (use fc in \<open>simp_all add: created_def\<close>)
    ultimately show ?thesis using True node(1) by (intro exI[of _ ?C]) auto
  next
    case False
    then obtain p where p: "ctxs w par = Some p" "ctx_type p = T_AllocSetContext" using assms(5) by auto
    let ?f = "first (T par) 0"
    have f: "firstchild p = ?f" by (rule links_ok_firstchild[OF lk p(1)])
    have x': "node \<notin> set (T c)" for c by (rule root_no_child[OF lk node(1,2)])
    have fn: "?f \<noteq> node" using x'[of par] links_ok_nonzero[OF lk node(1)] by (cases "T par") auto
    have fp: "?f \<noteq> par" using links_okD(5)[OF lk, of par] False by (cases "T par") auto
    have fs: "?f \<noteq> 0 \<Longrightarrow> ctxs w ?f \<noteq> None"
      using dseg_some[OF links_okD(4)[OF lk, of par], of ?f] by (cases "T par") auto
    let ?C1 = "modify node ?r (ctxs w)"
    have lk1: "links_ok T ?C1" by (rule links_ok_root[OF lk node(1,2)]) (use fc in simp_all)
    let ?C2 = "attached node par ?f ?C1"
    have lk2: "links_ok (T(par := node # T par)) ?C2"
      by (rule attached_ok[OF lk1, of node "?r s"]) (use node(1) ne p(1) in simp_all)
    let ?g = "\<lambda>s. s\<lparr>allowInCritSection := allowInCritSection p\<rparr> :: AllocSetContext"
    let ?C3 = "modify node ?g ?C2"
    have lk3: "links_ok (T(par := node # T par)) ?C3"
    proof -
      have "same_links ?C2 ?C3"
        by (simp add: same_links_def modify_apply option.map_comp comp_def links_of_def[abs_def])
      then show ?thesis using links_ok_cong lk2 by blast
    qed
    have v: "Assert_valid w par = Inr ()" by (rule Assert_valid_ok) (use False p in simp_all)
    have eq: "(\<lambda>s. (?r s)\<lparr>parent := par, prevchild := 0, nextchild := ?f\<rparr>) = (\<lambda>s. (?i s)\<lparr>nextchild := ?f\<rparr>)"
      by (rule ext, rule AllocSetContext.equality) simp_all
    have at: "?C2 = modify par (\<lambda>s. s\<lparr>firstchild := node\<rparr>)
        ((if ?f \<noteq> 0 then modify ?f (\<lambda>s. s\<lparr>prevchild := node\<rparr>) else (\<lambda>C. C))
          (modify node (\<lambda>s. (?i s)\<lparr>nextchild := ?f\<rparr>) (ctxs w)))"
      by (simp only: attached_def modify_modify eq)
    have "MemoryContextCreate node tag mid par nm w = Inr (w\<lparr>ctxs := ?C3\<rparr>)"
      unfolding at using False ne node(1) p(1) f fn fp fs
      by (cases "?f = 0")
        (simp_all add: MemoryContextCreate_def v upd_ctx_modify get_ctx_def assertE_def comp_def)
    moreover have "?C3 node = Some (created tag mid par nm ?f
        (par \<noteq> 0 \<and> allowInCritSection (the (ctxs w par))) s)"
      using node(1) ne fn False p(1) by (simp add: attached_def created_def modify_apply)
    moreover have "map_option strip_links (?C3 d) = map_option strip_links (ctxs w d)" if "d \<noteq> node" for d
      using only_links_attached[of ?C1 node par ?f] that by (simp add: only_links_def)
    moreover have "?C3 d = ctxs w d" if "d \<notin> {node, par} \<union> set (T par)" for d
      using attached_other[OF lk1, of d node par] that by simp
    ultimately show ?thesis using False lk3 by (intro exI[of _ ?C3]) auto
  qed
qed


section \<open>Trees of contexts\<close>

datatype ctree = CNode (root: addr) (kids: "ctree list")

text \<open>The tree below a context, as the children lists have it.\<close>

fun shape :: "(addr \<Rightarrow> addr list) \<Rightarrow> ctree \<Rightarrow> bool" where
  "shape T (CNode c ts) \<longleftrightarrow> map root ts = T c \<and> (\<forall>t \<in> set ts. shape T t)"

fun preorder :: "ctree \<Rightarrow> addr list" where
  "preorder (CNode c ts) = c # concat (map preorder ts)"

lemma root_in_preorder [simp]: "root t \<in> set (preorder t)"
  by (cases t) simp

lemma preorder_not_Nil [simp]: "preorder t \<noteq> []"
  by (cases t) simp

lemma hd_preorder [simp]: "hd (preorder t) = root t"
  by (cases t) simp

lemma shape_unique:
  "shape T t \<Longrightarrow> shape T u \<Longrightarrow> root t = root u \<Longrightarrow> t = u"
proof (induction t arbitrary: u)
  case (CNode c ts)
  obtain us where u: "u = CNode c us" using CNode.prems(3) by (cases u) auto
  have m: "map root ts = map root us" using CNode.prems u by simp
  have "ts = us"
  proof (rule nth_equalityI)
    show len: "length ts = length us" using map_eq_imp_length_eq[OF m] .
    fix i assume i: "i < length ts"
    then have "root (ts ! i) = root (us ! i)" using m len by (metis nth_map)
    then show "ts ! i = us ! i"
      using CNode.IH[of "ts ! i" "us ! i"] CNode.prems(1,2) u i len by simp
  qed
  then show ?case using u by simp
qed

text \<open>Every context of a tree has its subtree in it.\<close>

lemma subtree:
  "shape T t \<Longrightarrow> x \<in> set (preorder t)
   \<Longrightarrow> \<exists>u. shape T u \<and> root u = x \<and> set (preorder u) \<subseteq> set (preorder t) \<and> size u \<le> size t"
proof (induction t)
  case (CNode c ts)
  show ?case
  proof (cases "x = c")
    case True
    then show ?thesis using CNode.prems(1) by (intro exI[of _ "CNode c ts"]) simp
  next
    case False
    then obtain t where t: "t \<in> set ts" "x \<in> set (preorder t)" using CNode.prems(2) by auto
    then obtain u where u: "shape T u" "root u = x" "set (preorder u) \<subseteq> set (preorder t)" "size u \<le> size t"
      using CNode.IH[OF t(1)] CNode.prems(1) by auto
    have "size t < size (CNode c ts)" using t(1) by (simp add: size_list_estimation' less_Suc_eq_le)
    then show ?thesis using u t(1) by (intro exI[of _ u]) auto
  qed
qed

lemma root_not_below:
  assumes "shape T (CNode c ts)" and t: "t \<in> set ts"
  shows "c \<notin> set (preorder t)"
proof
  assume "c \<in> set (preorder t)"
  then obtain u where u: "shape T u" "root u = c" "size u \<le> size t"
    using subtree[of T t c] assms by auto
  then have "u = CNode c ts" using shape_unique[OF u(1) assms(1)] by simp
  then have "size (CNode c ts) \<le> size t" using u(3) by simp
  moreover have "size t < size (CNode c ts)" using t by (simp add: size_list_estimation' less_Suc_eq_le)
  ultimately show False by simp
qed

lemma parent_in_tree:
  assumes lk: "links_ok T C"
  shows "shape T t \<Longrightarrow> x \<in> set (preorder t) \<Longrightarrow> x \<noteq> root t
    \<Longrightarrow> \<exists>p. map_option parent (C x) = Some p \<and> p \<in> set (preorder t)"
proof (induction t)
  case (CNode c ts)
  then obtain t where t: "t \<in> set ts" "x \<in> set (preorder t)" by auto
  show ?case
  proof (cases "x = root t")
    case True
    then have "x \<in> set (T c)" using CNode.prems(1) t(1) by (metis image_eqI list.set_map shape.simps)
    then show ?thesis using links_okD(6)[OF lk, of x c] by (intro exI[of _ c]) simp
  next
    case False
    then obtain p where "map_option parent (C x) = Some p" "p \<in> set (preorder t)"
      using CNode.IH[OF t(1)] t CNode.prems(1) by auto
    then show ?thesis using t(1) by auto
  qed
qed

lemma trees_meet:
  assumes lk: "links_ok T C"
  shows "shape T t \<Longrightarrow> shape T u \<Longrightarrow> x \<in> set (preorder t) \<Longrightarrow> x \<in> set (preorder u)
    \<Longrightarrow> root t \<in> set (preorder u) \<or> root u \<in> set (preorder t)"
proof (induction t)
  case (CNode c ts)
  show ?case
  proof (cases "x = c")
    case True
    then show ?thesis using CNode.prems(4) by simp
  next
    case False
    then obtain t where t: "t \<in> set ts" "x \<in> set (preorder t)" using CNode.prems(3) by auto
    then consider "root t \<in> set (preorder u)" | "root u \<in> set (preorder t)"
      using CNode.IH[OF t(1)] CNode.prems by auto
    then show ?thesis
    proof cases
      case 1
      show ?thesis
      proof (cases "root t = root u")
        case True
        then show ?thesis using t(1) by auto (metis root_in_preorder)
      next
        case False
        have "root t \<in> set (T c)" using CNode.prems(1) t(1) by (metis image_eqI list.set_map shape.simps)
        then have "map_option parent (C (root t)) = Some c" using links_okD(6)[OF lk, of "root t" c] by simp
        then show ?thesis using parent_in_tree[OF lk CNode.prems(2) 1 False] by auto
      qed
    next
      case 2
      then show ?thesis using t(1) by auto
    qed
  qed
qed

lemma distinct_preorder:
  assumes lk: "links_ok T C"
  shows "shape T t \<Longrightarrow> distinct (preorder t)"
proof (induction t)
  case (CNode c ts)
  have dr: "distinct (map root ts)" using CNode.prems links_okD(5)[OF lk, of c] by simp
  have "distinct (concat (map preorder us))" if "\<exists>vs. ts = vs @ us" for us
    using that
  proof (induction us)
    case (Cons t us)
    then obtain vs where vs: "ts = vs @ t # us" by auto
    then have "\<exists>vs. ts = vs @ us" by (intro exI[of _ "vs @ [t]"]) simp
    note IH = Cons.IH[OF this]
    have "set (preorder t) \<inter> set (preorder u) = {}" if u: "u \<in> set us" for u
    proof (rule ccontr)
      assume "\<not> ?thesis"
      then obtain x where x: "x \<in> set (preorder t)" "x \<in> set (preorder u)" by auto
      have tu: "t \<in> set ts" "u \<in> set ts" using vs u by auto
      have sh: "shape T t" "shape T u" using CNode.prems tu by auto
      have ne: "root t \<noteq> root u" using dr vs u by auto
      have par: "map_option parent (C (root v)) = Some c" if "v \<in> set ts" for v
      proof -
        have "root v \<in> set (T c)" using CNode.prems that by (metis image_eqI list.set_map shape.simps)
        then show ?thesis using links_okD(6)[OF lk, of "root v" c] by simp
      qed
      from trees_meet[OF lk sh x] show False
      proof
        assume "root t \<in> set (preorder u)"
        from parent_in_tree[OF lk sh(2) this ne] par[OF tu(1)] root_not_below[OF CNode.prems tu(2)]
        show False by simp
      next
        assume "root u \<in> set (preorder t)"
        from parent_in_tree[OF lk sh(1) this ne[symmetric]] par[OF tu(2)] root_not_below[OF CNode.prems tu(1)]
        show False by simp
      qed
    qed
    then show ?case using IH CNode.IH[OF _ ] CNode.prems vs by auto
  qed simp
  from this[of ts] show ?case using root_not_below[OF CNode.prems] by auto
qed

section \<open>Walking over a tree\<close>

text \<open>\<open>chain f e xs\<close>: the function leads from every element to the next, and from the last to \<open>e\<close>.\<close>

primrec chain :: "(addr \<Rightarrow> error + addr) \<Rightarrow> error + addr \<Rightarrow> addr list \<Rightarrow> bool" where
  "chain f e [] = True"
| "chain f e (x # xs) = (f x = (if xs = [] then e else Inr (hd xs)) \<and> chain f e xs)"

lemma chain_append:
  "chain f e (xs @ ys) \<longleftrightarrow> chain f (if ys = [] then e else Inr (hd ys)) xs \<and> chain f e ys"
  by (induction xs) auto

lemma chain_next:
  assumes "chain f (Inr 0) (us @ x # vs)"
  shows "f x = Inr (first vs 0)"
  using assms by (cases vs) (auto simp: chain_append)

text \<open>Where the climb from a context leads.\<close>

definition climb_from :: "world \<Rightarrow> addr \<Rightarrow> addr \<Rightarrow> error + addr" where
  "climb_from w topc x =
     seqE (get_ctx w x) (\<lambda>s. seqE (climb w topc (x, nextchild s, False)) (\<lambda>(_, nxt, _). Inr nxt))"

lemma climb_sibling:
  "ctxs w x = Some k \<Longrightarrow> nextchild k \<noteq> 0 \<Longrightarrow> climb_from w topc x = Inr (nextchild k)"
  by (simp add: climb_from_def get_ctx_def climb_def loopE_stop)

lemma climb_top:
  "ctxs w x = Some k \<Longrightarrow> nextchild k = 0 \<Longrightarrow> parent k = topc \<Longrightarrow> climb_from w topc x = Inr 0"
  by (subst climb_from_def) (simp add: get_ctx_def climb_def loopE_step loopE_stop)

lemma climb_parent:
  assumes "ctxs w x = Some k" and "nextchild k = 0" and "parent k \<noteq> topc" and "ctxs w (parent k) = Some p"
  shows "climb_from w topc x = climb_from w topc (parent k)"
  using assms by (simp add: climb_from_def get_ctx_def climb_def loopE_step)

lemma TraverseNext_leaf:
  "ctxs w x = Some s \<Longrightarrow> firstchild s = 0 \<Longrightarrow> MemoryContextTraverseNext w x topc = climb_from w topc x"
  by (simp add: MemoryContextTraverseNext_def climb_from_def get_ctx_def)

lemma TraverseNext_down:
  "ctxs w x = Some s \<Longrightarrow> firstchild s \<noteq> 0 \<Longrightarrow> MemoryContextTraverseNext w x topc = Inr (firstchild s)"
  by (simp add: MemoryContextTraverseNext_def get_ctx_def)

lemma forest_chain:
  assumes lk: "links_ok T (ctxs w)" and sh: "map root ts = T c"
    and each: "\<And>t. t \<in> set ts \<Longrightarrow> chain (\<lambda>x. MemoryContextTraverseNext w x topc) (climb_from w topc (root t)) (preorder t)"
    and last: "\<And>x k. x \<in> set (T c) \<Longrightarrow> ctxs w x = Some k \<Longrightarrow> nextchild k = 0 \<Longrightarrow> climb_from w topc x = e"
  shows "chain (\<lambda>x. MemoryContextTraverseNext w x topc) e (concat (map preorder ts))"
proof -
  let ?f = "\<lambda>x. MemoryContextTraverseNext w x topc"
  have seg: "dseg nextchild prevchild (ctxs w) 0 (map root ts) 0" using links_okD(4)[OF lk, of c] sh by simp
  have "chain ?f e (concat (map preorder vs))" if "ts = us @ vs" for us vs
    using that
  proof (induction vs arbitrary: us)
    case (Cons t vs)
    have IH: "chain ?f e (concat (map preorder vs))"
      using Cons.IH[of "us @ [t]"] Cons.prems by simp
    have t: "root t \<in> set (T c)" using Cons.prems sh by (metis in_set_conv_decomp list.simps(9) map_append)
    obtain k where k: "ctxs w (root t) = Some k" by (rule child_facts[OF lk t])
    have "nextchild k = first (map root vs) 0"
      using dseg_split(2)[of nextchild prevchild "ctxs w" 0 "map root us" "root t" "map root vs" 0 k] seg k Cons.prems
      by simp
    then have "climb_from w topc (root t) = (if vs = [] then e else Inr (root (hd vs)))"
    proof (cases vs)
      case Nil
      then show ?thesis using last[OF t k] \<open>nextchild k = _\<close> by simp
    next
      case (Cons v vs')
      then have "v \<in> set ts" using Cons.prems by simp
      then have "root v \<noteq> 0" using dseg_nonzero[OF seg] by (metis image_eqI list.set_map)
      then show ?thesis using climb_sibling[OF k] \<open>nextchild k = _\<close> Cons by simp
    qed
    moreover have "chain ?f (climb_from w topc (root t)) (preorder t)"
      using each Cons.prems by simp
    moreover have "concat (map preorder vs) = [] \<longleftrightarrow> vs = []" by (cases vs) simp_all
    moreover have "vs \<noteq> [] \<Longrightarrow> hd (concat (map preorder vs)) = root (hd vs)"
      by (cases vs) (simp_all add: hd_append)
    ultimately show ?case using IH by (cases "vs = []") (simp_all add: chain_append)
  qed simp
  from this[of "[]" ts] show ?thesis by simp
qed

lemma tree_chain:
  assumes lk: "links_ok T (ctxs w)"
  shows "shape T t \<Longrightarrow> topc \<notin> set (preorder t) \<Longrightarrow> ctxs w (root t) \<noteq> None
    \<Longrightarrow> chain (\<lambda>x. MemoryContextTraverseNext w x topc) (climb_from w topc (root t)) (preorder t)"
proof (induction t)
  case (CNode c ts)
  let ?f = "\<lambda>x. MemoryContextTraverseNext w x topc"
  have sh: "map root ts = T c" using CNode.prems by simp
  obtain s where s: "ctxs w c = Some s" using CNode.prems by auto
  have fc: "firstchild s = first (map root ts) 0" using links_ok_firstchild[OF lk s] sh by simp
  have c0: "c \<noteq> topc" using CNode.prems by simp
  have rest: "chain ?f (climb_from w topc c) (concat (map preorder ts))"
  proof (rule forest_chain[OF lk sh])
    fix t assume t: "t \<in> set ts"
    have "root t \<in> set (T c)" using sh t by (metis image_eqI list.set_map)
    then have "ctxs w (root t) \<noteq> None" using child_facts[OF lk] by (metis option.distinct(1))
    then show "chain ?f (climb_from w topc (root t)) (preorder t)"
      using CNode.IH[OF t] CNode.prems t by auto
  next
    fix x k assume x: "x \<in> set (T c)" "ctxs w x = Some k" "nextchild k = 0"
    have "parent k = c" using child_facts[OF lk x(1)] x(2) by auto
    then show "climb_from w topc x = climb_from w topc c"
      using climb_parent[OF x(2,3)] c0 s by simp
  qed
  show ?case
  proof (cases ts)
    case Nil
    then show ?thesis using TraverseNext_leaf[OF s] fc by simp
  next
    case (Cons t ts')
    have "root t \<in> set (T c)" using sh Cons by (metis list.set_intros(1) list.simps(9))
    then have "root t \<noteq> 0" using child_facts[OF lk] by blast
    then show ?thesis using TraverseNext_down[OF s] fc rest Cons by (simp add: hd_append)
  qed
qed

text \<open>
  The walk over the proper descendants of \<open>top\<close>, from its first child on, is in preorder and ends
  with 0.
\<close>

lemma traversal:
  assumes lk: "links_ok T (ctxs w)" and sh: "shape T (CNode topc ts)"
  shows "chain (\<lambda>x. MemoryContextTraverseNext w x topc) (Inr 0) (concat (map preorder ts))"
proof (rule forest_chain[OF lk])
  show T: "map root ts = T topc" using sh by simp
  fix t assume t: "t \<in> set ts"
  have "root t \<in> set (T topc)" using T t by (metis image_eqI list.set_map)
  then have "ctxs w (root t) \<noteq> None" using child_facts[OF lk] by (metis option.distinct(1))
  then show "chain (\<lambda>x. MemoryContextTraverseNext w x topc) (climb_from w topc (root t)) (preorder t)"
    using tree_chain[OF lk] sh t root_not_below[OF sh t] by simp
next
  fix x k assume x: "x \<in> set (T topc)" "ctxs w x = Some k" "nextchild k = 0"
  have "parent k = topc" using child_facts[OF lk x(1)] x(2) by auto
  then show "climb_from w topc x = Inr 0" by (rule climb_top[OF x(2,3)])
qed

lemma descendants_some:
  assumes lk: "links_ok T C"
  shows "shape T t \<Longrightarrow> C (root t) \<noteq> None \<Longrightarrow> x \<in> set (preorder t) \<Longrightarrow> C x \<noteq> None"
  using parent_in_tree[OF lk, of t x] by (cases "x = root t") auto

lemma first_descendant:
  assumes lk: "links_ok T C" and sh: "shape T (CNode c ts)" and c: "C c = Some s"
  shows "firstchild s = first (concat (map preorder ts)) 0" and "0 \<notin> set (concat (map preorder ts))"
    and "x \<in> set (concat (map preorder ts)) \<Longrightarrow> C x \<noteq> None"
proof -
  have "firstchild s = first (map root ts) 0" using links_ok_firstchild[OF lk c] sh by simp
  also have "\<dots> = first (concat (map preorder ts)) 0"
  proof (cases ts)
    case (Cons t l)
    then show ?thesis by (cases t) simp
  qed simp
  finally show "firstchild s = first (concat (map preorder ts)) 0" .
  have some: "C x \<noteq> None" if "x \<in> set (concat (map preorder ts))" for x
    using descendants_some[OF lk sh, of x] c that by auto
  then show "x \<in> set (concat (map preorder ts)) \<Longrightarrow> C x \<noteq> None" .
  show "0 \<notin> set (concat (map preorder ts))" using some[of 0] links_okD(1)[OF lk] by auto
qed

text \<open>A loop over the descendants is a fold over the preorder.\<close>

lemma descend_loop:
  assumes lk: "links_ok T (ctxs w)" and sh: "shape T (CNode c ts)" and c: "ctxs w c = Some s"
    and step: "\<And>cur k a. cur \<in> set (concat (map preorder ts)) \<Longrightarrow> ctxs w cur = Some k
      \<Longrightarrow> body (cur, a) = seqE (MemoryContextTraverseNext w cur c) (\<lambda>n. Inr (n, g k a))"
  shows "loopE (\<lambda>(cur, a). cur \<noteq> 0) body (firstchild s, a)
    = Inr (0, fold (\<lambda>x. g (the (ctxs w x))) (concat (map preorder ts)) a)"
proof -
  note fd = first_descendant[OF lk sh c]
  let ?xs = "concat (map preorder ts)"
  have "\<exists>a'. loopE (\<lambda>(cur, a). cur \<noteq> 0) body (first ?xs 0, a) = Inr (0, a')
    \<and> a' = fold (\<lambda>x. g (the (ctxs w x))) ?xs a"
  proof (rule loopE_list[OF fd(2), of "\<lambda>us a'. a' = fold (\<lambda>x. g (the (ctxs w x))) us a"])
    fix us b vs x
    assume xs: "?xs = us @ b # vs" and x: "x = fold (\<lambda>x. g (the (ctxs w x))) us a"
    have b: "b \<in> set ?xs" unfolding xs by simp
    then obtain k where k: "ctxs w b = Some k" using fd(3) by blast
    have "chain (\<lambda>x. MemoryContextTraverseNext w x c) (Inr 0) (us @ b # vs)"
      using traversal[OF lk sh] unfolding xs .
    then have "MemoryContextTraverseNext w b c = Inr (first vs 0)" by (rule chain_next)
    then have "body (b, x) = Inr (first vs 0, g k x)" using step[OF b k] by simp
    then show "\<exists>x'. body (b, x) = Inr (first vs 0, x') \<and> x' = fold (\<lambda>x. g (the (ctxs w x))) (us @ [b]) a"
      using x k by simp
  qed simp
  then show ?thesis using fd(1) by simp
qed

lemma MemAllocated_tree:
  assumes ok: "heap_ok G w" and lk: "links_ok T (ctxs w)" and sh: "shape T t" and c: "ctxs w (root t) = Some s"
  shows "MemoryContextMemAllocated w (root t) False = Inr (mem_allocated s)"
    and "MemoryContextMemAllocated w (root t) True
      = Inr (\<Sum>x \<leftarrow> preorder t. mem_allocated (the (ctxs w x)))"
proof -
  obtain ts where t: "t = CNode (root t) ts" by (cases t) auto
  have sh': "shape T (CNode (root t) ts)" using sh t by simp
  let ?b = "\<lambda>(cur, total). seqE (get_ctx w cur) (\<lambda>c.
             seqE (MemoryContextTraverseNext w cur (root t)) (\<lambda>nxt.
               Inr (nxt, total + mem_allocated c)))"
  have loop: "loopE (\<lambda>(cur, total). cur \<noteq> 0) ?b (firstchild s, mem_allocated s)
    = Inr (0, fold (\<lambda>x a. a + mem_allocated (the (ctxs w x))) (concat (map preorder ts)) (mem_allocated s))"
    by (rule descend_loop[OF lk sh' c]) (simp add: get_ctx_def)
  have "fold (\<lambda>x a. a + mem_allocated (the (ctxs w x))) xs a
    = a + (\<Sum>x \<leftarrow> xs. mem_allocated (the (ctxs w x)))" for xs a
    by (induction xs arbitrary: a) (simp_all add: add.assoc)
  then have "fold (\<lambda>x a. a + mem_allocated (the (ctxs w x))) (concat (map preorder ts)) (mem_allocated s)
    = (\<Sum>x \<leftarrow> preorder (CNode (root t) ts). mem_allocated (the (ctxs w x)))"
    using c by simp
  then show "MemoryContextMemAllocated w (root t) True
      = Inr (\<Sum>x \<leftarrow> preorder t. mem_allocated (the (ctxs w x)))"
    using valid_ctx[OF ok c] c loop t by (simp add: MemoryContextMemAllocated_def get_ctx_def)
  show "MemoryContextMemAllocated w (root t) False = Inr (mem_allocated s)"
    using valid_ctx[OF ok c] c by (simp add: MemoryContextMemAllocated_def get_ctx_def)
qed

end
