(* ===== verification/DeleteProofs.thy ===== *)
theory DeleteProofs
  imports TreeProofs
begin

text \<open>
  Deleting a context: what is left of the heap when all blocks of a context are released, the
  freelists of contexts that wait to be recycled, the invariant \<open>lib_ok\<close> of the whole library (heap,
  tree and freelists together), and the correctness of \<open>AllocSetDelete\<close>.
\<close>

unbundle bit_operations_syntax

section \<open>A heap without a context\<close>

text \<open>All blocks of a context are released, the one that holds its header included.\<close>

definition without_context :: "(addr \<Rightarrow> ghost) \<Rightarrow> world \<Rightarrow> addr \<Rightarrow> world" where
  "without_context G w c =
     w\<lparr>regions := filter (\<lambda>r. fst r \<noteq> c \<and> fst r \<notin> nonkeepers c (gblocks (G c))) (regions w),
       blks := (\<lambda>x. if x \<in> set (gblocks (G c)) then None else blks w x),
       ctxs := (ctxs w)(c := None)\<rparr>"

lemma heap_without_context:
  assumes ok: "heap_ok G w" and c: "ctxs w c = Some s"
  shows "heap_ok G (without_context G w c)"
    and "chunks G (without_context G w c) = other_chunks G w c"
    and "same_foreign G w G (without_context G w c)"
proof -
  let ?w = "without_context G w c"
  have blk: "blks ?w b = blks w b" if "d \<noteq> c" "ctxs w d = Some t" "b \<in> set (gblocks (G d))" for d t b
    using other_block[OF ok c that(2,1,3)] by (simp add: without_context_def)
  have reg: "(base d b, n) \<in> set (regions ?w)"
    if "d \<noteq> c" "ctxs w d = Some t" "b \<in> set (gblocks (G d))" "(base d b, n) \<in> set (regions w)" for d t b n
    using other_region[OF ok c that(2,1,3)] that(4) by (simp add: without_context_def)
  have "aset_ok (set (regions ?w)) (mem ?w) (blks ?w) d t (G d) \<and> blks ?w d = None"
    if d: "ctxs ?w d = Some t" for d t
  proof -
    have d': "d \<noteq> c" "ctxs w d = Some t" using d by (auto simp: without_context_def split: if_splits)
    have "aset_ok (set (regions ?w)) (mem ?w) (blks ?w) d t (G d)"
      by (rule aset_ok_cong[OF heap_okD(2)[OF ok d'(2)]])
        (use blk[OF d'] reg[OF d'] in \<open>auto simp: without_context_def\<close>)
    then show ?thesis using heap_okD(3)[OF ok d'(2)] by (simp add: without_context_def)
  qed
  moreover have "ctxs ?w (aset k) \<noteq> None \<and> b \<in> set (gblocks (G (aset k)))" if "blks ?w b = Some k" for b k
  proof -
    have b: "b \<notin> set (gblocks (G c))" "blks w b = Some k"
      using that by (auto simp: without_context_def split: if_splits)
    then show ?thesis using heap_okD(4)[OF ok b(2)] by (auto simp: without_context_def)
  qed
  moreover have "regions_ok (regions ?w)"
    using heap_okD(1)[OF ok] by (simp add: without_context_def regions_ok_filter)
  ultimately show "heap_ok G ?w" by (simp add: heap_ok_def)
  have ctx: "{d. ctxs ?w d \<noteq> None} = {d. ctxs w d \<noteq> None} - {c}" by (auto simp: without_context_def)
  have "chunks G ?w = (\<Union>d \<in> {d. ctxs w d \<noteq> None} - {c}. chunks_of (blks ?w) d (G d))"
    by (simp only: chunks_def ctx)
  also have "\<dots> = (\<Union>d \<in> {d. ctxs w d \<noteq> None} - {c}. chunks_of (blks w) d (G d))"
    using blk by (intro SUP_cong refl chunks_of_cong) blast
  also have "\<dots> = other_chunks G w c"
    by (auto simp: other_chunks_def chunks_def chunks_of_def)
  finally show "chunks G ?w = other_chunks G w c" .
  show "same_foreign G w G ?w"
    unfolding same_foreign_def
  proof (intro allI impI)
    fix a assume f: "foreign G w a"
    obtain r n where r: "(r, n) \<in> set (regions w)" "r \<le> a" "a < r + n"
      "r \<notin> nonkeepers c (gblocks (G c))" "r \<noteq> c"
      by (rule foreign_region[OF ok c f])
    then have "in_region ?w a 1" by (intro in_regionI[of r n]) (auto simp: without_context_def)
    moreover have "a \<notin> lib_bytes G ?w"
    proof
      assume "a \<in> lib_bytes G ?w"
      then obtain d b t where d: "d \<noteq> c" "ctxs w d = Some t" "b \<in> set (gblocks (G d))"
        "a \<in> extent (blks ?w) d b"
        by (auto simp: lib_bytes_def without_context_def split: if_splits)
      then have "a \<in> extent (blks w) d b" using blk[OF d(1-3)] by (simp add: extent_def)
      then show False using foreign_extent[OF f d(2,3)] by blast
    qed
    ultimately show "foreign G ?w a \<and> mem ?w a = mem w a"
      by (simp add: foreign_def) (simp add: without_context_def)
  qed
qed

text \<open>Nothing else lives in the region of a context.\<close>

lemma keeper_exclusive:
  assumes ok: "heap_ok G w" and c: "ctxs w c = Some s" and K: "blks w (KeeperBlock c) = Some K"
    and a: "c \<le> a" "a < endptr K"
  shows "a \<noteq> c \<Longrightarrow> ctxs w a = None" and "a \<noteq> KeeperBlock c \<Longrightarrow> blks w a = None"
proof -
  have kb: "KeeperBlock c \<in> set (gblocks (G c))" by (rule heap_ok_keeper[OF ok c])
  have ext: "a \<in> extent (blks w) c (KeeperBlock c)" using a K by (simp add: extent_def base_def IsKeeperBlock_def)
  show "ctxs w a = None" if ne: "a \<noteq> c"
  proof (rule ccontr)
    assume "ctxs w a \<noteq> None"
    then obtain u where u: "ctxs w a = Some u" by auto
    have "KeeperBlock a \<noteq> KeeperBlock c" using ne by (simp add: KeeperBlock_eq)
    then show False
      using extent_disjoint[OF ok u c heap_ok_keeper[OF ok u] kb] ctx_in_extent[OF ok u] ext by blast
  qed
  show "blks w a = None" if ne: "a \<noteq> KeeperBlock c"
  proof (rule ccontr)
    assume "blks w a \<noteq> None"
    then obtain k where k: "blks w a = Some k" by auto
    then obtain u where u: "ctxs w (aset k) = Some u" "a \<in> set (gblocks (G (aset k)))"
      using heap_okD(4)[OF ok k] by auto
    show False
      using extent_disjoint[OF ok u(1) c u(2) kb ne] block_in_extent[OF ok u] ext by blast
  qed
qed

lemma free_context_step:
  assumes ok: "heap_ok G w" and c: "ctxs w c = Some s"
    and v: "regions v = filter (\<lambda>r. fst r \<notin> nonkeepers c (gblocks (G c))) (regions w)"
      "ctxs v = (ctxs w)(c \<mapsto> s')"
      "blks v = (\<lambda>x. if x \<in> nonkeepers c (gblocks (G c)) then None else blks w x)"
  shows "free c v = Inr (v\<lparr>regions := regions (without_context G w c),
    ctxs := ctxs (without_context G w c), blks := blks (without_context G w c)\<rparr>)"
proof -
  let ?S = "nonkeepers c (gblocks (G c))"
  obtain K where K: "blks w (KeeperBlock c) = Some K" "c + 240 \<le> endptr K"
    "(c, endptr K - c) \<in> set (regions w)" "c \<noteq> 0"
    by (rule keeper_size[OF ok c])
  note ex = keeper_exclusive[OF ok c K(1)]
  have "c \<notin> ?S" using heap_okD(3)[OF ok c] heap_ok_block[OF ok c, of c] by (auto simp: nonkeepers_def)
  then have "(c, endptr K - c) \<in> set (regions v)" using K(3) v(1) by simp
  moreover have "regions_ok (regions v)" using heap_okD(1)[OF ok] by (simp add: v(1) regions_ok_filter)
  ultimately have reg: "region_at v c = Some (endptr K - c)"
    unfolding region_at_def by (intro map_of_regions)
  have end': "c + (endptr K - c) = endptr K" using K(2) by simp
  have 1: "forget c (endptr K - c) (ctxs v) = ctxs (without_context G w c)"
    using ex(1) end' K(2) by (auto simp: forget_def v(2) without_context_def fun_eq_iff)
  have kb: "KeeperBlock c \<in> set (gblocks (G c))" by (rule heap_ok_keeper[OF ok c])
  have kc: "c \<le> KeeperBlock c" "KeeperBlock c < endptr K" using K(2) by (simp_all add: KeeperBlock_eq)
  have split: "x \<in> set (gblocks (G c)) \<longleftrightarrow> x \<in> ?S \<or> x = KeeperBlock c" for x
    using kb by (auto simp: nonkeepers_def IsKeeperBlock_def)
  have 2: "forget c (endptr K - c) (blks v) = blks (without_context G w c)"
  proof
    fix x
    show "forget c (endptr K - c) (blks v) x = blks (without_context G w c) x"
      using ex(2)[of x] end' kc by (auto simp: forget_def v(3) without_context_def split)
  qed
  have "filter (\<lambda>r. fst r \<noteq> c) (regions v) = regions (without_context G w c)"
    by (auto simp: v(1) without_context_def intro!: filter_cong)
  with K(4) reg 1 2 show ?thesis by (simp add: free_def)
qed

section \<open>Deleting a context that is not recycled\<close>

lemma delete_blocks_run:
  assumes ok: "heap_ok G w" and c: "ctxs w c = Some s"
  shows "delete_blocks c (first (gblocks (G c)) 0) w = Inr (released w c s (\<lambda>k. k) (gblocks (G c)))"
proof -
  let ?bs = "gblocks (G c)" and ?f = "\<lambda>k :: AllocBlockData. k"
  let ?c = "\<lambda>(block, w). seqE (get_blk w block) (\<lambda>k.
          let nxt = bnext k in
          if IsKeeperBlock c block then Inr (nxt, w)
          else
            seqE (upd_ctx c (\<lambda>s. s\<lparr>mem_allocated :=
                    mem_allocated s - ptr_diff (endptr k) block\<rparr>) w) (\<lambda>w.
            seqE (free block w) (\<lambda>w. Inr (nxt, w))))"
  have seg: "dseg bnext bprev (blks w) 0 ?bs 0" "distinct ?bs"
    using heap_okD(2)[OF ok c] by (simp_all add: aset_ok_def blocks_ok_def)
  have "\<exists>x'. loopE (\<lambda>(block, w). block \<noteq> 0) ?c (first ?bs 0, released w c s ?f []) = Inr (0, x')
      \<and> x' = released w c s ?f ?bs"
  proof (rule loopE_list[where I = "\<lambda>us x. x = released w c s ?f us"])
    show "0 \<notin> set ?bs" by (rule dseg_nonzero[OF seg(1)])
    fix us b vs x assume bs: "?bs = us @ b # vs" and x: "x = released w c s ?f us"
    obtain K where K: "blks w b = Some K" "blks (released w c s ?f us) b = Some K" "bnext K = first vs 0"
      by (rule released_walk[OF ok c bs])
    show "\<exists>x'. ?c (b, x) = Inr (first vs 0, x') \<and> x' = released w c s ?f (us @ [b])"
    proof (cases "IsKeeperBlock c b")
      case True
      then have b: "b = KeeperBlock c" by (simp add: IsKeeperBlock_def)
      have "b \<notin> set us" using seg(2) bs by simp
      then have "released w c s ?f (us @ [b]) = x"
        using released_keeper[of c us w K s ?f] K(1,2) by (simp add: b x Let_def fun_upd_idem)
      then show ?thesis using True K by (simp add: x get_blk_def)
    next
      case False
      obtain y where y: "upd_ctx c (\<lambda>s. s\<lparr>mem_allocated := mem_allocated s - ptr_diff (endptr K) b\<rparr>) x = Inr y"
          "free b y = Inr (released w c s ?f (us @ [b]))"
        using released_free[OF ok c bs False K(1), of s ?f] by (auto simp: x seqE_eq_Inr)
      show ?thesis using False K y by (simp add: x get_blk_def)
    qed
  qed simp
  moreover have "released w c s ?f [] = w"
    using c by (simp add: released_Nil fun_upd_idem)
  ultimately show ?thesis by (auto simp: delete_blocks_def)
qed

lemma AllocSetDelete_unlisted:
  assumes ok: "heap_ok G w" and c: "ctxs w c = Some s" and idx: "freeListIndex s < 0"
  shows "AllocSetDelete cbf c w = Inr (without_context G w c)"
proof -
  let ?bs = "gblocks (G c)"
  let ?v = "released w c s (\<lambda>k. k) ?bs"
  obtain K where K: "blks w (KeeperBlock c) = Some K"
    "mem_allocated s - of_nat (\<Sum>b \<in> nonkeepers c ?bs. block_size (blks w) c b) = ptr_diff (endptr K) c"
    by (rule keeper_size[OF ok c])
  have head: "blocks s = first ?bs 0" using heap_okD(2)[OF ok c] by (simp add: aset_ok_def)
  have v: "regions ?v = filter (\<lambda>r. fst r \<notin> nonkeepers c ?bs) (regions w)"
    "ctxs ?v = (ctxs w)(c \<mapsto> s\<lparr>mem_allocated := ptr_diff (endptr K) c\<rparr>)"
    using K(2) by (simp_all add: released_def)
  have b: "blks ?v = (\<lambda>x. if x \<in> nonkeepers c ?bs then None else blks w x)"
    using released_blks[OF heap_ok_keeper[OF ok c] K(1), of s "\<lambda>k. k"] K(1) by (auto simp: fun_eq_iff)
  have eq: "?v\<lparr>regions := regions (without_context G w c), ctxs := ctxs (without_context G w c),
      blks := blks (without_context G w c)\<rparr> = without_context G w c"
    by (simp add: released_def without_context_def)
  show ?thesis
    using valid_ctx[OF ok c] c K(1) idx head delete_blocks_run[OF ok c] v(2)
      free_context_step[OF ok c v b] eq
    by (simp add: AllocSetDelete_def get_ctx_def get_blk_def Let_def)
qed

section \<open>The freelists of contexts\<close>

text \<open>Deleted contexts that wait to be recycled are linked through \<open>nextchild\<close>.\<close>

fun cseg :: "(addr \<Rightarrow> AllocSetContext option) \<Rightarrow> addr list \<Rightarrow> bool" where
  "cseg C [] = True"
| "cseg C (x # xs) \<longleftrightarrow> x \<noteq> 0 \<and> map_option nextchild (C x) = Some (first xs 0) \<and> cseg C xs"

definition recyclable :: "nat \<Rightarrow> AllocSetContext \<Rightarrow> bool" where
  "recyclable i s \<longleftrightarrow> freeListIndex s = int i \<and> isReset s \<and> parent s = 0 \<and> firstchild s = 0
     \<and> reset_cbs s = 0"

definition freelist_ok :: "(addr \<Rightarrow> AllocSetContext option) \<Rightarrow> nat \<Rightarrow> addr list \<Rightarrow> AllocSetFreeList \<Rightarrow> bool" where
  "freelist_ok C i xs fl \<longleftrightarrow>
     first_free fl = first xs 0 \<and> num_free fl = int (length xs) \<and> int (length xs) \<le> MAX_FREE_CONTEXTS
     \<and> distinct xs \<and> cseg C xs \<and> (\<forall>x \<in> set xs. \<exists>s. C x = Some s \<and> recyclable i s)"

definition freelists_ok :: "(nat \<Rightarrow> addr list) \<Rightarrow> world \<Rightarrow> bool" where
  "freelists_ok F w \<longleftrightarrow> length (context_freelists w) = 2
     \<and> (\<forall>i < 2. freelist_ok (ctxs w) i (F i) (context_freelists w ! i))
     \<and> (\<forall>i. 2 \<le> i \<longrightarrow> F i = [])"

lemma cseg_cong:
  "(\<And>x. x \<in> set xs \<Longrightarrow> map_option nextchild (C' x) = map_option nextchild (C x)) \<Longrightarrow> cseg C' xs = cseg C xs"
  by (induction xs) auto

lemma freelist_ok_cong:
  assumes "\<And>x s. x \<in> set xs \<Longrightarrow> C x = Some s \<Longrightarrow> recyclable i s
    \<Longrightarrow> \<exists>s'. C' x = Some s' \<and> nextchild s' = nextchild s \<and> recyclable i s'"
    and ok: "freelist_ok C i xs fl"
  shows "freelist_ok C' i xs fl"
proof -
  have "map_option nextchild (C' x) = map_option nextchild (C x)" if x: "x \<in> set xs" for x
  proof -
    obtain s where "C x = Some s" "recyclable i s" using ok x by (auto simp: freelist_ok_def)
    then show ?thesis using assms(1)[OF x] by auto
  qed
  then have "cseg C' xs = cseg C xs" by (rule cseg_cong)
  moreover have "\<exists>s. C' x = Some s \<and> recyclable i s" if x: "x \<in> set xs" for x
    using assms(1)[OF x] ok x by (fastforce simp: freelist_ok_def)
  ultimately show ?thesis using ok by (simp add: freelist_ok_def)
qed

lemma recyclable_index: "recyclable i s \<Longrightarrow> recyclable j s \<Longrightarrow> i = j"
  by (simp add: recyclable_def)

text \<open>
  The invariant of the whole library: the heap of every context, the tree and the freelists of
  contexts.
\<close>

definition lib_ok :: "(addr \<Rightarrow> ghost) \<Rightarrow> (addr \<Rightarrow> addr list) \<Rightarrow> (nat \<Rightarrow> addr list) \<Rightarrow> world \<Rightarrow> bool" where
  "lib_ok G T F w \<longleftrightarrow> heap_ok G w \<and> links_ok T (ctxs w) \<and> freelists_ok F w"

lemma lib_okD:
  assumes "lib_ok G T F w"
  shows "heap_ok G w" and "links_ok T (ctxs w)" and "freelists_ok F w"
  using assms by (simp_all add: lib_ok_def)

lemma get_context_freelist_ok:
  assumes "freelists_ok F w" and "i < 2"
  shows "get_context_freelist w (int i) = Inr (context_freelists w ! i)"
  using assms by (simp add: get_context_freelist_def freelists_ok_def)

text \<open>A context without parent and children leaves the tree.\<close>

lemma links_ok_remove:
  assumes ok: "links_ok T C" and x: "C x = Some k" and root: "parent k = 0" and nil: "T x = []"
  shows "links_ok T (C(x := None))"
proof -
  have x': "x \<notin> set (T c)" for c by (rule root_no_child[OF ok x root])
  have "y \<in> set (T p) \<longleftrightarrow> p \<noteq> 0 \<and> map_option parent ((C(x := None)) y) = Some p" for y p
    using links_okD(6)[OF ok, of y p] x x' root by (cases "y = x") auto
  then show ?thesis
    unfolding links_ok_def using links_okD(1-5)[OF ok] x' nil by auto
qed

text \<open>What the freelists have to do with the rest.\<close>

lemma listed_facts:
  assumes "freelists_ok F w" and "x \<in> set (F i)"
  obtains s where "i < 2" "ctxs w x = Some s" "recyclable i s"
proof -
  have "i < 2" using assms by (cases "i < 2") (auto simp: freelists_ok_def)
  moreover from this have "freelist_ok (ctxs w) i (F i) (context_freelists w ! i)"
    using assms(1) by (simp add: freelists_ok_def)
  ultimately show ?thesis using that assms(2) unfolding freelist_ok_def by blast
qed

text \<open>A context that is marked as reset has no chunks and no block but the keeper.\<close>

lemma reset_context:
  assumes ok: "heap_ok G w" and c: "ctxs w c = Some s" and r: "isReset s"
  shows "pristine c s (G c)" and "nonkeepers c (gblocks (G c)) = {}" and "other_chunks G w c = chunks G w"
proof -
  show p: "pristine c s (G c)" using ctx_params[OF ok c] r by (simp add: params_ok_def)
  then show "nonkeepers c (gblocks (G c)) = {}" by (auto simp: pristine_def nonkeepers_def IsKeeperBlock_def)
  have "chunks_of (blks w) c (G c) = {}"
    using p by (auto simp: pristine_def chunks_of_def units_def block_units_def)
  then show "other_chunks G w c = chunks G w"
    by (auto simp: other_chunks_def chunks_def chunks_of_def)
qed

text \<open>The contexts \<open>X\<close> are gone, nothing else has changed.\<close>

definition gone :: "(addr \<Rightarrow> ghost) \<Rightarrow> addr set \<Rightarrow> world \<Rightarrow> world \<Rightarrow> bool" where
  "gone G X w w' \<longleftrightarrow>
     ctxs w' = (\<lambda>d. if d \<in> X then None else ctxs w d) \<and> chunks G w' = chunks G w \<and> mem w' = mem w
     \<and> set (regions w') \<subseteq> set (regions w) \<and> same_foreign G w G w' \<and> answers w' = answers w \<and> calls w' = calls w
     \<and> CurrentMemoryContext w' = CurrentMemoryContext w \<and> TopMemoryContext w' = TopMemoryContext w
     \<and> ErrorContext w' = ErrorContext w"

lemma gone_refl: "gone G {} w w"
  by (simp add: gone_def)

lemma gone_trans:
  assumes "gone G X w w'" and "gone G Y w' w''"
  shows "gone G (X \<union> Y) w w''"
  unfolding gone_def
proof (intro conjI)
  show "same_foreign G w G w''" using assms same_foreign_trans by (auto simp: gone_def)
qed (use assms in \<open>auto simp: gone_def fun_eq_iff\<close>)

lemma discard_step:
  assumes ok: "lib_ok G T F w" and i: "i < 2" and F: "F i = x # xs"
  shows "\<exists>s w'. ctxs w x = Some s \<and> nextchild s = first xs 0
    \<and> free x (set_context_freelist (int i) \<lparr>num_free = int (length xs), first_free = first xs 0\<rparr> w) = Inr w'
    \<and> lib_ok G T (F(i := xs)) w' \<and> gone G {x} w w'
    \<and> context_freelists w' ! i = \<lparr>num_free = int (length xs), first_free = first xs 0\<rparr>"
proof -
  note ok' = lib_okD[OF ok]
  obtain s where s: "ctxs w x = Some s" "recyclable i s"
    using listed_facts[OF ok'(3), of x i] F by (metis list.set_intros(1) recyclable_index)
  have fi: "freelist_ok (ctxs w) i (x # xs) (context_freelists w ! i)"
    using ok'(3) i F by (auto simp: freelists_ok_def)
  then have nx: "nextchild s = first xs 0" using s by (simp add: freelist_ok_def)
  have r: "isReset s" using s(2) by (simp add: recyclable_def)
  note rc = reset_context[OF ok'(1) s(1) r]
  let ?fl = "\<lparr>num_free = int (length xs), first_free = first xs 0\<rparr>"
  let ?v = "set_context_freelist (int i) ?fl w"
  let ?u = "without_context G w x"
  have v: "regions ?v = filter (\<lambda>r. fst r \<notin> nonkeepers x (gblocks (G x))) (regions w)"
    "ctxs ?v = (ctxs w)(x \<mapsto> s)"
    "blks ?v = (\<lambda>y. if y \<in> nonkeepers x (gblocks (G x)) then None else blks w y)"
    using s(1) rc(2) by (simp_all add: set_context_freelist_def fun_upd_idem)
  note run = free_context_step[OF ok'(1) s(1) v]
  let ?w' = "?v\<lparr>regions := regions ?u, ctxs := ctxs ?u, blks := blks ?u\<rparr>"
  note hw = heap_without_context[OF ok'(1) s(1)]
  have fields: "regions ?w' = regions ?u" "mem ?w' = mem ?u" "ctxs ?w' = ctxs ?u" "blks ?w' = blks ?u"
    by (simp_all add: set_context_freelist_def without_context_def)
  note hf = heap_ok_fields[OF fields]
  have cu: "ctxs ?u = (ctxs w)(x := None)" by (simp add: without_context_def)
  have "T x = []" "firstchild s = 0" "parent s = 0"
  proof -
    show fc: "firstchild s = 0" "parent s = 0" using s(2) by (simp_all add: recyclable_def)
    then have "first (T x) 0 = 0" using links_ok_firstchild[OF ok'(2) s(1)] by simp
    then show "T x = []" using dseg_nonzero[OF links_okD(4)[OF ok'(2), of x]] by (cases "T x") auto
  qed
  then have lk: "links_ok T (ctxs ?w')"
    using links_ok_remove[OF ok'(2) s(1)] fields(3) cu by simp
  have "freelists_ok (F(i := xs)) ?w'"
    unfolding freelists_ok_def
  proof (intro conjI allI impI)
    show "length (context_freelists ?w') = 2" using ok'(3) by (simp add: freelists_ok_def set_context_freelist_def)
    show "(F(i := xs)) j = []" if "2 \<le> j" for j using ok'(3) that i by (auto simp: freelists_ok_def)
    fix j :: nat assume j: "j < 2"
    show "freelist_ok (ctxs ?w') j ((F(i := xs)) j) (context_freelists ?w' ! j)"
    proof (cases "j = i")
      case True
      have "freelist_ok (ctxs w) i xs ?fl" using fi by (auto simp: freelist_ok_def)
      then have "freelist_ok (ctxs ?u) i xs ?fl"
        by (rule freelist_ok_cong[rotated]) (use fi cu in \<open>auto simp: freelist_ok_def\<close>)
      then show ?thesis
        using True i ok'(3) fields(3) by (simp add: set_context_freelist_def freelists_ok_def)
    next
      case False
      have "freelist_ok (ctxs w) j (F j) (context_freelists w ! j)"
        using ok'(3) j by (simp add: freelists_ok_def)
      then have "freelist_ok (ctxs ?u) j (F j) (context_freelists w ! j)"
        by (rule freelist_ok_cong[rotated]) (use s False cu recyclable_index[of i s j] in auto)
      then show ?thesis
        using False i fields(3) by (simp add: set_context_freelist_def)
    qed
  qed
  then have "lib_ok G T (F(i := xs)) ?w'" using hw(1) hf(1) lk by (simp add: lib_ok_def)
  moreover have "gone G {x} w ?w'"
    unfolding gone_def
  proof (intro conjI)
    show "ctxs ?w' = (\<lambda>d. if d \<in> {x} then None else ctxs w d)" using fields(3) cu by auto
    show "chunks G ?w' = chunks G w" using hf(2) hw(2) rc(3) by simp
    show "same_foreign G w G ?w'" by (rule same_foreign_trans[OF hw(3) hf(4)])
  qed (auto simp: set_context_freelist_def without_context_def)
  moreover have "context_freelists ?w' ! i = ?fl"
    using ok'(3) i by (simp add: freelists_ok_def set_context_freelist_def)
  ultimately show ?thesis using s(1) nx run by blast
qed

lemma discard_run:
  assumes ok: "lib_ok G T F w" and i: "i < 2"
  shows "\<exists>w'. discard_context_freelist (int i) w = Inr w' \<and> lib_ok G T (F(i := [])) w'
    \<and> gone G (set (F i)) w w'"
proof -
  let ?b = "\<lambda>(fl, w :: world). first_free fl \<noteq> 0"
  let ?c = "\<lambda>(fl, w). let oldset = first_free fl in
           seqE (get_ctx w oldset) (\<lambda>s.
           let fl = fl\<lparr>first_free := nextchild s, num_free := num_free fl - 1\<rparr>;
               w = set_context_freelist (int i) fl w in
           seqE (free oldset w) (\<lambda>w. Inr (fl, w)))"
  have loop: "\<exists>w'. loopE ?b ?c (context_freelists w ! i, w) = Inr (\<lparr>num_free = 0, first_free = 0\<rparr>, w')
      \<and> lib_ok G T (F(i := [])) w' \<and> gone G (set xs) w w'"
    if "lib_ok G T F w" "F i = xs" for F w xs
    using that
  proof (induction xs arbitrary: F w)
    case Nil
    have "freelist_ok (ctxs w) i [] (context_freelists w ! i)"
      using lib_okD(3)[OF Nil.prems(1)] i Nil.prems(2) by (auto simp: freelists_ok_def)
    then have "context_freelists w ! i = \<lparr>num_free = 0, first_free = 0\<rparr>"
      by (intro AllocSetFreeList.equality) (simp_all add: freelist_ok_def)
    moreover have "F(i := []) = F" using Nil.prems(2) by auto
    ultimately show ?case using Nil.prems(1) by (simp add: loopE_stop gone_refl)
  next
    case (Cons x xs)
    note prem = Cons.prems
    have fi: "freelist_ok (ctxs w) i (x # xs) (context_freelists w ! i)"
      using lib_okD(3)[OF prem(1)] i prem(2) by (auto simp: freelists_ok_def)
    then have x0: "first_free (context_freelists w ! i) = x" "x \<noteq> 0"
      "num_free (context_freelists w ! i) = int (length xs) + 1"
      by (simp_all add: freelist_ok_def)
    obtain s w1 where st: "ctxs w x = Some s" "nextchild s = first xs 0"
      "free x (set_context_freelist (int i) \<lparr>num_free = int (length xs), first_free = first xs 0\<rparr> w) = Inr w1"
      "lib_ok G T (F(i := xs)) w1" "gone G {x} w w1"
      "context_freelists w1 ! i = \<lparr>num_free = int (length xs), first_free = first xs 0\<rparr>"
      using discard_step[OF prem(1) i prem(2)] by blast
    obtain w' where w': "loopE ?b ?c (context_freelists w1 ! i, w1) = Inr (\<lparr>num_free = 0, first_free = 0\<rparr>, w')"
      "lib_ok G T (F(i := [])) w'" "gone G (set xs) w1 w'"
      using Cons.IH[OF st(4) fun_upd_same] unfolding fun_upd_upd by blast
    have fl: "(context_freelists w ! i)\<lparr>first_free := first xs 0, num_free := int (length xs)\<rparr>
        = \<lparr>num_free = int (length xs), first_free = first xs 0\<rparr>"
      by (intro AllocSetFreeList.equality) simp_all
    have "?c (context_freelists w ! i, w) = Inr (context_freelists w1 ! i, w1)"
      using st(1-3,6) x0 by (simp add: get_ctx_def Let_def fl)
    then have "loopE ?b ?c (context_freelists w ! i, w) = loopE ?b ?c (context_freelists w1 ! i, w1)"
      using x0 by (intro loopE_step) simp_all
    moreover have "gone G (set (x # xs)) w w'" using gone_trans[OF st(5) w'(3)] by simp
    ultimately show ?case using w' by (intro exI[of _ w']) (simp del: fun_upd_apply)
  qed
  obtain w' where "loopE ?b ?c (context_freelists w ! i, w) = Inr (\<lparr>num_free = 0, first_free = 0\<rparr>, w')"
    "lib_ok G T (F(i := [])) w'" "gone G (set (F i)) w w'"
    using loop[OF ok refl] by blast
  then show ?thesis
    using get_context_freelist_ok[OF lib_okD(3)[OF ok] i]
    by (intro exI[of _ w']) (simp add: discard_context_freelist_def assertE_def)
qed

section \<open>Deleting a context\<close>

text \<open>The contexts in use: the ones that do not wait to be recycled.\<close>

definition live :: "(nat \<Rightarrow> addr list) \<Rightarrow> world \<Rightarrow> addr set" where
  "live F w = {d. ctxs w d \<noteq> None \<and> (\<forall>i. d \<notin> set (F i))}"

definition same_globals :: "world \<Rightarrow> world \<Rightarrow> bool" where
  "same_globals w w' \<longleftrightarrow> calls w' = calls w \<and> CurrentMemoryContext w' = CurrentMemoryContext w
     \<and> TopMemoryContext w' = TopMemoryContext w \<and> ErrorContext w' = ErrorContext w"

text \<open>\<open>c\<close> is not in use any more; the other contexts in use are as before.\<close>

definition dropped :: "(addr \<Rightarrow> ghost) \<Rightarrow> (nat \<Rightarrow> addr list) \<Rightarrow> world \<Rightarrow> addr
    \<Rightarrow> (addr \<Rightarrow> ghost) \<Rightarrow> (nat \<Rightarrow> addr list) \<Rightarrow> world \<Rightarrow> bool" where
  "dropped G F w c G' F' w' \<longleftrightarrow>
     live F' w' = live F w - {c} \<and> chunks G' w' = other_chunks G w c \<and> mem w' = mem w
     \<and> (\<forall>a. foreign G w a \<longrightarrow> foreign G' w' a) \<and> set (regions w') \<subseteq> set (regions w)
     \<and> (\<forall>d \<in> live F w - {c}. ctxs w' d = ctxs w d) \<and> same_globals w w'"

lemma CallResetCallbacks_none:
  "ctxs w c = Some s \<Longrightarrow> reset_cbs s = 0 \<Longrightarrow> MemoryContextCallResetCallbacks cbf c w = Inr w"
  by (simp add: MemoryContextCallResetCallbacks_def get_ctx_def loopE_stop)

lemma quiet_skip: "quiet {} (\<lambda>f a w. Inr w)"
  unfolding quiet_def
proof (intro allI)
  fix f a w
  show "\<exists>m. (Inr w :: error + world) = Inr (w\<lparr>mem := m\<rparr>) \<and> (\<forall>x. x \<notin> {} \<longrightarrow> m x = mem w x)"
    by (rule exI[of _ "mem w"]) simp
qed

lemma reset_if_needed:
  assumes ok: "heap_ok G w" and c: "ctxs w c = Some s" and cb: "reset_cbs s = 0"
  shows "\<exists>G' w' s'. (if \<not> isReset s then MemoryContextResetOnly cbf c w else Inr w) = Inr w'
    \<and> heap_ok G' w' \<and> chunks G' w' = other_chunks G w c \<and> mem w' = mem w
    \<and> (\<forall>a. foreign G w a \<longrightarrow> foreign G' w' a) \<and> set (regions w') \<subseteq> set (regions w)
    \<and> ctxs w' = (ctxs w)(c \<mapsto> s')
    \<and> isReset s' \<and> client_view s' = client_view (s\<lparr>isReset := True\<rparr>)
    \<and> context_freelists w' = context_freelists w \<and> same_globals w w'"
proof (cases "isReset s")
  case True
  then have "client_view s = client_view (s\<lparr>isReset := True\<rparr>)"
    by (cases s) (simp add: client_view_def AllocSetContext.defs)
  then show ?thesis
    using True reset_context(3)[OF ok c True] ok c
    by (intro exI[of _ G] exI[of _ w] exI[of _ s]) (auto simp: same_globals_def)
next
  case False
  note quiet_skip
  then have al: "callbacks_allowed G w {} [] (\<lambda>f a w. Inr w)" by (simp add: callbacks_allowed_def)
  have "cb_list w (reset_cbs s) []" by (simp add: cb)
  then obtain w' where w': "MemoryContextResetOnly (\<lambda>f a w. Inr w) c w = Inr w'"
    "reset_post G w c {} [] (G(c := fresh_ghost c)) w'"
    using ResetOnly_run[OF ok c False _ al] by blast
  have run: "MemoryContextResetOnly cbf c w = Inr w'"
    using w'(1) CallResetCallbacks_none[OF c cb]
    by (simp add: MemoryContextResetOnly_def valid_ctx[OF ok c] get_ctx_def c False)
  note rp = w'(2)[unfolded reset_post_def]
  from rp obtain s' where s': "ctxs w' c = Some s'" "isReset s'"
    "client_view s' = client_view (s\<lparr>reset_cbs := 0, isReset := True\<rparr>)"
    using c by auto
  have "s\<lparr>reset_cbs := 0, isReset := True\<rparr> = s\<lparr>isReset := True\<rparr>" using cb by simp
  then have 1: "client_view s' = client_view (s\<lparr>isReset := True\<rparr>)" using s'(3) by metis
  have 2: "ctxs w' = (ctxs w)(c \<mapsto> s')" using rp s'(1) by (auto simp: fun_eq_iff)
  have 3: "mem w' = mem w" using rp by (auto simp: fun_eq_iff)
  have 4: "same_globals w w'" "context_freelists w' = context_freelists w"
    using rp by (simp_all add: same_globals_def)
  have 5: "heap_ok (G(c := fresh_ghost c)) w'" "chunks (G(c := fresh_ghost c)) w' = other_chunks G w c"
    "\<forall>a. foreign G w a \<longrightarrow> foreign (G(c := fresh_ghost c)) w' a" "set (regions w') \<subseteq> set (regions w)"
    using rp by blast+
  have "(if \<not> isReset s then MemoryContextResetOnly cbf c w else Inr w) = Inr w'"
    using run False by simp
  then show ?thesis using 1 2 3 4 5 s'(2) by blast
qed

lemma lib_ok_ctx:
  assumes ok: "lib_ok G T F w" and c: "ctxs w c = Some s" "\<And>i. c \<notin> set (F i)"
    and ok': "heap_ok G' w'" and w': "ctxs w' = (ctxs w)(c \<mapsto> s')" "links_of s' = links_of s"
      "context_freelists w' = context_freelists w"
  shows "lib_ok G' T F w'"
proof -
  have "same_links (ctxs w) (ctxs w')" using c(1) w' by (simp add: same_links_def)
  then have "links_ok T (ctxs w')" using links_ok_cong lib_okD(2)[OF ok] by blast
  moreover have "freelist_ok (ctxs w') i (F i) (context_freelists w ! i)" if "i < 2" for i
  proof (rule freelist_ok_cong)
    show "freelist_ok (ctxs w) i (F i) (context_freelists w ! i)"
      using lib_okD(3)[OF ok] that by (simp add: freelists_ok_def)
    fix x u assume x: "x \<in> set (F i)" "ctxs w x = Some u" "recyclable i u"
    then have "x \<noteq> c" using c(2) by blast
    then show "\<exists>s'. ctxs w' x = Some s' \<and> nextchild s' = nextchild u \<and> recyclable i s'"
      using x w'(1) by simp
  qed
  ultimately show ?thesis
    using ok' lib_okD(3)[OF ok] w'(3) by (simp add: lib_ok_def freelists_ok_def)
qed

text \<open>A context without parent, children and callbacks goes to the head of its freelist.\<close>

lemma push_context:
  assumes ok: "lib_ok G T F w" and c: "ctxs w c = Some s" "\<And>i. c \<notin> set (F i)"
    and s: "recyclable i s" and i: "i < 2" and short: "int (length (F i)) < MAX_FREE_CONTEXTS"
    and w': "w' = set_context_freelist (int i) (fl\<lparr>first_free := c, num_free := num_free fl + 1\<rparr>)
      (w\<lparr>ctxs := (ctxs w)(c \<mapsto> s\<lparr>nextchild := first_free fl\<rparr>)\<rparr>)"
    and fl: "fl = context_freelists w ! i"
  shows "lib_ok G T (F(i := c # F i)) w'" and "chunks G w' = chunks G w" and "same_foreign G w G w'"
proof -
  note ok' = lib_okD[OF ok]
  have fi: "freelist_ok (ctxs w) i (F i) fl" using ok'(3) i fl by (simp add: freelists_ok_def)
  have ctx': "ctxs w' = (ctxs w)(c \<mapsto> s\<lparr>nextchild := first_free fl\<rparr>)"
    by (simp add: w' set_context_freelist_def)
  have sh: "same_heap w w'"
    by (rule same_heap_upd[OF c(1) _ _ _ _ ctx']) (simp_all add: w' set_context_freelist_def heap_view_def)
  note sh' = same_heap_ok[OF sh ok'(1)]
  show "chunks G w' = chunks G w" "same_foreign G w G w'" by (fact sh')+
  have root: "parent s = 0" using s by (simp add: recyclable_def)
  have "links_ok T (modify c (\<lambda>s. s\<lparr>nextchild := first_free fl\<rparr>) (ctxs w))"
    by (rule links_ok_root[OF ok'(2) c(1) root]) (simp_all add: root)
  then have lk: "links_ok T (ctxs w')" using c(1) by (simp add: ctx' modify_def)
  have c0: "c \<noteq> 0" by (rule links_ok_nonzero[OF ok'(2) c(1)])
  have keep: "freelist_ok (ctxs w') j (F j) fl'" if "freelist_ok (ctxs w) j (F j) fl'" for j fl'
    by (rule freelist_ok_cong[OF _ that]) (use c(2) ctx' in auto)
  have new: "freelist_ok (ctxs w') i (c # F i) (fl\<lparr>first_free := c, num_free := num_free fl + 1\<rparr>)"
    using keep[OF fi] short c0 c(2) s ctx' by (auto simp: freelist_ok_def recyclable_def)
  have len: "length (context_freelists w) = 2" using ok'(3) by (simp add: freelists_ok_def)
  have "freelists_ok (F(i := c # F i)) w'"
    unfolding freelists_ok_def
  proof (intro conjI allI impI)
    show "length (context_freelists w') = 2" using len by (simp add: w' set_context_freelist_def)
    show "(F(i := c # F i)) j = []" if "2 \<le> j" for j using ok'(3) that i by (auto simp: freelists_ok_def)
    fix j :: nat assume j: "j < 2"
    have "freelist_ok (ctxs w) j (F j) (context_freelists w ! j)" using ok'(3) j by (simp add: freelists_ok_def)
    from keep[OF this] new show "freelist_ok (ctxs w') j ((F(i := c # F i)) j) (context_freelists w' ! j)"
      using len i by (auto simp: w' set_context_freelist_def)
  qed
  then show "lib_ok G T (F(i := c # F i)) w'" using sh'(1) lk by (simp add: lib_ok_def)
qed

lemma client_view_links:
  "client_view s' = client_view s \<Longrightarrow> links_of s' = links_of s"
  using client_view_fields[of s' s] by (simp add: links_of_def)

text \<open>
  \<open>AllocSetDelete\<close> of a context that has left the tree and whose callbacks have been called: it goes
  back to \<open>malloc\<close>, or to the freelist of its size, which is emptied first when it is full.
\<close>

lemma AllocSetDelete_listed:
  assumes ok: "lib_ok G T F w" and c: "ctxs w c = Some s" "c \<in> live F w"
    and s: "parent s = 0" "firstchild s = 0" "reset_cbs s = 0" "freeListIndex s = int i" and i: "i < 2"
  shows "\<exists>G' F' w'. AllocSetDelete cbf c w = Inr w' \<and> lib_ok G' T F' w' \<and> dropped G F w c G' F' w'"
proof -
  note ok' = lib_okD[OF ok]
  have cF: "c \<notin> set (F j)" for j using c(2) by (simp add: live_def)
  obtain G1 w1 s1 where r: "(if \<not> isReset s then MemoryContextResetOnly cbf c w else Inr w) = Inr w1"
    and h1: "heap_ok G1 w1" "chunks G1 w1 = other_chunks G w c" "mem w1 = mem w"
      "\<forall>a. foreign G w a \<longrightarrow> foreign G1 w1 a" "ctxs w1 = (ctxs w)(c \<mapsto> s1)" "isReset s1"
      "client_view s1 = client_view (s\<lparr>isReset := True\<rparr>)" "context_freelists w1 = context_freelists w"
      "same_globals w w1" "set (regions w1) \<subseteq> set (regions w)"
    using reset_if_needed[OF ok'(1) c(1) s(3), of cbf] by blast
  have ok1: "lib_ok G1 T F w1"
    by (rule lib_ok_ctx[OF ok c(1) cF h1(1,5) _ h1(8)])
      (use client_view_links[OF h1(7)] in \<open>simp add: links_of_def\<close>)
  have rec: "recyclable i s1"
    using client_view_fields[OF h1(7)] s h1(6) by (simp add: recyclable_def)
  let ?full = "MAX_FREE_CONTEXTS \<le> num_free (context_freelists w1 ! i)"
  obtain F2 w2 where d: "(if ?full then discard_context_freelist (int i) w1 else Inr w1) = Inr w2"
    and ok2: "lib_ok G1 T F2 w2" and gone2: "gone G1 (if ?full then set (F i) else {}) w1 w2"
    and F2: "F2 = (if ?full then F(i := []) else F)"
    using discard_run[OF ok1 i] ok1 gone_refl[of G1 w1] by (cases ?full) auto
  let ?X = "if ?full then set (F i) else {}"
  have c2: "ctxs w2 c = Some s1" using gone2 cF[of i] h1(5) by (auto simp: gone_def)
  have cF2: "c \<notin> set (F2 j)" for j using cF by (simp add: F2)
  have fi: "freelist_ok (ctxs w1) i (F i) (context_freelists w1 ! i)"
    using lib_okD(3)[OF ok1] i by (simp add: freelists_ok_def)
  have short: "int (length (F2 i)) < MAX_FREE_CONTEXTS"
    using fi by (auto simp: F2 freelist_ok_def MAX_FREE_CONTEXTS_def)
  define w3 where "w3 = set_context_freelist (int i) ((context_freelists w2 ! i)
      \<lparr>first_free := c, num_free := num_free (context_freelists w2 ! i) + 1\<rparr>)
      (w2\<lparr>ctxs := (ctxs w2)(c \<mapsto> s1\<lparr>nextchild := first_free (context_freelists w2 ! i)\<rparr>)\<rparr>)"
  note pc = push_context[OF ok2 c2 cF2 rec i short w3_def refl]
  have run: "AllocSetDelete cbf c w = Inr w3"
  proof -
    obtain K where K: "blks w (KeeperBlock c) = Some K" by (rule keeper_size[OF ok'(1) c(1)])
    have g1: "get_context_freelist w1 (int i) = Inr (context_freelists w1 ! i)"
      by (rule get_context_freelist_ok[OF lib_okD(3)[OF ok1] i])
    have g2: "get_context_freelist w2 (int i) = Inr (context_freelists w2 ! i)"
      by (rule get_context_freelist_ok[OF lib_okD(3)[OF ok2] i])
    show ?thesis
      using r d s(4) c2
      by (simp add: AllocSetDelete_def get_ctx_def c(1) valid_ctx[OF ok'(1) c(1)] get_blk_def K Let_def
          g1 g2 upd_ctx_def w3_def cong: if_cong)
  qed
  let ?F = "F2(i := c # F2 i)"
  have ctx3: "ctxs w3 d = (if d = c then Some (s1\<lparr>nextchild := first_free (context_freelists w2 ! i)\<rparr>)
      else if d \<in> ?X then None else ctxs w d)" for d
    using gone2 h1(5) by (simp add: w3_def set_context_freelist_def gone_def)
  have "dropped G F w c G1 ?F w3"
    unfolding dropped_def
  proof (intro conjI allI impI ballI)
    show "set (regions w3) \<subseteq> set (regions w)"
      using gone2 h1(10) by (auto simp: gone_def w3_def set_context_freelist_def)
    show "live ?F w3 = live F w - {c}"
    proof (intro set_eqI)
      fix d
      have "d \<in> live ?F w3 \<longleftrightarrow> d \<noteq> c \<and> d \<notin> ?X \<and> ctxs w d \<noteq> None \<and> (\<forall>j. d \<notin> set (?F j))"
        by (auto simp: live_def ctx3 intro!: exI[of _ i])
      also have "\<dots> \<longleftrightarrow> d \<in> live F w - {c}"
        by (auto simp: live_def F2 split: if_splits)
      finally show "d \<in> live ?F w3 \<longleftrightarrow> d \<in> live F w - {c}" .
    qed
    show "chunks G1 w3 = other_chunks G w c" using pc(2) gone2 h1(2) by (simp add: gone_def)
    show "mem w3 = mem w" using gone2 h1(3) by (simp add: w3_def set_context_freelist_def gone_def)
    show "foreign G1 w3 a" if "foreign G w a" for a
      using that h1(4) gone2 pc(3) by (simp add: gone_def same_foreign_def)
    show "ctxs w3 d = ctxs w d" if "d \<in> live F w - {c}" for d
      using that ctx3[of d] by (auto simp: live_def)
    show "same_globals w w3"
      using h1(9) gone2 by (simp add: same_globals_def gone_def w3_def set_context_freelist_def)
  qed
  then show ?thesis using run pc(1) by blast
qed

lemma no_children:
  assumes ok: "links_ok T C" and c: "C c = Some s"
  shows "firstchild s = 0 \<longleftrightarrow> T c = []"
  using links_ok_firstchild[OF ok c] dseg_nonzero[OF links_okD(4)[OF ok, of c]] by (cases "T c") auto

lemma AllocSetDelete_gone:
  assumes ok: "lib_ok G T F w" and c: "ctxs w c = Some s" "c \<in> live F w"
    and s: "parent s = 0" "firstchild s = 0" "freeListIndex s < 0"
  shows "\<exists>w'. AllocSetDelete cbf c w = Inr w' \<and> lib_ok G T F w' \<and> dropped G F w c G F w'"
proof -
  note ok' = lib_okD[OF ok]
  let ?w = "without_context G w c"
  note hw = heap_without_context[OF ok'(1) c(1)]
  have ctx: "ctxs ?w = (ctxs w)(c := None)" by (simp add: without_context_def)
  have cF: "c \<notin> set (F j)" for j using c(2) by (simp add: live_def)
  have "T c = []" using no_children[OF ok'(2) c(1)] s(2) by simp
  then have lk: "links_ok T (ctxs ?w)" using links_ok_remove[OF ok'(2) c(1) s(1)] ctx by simp
  have "freelist_ok (ctxs ?w) i (F i) (context_freelists w ! i)" if "i < 2" for i
  proof (rule freelist_ok_cong)
    show "freelist_ok (ctxs w) i (F i) (context_freelists w ! i)"
      using ok'(3) that by (simp add: freelists_ok_def)
  qed (use cF ctx in auto)
  then have "lib_ok G T F ?w"
    using hw(1) lk ok'(3) by (simp add: lib_ok_def freelists_ok_def) (simp add: without_context_def)
  moreover have "dropped G F w c G F ?w"
    unfolding dropped_def
  proof (intro conjI)
    show "\<forall>a. foreign G w a \<longrightarrow> foreign G ?w a" using hw(3) by (simp add: same_foreign_def)
  qed (use hw(2) ctx in \<open>auto simp: live_def same_globals_def without_context_def split: if_splits\<close>)
  ultimately show ?thesis using AllocSetDelete_unlisted[OF ok'(1) c(1) s(3)] by blast
qed

text \<open>\<open>AllocSetDelete\<close> of any context that has left the tree and whose callbacks were called.\<close>

lemma AllocSetDelete_run:
  assumes ok: "lib_ok G T F w" and c: "ctxs w c = Some s" "c \<in> live F w"
    and s: "parent s = 0" "firstchild s = 0" "reset_cbs s = 0"
  shows "\<exists>G' F' w'. AllocSetDelete cbf c w = Inr w' \<and> lib_ok G' T F' w' \<and> dropped G F w c G' F' w'"
proof (cases "freeListIndex s < 0")
  case True
  show ?thesis using AllocSetDelete_gone[OF ok c s(1,2) True, of cbf] by blast
next
  case False
  have "params_ok c s (G c)" by (rule ctx_params[OF lib_okD(1)[OF ok] c(1)])
  then have "freeListIndex s = int 0 \<or> freeListIndex s = int 1" using False by (auto simp: params_ok_def)
  then have "\<exists>i. freeListIndex s = int i \<and> i < 2" by (elim disjE) (auto intro!: exI[of _ "0 :: nat"] exI[of _ "1 :: nat"])
  then obtain i :: nat where i: "freeListIndex s = int i" "i < 2" by blast
  show ?thesis by (rule AllocSetDelete_listed[OF ok c s i])
qed

section \<open>Deleting contexts of the tree\<close>

text \<open>Bytes that are there until after the contexts \<open>D\<close> are gone.\<close>

definition outlives :: "(addr \<Rightarrow> ghost) \<Rightarrow> world \<Rightarrow> addr set \<Rightarrow> addr \<Rightarrow> bool" where
  "outlives G w D a \<longleftrightarrow>
     foreign G w a \<or> (\<exists>p d n. (p, d, n) \<in> chunks G w \<and> d \<notin> D \<and> p \<le> a \<and> a < p + n)"

text \<open>
  What deleting the contexts \<open>D\<close> relies on: the callbacks, \<open>cbs x\<close> for context \<open>x\<close>, are linked in
  memory that lives at least as long as the context they are registered for; calls write only to the
  memory \<open>A\<close>, which holds none of them and is not in the contexts to delete; and none of these is
  the top context or the current one.
\<close>

definition deletable :: "(addr \<Rightarrow> ghost) \<Rightarrow> world \<Rightarrow> addr set \<Rightarrow> callbacks \<Rightarrow> (addr \<Rightarrow> addr list)
    \<Rightarrow> addr set \<Rightarrow> bool" where
  "deletable G w A cbf cbs D \<longleftrightarrow>
     quiet A cbf \<and> (\<forall>a \<in> A. outlives G w D a)
     \<and> (\<forall>x \<in> D. x \<noteq> TopMemoryContext w \<and> x \<noteq> CurrentMemoryContext w
          \<and> (\<exists>s. ctxs w x = Some s \<and> cb_list w (reset_cbs s) (cbs x))
          \<and> A \<inter> cb_bytes (cbs x) = {} \<and> (\<forall>a \<in> cb_bytes (cbs x). outlives G w (D - {x}) a))"

text \<open>
  The contexts \<open>xs\<close> have been deleted in this order, every one after its callbacks were called.
\<close>

definition deleted :: "(addr \<Rightarrow> ghost) \<Rightarrow> (addr \<Rightarrow> addr list) \<Rightarrow> (nat \<Rightarrow> addr list) \<Rightarrow> world
    \<Rightarrow> addr set \<Rightarrow> (addr \<Rightarrow> addr list) \<Rightarrow> addr list
    \<Rightarrow> (addr \<Rightarrow> ghost) \<Rightarrow> (addr \<Rightarrow> addr list) \<Rightarrow> (nat \<Rightarrow> addr list) \<Rightarrow> world \<Rightarrow> bool" where
  "deleted G T F w A cbs xs G' T' F' w' \<longleftrightarrow>
     lib_ok G' T' F' w' \<and> T' = (\<lambda>p. filter (\<lambda>x. x \<notin> set xs) (T p))
     \<and> live F' w' = live F w - set xs
     \<and> chunks G' w' = {(p, d, n) \<in> chunks G w. d \<notin> set xs}
     \<and> (\<forall>a. a \<notin> A \<longrightarrow> mem w' a = mem w a) \<and> (\<forall>a. foreign G w a \<longrightarrow> foreign G' w' a)
     \<and> set (regions w') \<subseteq> set (regions w)
     \<and> (\<forall>d \<in> live F w - set xs. map_option strip_links (ctxs w' d) = map_option strip_links (ctxs w d))
     \<and> calls w' = calls w @ concat (map (\<lambda>x. map (cb_entry (mem w)) (cbs x)) xs)
     \<and> CurrentMemoryContext w' = CurrentMemoryContext w \<and> TopMemoryContext w' = TopMemoryContext w
     \<and> ErrorContext w' = ErrorContext w"

lemma deleted_Nil: "lib_ok G T F w \<Longrightarrow> deleted G T F w A cbs [] G T F w"
  by (simp add: deleted_def)

lemma deleted_trans:
  assumes 1: "deleted G T F w A cbs xs G1 T1 F1 w1" and 2: "deleted G1 T1 F1 w1 A cbs ys G2 T2 F2 w2"
    and apart: "\<And>y. y \<in> set ys \<Longrightarrow> A \<inter> cb_bytes (cbs y) = {}"
  shows "deleted G T F w A cbs (xs @ ys) G2 T2 F2 w2"
proof -
  note d1 = 1[unfolded deleted_def] and d2 = 2[unfolded deleted_def]
  have cb: "map (cb_entry (mem w1)) (cbs y) = map (cb_entry (mem w)) (cbs y)" if y: "y \<in> set ys" for y
  proof (rule map_cong[OF refl])
    fix x assume "x \<in> set (cbs y)"
    then have "a \<notin> A" if "x \<le> a" "a < x + 24" for a
      using apart[OF y] that by (auto simp: cb_bytes_def)
    then show "cb_entry (mem w1) x = cb_entry (mem w) x" using d1 by (intro cb_entry_cong) auto
  qed
  then have eq: "map (\<lambda>x. map (cb_entry (mem w1)) (cbs x)) ys = map (\<lambda>x. map (cb_entry (mem w)) (cbs x)) ys"
    by (intro map_cong) auto
  have calls: "calls w2 = calls w @ concat (map (\<lambda>x. map (cb_entry (mem w)) (cbs x)) (xs @ ys))"
  proof -
    have "calls w2 = calls w1 @ concat (map (\<lambda>x. map (cb_entry (mem w1)) (cbs x)) ys)"
      "calls w1 = calls w @ concat (map (\<lambda>x. map (cb_entry (mem w)) (cbs x)) xs)"
      using d1 d2 by blast+
    then show ?thesis unfolding eq by simp
  qed
  have T: "T2 = (\<lambda>p. filter (\<lambda>x. x \<notin> set (xs @ ys)) (T p))"
    using d1 d2 by (auto intro: filter_cong)
  have L: "live F2 w2 = live F w - set (xs @ ys)" using d1 d2 by auto
  have X: "chunks G2 w2 = {(p, d, n) \<in> chunks G w. d \<notin> set (xs @ ys)}" using d1 d2 by auto
  have S: "\<forall>d \<in> live F w - set (xs @ ys). map_option strip_links (ctxs w2 d) = map_option strip_links (ctxs w d)"
    using d1 d2 by auto
  show ?thesis
    unfolding deleted_def using T L X S calls d1 d2 by (intro conjI) (blast | simp)+
qed

lemma outlives_deleted:
  assumes "deleted G T F w A cbs xs G' T' F' w'" and "outlives G w E a" and "set xs \<subseteq> E"
  shows "outlives G' w' (E - set xs) a"
  using assms unfolding deleted_def outlives_def by blast

text \<open>A struct stays in one region while its bytes stay allocated and no region is added.\<close>

lemma in_region_stays:
  assumes reg: "regions_ok (regions w)" and sub: "set (regions w') \<subseteq> set (regions w)"
    and x: "in_region w x n" "0 < n" and x': "in_region w' x 1"
  shows "in_region w' x n"
proof -
  obtain r k where r: "(r, k) \<in> set (regions w)" "r \<le> x" "x + n \<le> r + k"
    using x(1) by (auto simp: in_region_iff)
  obtain r' k' where r': "(r', k') \<in> set (regions w')" "r' \<le> x" "x + 1 \<le> r' + k'"
    using x' by (auto simp: in_region_iff)
  have "(r, k) = (r', k')"
    using regions_ok_disjoint[OF reg r(1), of r' k'] r' sub r(2,3) x(2) by auto
  then show ?thesis using r(2,3) r'(1) by (auto simp: in_region_iff)
qed

lemma outlives_region:
  assumes "heap_ok G w" and "outlives G w D a"
  shows "in_region w a 1" and "client_owned G w a"
proof -
  show "client_owned G w a" using assms(2) by (auto simp: outlives_def client_owned_def foreign_def)
  show "in_region w a 1"
  proof (cases "foreign G w a")
    case False
    then obtain p d n where pd: "(p, d, n) \<in> chunks G w" "p \<le> a" "a < p + n"
      using assms(2) by (auto simp: outlives_def)
    have "in_region w (p - 8) (8 + n)" "8 \<le> p" using chunk_facts[OF assms(1) pd(1)] by auto
    then show ?thesis using pd(2,3) in_region_sub[of w "p - 8" "8 + n" a 1] by simp
  qed (simp add: foreign_def)
qed

lemma cb_list_stays:
  assumes "cb_list w a cbs" and "\<And>x. x \<in> cb_bytes cbs \<Longrightarrow> mem w' x = mem w x"
    and "\<And>x. x \<in> set cbs \<Longrightarrow> in_region w' x 24"
  shows "cb_list w' a cbs"
  using assms
proof (induction cbs arbitrary: a)
  case (Cons x xs)
  have "load64 (mem w') (cb_next x) = load64 (mem w) (cb_next x)"
    by (rule load64_cong) (rule Cons.prems(2), auto simp: cb_bytes_def cb_next_def)
  moreover have "cb_list w' (unat (load64 (mem w) (cb_next x))) xs"
  proof (rule Cons.IH)
    show "cb_list w (unat (load64 (mem w) (cb_next x))) xs" using Cons.prems(1) by simp
    show "mem w' y = mem w y" if "y \<in> cb_bytes xs" for y
      by (rule Cons.prems(2)) (use that in \<open>auto simp: cb_bytes_def\<close>)
  qed (use Cons.prems(3) in simp)
  ultimately show ?case using Cons.prems(1,3) by simp
qed simp

lemma cb_list_region: "cb_list w a cbs \<Longrightarrow> x \<in> set cbs \<Longrightarrow> in_region w x 24"
  by (induction cbs arbitrary: a) auto

text \<open>What a deletion relies on still holds for the contexts that are left.\<close>

lemma deletable_deleted:
  assumes ok: "heap_ok G w" and d: "deleted G T F w A cbs xs G' T' F' w'"
    and del: "deletable G w A cbf cbs D" and sub: "set xs \<subseteq> D" "D \<subseteq> live F w"
  shows "deletable G' w' A cbf cbs (D - set xs)"
  unfolding deletable_def
proof (intro conjI ballI)
  note d' = d[unfolded deleted_def] and del' = del[unfolded deletable_def]
  have ok': "heap_ok G' w'" using d' by (simp add: lib_ok_def)
  show "quiet A cbf" using del' by blast
  show "outlives G' w' (D - set xs) a" if "a \<in> A" for a
    by (rule outlives_deleted[OF d _ sub(1)]) (use del' that in blast)
  fix x assume x: "x \<in> D - set xs"
  show "x \<noteq> TopMemoryContext w'" "x \<noteq> CurrentMemoryContext w'" using d' del' x by auto
  show "A \<inter> cb_bytes (cbs x) = {}" using del' x by blast
  show ol: "outlives G' w' (D - set xs - {x}) a" if "a \<in> cb_bytes (cbs x)" for a
  proof -
    have "outlives G' w' (D - {x} - set xs) a"
      by (rule outlives_deleted[OF d]) (use del' that x sub(1) in blast)+
    moreover have "D - {x} - set xs = D - set xs - {x}" by blast
    ultimately show ?thesis by metis
  qed
  obtain s where s: "ctxs w x = Some s" "cb_list w (reset_cbs s) (cbs x)" using del' x by blast
  have "map_option strip_links (ctxs w' x) = map_option strip_links (ctxs w x)" using d' x sub(2) by blast
  then have "map_option strip_links (ctxs w' x) = Some (strip_links s)" using s(1) by simp
  then obtain s' where s': "ctxs w' x = Some s'" "strip_links s' = strip_links s" by auto
  have eq: "reset_cbs s' = reset_cbs s"
    using s'(2) by (cases s; cases s') (simp add: strip_links_def AllocSetContext.defs)
  have "cb_list w' (reset_cbs s') (cbs x)"
    unfolding eq
  proof (rule cb_list_stays[OF s(2)])
    show "mem w' y = mem w y" if y: "y \<in> cb_bytes (cbs x)" for y
    proof -
      have "A \<inter> cb_bytes (cbs x) = {}" using del' x by blast
      then have "y \<notin> A" using y by blast
      moreover have "\<forall>a. a \<notin> A \<longrightarrow> mem w' a = mem w a" using d' by blast
      ultimately show ?thesis by blast
    qed
    fix y assume y: "y \<in> set (cbs x)"
    then have "y \<in> cb_bytes (cbs x)" by (auto simp: cb_bytes_def)
    then have y1: "in_region w' y 1" by (rule outlives_region(1)[OF ok' ol])
    have y24: "in_region w y 24" by (rule cb_list_region[OF s(2) y])
    have "set (regions w') \<subseteq> set (regions w)" using d' by blast
    then show "in_region w' y 24"
      by (rule in_region_stays[OF heap_okD(1)[OF ok] _ y24 _ y1]) simp
  qed
  then show "\<exists>s. ctxs w' x = Some s \<and> cb_list w' (reset_cbs s) (cbs x)" using s'(1) by blast
qed

lemma strip_links_fields:
  assumes "strip_links s' = strip_links s"
  shows "reset_cbs s' = reset_cbs s" "freeListIndex s' = freeListIndex s" "methods s' = methods s"
    "isReset s' = isReset s" "ctx_type s' = ctx_type s" "mem_allocated s' = mem_allocated s"
  using assms by (cases s; cases s'; simp add: strip_links_def AllocSetContext.defs)+

lemma only_links_ctx:
  assumes "only_links C C'" and "C c = Some s"
  obtains s' where "C' c = Some s'" "strip_links s' = strip_links s"
proof -
  have "map_option strip_links (C' c) = Some (strip_links s)" using assms by (simp add: only_links_def)
  then show ?thesis using that by auto
qed

text \<open>Unlinking a context from its parent does not touch the freelists.\<close>

lemma unlink_keeps:
  assumes ok: "lib_ok G T F w" and c: "ctxs w c = Some s" "c \<in> live F w"
  shows "\<exists>C' s'. MemoryContextSetParent c 0 w = Inr (w\<lparr>ctxs := C'\<rparr>) \<and> only_links (ctxs w) C'
    \<and> lib_ok G (T(parent s := remove1 c (T (parent s)))) F (w\<lparr>ctxs := C'\<rparr>)
    \<and> C' c = Some s' \<and> strip_links s' = strip_links s \<and> parent s' = 0"
proof -
  note ok' = lib_okD[OF ok]
  have c0: "0 \<noteq> c" using links_ok_nonzero[OF ok'(2) c(1)] by simp
  let ?T = "T(parent s := remove1 c (T (parent s)))"
  obtain C' where C': "MemoryContextSetParent c 0 w = Inr (w\<lparr>ctxs := C'\<rparr>)" "only_links (ctxs w) C'"
    "links_ok (if 0 = parent s then T else moved_child c (parent s) 0 T) C'"
    "\<forall>d. d \<notin> {c, parent s, 0} \<union> set (T (parent s)) \<union> set (T 0) \<longrightarrow> C' d = ctxs w d"
    using SetParent_run[OF ok'(1,2) c(1) c0] by auto
  have "(if 0 = parent s then T else moved_child c (parent s) 0 T) = ?T"
    using links_ok_no_zero[OF ok'(2)] by (auto simp: moved_child_def)
  then have lk: "links_ok ?T C'" using C'(3) by simp
  obtain s' where s': "C' c = Some s'" "strip_links s' = strip_links s"
    by (rule only_links_ctx[OF C'(2) c(1)])
  have "c \<notin> set (?T p)" for p
    using links_okD(5)[OF ok'(2), of "parent s"] links_okD(6)[OF ok'(2), of c p] c(1) by auto
  then have par: "parent s' = 0" using links_okD(6)[OF lk, of c "parent s'"] s'(1) by auto
  have "freelist_ok C' i (F i) (context_freelists w ! i)" if i: "i < 2" for i
  proof (rule freelist_ok_cong)
    show "freelist_ok (ctxs w) i (F i) (context_freelists w ! i)"
      using ok'(3) i by (simp add: freelists_ok_def)
    fix x u assume x: "x \<in> set (F i)" "ctxs w x = Some u" "recyclable i u"
    have "x \<noteq> c" using c(2) x(1) by (auto simp: live_def)
    moreover have "x \<noteq> 0" by (rule links_ok_nonzero[OF ok'(2) x(2)])
    moreover have "x \<notin> set (T p)" for p
      by (rule root_no_child[OF ok'(2) x(2)]) (use x(3) in \<open>simp add: recyclable_def\<close>)
    moreover have "x \<noteq> parent s"
    proof
      assume eq: "x = parent s"
      then have "c \<in> set (T x)" using links_ok_parent(1)[OF ok'(2) c(1)] \<open>x \<noteq> 0\<close> by simp
      moreover have "T x = []" using no_children[OF ok'(2) x(2)] x(3) by (simp add: recyclable_def)
      ultimately show False by simp
    qed
    ultimately have "C' x = ctxs w x" using C'(4) by simp
    then show "\<exists>s'. C' x = Some s' \<and> nextchild s' = nextchild u \<and> recyclable i s'" using x by simp
  qed
  then have "freelists_ok F (w\<lparr>ctxs := C'\<rparr>)" using ok'(3) by (simp add: freelists_ok_def)
  moreover have "heap_ok G (w\<lparr>ctxs := C'\<rparr>)"
    by (rule same_heap_ok(1)[OF only_links_same_heap[OF C'(2)] ok'(1)])
  ultimately have "lib_ok G ?T F (w\<lparr>ctxs := C'\<rparr>)" using lk by (simp add: lib_ok_def)
  then show ?thesis using C'(1,2) s' par by blast
qed

lemma filter_out_child:
  assumes ok: "links_ok T C" and c: "C c = Some s"
  shows "T(parent s := remove1 c (T (parent s))) = (\<lambda>p. filter (\<lambda>x. x \<notin> set [c]) (T p))"
proof
  fix p
  have "c \<notin> set (T p)" if "p \<noteq> parent s" using links_okD(6)[OF ok, of c p] c that by auto
  moreover have "remove1 c (T p) = filter (\<lambda>x. x \<noteq> c) (T p)"
    using links_okD(5)[OF ok, of p] by (simp add: distinct_remove1_removeAll removeAll_filter_not_eq eq_commute)
  ultimately show "(T(parent s := remove1 c (T (parent s)))) p = filter (\<lambda>x. x \<notin> set [c]) (T p)"
    by (auto simp: filter_id_conv intro!: sym[OF filter_id_conv[THEN iffD2]])
qed

lemma same_heap_live: "same_heap w w' \<Longrightarrow> live F w' = live F w"
  using same_heap_None[of w w'] by (auto simp: live_def)

lemma same_heap_foreign:
  "same_heap w w' \<Longrightarrow> heap_ok G w \<Longrightarrow> foreign G w a \<Longrightarrow> foreign G w' a"
  using same_heap_ok(3)[of w w' G] by (simp add: same_foreign_def)

lemma DeleteOnly_run:
  assumes ok: "lib_ok G T F w" and c: "c \<in> D" "D \<subseteq> live F w" "T c = []"
    and del: "deletable G w A cbf cbs D"
  shows "\<exists>G' T' F' w'. MemoryContextDeleteOnly cbf c w = Inr w' \<and> deleted G T F w A cbs [c] G' T' F' w'"
proof -
  note ok' = lib_okD[OF ok] and del' = del[unfolded deletable_def]
  obtain s where s: "ctxs w c = Some s" "cb_list w (reset_cbs s) (cbs c)" using del' c(1) by blast
  have cl: "c \<in> live F w" using c by blast
  then have cF: "c \<notin> set (F j)" for j by (simp add: live_def)
  have "client_owned G w a" if "a \<in> A" for a
    using del' that outlives_region(2)[OF ok'(1)] by blast
  then have al: "callbacks_allowed G w A (cbs c) cbf"
    using del' c(1) unfolding callbacks_allowed_def by blast
  obtain m where m: "MemoryContextCallResetCallbacks cbf c w = Inr (after_callbacks w c s (cbs c) m)"
    "\<And>x. x \<notin> A \<Longrightarrow> m x = mem w x" "heap_ok G (after_callbacks w c s (cbs c) m)"
    "chunks G (after_callbacks w c s (cbs c) m) = chunks G w"
    "lib_bytes G (after_callbacks w c s (cbs c) m) = lib_bytes G w"
    by (rule callbacks_heap[OF ok'(1) s al]) blast
  define w1 where "w1 = after_callbacks w c s (cbs c) m"
  note m = m[folded w1_def]
  define s1 where "s1 = s\<lparr>reset_cbs := 0\<rparr>"
  have c1: "ctxs w1 = (ctxs w)(c \<mapsto> s1)" by (simp add: w1_def s1_def after_callbacks_def)
  have ok1: "lib_ok G T F w1"
    by (rule lib_ok_ctx[OF ok s(1) cF m(3) c1]) (simp_all add: s1_def links_of_def w1_def after_callbacks_def)
  have live1: "live F w1 = live F w" using s(1) by (auto simp: live_def c1)
  have fo1: "foreign G w1 a" if "foreign G w a" for a
    using that m(5) by (simp add: foreign_def in_region_def) (simp add: w1_def after_callbacks_def)
  have s1: "ctxs w1 c = Some s1" by (simp add: c1)
  obtain C' s2 where C': "MemoryContextSetParent c 0 w1 = Inr (w1\<lparr>ctxs := C'\<rparr>)" "only_links (ctxs w1) C'"
    "lib_ok G (T(parent s1 := remove1 c (T (parent s1)))) F (w1\<lparr>ctxs := C'\<rparr>)"
    "C' c = Some s2" "strip_links s2 = strip_links s1" "parent s2 = 0"
    using unlink_keeps[OF ok1 s1] cl live1 by blast
  define w2 where "w2 = w1\<lparr>ctxs := C'\<rparr>"
  define T' where "T' = (\<lambda>p. filter (\<lambda>x. x \<notin> set [c]) (T p))"
  have ok2: "lib_ok G T' F w2"
    using C'(3) unfolding T'_def w2_def filter_out_child[OF lib_okD(2)[OF ok1] s1] .
  have sh2: "same_heap w1 w2" unfolding w2_def by (rule only_links_same_heap[OF C'(2)])
  have s2: "ctxs w2 c = Some s2" by (simp add: w2_def C'(4))
  define s3 where "s3 = s2\<lparr>ident := 0\<rparr>"
  define w3 where "w3 = w2\<lparr>ctxs := (ctxs w2)(c \<mapsto> s3)\<rparr>"
  have c3: "ctxs w3 = (ctxs w2)(c \<mapsto> s3)" by (simp add: w3_def)
  have sh3: "same_heap w2 w3"
    by (rule same_heap_upd[OF s2 _ _ _ _ c3]) (simp_all add: s3_def heap_view_def w3_def)
  have sh: "same_heap w1 w3" by (rule same_heap_trans[OF sh2 sh3])
  note sh' = same_heap_ok[OF sh m(3)]
  have ok3: "lib_ok G T' F w3"
    by (rule lib_ok_ctx[OF ok2 s2 cF sh'(1) c3]) (simp_all add: s3_def links_of_def w3_def)
  have live3: "live F w3 = live F w" using same_heap_live[OF sh] live1 by simp
  have f: "reset_cbs s3 = 0" "parent s3 = 0" "methods s3 = MCTX_ASET_ID"
    using strip_links_fields[OF C'(5)] C'(6) ctx_params[OF ok'(1) s(1)]
    by (simp_all add: s3_def s1_def params_ok_def)
  have cT: "T' c = []" using c(3) by (simp add: T'_def)
  have s3: "ctxs w3 c = Some s3" by (simp add: c3)
  have fc: "firstchild s3 = 0" using no_children[OF lib_okD(2)[OF ok3] s3] cT by simp
  have cl3: "c \<in> live F w3" using live3 cl by simp
  obtain G' F' w' where w': "AllocSetDelete cbf c w3 = Inr w'" "lib_ok G' T' F' w'" "dropped G F w3 c G' F' w'"
    using AllocSetDelete_run[OF ok3 s3 cl3 f(2) fc f(1)] by blast
  have run: "MemoryContextDeleteOnly cbf c w = Inr w'"
  proof -
    have "firstchild s = 0" using no_children[OF ok'(2) s(1)] c(3) by simp
    moreover have "c \<noteq> TopMemoryContext w" "c \<noteq> CurrentMemoryContext w" using del' c(1) by blast+
    moreover have "MemoryContextSetParent c 0 w1 = Inr w2" using C'(1) by (simp add: w2_def)
    ultimately show ?thesis
      using m(1) w'(1) f(3) s2
      by (simp add: MemoryContextDeleteOnly_def valid_ctx[OF ok'(1) s(1)] s(1) get_ctx_def upd_ctx_def
          s3_def[symmetric] w3_def[symmetric] s3 mcxt_delete_context_def assertE_def)
  qed
  note dr = w'(3)[unfolded dropped_def same_globals_def]
  have eqs: "mem w3 = m" "regions w3 = regions w" "calls w3 = calls w @ map (cb_entry (mem w)) (cbs c)"
    "CurrentMemoryContext w3 = CurrentMemoryContext w" "TopMemoryContext w3 = TopMemoryContext w"
    "ErrorContext w3 = ErrorContext w"
    by (simp_all add: w3_def w2_def w1_def after_callbacks_def)
  have "deleted G T F w A cbs [c] G' T' F' w'"
    unfolding deleted_def
  proof (intro conjI allI impI ballI)
    show "lib_ok G' T' F' w'" by (rule w'(2))
    show "T' = (\<lambda>p. filter (\<lambda>x. x \<notin> set [c]) (T p))" by (simp add: T'_def)
    show "live F' w' = live F w - set [c]" using dr live3 by simp
    have "chunks G w3 = chunks G w" using sh'(2) m(4) by simp
    then have "other_chunks G w3 c = {(p, d, n) \<in> chunks G w. d \<noteq> c}" by (simp add: other_chunks_def)
    then show "chunks G' w' = {(p, d, n) \<in> chunks G w. d \<notin> set [c]}" using dr by simp
    show "mem w' a = mem w a" if "a \<notin> A" for a using dr eqs(1) m(2)[OF that] by simp
    show "foreign G' w' a" if "foreign G w a" for a
      using dr same_heap_foreign[OF sh m(3) fo1[OF that]] by blast
    show "set (regions w') \<subseteq> set (regions w)" using dr eqs(2) by simp
    show "map_option strip_links (ctxs w' d) = map_option strip_links (ctxs w d)"
      if d: "d \<in> live F w - set [c]" for d
    proof -
      have "ctxs w' d = ctxs w3 d" using dr live3 d by simp
      also have "\<dots> = C' d" using d by (simp add: c3 w2_def)
      finally show ?thesis using C'(2) d c1 by (simp add: only_links_def)
    qed
    show "calls w' = calls w @ concat (map (\<lambda>x. map (cb_entry (mem w)) (cbs x)) [c])"
      using dr eqs(3) by simp
  qed (use dr eqs in simp_all)
  then show ?thesis using run by blast
qed

end
