(* ===== verification/SubtreeProofs.thy ===== *)
theory SubtreeProofs
  imports DeleteProofs
begin

text \<open>
  Deleting and resetting a context with all its descendants: the loop of \<open>MemoryContextDelete\<close> goes
  through the subtree in postorder, \<open>MemoryContextReset\<close> deletes the descendants and empties the
  context itself.
\<close>

unbundle bit_operations_syntax

section \<open>Deleting a subtree\<close>

fun postorder :: "ctree \<Rightarrow> addr list" where
  "postorder (CNode c ts) = concat (map postorder ts) @ [c]"

lemma set_postorder [simp]: "set (postorder t) = set (preorder t)"
  by (induction t) auto

lemma descend_leaf:
  "ctxs w c = Some s \<Longrightarrow> firstchild s = 0 \<Longrightarrow> descend_to_leaf w c = Inr c"
  by (simp add: descend_to_leaf_def get_ctx_def loopE_stop)

lemma descend_child:
  "ctxs w c = Some s \<Longrightarrow> firstchild s \<noteq> 0 \<Longrightarrow> ctxs w (firstchild s) = Some k
   \<Longrightarrow> descend_to_leaf w c = descend_to_leaf w (firstchild s)"
  by (simp add: descend_to_leaf_def get_ctx_def loopE_step)

abbreviation delete_loop :: "callbacks \<Rightarrow> addr \<Rightarrow> addr \<times> bool \<times> world \<Rightarrow> error + addr \<times> bool \<times> world" where
  "delete_loop cbf context \<equiv> loopE (\<lambda>(cur, brk, w). \<not> brk) (delete_step cbf context)"

text \<open>The loop goes down to the first child before it deletes anything.\<close>

lemma delete_loop_child:
  assumes "ctxs w c = Some s" and "firstchild s \<noteq> 0" and "ctxs w (firstchild s) = Some k"
  shows "delete_loop cbf context (c, False, w) = delete_loop cbf context (firstchild s, False, w)"
proof -
  have "delete_step cbf context (c, False, w) = delete_step cbf context (firstchild s, False, w)"
    unfolding delete_step_def prod.case descend_child[OF assms] by (rule refl)
  then show ?thesis by (subst (1 2) loopE_unfold) simp
qed

lemma delete_loop_leaf:
  assumes c: "ctxs w c = Some s" "firstchild s = 0" and d: "MemoryContextDeleteOnly cbf c w = Inr w'"
  shows "delete_loop cbf context (c, False, w)
    = (if c = context then Inr (c, True, w') else delete_loop cbf context (parent s, False, w'))"
proof -
  have "delete_step cbf context (c, False, w)
      = (if c = context then Inr (c, True, w') else Inr (parent s, False, w'))"
    using descend_leaf[OF c] c(1) d by (simp add: delete_step_def get_ctx_def)
  then show ?thesis by (cases "c = context") (simp_all add: loopE_step loopE_stop)
qed

lemma shape_cong:
  assumes "shape T t" and "\<And>x. x \<in> set (preorder t) \<Longrightarrow> T' x = T x"
  shows "shape T' t"
  using assms
proof (induction t)
  case (CNode c ts)
  have "shape T' t" if "t \<in> set ts" for t
    by (rule CNode.IH[OF that]) (use CNode.prems that in auto)
  then show ?case using CNode.prems by simp
qed

lemma kids_in_preorder:
  "shape T t \<Longrightarrow> x \<in> set (preorder t) \<Longrightarrow> set (T x) \<subseteq> set (preorder t)"
proof (induction t)
  case (CNode c ts)
  show ?case
  proof (cases "x = c")
    case True
    then have "set (T x) = root ` set ts" using CNode.prems(1) by (metis list.set_map shape.simps)
    then show ?thesis by auto
  next
    case False
    then show ?thesis using CNode.IH CNode.prems by fastforce
  qed
qed

text \<open>The first child has been deleted with its descendants: what the links look like then.\<close>

lemma forest_rest:
  assumes lk: "links_ok T C" and sh: "shape T (CNode c (t # ts))"
    and T': "T' = (\<lambda>p. filter (\<lambda>x. x \<notin> set (postorder t)) (T p))"
  shows "shape T' (CNode c ts)" and "set (preorder t) \<inter> set (preorder (CNode c ts)) = {}"
proof -
  have dist: "distinct (preorder (CNode c (t # ts)))" by (rule distinct_preorder[OF lk sh])
  then show disj: "set (preorder t) \<inter> set (preorder (CNode c ts)) = {}" by auto
  have shT: "shape T' u" if u: "u \<in> set ts" for u
  proof (rule shape_cong)
    show "shape T u" using sh u by simp
    fix x assume x: "x \<in> set (preorder u)"
    have "set (T x) \<subseteq> set (preorder u)" by (rule kids_in_preorder) (use sh u x in auto)
    moreover have "set (preorder u) \<subseteq> set (preorder (CNode c ts))" using u by auto
    ultimately have "set (T x) \<inter> set (preorder t) = {}" using disj by blast
    then show "T' x = T x" by (auto simp: T' filter_id_conv)
  qed
  have "T c = root t # map root ts" using sh by simp
  moreover have "root u \<notin> set (preorder t)" if "u \<in> set ts" for u
  proof -
    have "root u \<in> set (preorder (CNode c ts))" using that by auto (metis root_in_preorder)
    then show ?thesis using disj by blast
  qed
  ultimately have "T' c = map root ts" by (auto simp: T' filter_id_conv)
  then show "shape T' (CNode c ts)" using shT by simp
qed

lemma parent_stays:
  assumes lk: "links_ok T C" and lk': "links_ok (\<lambda>p. filter (\<lambda>x. x \<notin> X) (T p)) C'"
    and c: "C c = Some s" "C' c = Some s'" "c \<notin> X"
  shows "parent s' = parent s"
proof -
  have "c \<in> set (T p) \<longleftrightarrow> p \<noteq> 0 \<and> parent s' = p" for p
    using links_okD(6)[OF lk', of c p] c(2,3) by simp
  moreover have "c \<in> set (T p) \<longleftrightarrow> p \<noteq> 0 \<and> parent s = p" for p
    using links_okD(6)[OF lk, of c p] c(1) by simp
  ultimately show ?thesis by (metis)
qed

text \<open>All that has to hold to delete the tree \<open>t\<close>.\<close>

definition can_delete :: "(addr \<Rightarrow> ghost) \<Rightarrow> (addr \<Rightarrow> addr list) \<Rightarrow> (nat \<Rightarrow> addr list) \<Rightarrow> world
    \<Rightarrow> addr set \<Rightarrow> callbacks \<Rightarrow> (addr \<Rightarrow> addr list) \<Rightarrow> addr set \<Rightarrow> bool" where
  "can_delete G T F w A cbf cbs D \<longleftrightarrow>
     lib_ok G T F w \<and> D \<subseteq> live F w \<and> deletable G w A cbf cbs D"

lemma can_delete_rest:
  assumes c: "can_delete G T F w A cbf cbs D" and d: "deleted G T F w A cbs xs G' T' F' w'" and "set xs \<subseteq> D"
  shows "can_delete G' T' F' w' A cbf cbs (D - set xs)"
proof -
  have "deletable G' w' A cbf cbs (D - set xs)"
    by (rule deletable_deleted[OF _ d]) (use c assms(3) in \<open>auto simp: can_delete_def lib_ok_def\<close>)
  moreover have "lib_ok G' T' F' w'" "live F' w' = live F w - set xs" using d unfolding deleted_def by blast+
  ultimately show ?thesis using c by (auto simp: can_delete_def)
qed

lemma delete_forest:
  assumes each: "\<And>t G T F w D. t \<in> set ts \<Longrightarrow> can_delete G T F w A cbf cbs D \<Longrightarrow> shape T t
      \<Longrightarrow> set (preorder t) \<subseteq> D
      \<Longrightarrow> \<exists>G' T' F' w' s. deleted G T F w A cbs (postorder t) G' T' F' w' \<and> ctxs w (root t) = Some s
        \<and> delete_loop cbf context (root t, False, w) = delete_loop cbf context (parent s, False, w')"
    and can: "can_delete G T F w A cbf cbs D" and sh: "shape T (CNode c ts)" and sub: "set (preorder (CNode c ts)) \<subseteq> D"
  shows "\<exists>G' T' F' w'. deleted G T F w A cbs (concat (map postorder ts)) G' T' F' w' \<and> T' c = []
    \<and> delete_loop cbf context (c, False, w) = delete_loop cbf context (c, False, w')"
  using assms
proof (induction ts arbitrary: G T F w D)
  case Nil
  then have "deleted G T F w A cbs [] G T F w" "T c = []"
    using deleted_Nil[of G T F w A cbs] by (auto simp: can_delete_def)
  then show ?case by (intro exI[of _ G] exI[of _ T] exI[of _ F] exI[of _ w]) simp
next
  case (Cons t ts)
  note can = Cons.prems(2) and sh = Cons.prems(3) and sub = Cons.prems(4)
  have ok: "lib_ok G T F w" using can by (simp add: can_delete_def)
  note lk = lib_okD(2)[OF ok]
  have subt: "set (preorder t) \<subseteq> D" using sub by auto
  obtain G1 T1 F1 w1 k where t: "deleted G T F w A cbs (postorder t) G1 T1 F1 w1" "ctxs w (root t) = Some k"
    "delete_loop cbf context (root t, False, w) = delete_loop cbf context (parent k, False, w1)"
    using Cons.prems(1)[of t, OF _ can _ subt] sh by auto
  have T1: "T1 = (\<lambda>p. filter (\<lambda>x. x \<notin> set (postorder t)) (T p))" using t(1) unfolding deleted_def by blast
  note fr = forest_rest[OF lk sh T1]
  have rt: "root t \<in> set (T c)" using sh by (metis list.set_intros(1) list.simps(9) shape.simps)
  obtain s where s: "ctxs w c = Some s" "parent k = c" "root t \<noteq> 0"
    using child_facts[OF lk rt] t(2) by (metis option.inject)
  have "firstchild s = root t" using links_ok_firstchild[OF lk s(1)] sh by (metis first.simps(2) list.simps(9) shape.simps)
  then have L1: "delete_loop cbf context (c, False, w) = delete_loop cbf context (c, False, w1)"
    using delete_loop_child[OF s(1)] t(2,3) s(2,3) by metis
  have can1: "can_delete G1 T1 F1 w1 A cbf cbs (D - set (postorder t))"
    by (rule can_delete_rest[OF can t(1)]) (simp add: subt)
  have sub1: "set (preorder (CNode c ts)) \<subseteq> D - set (postorder t)" using fr(2) sub by auto
  obtain G2 T2 F2 w2 where r: "deleted G1 T1 F1 w1 A cbs (concat (map postorder ts)) G2 T2 F2 w2" "T2 c = []"
    "delete_loop cbf context (c, False, w1) = delete_loop cbf context (c, False, w2)"
    using Cons.IH[OF _ can1 fr(1) sub1] Cons.prems(1) by fastforce
  have apart: "A \<inter> cb_bytes (cbs y) = {}" if "y \<in> D" for y
    using can that unfolding can_delete_def deletable_def by blast
  have "deleted G T F w A cbs (postorder t @ concat (map postorder ts)) G2 T2 F2 w2"
    by (rule deleted_trans[OF t(1) r(1)]) (use sub in \<open>auto intro!: apart\<close>)
  then show ?case using L1 r(2,3) by auto
qed

lemma delete_tree:
  assumes "can_delete G T F w A cbf cbs D" and "shape T t" and "set (preorder t) \<subseteq> D"
    and "context \<notin> set (preorder t) - {root t}"
  shows "\<exists>G' T' F' w' s. deleted G T F w A cbs (postorder t) G' T' F' w' \<and> ctxs w (root t) = Some s
    \<and> delete_loop cbf context (root t, False, w)
      = (if root t = context then Inr (context, True, w') else delete_loop cbf context (parent s, False, w'))"
  using assms
proof (induction t arbitrary: G T F w D)
  case (CNode c ts)
  note can = CNode.prems(1) and sh = CNode.prems(2) and sub = CNode.prems(3)
  have ok: "lib_ok G T F w" using can by (simp add: can_delete_def)
  have dist: "distinct (preorder (CNode c ts))" by (rule distinct_preorder[OF lib_okD(2)[OF ok] sh])
  have ctx: "context \<notin> set (preorder t)" if "t \<in> set ts" for t
    using CNode.prems(4) dist that by auto
  have each: "\<exists>G' T' F' w' s. deleted G T F w A cbs (postorder t) G' T' F' w' \<and> ctxs w (root t) = Some s
        \<and> delete_loop cbf context (root t, False, w) = delete_loop cbf context (parent s, False, w')"
    if t: "t \<in> set ts" and a: "can_delete G T F w A cbf cbs D" "shape T t" "set (preorder t) \<subseteq> D" for t G T F w D
  proof -
    have "context \<notin> set (preorder t) - {root t}" "root t \<noteq> context" using ctx[OF t] by auto
    then show ?thesis using CNode.IH[OF t a] by simp
  qed
  obtain G1 T1 F1 w1 where f: "deleted G T F w A cbs (concat (map postorder ts)) G1 T1 F1 w1" "T1 c = []"
    "delete_loop cbf context (c, False, w) = delete_loop cbf context (c, False, w1)"
    using delete_forest[OF _ can sh sub, of "context"] each by blast
  have subf: "set (concat (map postorder ts)) \<subseteq> D" using sub by auto
  have can1: "can_delete G1 T1 F1 w1 A cbf cbs (D - set (concat (map postorder ts)))"
    by (rule can_delete_rest[OF can f(1) subf])
  then have ok1: "lib_ok G1 T1 F1 w1" by (simp add: can_delete_def)
  have c1: "c \<in> D - set (concat (map postorder ts))" using dist sub by auto
  obtain s where s: "ctxs w c = Some s" using sub can by (auto simp: can_delete_def live_def)
  obtain s1 where s1: "ctxs w1 c = Some s1" using c1 can1 by (auto simp: can_delete_def live_def)
  have par: "parent s1 = parent s"
  proof (rule parent_stays)
    show "links_ok T (ctxs w)" by (rule lib_okD(2)[OF ok])
    show "ctxs w c = Some s" "ctxs w1 c = Some s1" by fact+
    show "c \<notin> set (concat (map postorder ts))" using c1 by blast
    show "links_ok (\<lambda>p. filter (\<lambda>x. x \<notin> set (concat (map postorder ts))) (T p)) (ctxs w1)"
      using f(1) lib_okD(2)[OF ok1] unfolding deleted_def by metis
  qed
  have fc: "firstchild s1 = 0" using no_children[OF lib_okD(2)[OF ok1] s1] f(2) by simp
  obtain G' T' F' w' where d: "MemoryContextDeleteOnly cbf c w1 = Inr w'"
    "deleted G1 T1 F1 w1 A cbs [c] G' T' F' w'"
    using DeleteOnly_run[OF ok1 c1 _ f(2)] can1 unfolding can_delete_def by blast
  have apart: "A \<inter> cb_bytes (cbs c) = {}"
    using can sub unfolding can_delete_def deletable_def by auto
  have "deleted G T F w A cbs (postorder (CNode c ts)) G' T' F' w'"
    using deleted_trans[OF f(1) d(2)] apart by simp
  then show ?case using s delete_loop_leaf[OF s1 fc d(1), of "context"] f(3) par by auto
qed

text \<open>
  \<open>MemoryContextDelete\<close> deletes the context with all its descendants, every child before its parent.
\<close>

lemma MemoryContextDelete_run:
  assumes can: "can_delete G T F w A cbf cbs (set (preorder t))" and sh: "shape T t"
  shows "\<exists>G' T' F' w'. MemoryContextDelete cbf (root t) w = Inr w'
    \<and> deleted G T F w A cbs (postorder t) G' T' F' w'"
proof -
  have dist: "distinct (preorder t)"
    using can sh distinct_preorder by (auto simp: can_delete_def lib_ok_def)
  obtain G' T' F' w' s where d: "deleted G T F w A cbs (postorder t) G' T' F' w'" "ctxs w (root t) = Some s"
    "delete_loop cbf (root t) (root t, False, w) = Inr (root t, True, w')"
    using delete_tree[OF can sh order_refl, of "root t"] by auto
  have "Assert_valid w (root t) = Inr ()"
    using valid_ctx[OF _ d(2)] can by (auto simp: can_delete_def lib_ok_def)
  then have "MemoryContextDelete cbf (root t) w = Inr w'"
    using d(3) by (simp add: MemoryContextDelete_def)
  then show ?thesis using d(1) by blast
qed

section \<open>Emptied contexts\<close>

text \<open>
  The contexts \<open>xs\<close> have been emptied in this order, every one after its callbacks were called; tree,
  freelists and all other contexts are as before.
\<close>

definition all_reset :: "(addr \<Rightarrow> ghost) \<Rightarrow> (addr \<Rightarrow> addr list) \<Rightarrow> (nat \<Rightarrow> addr list) \<Rightarrow> world
    \<Rightarrow> addr set \<Rightarrow> (addr \<Rightarrow> addr list) \<Rightarrow> addr list \<Rightarrow> (addr \<Rightarrow> ghost) \<Rightarrow> world \<Rightarrow> bool" where
  "all_reset G T F w A cbs xs G' w' \<longleftrightarrow>
     lib_ok G' T F w' \<and> live F w' = live F w
     \<and> chunks G' w' = {(p, d, n) \<in> chunks G w. d \<notin> set xs}
     \<and> (\<forall>a. a \<notin> A \<longrightarrow> mem w' a = mem w a) \<and> (\<forall>a. foreign G w a \<longrightarrow> foreign G' w' a)
     \<and> set (regions w') \<subseteq> set (regions w)
     \<and> (\<forall>d \<in> set xs. \<exists>s. ctxs w' d = Some s \<and> isReset s \<and> reset_cbs s = 0 \<and> pristine d s (G' d))
     \<and> (\<forall>d. d \<notin> set xs \<longrightarrow> ctxs w' d = ctxs w d \<and> G' d = G d)
     \<and> calls w' = calls w @ concat (map (\<lambda>x. map (cb_entry (mem w)) (cbs x)) xs)
     \<and> CurrentMemoryContext w' = CurrentMemoryContext w \<and> TopMemoryContext w' = TopMemoryContext w
     \<and> ErrorContext w' = ErrorContext w"

lemma all_reset_Nil: "lib_ok G T F w \<Longrightarrow> all_reset G T F w A cbs [] G w"
  by (simp add: all_reset_def)

lemma all_reset_trans:
  assumes 1: "all_reset G T F w A cbs xs G1 w1" and 2: "all_reset G1 T F w1 A cbs ys G2 w2"
    and disj: "set xs \<inter> set ys = {}" and apart: "\<And>y. y \<in> set ys \<Longrightarrow> A \<inter> cb_bytes (cbs y) = {}"
  shows "all_reset G T F w A cbs (xs @ ys) G2 w2"
proof -
  note d1 = 1[unfolded all_reset_def] and d2 = 2[unfolded all_reset_def]
  have cb: "map (cb_entry (mem w1)) (cbs y) = map (cb_entry (mem w)) (cbs y)" if y: "y \<in> set ys" for y
  proof (rule map_cong[OF refl])
    fix x assume "x \<in> set (cbs y)"
    then have "a \<notin> A" if "x \<le> a" "a < x + 24" for a
      using apart[OF y] that by (auto simp: cb_bytes_def)
    then show "cb_entry (mem w1) x = cb_entry (mem w) x" using d1 by (intro cb_entry_cong) auto
  qed
  then have eq: "map (\<lambda>x. map (cb_entry (mem w1)) (cbs x)) ys = map (\<lambda>x. map (cb_entry (mem w)) (cbs x)) ys"
    by (intro map_cong) auto
  have calls: "calls w2 = calls w @ concat (map (\<lambda>x. map (cb_entry (mem w)) (cbs x)) (xs @ ys))"
  proof -
    have "calls w2 = calls w1 @ concat (map (\<lambda>x. map (cb_entry (mem w1)) (cbs x)) ys)"
      "calls w1 = calls w @ concat (map (\<lambda>x. map (cb_entry (mem w)) (cbs x)) xs)"
      using d1 d2 by blast+
    then show ?thesis unfolding eq by simp
  qed
  have X: "chunks G2 w2 = {(p, d, n) \<in> chunks G w. d \<notin> set (xs @ ys)}" using d1 d2 by auto
  have S: "\<exists>s. ctxs w2 d = Some s \<and> isReset s \<and> reset_cbs s = 0 \<and> pristine d s (G2 d)"
    if d: "d \<in> set (xs @ ys)" for d
  proof (cases "d \<in> set ys")
    case False
    then have "d \<in> set xs" using d by simp
    then obtain s where s: "ctxs w1 d = Some s \<and> isReset s \<and> reset_cbs s = 0 \<and> pristine d s (G1 d)"
      using d1 by blast
    have "ctxs w2 d = ctxs w1 d \<and> G2 d = G1 d" using d2 False by blast
    then show ?thesis using s by simp
  qed (use d2 in blast)
  have K: "ctxs w2 d = ctxs w d \<and> G2 d = G d" if d: "d \<notin> set (xs @ ys)" for d
  proof -
    have "ctxs w2 d = ctxs w1 d \<and> G2 d = G1 d" using d2 d by simp
    moreover have "ctxs w1 d = ctxs w d \<and> G1 d = G d" using d1 d by simp
    ultimately show ?thesis by simp
  qed
  show ?thesis
    unfolding all_reset_def
  proof (intro conjI ballI allI impI)
    show "\<exists>s. ctxs w2 d = Some s \<and> isReset s \<and> reset_cbs s = 0 \<and> pristine d s (G2 d)"
      if "d \<in> set (xs @ ys)" for d by (rule S[OF that])
    show "ctxs w2 d = ctxs w d" "G2 d = G d" if "d \<notin> set (xs @ ys)" for d using K[OF that] by simp_all
    show "lib_ok G2 T F w2" using d2 by blast
    show "live F w2 = live F w" using conjunct1[OF conjunct2[OF d1]] conjunct1[OF conjunct2[OF d2]] by (rule trans[rotated])
    show "mem w2 a = mem w a" if "a \<notin> A" for a using d1 d2 that by metis
    show "foreign G2 w2 a" if "foreign G w a" for a using d1 d2 that by blast
    show "set (regions w2) \<subseteq> set (regions w)" using d1 d2 by blast
    show "CurrentMemoryContext w2 = CurrentMemoryContext w" "TopMemoryContext w2 = TopMemoryContext w"
      "ErrorContext w2 = ErrorContext w" using d1 d2 by metis+
  qed (fact X calls)+
qed

section \<open>One context\<close>

lemma ResetOnly_lib:
  assumes lib: "lib_ok G T F w" and c: "ctxs w c = Some s" "c \<in> live F w"
    and cb: "cb_list w (reset_cbs s) (cbs c)" "isReset s \<longrightarrow> cbs c = []"
    and al: "callbacks_allowed G w A (cbs c) cbf"
  shows "\<exists>G' w'. MemoryContextResetOnly cbf c w = Inr w' \<and> all_reset G T F w A cbs [c] G' w'"
proof (cases "isReset s")
  case True
  note ok = lib_okD(1)[OF lib]
  have cb0: "reset_cbs s = 0" using cb True by simp
  have p: "pristine c s (G c)" and oc: "other_chunks G w c = chunks G w" by (fact reset_context[OF ok c(1) True])+
  have "{(p, d, n) \<in> chunks G w. d \<notin> set [c]} = other_chunks G w c" by (auto simp: other_chunks_def)
  then have "chunks G w = {(p, d, n) \<in> chunks G w. d \<notin> set [c]}" by (simp add: oc)
  then have "all_reset G T F w A cbs [c] G w"
    using lib c True cb0 cb(2) p unfolding all_reset_def by simp
  then show ?thesis using ResetOnly_reset[OF ok c(1) True] by blast
next
  case False
  note ok = lib_okD(1)[OF lib]
  let ?G = "G(c := fresh_ghost c)"
  have cF: "c \<notin> set (F j)" for j using c(2) by (simp add: live_def)
  obtain w' where w': "MemoryContextResetOnly cbf c w = Inr w'" "reset_post G w c A (cbs c) ?G w'"
    using ResetOnly_run[OF ok c(1) False cb(1) al] by blast
  note rp = w'(2)[unfolded reset_post_def]
  obtain s2 where s2: "ctxs w' c = Some s2" "isReset s2" "pristine c s2 (?G c)"
    "client_view s2 = client_view (s\<lparr>reset_cbs := 0, isReset := True\<rparr>)"
    using rp c(1) by auto
  note cv = client_view_fields[OF s2(4)]
  have ctx2: "ctxs w' = (ctxs w)(c \<mapsto> s2)" using rp s2(1) by (auto simp: fun_eq_iff)
  have ok2: "lib_ok ?G T F w'"
    by (rule lib_ok_ctx[OF lib c(1) cF _ ctx2]) (use rp cv in \<open>simp_all add: links_of_def\<close>)
  have live2: "live F w' = live F w" using c(1) by (auto simp: live_def ctx2)
  have ch: "chunks ?G w' = {(p, d, n) \<in> chunks G w. d \<notin> set [c]}"
    using rp by (auto simp: other_chunks_def)
  have "all_reset G T F w A cbs [c] ?G w'"
    unfolding all_reset_def
  proof (intro conjI ballI allI impI)
    show "\<exists>s. ctxs w' d = Some s \<and> isReset s \<and> reset_cbs s = 0 \<and> pristine d s (?G d)" if "d \<in> set [c]" for d
      using that s2 cv(8) by auto
    show "mem w' a = mem w a" if "a \<notin> A" for a using rp that by blast
    show "foreign ?G w' a" if "foreign G w a" for a using rp that by blast
    show "set (regions w') \<subseteq> set (regions w)" using rp by blast
    show "ctxs w' d = ctxs w d" "?G d = G d" if "d \<notin> set [c]" for d using that ctx2 by simp_all
    show "calls w' = calls w @ concat (map (\<lambda>x. map (cb_entry (mem w)) (cbs x)) [c])" using rp by simp
  qed (use ok2 live2 ch rp in \<open>blast | simp\<close>)+
  then show ?thesis using w'(1) by blast
qed

section \<open>Resetting a context with its descendants\<close>

lemma outlives_mono: "outlives G w D a \<Longrightarrow> E \<subseteq> D \<Longrightarrow> outlives G w E a"
  unfolding outlives_def by blast

lemma can_delete_sub:
  assumes c: "can_delete G T F w A cbf cbs D" and sub: "E \<subseteq> D"
  shows "can_delete G T F w A cbf cbs E"
  unfolding can_delete_def deletable_def
proof (intro conjI ballI)
  note c' = c[unfolded can_delete_def deletable_def]
  show "lib_ok G T F w" "quiet A cbf" using c' by blast+
  show "E \<subseteq> live F w" using c' sub by blast
  show "outlives G w E a" if "a \<in> A" for a using c' that outlives_mono[OF _ sub] by blast
  fix x assume x: "x \<in> E"
  then show "x \<noteq> TopMemoryContext w" "x \<noteq> CurrentMemoryContext w" "A \<inter> cb_bytes (cbs x) = {}"
    "\<exists>s. ctxs w x = Some s \<and> cb_list w (reset_cbs s) (cbs x)" using c' sub by blast+
  show "outlives G w (E - {x}) a" if "a \<in> cb_bytes (cbs x)" for a
  proof (rule outlives_mono)
    show "outlives G w (D - {x}) a" using c' x sub that by blast
    show "E - {x} \<subseteq> D - {x}" using sub by blast
  qed
qed

lemma DeleteChildren_loop:
  assumes "can_delete G T F w A cbf cbs (set (concat (map preorder ts)))" and "shape T (CNode c ts)"
    and "ctxs w c = Some s" and "c \<in> live F w"
  shows "\<exists>G' T' F' w'. deleted G T F w A cbs (concat (map postorder ts)) G' T' F' w' \<and> T' c = []
    \<and> loopE (\<lambda>(child, w). child \<noteq> 0)
       (\<lambda>(child, w).
          seqE (MemoryContextDelete cbf child w) (\<lambda>w.
          seqE (get_ctx w c) (\<lambda>s. Inr (firstchild s, w)))) (firstchild s, w) = Inr (0, w')"
  using assms
proof (induction ts arbitrary: G T F w s)
  case Nil
  then have ok: "lib_ok G T F w" by (simp add: can_delete_def)
  have T: "T c = []" using Nil.prems(2) by simp
  then have "firstchild s = 0" using no_children[OF lib_okD(2)[OF ok] Nil.prems(3)] by simp
  then show ?case
    using T deleted_Nil[OF ok, of A cbs]
    by (intro exI[of _ G] exI[of _ T] exI[of _ F] exI[of _ w]) (simp add: loopE_stop)
next
  case (Cons t ts)
  note can = Cons.prems(1) and sh = Cons.prems(2) and c = Cons.prems(3,4)
  have ok: "lib_ok G T F w" using can by (simp add: can_delete_def)
  note lk = lib_okD(2)[OF ok]
  have dist: "distinct (preorder (CNode c (t # ts)))" by (rule distinct_preorder[OF lk sh])
  have cant: "can_delete G T F w A cbf cbs (set (preorder t))" by (rule can_delete_sub[OF can]) auto
  have sht: "shape T t" using sh by simp
  obtain G1 T1 F1 w1 where t: "MemoryContextDelete cbf (root t) w = Inr w1"
    "deleted G T F w A cbs (postorder t) G1 T1 F1 w1"
    using MemoryContextDelete_run[OF cant sht] by blast
  have T1: "T1 = (\<lambda>p. filter (\<lambda>x. x \<notin> set (postorder t)) (T p))" using t(2) unfolding deleted_def by blast
  note fr = forest_rest[OF lk sh T1]
  have c1: "c \<in> live F1 w1" using t(2) c(2) dist unfolding deleted_def by auto
  then obtain s1 where s1: "ctxs w1 c = Some s1" by (auto simp: live_def)
  have subt: "set (postorder t) \<subseteq> set (concat (map preorder (t # ts)))" by auto
  have "can_delete G1 T1 F1 w1 A cbf cbs (set (concat (map preorder (t # ts))) - set (postorder t))"
    by (rule can_delete_rest[OF can t(2) subt])
  moreover have "set (concat (map preorder (t # ts))) - set (postorder t) = set (concat (map preorder ts))"
    using fr(2) by auto
  ultimately have can1: "can_delete G1 T1 F1 w1 A cbf cbs (set (concat (map preorder ts)))" by simp
  let ?b = "\<lambda>(child, w). seqE (MemoryContextDelete cbf child w) (\<lambda>w.
          seqE (get_ctx w c) (\<lambda>s. Inr (firstchild s, w)))"
  obtain G2 T2 F2 w2 where r: "deleted G1 T1 F1 w1 A cbs (concat (map postorder ts)) G2 T2 F2 w2" "T2 c = []"
    "loopE (\<lambda>(child, w). child \<noteq> 0) ?b (firstchild s1, w1) = Inr (0, w2)"
    using Cons.IH[OF can1 fr(1) s1 c1] by blast
  have Tc: "T c = root t # map root ts" using sh by simp
  have rt: "root t \<in> set (T c)" using Tc by simp
  have "root t \<noteq> 0" using child_facts[OF lk rt] by blast
  moreover have "firstchild s = root t" using links_ok_firstchild[OF lk c(1)] Tc by simp
  moreover have "?b (root t, w) = Inr (firstchild s1, w1)" using t(1) s1 by (simp add: get_ctx_def)
  ultimately have "loopE (\<lambda>(child, w). child \<noteq> 0) ?b (firstchild s, w) = Inr (0, w2)"
    using r(3) by (simp add: loopE_step)
  moreover have "deleted G T F w A cbs (postorder t @ concat (map postorder ts)) G2 T2 F2 w2"
  proof (rule deleted_trans[OF t(2) r(1)])
    fix y assume "y \<in> set (concat (map postorder ts))"
    then have "y \<in> set (concat (map preorder (t # ts)))" by auto
    then show "A \<inter> cb_bytes (cbs y) = {}" using can unfolding can_delete_def deletable_def by blast
  qed
  ultimately show ?case using r(2) by auto
qed

lemma DeleteChildren_run:
  assumes can: "can_delete G T F w A cbf cbs (set (concat (map preorder ts)))" and sh: "shape T (CNode c ts)"
    and c: "ctxs w c = Some s" "c \<in> live F w"
  shows "\<exists>G' T' F' w'. MemoryContextDeleteChildren cbf c w = Inr w'
    \<and> deleted G T F w A cbs (concat (map postorder ts)) G' T' F' w' \<and> T' c = []"
proof -
  have "heap_ok G w" using can by (simp add: can_delete_def lib_ok_def)
  then have v: "Assert_valid w c = Inr ()" by (rule valid_ctx[OF _ c(1)])
  obtain G' T' F' w' where d: "deleted G T F w A cbs (concat (map postorder ts)) G' T' F' w'" "T' c = []"
    and l: "loopE (\<lambda>(child, w). child \<noteq> 0)
       (\<lambda>(child, w).
          seqE (MemoryContextDelete cbf child w) (\<lambda>w.
          seqE (get_ctx w c) (\<lambda>s. Inr (firstchild s, w)))) (firstchild s, w) = Inr (0, w')"
    using DeleteChildren_loop[OF assms] by blast
  have "MemoryContextDeleteChildren cbf c w = Inr w'"
    using l by (simp add: MemoryContextDeleteChildren_def v get_ctx_Some[OF c(1)])
  then show ?thesis using d by blast
qed

text \<open>
  The descendants \<open>xs\<close> of \<open>c\<close> have been deleted, then \<open>c\<close> has been emptied, unless it was already
  marked as reset; \<open>cs\<close> are the callbacks of \<open>c\<close>.
\<close>

definition reset_all :: "(addr \<Rightarrow> ghost) \<Rightarrow> (addr \<Rightarrow> addr list) \<Rightarrow> (nat \<Rightarrow> addr list) \<Rightarrow> world
    \<Rightarrow> addr set \<Rightarrow> (addr \<Rightarrow> addr list) \<Rightarrow> addr list \<Rightarrow> addr \<Rightarrow> addr list
    \<Rightarrow> (addr \<Rightarrow> ghost) \<Rightarrow> (addr \<Rightarrow> addr list) \<Rightarrow> (nat \<Rightarrow> addr list) \<Rightarrow> world \<Rightarrow> bool" where
  "reset_all G T F w A cbs xs c cs G' T' F' w' \<longleftrightarrow>
     lib_ok G' T' F' w' \<and> T' = (\<lambda>p. filter (\<lambda>x. x \<notin> set xs) (T p)) \<and> T' c = []
     \<and> live F' w' = live F w - set xs
     \<and> chunks G' w' = {(p, d, n) \<in> chunks G w. d \<noteq> c \<and> d \<notin> set xs}
     \<and> (\<forall>a. a \<notin> A \<longrightarrow> mem w' a = mem w a) \<and> (\<forall>a. foreign G w a \<longrightarrow> foreign G' w' a)
     \<and> (\<exists>s'. ctxs w' c = Some s' \<and> isReset s' \<and> reset_cbs s' = 0 \<and> firstchild s' = 0 \<and> pristine c s' (G' c))
     \<and> (\<forall>d \<in> live F w - set xs - {c}. map_option strip_links (ctxs w' d) = map_option strip_links (ctxs w d))
     \<and> calls w' = calls w @ concat (map (\<lambda>x. map (cb_entry (mem w)) (cbs x)) xs)
          @ map (cb_entry (mem w)) cs
     \<and> CurrentMemoryContext w' = CurrentMemoryContext w \<and> TopMemoryContext w' = TopMemoryContext w
     \<and> ErrorContext w' = ErrorContext w"

lemma delete_children_first:
  assumes can: "can_delete G T F w A cbf cbs (set (concat (map preorder ts)))" and sh: "shape T (CNode c ts)"
    and c: "ctxs w c = Some s" "c \<in> live F w"
  obtains G1 T1 F1 w1 where "(if firstchild s \<noteq> 0 then MemoryContextDeleteChildren cbf c w else Inr w) = Inr w1"
    and "deleted G T F w A cbs (concat (map postorder ts)) G1 T1 F1 w1" and "T1 c = []"
proof (cases "firstchild s = 0")
  case True
  have ok: "lib_ok G T F w" using can by (simp add: can_delete_def)
  have T: "T c = []" using no_children[OF lib_okD(2)[OF ok] c(1)] True by simp
  then have "ts = []" using sh by simp
  then show ?thesis using that[of w G T F] deleted_Nil[OF ok, of A cbs] T True by simp
next
  case False
  then show ?thesis using that DeleteChildren_run[OF can sh c] by auto
qed

text \<open>Callback structs outside the memory that callbacks write to stay as they are.\<close>

lemma callbacks_stay:
  assumes ok: "heap_ok G w" and ok1: "heap_ok G1 w1" and l: "cb_list w a cs" and apart: "A \<inter> cb_bytes cs = {}"
    and mem: "\<forall>y. y \<notin> A \<longrightarrow> mem w1 y = mem w y" and reg: "set (regions w1) \<subseteq> set (regions w)"
    and ol: "\<forall>y \<in> cb_bytes cs. outlives G1 w1 {} y"
  shows "cb_list w1 a cs \<and> map (cb_entry (mem w1)) cs = map (cb_entry (mem w)) cs"
proof
  have mem1: "mem w1 y = mem w y" if "y \<in> cb_bytes cs" for y using mem apart that by blast
  show "cb_list w1 a cs"
  proof (rule cb_list_stays[OF l mem1])
    fix y assume y: "y \<in> set cs"
    then have "y \<in> cb_bytes cs" by (auto simp: cb_bytes_def)
    then have y1: "in_region w1 y 1" using outlives_region(1)[OF ok1] ol by blast
    have y24: "in_region w y 24" by (rule cb_list_region[OF l y])
    show "in_region w1 y 24" by (rule in_region_stays[OF heap_okD(1)[OF ok] reg y24 _ y1]) simp
  qed
  show "map (cb_entry (mem w1)) cs = map (cb_entry (mem w)) cs"
  proof (rule map_cong[OF refl])
    fix x assume "x \<in> set cs"
    then show "cb_entry (mem w1) x = cb_entry (mem w) x"
      by (intro cb_entry_cong mem1) (auto simp: cb_bytes_def)
  qed
qed

lemma deleted_then_reset:
  assumes d: "deleted G T F w A cbs xs G1 T1 F1 w1" and T1: "T1 c = []"
    and r: "all_reset G1 T1 F1 w1 A (\<lambda>_. cs) [c] G2 w2" and c: "c \<in> live F1 w1"
    and ent: "map (cb_entry (mem w1)) cs = map (cb_entry (mem w)) cs"
  shows "reset_all G T F w A cbs xs c cs G2 T1 F1 w2"
proof -
  note d' = d[unfolded deleted_def] and r' = r[unfolded all_reset_def]
  have lib: "lib_ok G2 T1 F1 w2" using r' by blast
  obtain s where s: "ctxs w2 c = Some s" "isReset s" "reset_cbs s = 0" "pristine c s (G2 c)" using r' by auto
  have "firstchild s = 0" using no_children[OF lib_okD(2)[OF lib] s(1)] T1 by simp
  note fc = this
  show ?thesis
    unfolding reset_all_def
  proof (intro conjI allI impI)
    show "live F1 w2 = live F w - set xs" using r' d' by simp
    show "chunks G2 w2 = {(p, d, n) \<in> chunks G w. d \<noteq> c \<and> d \<notin> set xs}" using r' d' by auto
    show "mem w2 a = mem w a" if "a \<notin> A" for a
    proof -
      have "mem w2 a = mem w1 a" using r' that by blast
      also have "\<dots> = mem w a" using d' that by blast
      finally show ?thesis .
    qed
    show "foreign G2 w2 a" if "foreign G w a" for a using r' d' that by blast
    show "\<exists>s'. ctxs w2 c = Some s' \<and> isReset s' \<and> reset_cbs s' = 0 \<and> firstchild s' = 0 \<and> pristine c s' (G2 c)"
      using s fc by blast
    show "\<forall>d \<in> live F w - set xs - {c}. map_option strip_links (ctxs w2 d) = map_option strip_links (ctxs w d)"
    proof
      fix e assume e: "e \<in> live F w - set xs - {c}"
      then have "ctxs w2 e = ctxs w1 e" using r' by simp
      moreover have "map_option strip_links (ctxs w1 e) = map_option strip_links (ctxs w e)" using d' e by blast
      ultimately show "map_option strip_links (ctxs w2 e) = map_option strip_links (ctxs w e)" by simp
    qed
    have "calls w2 = calls w1 @ map (cb_entry (mem w1)) cs" using r' by simp
    moreover have "calls w1 = calls w @ concat (map (\<lambda>x. map (cb_entry (mem w)) (cbs x)) xs)" using d' by blast
    ultimately show "calls w2 = calls w @ concat (map (\<lambda>x. map (cb_entry (mem w)) (cbs x)) xs) @ map (cb_entry (mem w)) cs"
      unfolding ent by simp
    show "CurrentMemoryContext w2 = CurrentMemoryContext w" "TopMemoryContext w2 = TopMemoryContext w"
      "ErrorContext w2 = ErrorContext w" using r' d' by metis+
    show "T1 = (\<lambda>p. filter (\<lambda>x. x \<notin> set xs) (T p))" using d' by blast
  qed (fact lib T1)+
qed

lemma MemoryContextReset_run:
  assumes can: "can_delete G T F w A cbf cbs (set (concat (map preorder ts)))" and sh: "shape T (CNode c ts)"
    and c: "ctxs w c = Some s" "c \<in> live F w"
    and cb: "cb_list w (reset_cbs s) cs" "A \<inter> cb_bytes cs = {}" "isReset s \<longrightarrow> cs = []"
      "\<And>a. a \<in> cb_bytes cs \<Longrightarrow> outlives G w (set (concat (map preorder ts))) a"
  shows "\<exists>G' T' F' w'. MemoryContextReset cbf c w = Inr w'
    \<and> reset_all G T F w A cbs (concat (map postorder ts)) c cs G' T' F' w'"
proof -
  let ?xs = "concat (map postorder ts)"
  have ok: "lib_ok G T F w" using can by (simp add: can_delete_def)
  note ok' = lib_okD[OF ok]
  have xs: "set ?xs = set (concat (map preorder ts))" by auto
  obtain G1 T1 F1 w1 where run1: "(if firstchild s \<noteq> 0 then MemoryContextDeleteChildren cbf c w else Inr w) = Inr w1"
    and d: "deleted G T F w A cbs ?xs G1 T1 F1 w1" "T1 c = []"
    by (rule delete_children_first[OF can sh c])
  note d' = d(1)[unfolded deleted_def]
  have ok1: "lib_ok G1 T1 F1 w1" using d' by blast
  note ok1' = lib_okD[OF ok1]
  have cx: "c \<notin> set ?xs" using distinct_preorder[OF ok'(2) sh] xs by auto
  have c1: "c \<in> live F1 w1" using d' c(2) cx by blast
  have "map_option strip_links (ctxs w1 c) = map_option strip_links (ctxs w c)" using d' c(2) cx by blast
  then obtain s1 where s1: "ctxs w1 c = Some s1" "strip_links s1 = strip_links s" using c(1) by auto
  note f = strip_links_fields[OF s1(2)]
  have run: "MemoryContextReset cbf c w = MemoryContextResetOnly cbf c w1"
    using run1 ResetOnly_reset[OF ok1'(1) s1(1)]
    by (auto simp: MemoryContextReset_def valid_ctx[OF ok'(1) c(1)] get_ctx_Some[OF c(1)] get_ctx_Some[OF s1(1)])
  have ol: "outlives G1 w1 {} a" if "outlives G w (set (concat (map preorder ts))) a" for a
    using outlives_deleted[OF d(1) that] xs by simp
  have own: "client_owned G1 w1 a" if "a \<in> A" for a
    by (rule outlives_region(2)[OF ok1'(1) ol]) (use can that in \<open>auto simp: can_delete_def deletable_def\<close>)
  then have al: "callbacks_allowed G1 w1 A cs cbf"
    using can cb(2) unfolding callbacks_allowed_def can_delete_def deletable_def by blast
  have keep: "cb_list w1 (reset_cbs s1) cs" "map (cb_entry (mem w1)) cs = map (cb_entry (mem w)) cs"
    unfolding f(1) using callbacks_stay[OF ok'(1) ok1'(1) cb(1,2)] ol[OF cb(4)] d' by blast+
  obtain G2 w2 where w2: "MemoryContextResetOnly cbf c w1 = Inr w2" "all_reset G1 T1 F1 w1 A (\<lambda>_. cs) [c] G2 w2"
    using ResetOnly_lib[where cbs = "\<lambda>_. cs", OF ok1 s1(1) c1 keep(1) _ al] f(4) cb(3) by blast
  have "reset_all G T F w A cbs ?xs c cs G2 T1 F1 w2"
    by (rule deleted_then_reset[OF d w2(2) c1 keep(2)])
  then show ?thesis using run w2(1) by auto
qed

end
