(* ===== verification/CreateProofs.thy ===== *)
theory CreateProofs
  imports SubtreeProofs
begin

text \<open>
  Creating a context: \<open>AllocSetContextCreateInternal\<close> takes a fitting context from a freelist or
  makes a new one, links it into the tree and establishes the invariant \<open>lib_ok\<close>;
  \<open>MemoryContextInit\<close> starts the library from a process without any allocation.
\<close>

unbundle bit_operations_syntax

section \<open>A heap with a new context\<close>

lemma heap_new_context:
  assumes ok: "heap_ok G w" and adm: "admissible (regions w) c n" and n: "240 \<le> n" "n < 2 ^ 30"
    and w': "regions w' = (c, n) # regions w" "mem w' = mem w" "ctxs w' = (ctxs w)(c \<mapsto> s)"
      "blks w' = (blks w)(KeeperBlock c \<mapsto> K)"
    and K: "aset K = c" "bprev K = 0" "bnext K = 0" "freeptr K = KeeperBlock c + 40" "endptr K = c + n"
    and s: "params_ok c s (fresh_ghost c)" "freelist s = replicate ALLOCSET_NUM_FREELISTS 0"
      "blocks s = KeeperBlock c" "mem_allocated s = of_nat n"
  shows "heap_ok (G(c := fresh_ghost c)) w'"
    and "chunks (G(c := fresh_ghost c)) w' = chunks G w"
    and "same_foreign G w (G(c := fresh_ghost c)) w'"
proof -
  let ?G = "G(c := fresh_ghost c)"
  note fresh = fresh_structs[OF ok adm]
  have c_fresh: "ctxs w c = None" "blks w c = None" "blks w (KeeperBlock c) = None"
    using fresh[of c] fresh[of "KeeperBlock c"] n by (simp_all add: KeeperBlock_eq)
  have kb: "KeeperBlock c \<noteq> c" by (simp add: KeeperBlock_eq)
  have blk: "blks w' b = blks w b" if d: "ctxs w d = Some t" "b \<in> set (gblocks (G d))" for d t b
  proof -
    obtain k where "blks w b = Some k" by (rule heap_ok_block[OF ok d])
    then show ?thesis using c_fresh(3) by (auto simp: w'(4))
  qed
  have new: "aset_ok (set (regions w')) (mem w') (blks w') c s (fresh_ghost c)"
    by (rule fresh_aset_ok[OF s(1), where K = K, OF _ K(1,4,2,3) _ _ _ s(2,3)])
      (use K n s(4) in \<open>simp_all add: w' KeeperBlock_eq ptr_diff_def\<close>)
  have "aset_ok (set (regions w')) (mem w') (blks w') d t (?G d) \<and> blks w' d = None"
    if d: "ctxs w' d = Some t" for d t
  proof (cases "d = c")
    case True
    then show ?thesis using d new c_fresh kb by (auto simp: w')
  next
    case False
    then have d': "ctxs w d = Some t" using d by (simp add: w'(3))
    have "d \<noteq> KeeperBlock c"
      using fresh(2)[of "KeeperBlock c"] d' n by (auto simp: KeeperBlock_eq)
    then have "blks w' d = None" using heap_okD(3)[OF ok d'] by (simp add: w'(4))
    moreover have "aset_ok (set (regions w')) (mem w') (blks w') d t (G d)"
      by (rule aset_ok_cong[OF heap_okD(2)[OF ok d']]) (use blk[OF d'] in \<open>auto simp: w'\<close>)
    ultimately show ?thesis using False by simp
  qed
  moreover have "ctxs w' (aset k) \<noteq> None \<and> b \<in> set (gblocks (?G (aset k)))" if b: "blks w' b = Some k" for b k
  proof (cases "b = KeeperBlock c")
    case True
    then show ?thesis using b K(1) by (simp add: w')
  next
    case False
    then have "ctxs w (aset k) \<noteq> None \<and> b \<in> set (gblocks (G (aset k)))"
      using heap_okD(4)[OF ok, of b k] b by (simp add: w'(4))
    moreover from this have "aset k \<noteq> c" using c_fresh(1) by auto
    ultimately show ?thesis by (simp add: w'(3))
  qed
  moreover have "regions_ok (regions w')" using heap_okD(1)[OF ok] adm by (simp add: w'(1))
  ultimately show "heap_ok ?G w'" by (simp add: heap_ok_def)
  have "chunks ?G w' = (\<Union>d \<in> {d. ctxs w d \<noteq> None}. chunks_of (blks w') d (?G d))"
    by (auto simp: chunks_def w'(3) split: if_splits)
  also have "\<dots> = chunks G w"
    unfolding chunks_def using blk c_fresh(1)
    by (intro SUP_cong refl) (auto intro!: chunks_of_cong)
  finally show "chunks ?G w' = chunks G w" .
  show "same_foreign G w ?G w'"
    unfolding same_foreign_def
  proof (intro allI impI)
    fix a assume f: "foreign G w a"
    then obtain r k where r: "(r, k) \<in> set (regions w)" "r \<le> a" "a < r + k"
      by (auto simp: foreign_def in_region_iff)
    then have "in_region w' a 1" by (intro in_regionI[of r k]) (auto simp: w'(1))
    moreover have "a \<notin> lib_bytes ?G w'"
    proof
      assume "a \<in> lib_bytes ?G w'"
      then obtain d b where d: "ctxs w' d \<noteq> None" "b \<in> set (gblocks (?G d))" "a \<in> extent (blks w') d b"
        by (auto simp: lib_bytes_def)
      show False
      proof (cases "d = c")
        case True
        then have "c \<le> a" "a < c + n"
          using d(2,3) K(5) by (auto simp: extent_def base_def IsKeeperBlock_def w'(4))
        then show False using adm r by (fastforce simp: admissible_def overlaps_def list_all_iff)
      next
        case False
        then obtain t where t: "ctxs w d = Some t" "b \<in> set (gblocks (G d))" using d by (auto simp: w'(3))
        then have "a \<in> extent (blks w) d b" using d(3) blk[OF t] by (simp add: extent_def)
        then show False using foreign_extent[OF f t] by blast
      qed
    qed
    ultimately show "foreign ?G w' a \<and> mem w' a = mem w a" by (simp add: foreign_def w'(2))
  qed
qed

section \<open>The sizes of a new context\<close>

definition create_args_ok :: "Size \<Rightarrow> Size \<Rightarrow> Size \<Rightarrow> bool" where
  "create_args_ok mn ini mx \<longleftrightarrow>
     8 dvd unat ini \<and> 1024 \<le> unat ini \<and> 8 dvd unat mx \<and> unat ini \<le> unat mx \<and> unat mx < 2 ^ 30
     \<and> (mn = 0 \<or> 8 dvd unat mn \<and> 1024 \<le> unat mn \<and> unat mn \<le> unat mx)"

lemma create_asserts:
  "(ini = MAXALIGN ini \<and> 1024 \<le> ini)
    \<and> (mx = MAXALIGN mx \<and> ini \<le> mx \<and> AllocHugeSizeIsValid mx)
    \<and> (mn = 0 \<or> (mn = MAXALIGN mn \<and> 1024 \<le> mn \<and> mn \<le> mx)) \<and> mx \<le> MEMORYCHUNK_MAX_BLOCKOFFSET
   \<longleftrightarrow> create_args_ok mn ini mx" (is "?A \<longleftrightarrow> _")
proof (cases "unat mx < 2 ^ 30")
  case False
  then have "\<not> mx \<le> MEMORYCHUNK_MAX_BLOCKOFFSET"
    by (simp add: MEMORYCHUNK_MAX_BLOCKOFFSET_def word_le_nat_alt)
  then show ?thesis using False by (simp add: create_args_ok_def)
next
  case True
  then have mx: "mx \<le> MEMORYCHUNK_MAX_BLOCKOFFSET" "AllocHugeSizeIsValid mx"
    by (simp_all add: MEMORYCHUNK_MAX_BLOCKOFFSET_def AllocHugeSizeIsValid_def word_le_nat_alt unat_MaxAlloc)
  have al: "len = MAXALIGN len \<longleftrightarrow> 8 dvd unat len" if "len \<le> mx" for len
    by (rule MAXALIGN_id_iff) (use that True in \<open>simp add: word_le_nat_alt\<close>)
  show ?thesis
    using mx True al[of ini] al[of mx] al[of mn]
    by (auto simp: create_args_ok_def word_le_nat_alt)
qed

section \<open>Creating a context\<close>

lemma links_ok_new:
  assumes ok: "links_ok T C" and c: "C c = None" "c \<noteq> 0" and s: "parent s = 0" "firstchild s = 0"
  shows "links_ok T (C(c \<mapsto> s))" and "T c = []"
proof -
  show T: "T c = []" by (rule links_okD(3)[OF ok c(1)])
  have c': "c \<notin> set (T p)" for p using links_okD(6)[OF ok, of c p] c(1) by simp
  have "y \<in> set (T p) \<longleftrightarrow> p \<noteq> 0 \<and> map_option parent ((C(c \<mapsto> s)) y) = Some p" for y p
    using links_okD(6)[OF ok, of y p] c' s by (cases "y = c") auto
  then show "links_ok T (C(c \<mapsto> s))"
    unfolding links_ok_def using links_okD(1-5)[OF ok] c c' s T by auto
qed

lemma heap_header_change:
  assumes ok: "heap_ok G w" and c: "ctxs w c = Some s"
    and s': "params_ok c s' (G c)" "freelist s' = freelist s" "blocks s' = blocks s"
      "mem_allocated s' = mem_allocated s"
  shows "heap_ok G (w\<lparr>ctxs := (ctxs w)(c \<mapsto> s')\<rparr>)"
    and "chunks G (w\<lparr>ctxs := (ctxs w)(c \<mapsto> s')\<rparr>) = chunks G w"
    and "same_foreign G w G (w\<lparr>ctxs := (ctxs w)(c \<mapsto> s')\<rparr>)"
proof -
  have "aset_ok (set (regions w)) (mem w) (blks w) c s' (G c)"
    using heap_okD(2)[OF ok c] s' by (simp add: aset_ok_def)
  then show "heap_ok G (w\<lparr>ctxs := (ctxs w)(c \<mapsto> s')\<rparr>)"
    using ok c by (auto simp: heap_ok_def)
  show "chunks G (w\<lparr>ctxs := (ctxs w)(c \<mapsto> s')\<rparr>) = chunks G w"
    using c by (auto simp: chunks_def)
  show "same_foreign G w G (w\<lparr>ctxs := (ctxs w)(c \<mapsto> s')\<rparr>)"
  proof -
    have "lib_bytes G (w\<lparr>ctxs := (ctxs w)(c \<mapsto> s')\<rparr>) = lib_bytes G w"
      using c by (auto simp: lib_bytes_def split: if_splits)
    then show ?thesis by (simp add: same_foreign_def foreign_def)
  qed
qed

lemma listed_some: "freelists_ok F w \<Longrightarrow> x \<in> set (F i) \<Longrightarrow> ctxs w x \<noteq> None"
  by (erule (1) listed_facts) simp

text \<open>Linking a context into the tree leaves the waiting contexts alone.\<close>

lemma waiting_untouched:
  assumes lk: "links_ok T (ctxs w)" and fr: "freelists_ok F w" and c: "\<And>i. c \<notin> set (F i)"
    and par: "par = 0 \<or> (\<forall>i. par \<notin> set (F i))"
    and C': "\<And>d. d \<notin> {c, par} \<union> set (T par) \<Longrightarrow> C' d = ctxs w d"
    and w': "ctxs w' = C'(c := v)" "context_freelists w' = context_freelists w"
  shows "freelists_ok F w'"
proof -
  have "freelist_ok (ctxs w') i (F i) (context_freelists w ! i)" if i: "i < 2" for i
  proof (rule freelist_ok_cong)
    show "freelist_ok (ctxs w) i (F i) (context_freelists w ! i)"
      using fr i by (simp add: freelists_ok_def)
    fix x u assume x: "x \<in> set (F i)" "ctxs w x = Some u" "recyclable i u"
    have "x \<noteq> 0" by (rule links_ok_nonzero[OF lk x(2)])
    moreover have "x \<noteq> c" using c x(1) by blast
    moreover have "x \<notin> set (T par)"
      by (rule root_no_child[OF lk x(2)]) (use x(3) in \<open>simp add: recyclable_def\<close>)
    ultimately have "ctxs w' x = ctxs w x" using par x(1) C' w'(1) by auto
    then show "\<exists>s'. ctxs w' x = Some s' \<and> nextchild s' = nextchild u \<and> recyclable i s'" using x by simp
  qed
  then show ?thesis using fr w'(2) by (simp add: freelists_ok_def)
qed

text \<open>A context has come into use, empty, as first child of \<open>par\<close>.\<close>

definition context_created :: "(addr \<Rightarrow> ghost) \<Rightarrow> (addr \<Rightarrow> addr list) \<Rightarrow> (nat \<Rightarrow> addr list) \<Rightarrow> world
    \<Rightarrow> addr \<Rightarrow> string \<Rightarrow> Size \<Rightarrow> Size \<Rightarrow> addr
    \<Rightarrow> (addr \<Rightarrow> ghost) \<Rightarrow> (nat \<Rightarrow> addr list) \<Rightarrow> world \<Rightarrow> bool" where
  "context_created G T F w par nm ini mx c G' F' w' \<longleftrightarrow>
     lib_ok G' (if par = 0 then T else T(par := c # T par)) F' w'
     \<and> c \<notin> live F w \<and> live F' w' = insert c (live F w)
     \<and> chunks G' w' = chunks G w \<and> mem w' = mem w \<and> (\<forall>a. foreign G w a \<longrightarrow> foreign G' w' a)
     \<and> (\<forall>d \<in> live F w. map_option strip_links (ctxs w' d) = map_option strip_links (ctxs w d))
     \<and> same_globals w w'
     \<and> (\<exists>s. ctxs w' c = Some s \<and> parent s = par \<and> ctx_name s = nm \<and> isReset s \<and> reset_cbs s = 0
          \<and> ident s = 0 \<and> firstchild s = 0 \<and> pristine c s (G' c)
          \<and> initBlockSize s = ucast ini \<and> maxBlockSize s = ucast mx
          \<and> allowInCritSection s = (par \<noteq> 0 \<and> allowInCritSection (the (ctxs w par))))"

lemma first_block:
  assumes "create_args_ok mn ini mx"
  defines "n \<equiv> (if mn \<noteq> 0 then max (of_nat (ALIGNED_CONTEXTSZ + ALLOC_BLOCKHDRSZ + ALLOC_CHUNKHDRSZ)) mn
     else max (of_nat (ALIGNED_CONTEXTSZ + ALLOC_BLOCKHDRSZ + ALLOC_CHUNKHDRSZ)) ini) :: Size"
  shows "n = (if mn \<noteq> 0 then mn else ini)" and "240 \<le> unat n" and "unat n < 2 ^ 30"
proof -
  show "n = (if mn \<noteq> 0 then mn else ini)"
    using assms(1) by (auto simp: n_def create_args_ok_def max_def word_le_nat_alt)
  then show "240 \<le> unat n" "unat n < 2 ^ 30" using assms(1) by (auto simp: create_args_ok_def)
qed

definition create_index_ok :: "int \<Rightarrow> Size \<Rightarrow> bool" where
  "create_index_ok idx ini \<longleftrightarrow> idx = -1 \<or> idx = 0 \<and> ini = 8192 \<or> idx = 1 \<and> ini = 1024"

lemma choose_index: "create_index_ok (choose_freeListIndex mn ini) ini"
  by (simp add: create_index_ok_def choose_freeListIndex_def ALLOCSET_DEFAULT_INITSIZE_def ALLOCSET_SMALL_INITSIZE_def)

lemma new_context_fail:
  assumes n: "n = (if mn \<noteq> 0 then max (of_nat (ALIGNED_CONTEXTSZ + ALLOC_BLOCKHDRSZ + ALLOC_CHUNKHDRSZ)) mn
     else max (of_nat (ALIGNED_CONTEXTSZ + ALLOC_BLOCKHDRSZ + ALLOC_CHUNKHDRSZ)) ini :: Size)"
    and m: "malloc n w = (0, w1)"
  shows "new_context idx par nm mn ini mx w = Inl (OutOfMemory n)"
  unfolding new_context_def Let_def unfolding n[symmetric] m by simp

lemma new_context_eq:
  assumes n: "n = (if mn \<noteq> 0 then max (of_nat (ALIGNED_CONTEXTSZ + ALLOC_BLOCKHDRSZ + ALLOC_CHUNKHDRSZ)) mn
     else max (of_nat (ALIGNED_CONTEXTSZ + ALLOC_BLOCKHDRSZ + ALLOC_CHUNKHDRSZ)) ini :: Size)"
    and m: "malloc n w = (c, v)" and c: "c \<noteq> 0" and l: "compute_allocChunkLimit mx = Inr limit"
    and K: "K = \<lparr>aset = c, bprev = 0, bnext = 0, freeptr = KeeperBlock c + ALLOC_BLOCKHDRSZ, endptr = c + unat n\<rparr>"
    and s0: "s0 = fresh_AllocSetContext\<lparr>blocks := KeeperBlock c,
                freelist := replicate ALLOCSET_NUM_FREELISTS 0,
                initBlockSize := ucast ini, maxBlockSize := ucast mx,
                nextBlockSize := ucast ini, freeListIndex := idx, allocChunkLimit := limit\<rparr>"
    and u: "u = v\<lparr>blks := (blks v)(KeeperBlock c \<mapsto> K)\<rparr>" and w1: "w1 = u\<lparr>ctxs := (ctxs u)(c \<mapsto> s0)\<rparr>"
  shows "new_context idx par nm mn ini mx w =
    seqE (MemoryContextCreate c T_AllocSetContext MCTX_ASET_ID par nm w1) (\<lambda>w.
    seqE (upd_ctx c (\<lambda>s. s\<lparr>mem_allocated := n\<rparr>) w) (\<lambda>w. Inr (c, w)))"
  unfolding new_context_def Let_def
  unfolding n[symmetric] m prod.case l if_not_P[OF c] seqE_simps
  unfolding K[symmetric] s0[symmetric] u[symmetric] w1[symmetric] ..

lemma new_context_run:
  assumes lib: "lib_ok G T F w" and args: "create_args_ok mn ini mx" and par: "par = 0 \<or> par \<in> live F w"
    and idx: "create_index_ok idx ini"
  shows "new_context idx par nm mn ini mx w = Inl (OutOfMemory (if mn \<noteq> 0 then mn else ini))
    \<or> (\<exists>c G' w'. new_context idx par nm mn ini mx w = Inr (c, w')
        \<and> context_created G T F w par nm ini mx c G' F w')"
proof -
  note ok' = lib_okD[OF lib]
  define n where "n = (if mn \<noteq> 0 then max (of_nat (ALIGNED_CONTEXTSZ + ALLOC_BLOCKHDRSZ + ALLOC_CHUNKHDRSZ)) mn
     else max (of_nat (ALIGNED_CONTEXTSZ + ALLOC_BLOCKHDRSZ + ALLOC_CHUNKHDRSZ)) ini :: Size)"
  note n = first_block[OF args, folded n_def]
  show ?thesis
  proof (cases rule: malloc_cases[of n w])
    case (fail as)
    then have "new_context idx par nm mn ini mx w = Inl (OutOfMemory n)" by (rule new_context_fail[OF n_def])
    then show ?thesis using n(1) by simp
  next
    case (ok c as)
    let ?kb = "KeeperBlock c"
    define K where "K = \<lparr>aset = c, bprev = 0, bnext = 0, freeptr = ?kb + ALLOC_BLOCKHDRSZ, endptr = c + unat n\<rparr>"
    obtain k where lim: "compute_allocChunkLimit mx = Inr (2 ^ k)" "k \<le> 13"
      using compute_allocChunkLimit_eq[of mx] args by (auto simp: create_args_ok_def)
    define s0 where "s0 = fresh_AllocSetContext\<lparr>blocks := ?kb,
                freelist := replicate ALLOCSET_NUM_FREELISTS 0,
                initBlockSize := ucast ini, maxBlockSize := ucast mx,
                nextBlockSize := ucast ini, freeListIndex := idx, allocChunkLimit := 2 ^ k\<rparr>"
    define v where "v = w\<lparr>answers := as, regions := (c, unat n) # regions w\<rparr>"
    define u where "u = v\<lparr>blks := (blks v)(?kb \<mapsto> K)\<rparr>"
    define w1 where "w1 = u\<lparr>ctxs := (ctxs u)(c \<mapsto> s0)\<rparr>"
    note w1_simps = w1_def u_def v_def
    have fresh: "ctxs w c = None" using fresh_structs(2)[OF ok'(1) ok(2), of c] n(2) by simp
    have cF: "c \<notin> set (F i)" for i using listed_some[OF ok'(3), of c i] fresh by blast
    note nl = links_ok_new[OF ok'(2) fresh ok(3), of s0]
    have lk1: "links_ok T (ctxs w1)" "T c = []"
      using nl by (simp_all add: w1_simps s0_def fresh_AllocSetContext_def)
    have parw: "par \<noteq> c" "par \<noteq> 0 \<Longrightarrow> \<exists>p. ctxs w par = Some p"
      using par fresh ok(3) by (auto simp: live_def)
    have partype: "par = 0 \<or> (\<exists>p. ctxs w1 par = Some p \<and> ctx_type p = T_AllocSetContext)"
      using parw ctx_params[OF ok'(1), of par] by (auto simp: w1_simps params_ok_def)
    have c1: "ctxs w1 c = Some s0" "parent s0 = 0" by (simp_all add: w1_simps s0_def fresh_AllocSetContext_def)
    obtain C' nxt where C': "MemoryContextCreate c T_AllocSetContext MCTX_ASET_ID par nm w1 = Inr (w1\<lparr>ctxs := C'\<rparr>)"
      "links_ok (if par = 0 then T else T(par := c # T par)) C'"
      "C' c = Some (created T_AllocSetContext MCTX_ASET_ID par nm nxt
         (par \<noteq> 0 \<and> allowInCritSection (the (ctxs w1 par))) s0)"
      "\<forall>d. d \<noteq> c \<longrightarrow> map_option strip_links (C' d) = map_option strip_links (ctxs w1 d)"
      "\<forall>d. d \<notin> {c, par} \<union> set (T par) \<longrightarrow> C' d = ctxs w1 d"
      using Create_run[OF lk1(1) c1 lk1(2) partype parw(1)[symmetric]] by blast
    define s where "s = (created T_AllocSetContext MCTX_ASET_ID par nm nxt
         (par \<noteq> 0 \<and> allowInCritSection (the (ctxs w1 par))) s0)\<lparr>mem_allocated := n\<rparr>"
    define w' where "w' = w1\<lparr>ctxs := C'(c \<mapsto> s)\<rparr>"
    have run: "new_context idx par nm mn ini mx w = Inr (c, w')"
    proof -
      note new_context_eq[OF n_def ok(1)[folded v_def] ok(3) lim(1) K_def s0_def u_def w1_def, of par nm]
      then show ?thesis using C'(1,3) by (simp add: upd_ctx_def w'_def s_def)
    qed
    have s: "ctx_type s = T_AllocSetContext" "methods s = MCTX_ASET_ID" "allocChunkLimit s = 2 ^ k"
      "initBlockSize s = ucast ini" "nextBlockSize s = ucast ini" "maxBlockSize s = ucast mx"
      "freeListIndex s = idx" "freelist s = replicate ALLOCSET_NUM_FREELISTS 0" "blocks s = ?kb"
      "mem_allocated s = n" "isReset s" "parent s = par" "firstchild s = 0" "reset_cbs s = 0"
      "ident s = 0" "ctx_name s = nm"
      "allowInCritSection s = (par \<noteq> 0 \<and> allowInCritSection (the (ctxs w par)))"
      using parw(1) by (auto simp: s_def created_def s0_def w1_simps)
    have pr: "pristine c s (fresh_ghost c)" by (rule fresh_pristine) (simp add: s)
    have params: "params_ok c s (fresh_ghost c)"
    proof -
      have "unat (2 ^ k :: uint32) = 2 ^ k" using lim(2) by (intro unat_two_power) simp
      moreover have "(2 :: nat) ^ k \<le> 2 ^ 13" using lim(2) by (intro power_increasing) simp_all
      moreover have "unat (ucast ini :: uint32) = unat ini" "unat (ucast mx :: uint32) = unat mx"
        using args by (auto simp: create_args_ok_def intro!: unat_ucast_small)
      ultimately show ?thesis
        using idx args ok(3) pr by (auto simp: params_ok_def s create_index_ok_def create_args_ok_def)
    qed
    let ?G = "G(c := fresh_ghost c)"
    define w2 where "w2 = w1\<lparr>ctxs := (ctxs w)(c \<mapsto> s)\<rparr>"
    note hn = heap_new_context[OF ok'(1) ok(2) n(2,3), of w2 s K]
    have w2: "regions w2 = (c, unat n) # regions w" "mem w2 = mem w" "ctxs w2 = (ctxs w)(c \<mapsto> s)"
      "blks w2 = (blks w)(?kb \<mapsto> K)" by (simp_all add: w2_def w1_simps)
    have K: "aset K = c" "bprev K = 0" "bnext K = 0" "freeptr K = ?kb + 40" "endptr K = c + unat n"
      by (simp_all add: K_def)
    have sm: "mem_allocated s = of_nat (unat n)" by (simp add: s)
    note hn = hn[OF w2 K params s(8,9) sm]
    have sh: "same_heap w2 w'"
    proof -
      have "map_option heap_view (ctxs w' d) = map_option heap_view (ctxs w2 d)" for d
      proof (cases "d = c")
        case False
        then have "map_option strip_links (ctxs w' d) = map_option strip_links (ctxs w2 d)"
          using C'(4) by (simp add: w'_def w2(3)) (simp add: w1_simps)
        then show ?thesis by (cases "ctxs w' d"; cases "ctxs w2 d") (auto intro: heap_view_strip_links)
      qed (simp add: w'_def w2_def)
      then show ?thesis by (simp add: same_heap_def w'_def w2_def)
    qed
    note sh' = same_heap_ok[OF sh hn(1)]
    have "same_links C' (ctxs w')" using C'(3) by (simp add: same_links_def w'_def s_def links_of_def)
    then have lk: "links_ok (if par = 0 then T else T(par := c # T par)) (ctxs w')"
      using links_ok_cong C'(2) by blast
    have fr: "freelists_ok F w'"
    proof (rule waiting_untouched[OF ok'(2,3) cF])
      show "par = 0 \<or> (\<forall>i. par \<notin> set (F i))" using par by (auto simp: live_def)
      show "C' d = ctxs w d" if "d \<notin> {c, par} \<union> set (T par)" for d
        using C'(5) that by (simp add: w1_simps)
      show "ctxs w' = C'(c := Some s)" by (simp add: w'_def)
      show "context_freelists w' = context_freelists w" by (simp add: w'_def w1_simps)
    qed
    have dom: "ctxs w' d \<noteq> None \<longleftrightarrow> d = c \<or> ctxs w d \<noteq> None" for d
    proof (cases "d = c")
      case False
      then have "map_option strip_links (ctxs w' d) = map_option strip_links (ctxs w d)"
        using C'(4) by (simp add: w'_def w1_simps)
      then show ?thesis using False by (metis option.map_disc_iff)
    qed (simp add: w'_def)
    have "context_created G T F w par nm ini mx c ?G F w'"
      unfolding context_created_def
    proof (intro conjI allI impI ballI)
      show "lib_ok ?G (if par = 0 then T else T(par := c # T par)) F w'"
        using sh'(1) lk fr by (simp add: lib_ok_def)
      show "c \<notin> live F w" using fresh by (simp add: live_def)
      show "live F w' = insert c (live F w)" using dom cF by (auto simp: live_def)
      show "chunks ?G w' = chunks G w" using sh'(2) hn(2) by simp
      show "mem w' = mem w" by (simp add: w'_def w1_simps)
      show "foreign ?G w' a" if "foreign G w a" for a
        using same_foreign_trans[OF hn(3) sh'(3)] that by (simp add: same_foreign_def)
      show "map_option strip_links (ctxs w' d) = map_option strip_links (ctxs w d)" if "d \<in> live F w" for d
      proof -
        have "d \<noteq> c" using that fresh by (auto simp: live_def)
        then show ?thesis using C'(4) by (simp add: w'_def w1_simps)
      qed
      show "same_globals w w'" by (simp add: same_globals_def w'_def w1_simps)
      show "\<exists>s. ctxs w' c = Some s \<and> parent s = par \<and> ctx_name s = nm \<and> isReset s \<and> reset_cbs s = 0
          \<and> ident s = 0 \<and> firstchild s = 0 \<and> pristine c s (?G c)
          \<and> initBlockSize s = ucast ini \<and> maxBlockSize s = ucast mx
          \<and> allowInCritSection s = (par \<noteq> 0 \<and> allowInCritSection (the (ctxs w par)))"
        using s pr by (intro exI[of _ s]) (simp add: w'_def)
    qed
    then show ?thesis using run by blast
  qed
qed

text \<open>Taking a context from its freelist.\<close>

lemma take_context:
  assumes lib: "lib_ok G T F w" and i: "i < 2" and F: "F i = c # xs" and s: "ctxs w c = Some s"
    and mx: "unat (initBlockSize s) \<le> unat mx" "unat mx < 2 ^ 30"
    and fl: "fl = context_freelists w ! i"
    and v: "v = set_context_freelist (int i) (fl\<lparr>first_free := nextchild s, num_free := num_free fl - 1\<rparr>) w"
    and w1: "w1 = v\<lparr>ctxs := (ctxs v)(c \<mapsto> s\<lparr>maxBlockSize := ucast mx\<rparr>)\<rparr>"
  shows "lib_ok G T (F(i := xs)) w1" and "chunks G w1 = chunks G w" and "same_foreign G w G w1"
    and "T c = []" and "isReset s" and "parent s = 0" and "freeListIndex s = int i" and "c \<notin> set ((F(i := xs)) j)"
proof -
  note ok' = lib_okD[OF lib]
  have fi: "freelist_ok (ctxs w) i (c # xs) fl" using ok'(3) i fl F by (auto simp: freelists_ok_def)
  then have r: "recyclable i s" and nx: "nextchild s = first xs 0" using s by (auto simp: freelist_ok_def)
  then show reset: "isReset s" and root: "parent s = 0" and idx: "freeListIndex s = int i"
    by (simp_all add: recyclable_def)
  show T: "T c = []" using no_children[OF ok'(2) s] r by (simp add: recyclable_def)
  let ?s = "s\<lparr>maxBlockSize := ucast mx\<rparr>"
  have ctx: "ctxs w1 = (ctxs w)(c \<mapsto> ?s)" by (simp add: w1 v set_context_freelist_def)
  have par: "params_ok c s (G c)" by (rule ctx_params[OF ok'(1) s])
  have p: "pristine c s (G c)" by (rule reset_context[OF ok'(1) s reset])
  have "unat (ucast mx :: uint32) = unat mx" using mx(2) by (intro unat_ucast_small) simp
  then have par': "params_ok c ?s (G c)"
    using par p mx by (auto simp: params_ok_def pristine_def)
  note hc = heap_header_change[OF ok'(1) s par']
  have fields: "regions w1 = regions (w\<lparr>ctxs := (ctxs w)(c \<mapsto> ?s)\<rparr>)" "mem w1 = mem (w\<lparr>ctxs := (ctxs w)(c \<mapsto> ?s)\<rparr>)"
    "ctxs w1 = ctxs (w\<lparr>ctxs := (ctxs w)(c \<mapsto> ?s)\<rparr>)" "blks w1 = blks (w\<lparr>ctxs := (ctxs w)(c \<mapsto> ?s)\<rparr>)"
    by (simp_all add: ctx) (simp_all add: w1 v set_context_freelist_def)
  note hf = heap_ok_fields[OF fields]
  show "chunks G w1 = chunks G w" using hf(2) hc(2) by simp
  show "same_foreign G w G w1" by (rule same_foreign_trans[OF _ hf(4)]) (simp add: hc(3))
  have cF: "c \<notin> set ((F(i := xs)) j)" for j
  proof (cases "j = i")
    case True
    then show ?thesis using fi by (simp add: freelist_ok_def)
  next
    case False
    have "c \<notin> set (F j)"
    proof
      assume "c \<in> set (F j)"
      then obtain u where "ctxs w c = Some u" "recyclable j u" by (rule listed_facts[OF ok'(3)])
      then show False using s r recyclable_index False by simp
    qed
    then show ?thesis using False by simp
  qed
  then show "c \<notin> set ((F(i := xs)) j)" .
  have "links_ok T (modify c (\<lambda>s. s\<lparr>maxBlockSize := ucast mx\<rparr>) (ctxs w))"
    by (rule links_ok_root[OF ok'(2) s root]) (simp_all add: root)
  then have lk: "links_ok T (ctxs w1)" using s by (simp add: ctx modify_def)
  have keep: "freelist_ok (ctxs w1) j ys fl'" if "freelist_ok (ctxs w) j ys fl'" "c \<notin> set ys" for j ys fl'
    by (rule freelist_ok_cong[OF _ that(1)]) (use that(2) ctx in auto)
  have len: "length (context_freelists w) = 2" using ok'(3) by (simp add: freelists_ok_def)
  have "freelist_ok (ctxs w) i xs (fl\<lparr>first_free := nextchild s, num_free := num_free fl - 1\<rparr>)"
    using fi nx by (auto simp: freelist_ok_def)
  then have new: "freelist_ok (ctxs w1) i xs (fl\<lparr>first_free := nextchild s, num_free := num_free fl - 1\<rparr>)"
    by (rule keep) (use cF[of i] in simp)
  have "freelists_ok (F(i := xs)) w1"
    unfolding freelists_ok_def
  proof (intro conjI allI impI)
    show "length (context_freelists w1) = 2" using len by (simp add: w1 v set_context_freelist_def)
    show "(F(i := xs)) j = []" if "2 \<le> j" for j using ok'(3) that i by (auto simp: freelists_ok_def)
    fix j :: nat assume j: "j < 2"
    show "freelist_ok (ctxs w1) j ((F(i := xs)) j) (context_freelists w1 ! j)"
    proof (cases "j = i")
      case True
      then show ?thesis using new len i by (simp add: w1 v set_context_freelist_def)
    next
      case False
      have "freelist_ok (ctxs w) j (F j) (context_freelists w ! j)" using ok'(3) j by (simp add: freelists_ok_def)
      then show ?thesis using keep cF[of j] False by (simp add: w1 v set_context_freelist_def)
    qed
  qed
  then show "lib_ok G T (F(i := xs)) w1" using lk hf(1) hc(1) by (simp add: lib_ok_def)
qed

lemma recycle_context_run:
  assumes lib: "lib_ok G T F w" and args: "create_args_ok mn ini mx" and par: "par = 0 \<or> par \<in> live F w"
    and idx: "create_index_ok (int i) ini" and F: "F i \<noteq> []"
  shows "\<exists>c F' w'. recycle_context (int i) par nm mx w = Inr (c, w')
        \<and> context_created G T F w par nm ini mx c G F' w'"
proof -
  note ok' = lib_okD[OF lib]
  obtain c xs where F: "F i = c # xs" using F by (cases "F i") auto
  have i: "i < 2" using idx by (auto simp: create_index_ok_def)
  obtain s where s0: "ctxs w c = Some s" "recyclable i s"
    using listed_facts[OF ok'(3), of c i] F by (metis list.set_intros(1))
  define fl where "fl = context_freelists w ! i"
  define v where "v = set_context_freelist (int i) (fl\<lparr>first_free := nextchild s, num_free := num_free fl - 1\<rparr>) w"
  define w1 where "w1 = v\<lparr>ctxs := (ctxs v)(c \<mapsto> s\<lparr>maxBlockSize := ucast mx\<rparr>)\<rparr>"
  have params: "params_ok c s (G c)" by (rule ctx_params[OF ok'(1) s0(1)])
  then have ini: "unat (initBlockSize s) = unat ini" "initBlockSize s = ucast ini"
    using s0(2) idx by (auto simp: params_ok_def recyclable_def create_index_ok_def)
  have mx: "unat (initBlockSize s) \<le> unat mx" "unat mx < 2 ^ 30" using ini args by (simp_all add: create_args_ok_def)
  let ?F = "F(i := xs)"
  note tc = take_context[OF lib i F s0(1) mx fl_def v_def w1_def]
  have ctx1: "ctxs w1 = (ctxs w)(c \<mapsto> s\<lparr>maxBlockSize := ucast mx\<rparr>)"
    by (simp add: w1_def v_def set_context_freelist_def)
  note ok1 = lib_okD[OF tc(1)]
  have s1: "ctxs w1 c = Some (s\<lparr>maxBlockSize := ucast mx\<rparr>)" "parent (s\<lparr>maxBlockSize := ucast mx\<rparr>) = 0"
    using tc(6) by (simp_all add: ctx1)
  have "c \<in> set (F i)" using F by simp
  then have cnl: "c \<notin> live F w" by (auto simp only: live_def mem_Collect_eq)
  have parw: "par \<noteq> c" "par \<noteq> 0 \<Longrightarrow> \<exists>p. ctxs w par = Some p"
    using par cnl links_ok_nonzero[OF ok'(2) s0(1)] by (auto simp: live_def)
  have partype: "par = 0 \<or> (\<exists>p. ctxs w1 par = Some p \<and> ctx_type p = T_AllocSetContext)"
    using parw ctx_params[OF ok'(1), of par] by (auto simp: ctx1 params_ok_def)
  obtain C' nxt where C': "MemoryContextCreate c T_AllocSetContext MCTX_ASET_ID par nm w1 = Inr (w1\<lparr>ctxs := C'\<rparr>)"
    "links_ok (if par = 0 then T else T(par := c # T par)) C'"
    "C' c = Some (created T_AllocSetContext MCTX_ASET_ID par nm nxt
       (par \<noteq> 0 \<and> allowInCritSection (the (ctxs w1 par))) (s\<lparr>maxBlockSize := ucast mx\<rparr>))"
    "\<forall>d. d \<noteq> c \<longrightarrow> map_option strip_links (C' d) = map_option strip_links (ctxs w1 d)"
    "\<forall>d. d \<notin> {c, par} \<union> set (T par) \<longrightarrow> C' d = ctxs w1 d"
    using Create_run[OF ok1(2) s1 tc(4) partype parw(1)[symmetric]] by blast
  obtain K where K: "blks w (KeeperBlock c) = Some K"
    "mem_allocated s - of_nat (\<Sum>b \<in> nonkeepers c (gblocks (G c)). block_size (blks w) c b) = ptr_diff (endptr K) c"
    by (rule keeper_size[OF ok'(1) s0(1)])
  note rc = reset_context[OF ok'(1) s0(1) tc(5)]
  have mem: "mem_allocated s = ptr_diff (endptr K) c" using K(2) rc(2) by simp
  define s' where "s' = (created T_AllocSetContext MCTX_ASET_ID par nm nxt
       (par \<noteq> 0 \<and> allowInCritSection (the (ctxs w1 par))) (s\<lparr>maxBlockSize := ucast mx\<rparr>))
       \<lparr>mem_allocated := ptr_diff (endptr K) c\<rparr>"
  define w' where "w' = w1\<lparr>ctxs := C'(c \<mapsto> s')\<rparr>"
  have run: "recycle_context (int i) par nm mx w = Inr (c, w')"
  proof -
    have g: "get_context_freelist w (int i) = Inr fl"
      unfolding fl_def by (rule get_context_freelist_ok[OF ok'(3) i])
    have ff: "first_free fl = c" using ok'(3) i F by (simp add: freelists_ok_def freelist_ok_def fl_def)
    have "ctxs v = ctxs w" by (simp add: v_def set_context_freelist_def)
    then have up: "upd_ctx c (\<lambda>s. s\<lparr>maxBlockSize := ucast mx\<rparr>) v = Inr w1"
      using s0(1) by (simp add: upd_ctx_def w1_def)
    have kb: "blks (w1\<lparr>ctxs := C'\<rparr>) (KeeperBlock c) = Some K"
      using K(1) by (simp add: w1_def v_def set_context_freelist_def)
    show ?thesis
      unfolding recycle_context_def g seqE_simps Let_def ff get_ctx_Some[OF s0(1)] v_def[symmetric] up C'(1)
        get_blk_Some[OF kb]
      using C'(3) by (simp add: upd_ctx_def s'_def w'_def)
  qed
  have f: "isReset s'" "parent s' = par" "firstchild s' = 0" "reset_cbs s' = 0" "ident s' = 0" "ctx_name s' = nm"
    "initBlockSize s' = ucast ini" "maxBlockSize s' = ucast mx" "nextBlockSize s' = nextBlockSize s"
    "allowInCritSection s' = (par \<noteq> 0 \<and> allowInCritSection (the (ctxs w par)))"
    using parw(1) by (auto simp: s'_def created_def ini(2) ctx1)
  have hv: "heap_view s' = heap_view (s\<lparr>maxBlockSize := ucast mx\<rparr>)"
  proof -
    have "ctx_type s = T_AllocSetContext" "methods s = MCTX_ASET_ID" using params by (simp_all add: params_ok_def)
    then show ?thesis
      using tc(5) mem by (cases s) (simp add: heap_view_def s'_def created_def AllocSetContext.defs)
  qed
  have sh: "same_heap w1 w'"
  proof -
    have "map_option heap_view (ctxs w' d) = map_option heap_view (ctxs w1 d)" for d
    proof (cases "d = c")
      case True
      then show ?thesis using hv s1 by (simp add: w'_def)
    next
      case False
      then have "map_option strip_links (ctxs w' d) = map_option strip_links (ctxs w1 d)"
        using C'(4) by (simp add: w'_def)
      then show ?thesis by (cases "ctxs w' d"; cases "ctxs w1 d") (auto intro: heap_view_strip_links)
    qed
    then show ?thesis by (simp add: same_heap_def w'_def)
  qed
  note sh' = same_heap_ok[OF sh ok1(1)]
  have "same_links C' (ctxs w')" using C'(3) by (simp add: same_links_def w'_def s'_def links_of_def)
  then have lk: "links_ok (if par = 0 then T else T(par := c # T par)) (ctxs w')"
    using links_ok_cong C'(2) by blast
  have fr: "freelists_ok ?F w'"
  proof (rule waiting_untouched[OF ok1(2,3) tc(8)])
    have "set (?F j) \<subseteq> set (F j)" for j using F by auto
    then show "par = 0 \<or> (\<forall>j. par \<notin> set (?F j))" using par unfolding live_def by blast
    show "C' d = ctxs w1 d" if "d \<notin> {c, par} \<union> set (T par)" for d using C'(5) that by blast
    show "ctxs w' = C'(c := Some s')" "context_freelists w' = context_freelists w1" by (simp_all add: w'_def)
  qed
  have dom: "ctxs w' d \<noteq> None \<longleftrightarrow> ctxs w d \<noteq> None" for d
    using same_heap_None[OF sh, of d] s0(1) by (auto simp: ctx1 split: if_splits)
  have "context_created G T F w par nm ini mx c G ?F w'"
    unfolding context_created_def
  proof (intro conjI allI impI ballI)
    show "lib_ok G (if par = 0 then T else T(par := c # T par)) ?F w'"
      using sh'(1) lk fr by (simp add: lib_ok_def)
    show "c \<notin> live F w" by (rule cnl)
    show "live ?F w' = insert c (live F w)"
    proof (intro set_eqI)
      fix d
      show "d \<in> live ?F w' \<longleftrightarrow> d \<in> insert c (live F w)"
      proof (cases "d = c")
        case True
        have "ctxs w' c \<noteq> None" using dom[of c] s0(1) by simp
        then have "c \<in> live ?F w'" unfolding live_def using tc(8) by blast
        then show ?thesis using True by simp
      next
        case False
        have "d \<in> set (?F j) \<longleftrightarrow> d \<in> set (F j)" for j using F False by (cases "j = i") simp_all
        then have "d \<in> live ?F w' \<longleftrightarrow> d \<in> live F w" unfolding live_def using dom[of d] by blast
        then show ?thesis using False by blast
      qed
    qed
    show "chunks G w' = chunks G w" using sh'(2) tc(2) by simp
    show "mem w' = mem w" by (simp add: w'_def w1_def v_def set_context_freelist_def)
    show "foreign G w' a" if "foreign G w a" for a
      using same_foreign_trans[OF tc(3) sh'(3)] that by (simp add: same_foreign_def)
    show "map_option strip_links (ctxs w' d) = map_option strip_links (ctxs w d)" if "d \<in> live F w" for d
    proof -
      have "d \<noteq> c" using that cnl by blast
      then show ?thesis using C'(4) by (simp add: w'_def ctx1)
    qed
    show "same_globals w w'" by (simp add: same_globals_def w'_def w1_def v_def set_context_freelist_def)
    have "pristine c s' (G c)" using rc(1) f(7,9) ini(2) by (simp add: pristine_def)
    then show "\<exists>s. ctxs w' c = Some s \<and> parent s = par \<and> ctx_name s = nm \<and> isReset s \<and> reset_cbs s = 0
        \<and> ident s = 0 \<and> firstchild s = 0 \<and> pristine c s (G c)
        \<and> initBlockSize s = ucast ini \<and> maxBlockSize s = ucast mx
        \<and> allowInCritSection s = (par \<noteq> 0 \<and> allowInCritSection (the (ctxs w par)))"
      using f by (intro exI[of _ s']) (simp add: w'_def)
  qed
  then show ?thesis using run by blast
qed

text \<open>
  \<open>AllocSetContextCreateInternal\<close>: assertion failures for sizes that are out of range, else a new
  context, recycled when one of the right size waits, or out of memory.
\<close>

lemma Create_internal_run:
  assumes lib: "lib_ok G T F w" and par: "par = 0 \<or> par \<in> live F w"
  shows "if \<not> create_args_ok mn ini mx
    then AllocSetContextCreateInternal par nm mn ini mx w = Inl AssertFailed
    else AllocSetContextCreateInternal par nm mn ini mx w = Inl (OutOfMemory (if mn \<noteq> 0 then mn else ini))
      \<or> (\<exists>c G' F' w'. AllocSetContextCreateInternal par nm mn ini mx w = Inr (c, w')
          \<and> context_created G T F w par nm ini mx c G' F' w')"
proof (cases "create_args_ok mn ini mx")
  case False
  have "AllocSetContextCreateInternal par nm mn ini mx w = Inl AssertFailed"
    using False unfolding create_asserts[symmetric]
    by (auto simp: AllocSetContextCreateInternal_def assertE_def)
  then show ?thesis using False by simp
next
  case True
  define idx where "idx = choose_freeListIndex mn ini"
  have idx: "create_index_ok idx ini" unfolding idx_def by (rule choose_index)
  note a = True[folded create_asserts]
  define r where "r = (if idx \<ge> 0 then seqE (get_context_freelist w idx) (\<lambda>fl. Inr (first_free fl \<noteq> 0)) else Inr False)"
  have run: "AllocSetContextCreateInternal par nm mn ini mx w = seqE r (\<lambda>recycle.
     if recycle then recycle_context idx par nm mx w else new_context idx par nm mn ini mx w)"
    using a by (simp add: AllocSetContextCreateInternal_def assertE_def Let_def idx_def[symmetric] r_def)
  note new = new_context_run[OF lib True par idx, of nm]
  show ?thesis
  proof (cases "idx \<ge> 0")
    case False
    then have "AllocSetContextCreateInternal par nm mn ini mx w = new_context idx par nm mn ini mx w"
      using run by (simp add: r_def)
    then show ?thesis using True new by auto
  next
    case idx0: True
    then obtain i :: nat where i: "idx = int i" by (metis nonneg_int_cases)
    have i2: "i < 2" using idx i by (auto simp: create_index_ok_def)
    note fr = lib_okD(3)[OF lib]
    have g: "get_context_freelist w idx = Inr (context_freelists w ! i)"
      unfolding i by (rule get_context_freelist_ok[OF fr i2])
    have fi: "freelist_ok (ctxs w) i (F i) (context_freelists w ! i)" using fr i2 by (simp add: freelists_ok_def)
    have ff: "first_free (context_freelists w ! i) \<noteq> 0 \<longleftrightarrow> F i \<noteq> []"
      using fi by (cases "F i") (auto simp: freelist_ok_def)
    show ?thesis
    proof (cases "F i = []")
      case empty: True
      then have "AllocSetContextCreateInternal par nm mn ini mx w = new_context idx par nm mn ini mx w"
        using run g ff idx0 by (simp add: r_def)
      then show ?thesis using True new by auto
    next
      case False
      have ix: "create_index_ok (int i) ini" using idx i by simp
      have "AllocSetContextCreateInternal par nm mn ini mx w = recycle_context (int i) par nm mx w"
        using run g ff idx0 False i by (simp add: r_def)
      then show ?thesis using True recycle_context_run[OF lib True par ix False, of nm] by auto
    qed
  qed
qed

section \<open>Initialisation\<close>

lemma initial_lib_ok:
  "lib_ok G (\<lambda>_. []) (\<lambda>_. []) (initial_world m as)" "live (\<lambda>_. []) (initial_world m as) = {}"
  "chunks G (initial_world m as) = {}"
proof -
  let ?F = "\<lambda>_ :: nat. [] :: addr list"
  have "freelist_ok C i [] \<lparr>num_free = 0, first_free = 0\<rparr>" for C i
    by (simp add: freelist_ok_def MAX_FREE_CONTEXTS_def)
  then have "freelists_ok ?F (initial_world m as)"
    by (auto simp: freelists_ok_def initial_world_def less_2_cases_iff)
  then show "lib_ok G (\<lambda>_. []) ?F (initial_world m as)"
    by (simp add: lib_ok_def heap_ok_def links_ok_def initial_world_def)
qed (simp_all add: live_def chunks_def initial_world_def)

text \<open>After \<open>MemoryContextInit\<close> the library is up: two contexts, one below the other, and no chunk.\<close>

definition initialised :: "(addr \<Rightarrow> ghost) \<Rightarrow> (addr \<Rightarrow> addr list) \<Rightarrow> (nat \<Rightarrow> addr list) \<Rightarrow> world \<Rightarrow> bool" where
  "initialised G T F w \<longleftrightarrow>
     (\<exists>e s. lib_ok G T F w \<and> live F w = {TopMemoryContext w, e} \<and> e \<noteq> TopMemoryContext w
        \<and> T = (\<lambda>_. [])(TopMemoryContext w := [e])
        \<and> CurrentMemoryContext w = TopMemoryContext w \<and> ErrorContext w = e \<and> chunks G w = {}
        \<and> ctxs w e = Some s \<and> allowInCritSection s \<and> isReset s
        \<and> (\<forall>d \<in> live F w. \<exists>u. ctxs w d = Some u \<and> reset_cbs u = 0) \<and> calls w = [])"

lemma lib_ok_globals:
  assumes "regions w' = regions w" "mem w' = mem w" "ctxs w' = ctxs w" "blks w' = blks w"
    "context_freelists w' = context_freelists w"
  shows "lib_ok G T F w' = lib_ok G T F w" and "live F w' = live F w"
    and "chunks G w' = chunks G w"
  using heap_ok_fields(1,2)[OF assms(1-4), where G = G] assms
  by (simp_all add: lib_ok_def freelists_ok_def live_def)

lemma Init_run:
  "MemoryContextInit (initial_world m as) = Inl (OutOfMemory 8192)
   \<or> (\<exists>G T F w'. MemoryContextInit (initial_world m as) = Inr w' \<and> initialised G T F w')"
proof -
  let ?w = "initial_world m as" and ?T = "\<lambda>_ :: addr. [] :: addr list" and ?F = "\<lambda>_ :: nat. [] :: addr list"
  have args: "create_args_ok ALLOCSET_DEFAULT_MINSIZE ALLOCSET_DEFAULT_INITSIZE ALLOCSET_DEFAULT_MAXSIZE"
    "create_args_ok (8 * 1024) (8 * 1024) (8 * 1024)"
    by (simp_all add: create_args_ok_def ALLOCSET_DEFAULT_MINSIZE_def ALLOCSET_DEFAULT_INITSIZE_def
        ALLOCSET_DEFAULT_MAXSIZE_def)
  have top0: "TopMemoryContext ?w = 0" by (simp add: initial_world_def)
  define G0 where "G0 = (undefined :: addr \<Rightarrow> ghost)"
  let ?C1 = "AllocSetContextCreateInternal 0 ''TopMemoryContext'' ALLOCSET_DEFAULT_MINSIZE
      ALLOCSET_DEFAULT_INITSIZE ALLOCSET_DEFAULT_MAXSIZE ?w"
  have "?C1 = Inl (OutOfMemory 8192) \<or> (\<exists>c G' F' w'. ?C1 = Inr (c, w')
      \<and> context_created G0 ?T ?F ?w 0 ''TopMemoryContext'' ALLOCSET_DEFAULT_INITSIZE ALLOCSET_DEFAULT_MAXSIZE c G' F' w')"
    using Create_internal_run[OF initial_lib_ok(1)[of G0 m as], of 0 ALLOCSET_DEFAULT_MINSIZE
        ALLOCSET_DEFAULT_INITSIZE ALLOCSET_DEFAULT_MAXSIZE "''TopMemoryContext''"] args(1)
    by (simp add: ALLOCSET_DEFAULT_MINSIZE_def ALLOCSET_DEFAULT_INITSIZE_def)
  then consider (oom) "?C1 = Inl (OutOfMemory 8192)"
    | (created) c G1 F1 w1 where "?C1 = Inr (c, w1)"
        "context_created G0 ?T ?F ?w 0 ''TopMemoryContext'' ALLOCSET_DEFAULT_INITSIZE ALLOCSET_DEFAULT_MAXSIZE c G1 F1 w1"
    by blast
  then show ?thesis
  proof cases
    case oom
    then show ?thesis by (simp add: MemoryContextInit_def top0 assertE_def)
  next
    case created
    note c1 = created(2)[unfolded context_created_def]
    have ok1: "lib_ok G1 ?T F1 w1" and live1: "live F1 w1 = {c}" and ch1: "chunks G1 w1 = {}"
      using c1 initial_lib_ok by simp_all
    define w2 where "w2 = w1\<lparr>TopMemoryContext := c, CurrentMemoryContext := c\<rparr>"
    have f2: "regions w2 = regions w1" "mem w2 = mem w1" "ctxs w2 = ctxs w1" "blks w2 = blks w1"
      "context_freelists w2 = context_freelists w1" by (simp_all add: w2_def)
    note g2 = lib_ok_globals[OF f2]
    have ok2: "lib_ok G1 ?T F1 w2" and live2: "live F1 w2 = {c}" and ch2: "chunks G1 w2 = {}"
      using g2 ok1 live1 ch1 by simp_all
    let ?C2 = "AllocSetContextCreateInternal c ''ErrorContext'' (8 * 1024) (8 * 1024) (8 * 1024) w2"
    have run: "MemoryContextInit ?w = seqE ?C2 (\<lambda>(e, w).
       MemoryContextAllowInCriticalSection e True (w\<lparr>ErrorContext := e\<rparr>))"
      using created(1) by (simp add: MemoryContextInit_def top0 assertE_def Let_def w2_def)
    have "?C2 = Inl (OutOfMemory 8192) \<or> (\<exists>e G' F' w'. ?C2 = Inr (e, w')
        \<and> context_created G1 ?T F1 w2 c ''ErrorContext'' (8 * 1024) (8 * 1024) e G' F' w')"
      using Create_internal_run[OF ok2, of c "8 * 1024" "8 * 1024" "8 * 1024" "''ErrorContext''"] args(2) live2
      by simp
    then consider (oom) "?C2 = Inl (OutOfMemory 8192)"
      | (made) e G3 F3 w3 where "?C2 = Inr (e, w3)"
          "context_created G1 ?T F1 w2 c ''ErrorContext'' (8 * 1024) (8 * 1024) e G3 F3 w3"
      by blast
    then show ?thesis
    proof cases
      case oom
      then show ?thesis by (simp add: run)
    next
      case made
      note c3 = made(2)[unfolded context_created_def]
      have "c \<in> live F1 w1" by (simp add: live1)
      then have "ctxs w1 c \<noteq> None" by (simp add: live_def)
      then have c0: "c \<noteq> 0" using links_okD(1)[OF lib_okD(2)[OF ok1]] by (cases "c = 0") auto
      let ?T' = "?T(c := [e])"
      have ok3: "lib_ok G3 ?T' F3 w3" and live3: "live F3 w3 = {e, c}" and ch3: "chunks G3 w3 = {}"
        and ec: "e \<noteq> c" using c3 live2 ch2 c0 by auto
      obtain s where s: "ctxs w3 e = Some s" "isReset s" "reset_cbs s = 0" using c3 by blast
      obtain u1 where u1: "ctxs w2 c = Some u1" "reset_cbs u1 = 0" using c1 f2(3) by auto
      then obtain u where u: "ctxs w3 c = Some u" "strip_links u = strip_links u1"
        using c3 live2 by auto
      have u0: "reset_cbs u = 0" using strip_links_fields(1)[OF u(2)] u1(2) by simp
      define w4 where "w4 = w3\<lparr>ErrorContext := e\<rparr>"
      have f4: "regions w4 = regions w3" "mem w4 = mem w3" "ctxs w4 = ctxs w3" "blks w4 = blks w3"
        "context_freelists w4 = context_freelists w3" by (simp_all add: w4_def)
      note g4 = lib_ok_globals[OF f4]
      have ok4: "lib_ok G3 ?T' F3 w4" using g4(1) ok3 by simp
      have s4: "ctxs w4 e = Some s" using s by (simp add: w4_def)
      let ?s = "s\<lparr>allowInCritSection := True\<rparr>"
      define w' where "w' = w4\<lparr>ctxs := (ctxs w4)(e \<mapsto> ?s)\<rparr>"
      have c': "ctxs w' = (ctxs w4)(e \<mapsto> ?s)" by (simp add: w'_def)
      have sh: "same_heap w4 w'"
        by (rule same_heap_upd[OF s4 _ _ _ _ c']) (simp_all add: w'_def heap_view_def)
      note sh' = same_heap_ok[OF sh lib_okD(1)[OF ok4]]
      have eF: "e \<notin> set (F3 i)" for i using live3 by (auto simp: live_def)
      have ok': "lib_ok G3 ?T' F3 w'"
        by (rule lib_ok_ctx[OF ok4 s4 eF sh'(1) c']) (simp_all add: links_of_def w'_def)
      have "MemoryContextInit ?w = Inr w'"
        unfolding run made(1) seqE_simps prod.case w4_def[symmetric] MemoryContextAllowInCriticalSection_def
          valid_ctx[OF lib_okD(1)[OF ok4] s4] upd_ctx_Some[OF s4] w'_def ..
      moreover have glob: "TopMemoryContext w' = c" "CurrentMemoryContext w' = c" "ErrorContext w' = e" "calls w' = []"
        using c1 c3 by (simp_all add: w'_def w4_def same_globals_def w2_def initial_world_def)
      moreover have live': "live F3 w' = {c, e}" using same_heap_live[OF sh] g4(2) live3 by auto
      moreover have "\<forall>d \<in> live F3 w'. \<exists>u. ctxs w' d = Some u \<and> reset_cbs u = 0"
        unfolding live' using u(1) u0 s(3) ec by (simp add: w'_def w4_def)
      moreover have "chunks G3 w' = {}" using sh'(2) g4(3) ch3 by simp
      ultimately have "initialised G3 ?T' F3 w'"
        unfolding initialised_def using ok' ec s(2) by (intro exI[of _ e] exI[of _ ?s]) (simp add: w'_def)
      then show ?thesis using \<open>MemoryContextInit ?w = Inr w'\<close> by blast
    qed
  qed
qed

section \<open>The sizes of a recycled context\<close>

text \<open>A recycled context keeps the chunk limit of its former life, whatever block size it gets.\<close>

definition context_sizes :: "world \<Rightarrow> addr \<Rightarrow> (uint32 \<times> uint32) option" where
  "context_sizes w c = map_option (\<lambda>s. (allocChunkLimit s, maxBlockSize s)) (ctxs w c)"

definition sizes_kept :: "world \<Rightarrow> error + world \<Rightarrow> bool" where
  "sizes_kept w r \<longleftrightarrow> (\<forall>w'. r = Inr w' \<longrightarrow> context_sizes w' = context_sizes w)"

lemma sizes_kept_Inr: "context_sizes v = context_sizes w \<Longrightarrow> sizes_kept w (Inr v)"
  by (simp add: sizes_kept_def)

lemma sizes_kept_Inl: "sizes_kept w (Inl e)"
  by (simp add: sizes_kept_def)

lemma sizes_kept_upd:
  assumes "context_sizes v = context_sizes w"
    and "\<And>s. allocChunkLimit (f s) = allocChunkLimit s" and "\<And>s. maxBlockSize (f s) = maxBlockSize s"
  shows "sizes_kept w (upd_ctx c f v)"
proof -
  have "context_sizes w' = context_sizes v" if "upd_ctx c f v = Inr w'" for w'
  proof
    show "context_sizes w' d = context_sizes v d" for d
      using that assms(2,3) by (auto simp: upd_ctx_def context_sizes_def split: option.splits)
  qed
  then show ?thesis using assms(1) by (simp add: sizes_kept_def)
qed

lemma sizes_kept_seq:
  assumes "sizes_kept w m" and f: "\<And>v. context_sizes v = context_sizes w \<Longrightarrow> sizes_kept w (f v)"
  shows "sizes_kept w (seqE m f)"
proof (cases m)
  case (Inr v)
  then show ?thesis using assms(1) f[of v] unfolding sizes_kept_def Inr seqE_simps by blast
qed (simp add: sizes_kept_def)

lemma sizes_kept_read: "(\<And>x. sizes_kept w (f x)) \<Longrightarrow> sizes_kept w (seqE m f)"
  by (cases m) (simp_all only: seqE_simps sizes_kept_Inl)

lemma sizes_kept_if: "sizes_kept w x \<Longrightarrow> sizes_kept w y \<Longrightarrow> sizes_kept w (if b then x else y)"
  by simp

lemma MemoryContextCreate_sizes: "sizes_kept w (MemoryContextCreate n t i par nm w)"
  unfolding MemoryContextCreate_def
  by (rule sizes_kept_seq sizes_kept_read sizes_kept_upd sizes_kept_Inr sizes_kept_if refl
      | assumption | (simp (no_asm) split del: if_split; fail))+

lemma recycle_keeps_limit:
  assumes "recycle_context i par nm mx w = Inr (c, w')" and "ctxs w c = Some s"
  shows "context_sizes w' c = Some (allocChunkLimit s, ucast mx)"
proof -
  obtain v v1 k v2 where v: "ctxs v = ctxs w" "upd_ctx c (\<lambda>s. s\<lparr>maxBlockSize := ucast mx\<rparr>) v = Inr v1"
    "MemoryContextCreate c T_AllocSetContext MCTX_ASET_ID par nm v1 = Inr v2"
    "upd_ctx c (\<lambda>s. s\<lparr>mem_allocated := k\<rparr>) v2 = Inr w'"
  proof -
    have "\<exists>(fl :: AllocSetFreeList) (s :: AllocSetContext) v1 v2 (b :: AllocBlockData). upd_ctx c (\<lambda>s. s\<lparr>maxBlockSize := ucast mx\<rparr>)
        (set_context_freelist i (fl\<lparr>first_free := nextchild s, num_free := num_free fl - 1\<rparr>) w) = Inr v1
      \<and> MemoryContextCreate c T_AllocSetContext MCTX_ASET_ID par nm v1 = Inr v2
      \<and> upd_ctx c (\<lambda>s. s\<lparr>mem_allocated := ptr_diff (endptr b) c\<rparr>) v2 = Inr w'"
      using assms(1) by (clarsimp simp: recycle_context_def seqE_eq_Inr Let_def) (intro exI conjI; assumption)
    then show ?thesis
      by (elim exE conjE) (rule that[rotated], assumption+, simp add: set_context_freelist_def)
  qed
  have "sizes_kept v2 (upd_ctx c (\<lambda>s. s\<lparr>mem_allocated := k\<rparr>) v2)" by (rule sizes_kept_upd) simp_all
  then have "context_sizes w' = context_sizes v1"
    using v(3,4) MemoryContextCreate_sizes[of v1] by (auto simp: sizes_kept_def)
  moreover have "context_sizes v1 c = Some (allocChunkLimit s, ucast mx)"
    using v(1,2) assms(2) by (auto simp: upd_ctx_def context_sizes_def)
  ultimately show ?thesis by simp
qed

end
