(* ===== verification/LibraryProofs.thy ===== *)
theory LibraryProofs
  imports CreateProofs
begin

text \<open>
  The invariant \<open>lib_ok\<close> under the other operations: chunks come and go, contexts move in the tree,
  callbacks are registered and unregistered; and the trees that the deletion of a context walks over
  exist as long as the parent relation is well-founded.
\<close>

unbundle bit_operations_syntax

section \<open>What the operations on chunks keep\<close>

text \<open>An operation on chunks keeps tree and freelists.\<close>

lemma client_view_stays:
  assumes "same_rest w w'"
  shows "same_links (ctxs w) (ctxs w')" and "ctxs w' d = None \<longleftrightarrow> ctxs w d = None"
proof -
  have cv: "map_option client_view (ctxs w' d) = map_option client_view (ctxs w d)" for d
    using assms by (simp add: same_rest_def)
  show "ctxs w' d = None \<longleftrightarrow> ctxs w d = None" using cv[of d] by (metis option.map_disc_iff)
  have "map_option links_of (ctxs w' d) = map_option links_of (ctxs w d)" for d
    using cv[of d] by (cases "ctxs w' d"; cases "ctxs w d") (auto intro: client_view_links)
  then show "same_links (ctxs w) (ctxs w')" by (simp add: same_links_def)
qed

lemma lib_ok_evolves:
  assumes lib: "lib_ok G T F w" and ev: "evolves G w X G' w'"
  shows "lib_ok G' T F w'" and "live F w' = live F w"
proof -
  have sr: "same_rest w w'" and ok: "heap_ok G' w'" using ev by (simp_all add: evolves_def)
  note cv = client_view_stays[OF sr]
  show "live F w' = live F w" using cv(2) by (auto simp: live_def)
  have "freelist_ok (ctxs w') i (F i) (context_freelists w ! i)" if i: "i < 2" for i
  proof (rule freelist_ok_cong)
    show "freelist_ok (ctxs w) i (F i) (context_freelists w ! i)"
      using lib_okD(3)[OF lib] i by (simp add: freelists_ok_def)
    fix x s assume x: "ctxs w x = Some s" "recyclable i s"
    obtain s' where s': "ctxs w' x = Some s'" "client_view s' = client_view s"
      by (rule same_rest_ctx[OF sr x(1)])
    then show "\<exists>s'. ctxs w' x = Some s' \<and> nextchild s' = nextchild s \<and> recyclable i s'"
      using x(2) client_view_fields[OF s'(2)] by (auto simp: recyclable_def)
  qed
  moreover have "context_freelists w' = context_freelists w" using sr by (simp add: same_rest_def)
  ultimately have "freelists_ok F w'" using lib_okD(3)[OF lib] by (simp add: freelists_ok_def)
  then show "lib_ok G' T F w'"
    using ok links_ok_cong[OF cv(1)] lib_okD(2)[OF lib] by (simp add: lib_ok_def)
qed

lemma lib_ok_touched:
  assumes lib: "lib_ok G T F w" and c: "c \<in> live F w"
  shows "lib_ok G T F (touched w c)" and "live F (touched w c) = live F w"
proof -
  obtain s where s: "ctxs w c = Some s" using c by (auto simp: live_def)
  have cF: "c \<notin> set (F i)" for i using c by (simp add: live_def)
  show "lib_ok G T F (touched w c)"
    by (rule lib_ok_ctx[OF lib s cF heap_touched(1)[OF lib_okD(1)[OF lib]], of c "s\<lparr>isReset := False\<rparr>"])
      (use s in \<open>simp_all add: touched_def modify_def links_of_def\<close>)
  show "live F (touched w c) = live F w" by (simp add: live_def)
qed

section \<open>Moving a context\<close>

lemma SetParent_lib:
  assumes lib: "lib_ok G T F w" and x: "ctxs w x = Some k" "x \<in> live F w"
    and ne: "np \<noteq> x" and p: "np = 0 \<or> np \<in> live F w"
  shows "\<exists>C'. MemoryContextSetParent x np w = Inr (w\<lparr>ctxs := C'\<rparr>) \<and> only_links (ctxs w) C'
    \<and> lib_ok G (if np = parent k then T else moved_child x (parent k) np T) F (w\<lparr>ctxs := C'\<rparr>)"
proof -
  note ok' = lib_okD[OF lib]
  have p': "np = 0 \<or> ctxs w np \<noteq> None" using p by (auto simp: live_def)
  obtain C' where C': "MemoryContextSetParent x np w = Inr (w\<lparr>ctxs := C'\<rparr>)" "only_links (ctxs w) C'"
    "links_ok (if np = parent k then T else moved_child x (parent k) np T) C'"
    "\<forall>d. d \<notin> {x, parent k, np} \<union> set (T (parent k)) \<union> set (T np) \<longrightarrow> C' d = ctxs w d"
    using SetParent_run[OF ok'(1,2) x(1) ne p'] by blast
  have "freelist_ok C' i (F i) (context_freelists w ! i)" if i: "i < 2" for i
  proof (rule freelist_ok_cong)
    show "freelist_ok (ctxs w) i (F i) (context_freelists w ! i)"
      using ok'(3) i by (simp add: freelists_ok_def)
    fix y u assume y: "y \<in> set (F i)" "ctxs w y = Some u" "recyclable i u"
    have y0: "y \<noteq> 0" by (rule links_ok_nonzero[OF ok'(2) y(2)])
    have yl: "y \<notin> live F w" using y(1) unfolding live_def by blast
    have "y \<noteq> x" "y \<noteq> np" using yl x(2) p y0 by auto
    moreover have "y \<notin> set (T q)" for q
      by (rule root_no_child[OF ok'(2) y(2)]) (use y(3) in \<open>simp add: recyclable_def\<close>)
    moreover have "y \<noteq> parent k"
    proof
      assume eq: "y = parent k"
      then have "x \<in> set (T y)" using links_ok_parent(1)[OF ok'(2) x(1)] y0 by simp
      moreover have "T y = []" using no_children[OF ok'(2) y(2)] y(3) by (simp add: recyclable_def)
      ultimately show False by simp
    qed
    ultimately have "C' y = ctxs w y" using C'(4) by simp
    then show "\<exists>s'. C' y = Some s' \<and> nextchild s' = nextchild u \<and> recyclable i s'" using y by simp
  qed
  then have "freelists_ok F (w\<lparr>ctxs := C'\<rparr>)" using ok'(3) by (simp add: freelists_ok_def)
  moreover have "heap_ok G (w\<lparr>ctxs := C'\<rparr>)"
    by (rule same_heap_ok(1)[OF only_links_same_heap[OF C'(2)] ok'(1)])
  ultimately show ?thesis using C' by (auto simp: lib_ok_def)
qed

section \<open>Trees exist\<close>

definition child_rel :: "(addr \<Rightarrow> addr list) \<Rightarrow> (addr \<times> addr) set" where
  "child_rel T = {(x, p). x \<in> set (T p)}"

lemma tree_exists:
  assumes "wf (child_rel T)"
  shows "\<exists>t. root t = c \<and> shape T t"
  using assms
proof (induction c rule: wf_induct_rule)
  case (less c)
  have "\<forall>x \<in> set (T c). \<exists>t. root t = x \<and> shape T t" using less by (simp add: child_rel_def)
  then obtain f where f: "\<And>x. x \<in> set (T c) \<Longrightarrow> root (f x) = x \<and> shape T (f x)" by metis
  then have "map root (map f (T c)) = T c" by (simp add: map_idI)
  then have "shape T (CNode c (map f (T c)))" using f by simp
  then show ?case by (intro exI[of _ "CNode c (map f (T c))"]) simp
qed

lemma in_preorder_iff:
  "shape T t \<Longrightarrow> x \<in> set (preorder t) \<longleftrightarrow> (x, root t) \<in> (child_rel T)\<^sup>*"
proof (induction t)
  case (CNode c ts)
  have kids: "(y, c) \<in> child_rel T \<longleftrightarrow> y \<in> root ` set ts" for y
    using CNode.prems by (simp add: child_rel_def) (metis list.set_map)
  have IH: "x \<in> set (preorder t) \<longleftrightarrow> (x, root t) \<in> (child_rel T)\<^sup>*" if "t \<in> set ts" for t
    using CNode.IH[OF that] CNode.prems that by simp
  have "(x, c) \<in> (child_rel T)\<^sup>* \<longleftrightarrow> x = c \<or> (\<exists>t \<in> set ts. (x, root t) \<in> (child_rel T)\<^sup>*)"
  proof
    assume "(x, c) \<in> (child_rel T)\<^sup>*"
    then show "x = c \<or> (\<exists>t \<in> set ts. (x, root t) \<in> (child_rel T)\<^sup>*)"
      by (cases rule: rtranclE) (use kids in auto)
  next
    assume "x = c \<or> (\<exists>t \<in> set ts. (x, root t) \<in> (child_rel T)\<^sup>*)"
    then show "(x, c) \<in> (child_rel T)\<^sup>*"
      using kids by (auto intro: rtrancl_into_rtrancl)
  qed
  then show ?case using IH by auto
qed

lemma wf_new_child:
  assumes "wf (child_rel T)" and "T c = []" and "c \<noteq> p"
  shows "wf (child_rel (T(p := c # T p)))"
proof -
  have "child_rel (T(p := c # T p)) = insert (c, p) (child_rel T)" by (auto simp: child_rel_def)
  moreover have "(p, c) \<notin> (child_rel T)\<^sup>*"
    using assms(2,3) by (auto elim: rtranclE simp: child_rel_def)
  ultimately show ?thesis using assms(1) by (simp add: wf_insert)
qed

lemma wf_moved_child:
  assumes wf: "wf (child_rel T)" and np: "np = 0 \<or> (np, x) \<notin> (child_rel T)\<^sup>*"
  shows "wf (child_rel (moved_child x p np T))"
proof -
  let ?T = "T(p := remove1 x (T p))"
  have sub: "child_rel ?T \<subseteq> child_rel T" by (auto simp: child_rel_def dest: notin_set_remove1 split: if_splits)
  have wf1: "wf (child_rel ?T)" by (rule wf_subset[OF wf sub])
  show ?thesis
  proof (cases "np = 0")
    case True
    then show ?thesis using wf1 by (simp add: moved_child_def)
  next
    case False
    have eq: "child_rel (moved_child x p np T) = insert (x, np) (child_rel ?T)"
      using False by (auto simp: child_rel_def moved_child_def Let_def)
    have "(np, x) \<notin> (child_rel ?T)\<^sup>*" using np False rtrancl_mono[OF sub] by blast
    then show ?thesis unfolding eq using wf1 by (simp add: wf_insert)
  qed
qed

lemma wf_filtered: "wf (child_rel T) \<Longrightarrow> wf (child_rel (\<lambda>p. filter P (T p)))"
  by (rule wf_subset) (auto simp: child_rel_def)

lemma child_live:
  assumes lib: "lib_ok G T F w" and x: "x \<in> set (T p)"
  shows "x \<in> live F w"
proof -
  obtain s k where k: "ctxs w x = Some k" "parent k = p" "p \<noteq> 0"
    by (rule child_facts[OF lib_okD(2)[OF lib] x])
  have "x \<notin> set (F i)" for i
  proof
    assume "x \<in> set (F i)"
    then obtain u where "ctxs w x = Some u" "recyclable i u" by (rule listed_facts[OF lib_okD(3)[OF lib]])
    then show False using k by (simp add: recyclable_def)
  qed
  then show ?thesis using k(1) by (simp add: live_def)
qed

lemma tree_live:
  assumes lib: "lib_ok G T F w"
  shows "shape T t \<Longrightarrow> root t \<in> live F w \<Longrightarrow> set (preorder t) \<subseteq> live F w"
proof (induction t)
  case (CNode c ts)
  have "set (preorder t) \<subseteq> live F w" if t: "t \<in> set ts" for t
  proof (rule CNode.IH[OF t])
    have "root t \<in> set (T c)" using CNode.prems(1) t by (metis image_eqI list.set_map shape.simps)
    then show "root t \<in> live F w" by (rule child_live[OF lib])
  qed (use CNode.prems t in simp)
  then show ?case using CNode.prems(2) by auto
qed

section \<open>Registering callbacks\<close>

text \<open>A context whose list of callbacks changes, with writes to memory of the clients only.\<close>

lemma callbacks_changed:
  assumes ok: "heap_ok G w" and c: "ctxs w c = Some s"
    and m: "\<And>a. m a \<noteq> mem w a \<Longrightarrow> client_owned G w a"
    and w': "w' = w\<lparr>mem := m, ctxs := (ctxs w)(c \<mapsto> s')\<rparr>"
    and s': "heap_view s' = heap_view s \<or> heap_view s' = heap_view (s\<lparr>isReset := False\<rparr>)"
  shows "heap_ok G w'" and "chunks G w' = chunks G w"
proof -
  note cw = client_writes[OF ok m]
  have par: "params_ok c s (G c)" by (rule ctx_params[OF ok c])
  have "params_ok c s' (G c) \<and> freelist s' = freelist s \<and> blocks s' = blocks s
    \<and> mem_allocated s' = mem_allocated s"
    using s'
  proof
    assume hv: "heap_view s' = heap_view s"
    show ?thesis using par by (simp add: params_ok_def pristine_def heap_view_fields[OF hv])
  next
    assume hv: "heap_view s' = heap_view (s\<lparr>isReset := False\<rparr>)"
    show ?thesis using par by (simp add: params_ok_def heap_view_fields[OF hv])
  qed
  then have f: "params_ok c s' (G c)" "freelist s' = freelist s" "blocks s' = blocks s"
    "mem_allocated s' = mem_allocated s" by blast+
  have c1: "ctxs (w\<lparr>mem := m\<rparr>) c = Some s" using c by simp
  note hc = heap_header_change[OF cw(1) c1 f]
  have eq: "w\<lparr>mem := m\<rparr>\<lparr>ctxs := (ctxs (w\<lparr>mem := m\<rparr>))(c \<mapsto> s')\<rparr> = w'" by (simp add: w')
  show "heap_ok G w'" using hc(1) unfolding eq .
  show "chunks G w' = chunks G w" using hc(2) cw(2) unfolding eq by simp
qed

text \<open>The callbacks of \<open>c\<close> are \<open>cbs\<close> now: only their links and the head of the list were written.\<close>

definition registered :: "(addr \<Rightarrow> ghost) \<Rightarrow> world \<Rightarrow> addr \<Rightarrow> addr list \<Rightarrow> world \<Rightarrow> bool" where
  "registered G w c cbs w' \<longleftrightarrow>
     heap_ok G w' \<and> chunks G w' = chunks G w
     \<and> (\<forall>a. mem w' a \<noteq> mem w a \<longrightarrow> (\<exists>x \<in> set cbs. x + 16 \<le> a \<and> a < x + 24))
     \<and> (\<exists>s s'. ctxs w c = Some s \<and> w' = w\<lparr>mem := mem w', ctxs := (ctxs w)(c \<mapsto> s')\<rparr>
          \<and> s' = s\<lparr>reset_cbs := reset_cbs s', isReset := isReset s'\<rparr> \<and> (isReset s' \<longrightarrow> isReset s)
          \<and> cb_list w' (reset_cbs s') cbs)"

lemma Register_post:
  assumes ok: "heap_ok G w" and c: "ctxs w c = Some s" and l: "cb_list w (reset_cbs s) cbs"
    and cb: "cb \<noteq> 0" "in_region w cb 24" and apart: "\<And>x. x \<in> set cbs \<Longrightarrow> cb_apart cb x"
    and own: "\<And>a. cb \<le> a \<Longrightarrow> a < cb + 24 \<Longrightarrow> client_owned G w a"
  shows "\<exists>w'. MemoryContextRegisterResetCallback c cb w = Inr w' \<and> registered G w c (cb # cbs) w'
    \<and> (\<exists>s'. ctxs w' c = Some s' \<and> \<not> isReset s')"
proof -
  obtain w' where w': "MemoryContextRegisterResetCallback c cb w = Inr w'"
    "w' = w\<lparr>mem := store64 (mem w) (cb + 16) (of_nat (reset_cbs s)),
            ctxs := (ctxs w)(c \<mapsto> s\<lparr>reset_cbs := cb, isReset := False\<rparr>)\<rparr>"
    "cb_list w' cb (cb # cbs)"
    by (rule Register_run[OF heap_okD(1)[OF ok] valid_ctx[OF ok c] c l cb apart])
  have m: "client_owned G w a" if "store64 (mem w) (cb + 16) (of_nat (reset_cbs s)) a \<noteq> mem w a" for a
    using that own[of a] by (auto simp: store64_def split: if_splits)
  have hv: "heap_view (s\<lparr>reset_cbs := cb, isReset := False\<rparr>) = heap_view (s\<lparr>isReset := False\<rparr>)"
    by (cases s) (simp add: heap_view_def AllocSetContext.defs)
  note cc = callbacks_changed[OF ok c m w'(2) disjI2[OF hv]]
  have "\<exists>x \<in> set (cb # cbs). x + 16 \<le> a \<and> a < x + 24" if "mem w' a \<noteq> mem w a" for a
    using that by (auto simp: w'(2) store64_def split: if_splits)
  moreover have "\<exists>s s'. ctxs w c = Some s \<and> w' = w\<lparr>mem := mem w', ctxs := (ctxs w)(c \<mapsto> s')\<rparr>
      \<and> s' = s\<lparr>reset_cbs := reset_cbs s', isReset := isReset s'\<rparr> \<and> (isReset s' \<longrightarrow> isReset s)
      \<and> cb_list w' (reset_cbs s') (cb # cbs)"
    by (rule exI[of _ s], rule exI[of _ "s\<lparr>reset_cbs := cb, isReset := False\<rparr>"]) (use w'(2,3) c in simp)
  ultimately have "registered G w c (cb # cbs) w'" unfolding registered_def using cc by blast
  then show ?thesis using w'(1,2) by simp
qed

lemma Unregister_post:
  assumes ok: "heap_ok G w" and c: "ctxs w c = Some s" and l: "cb_list w (reset_cbs s) cbs"
    and apart: "\<And>x y. x \<in> set cbs \<Longrightarrow> y \<in> set cbs \<Longrightarrow> x \<noteq> y \<Longrightarrow> cb_apart x y" and dist: "distinct cbs"
    and own: "\<And>a. a \<in> cb_bytes cbs \<Longrightarrow> client_owned G w a"
  shows "if cb \<in> set cbs
    then \<exists>w'. MemoryContextUnregisterResetCallback c cb w = Inr w' \<and> registered G w c (remove1 cb cbs) w'
    else MemoryContextUnregisterResetCallback c cb w = Inl AssertFailed"
proof (cases "cb \<in> set cbs")
  case False
  then show ?thesis using Unregister_missing[OF valid_ctx[OF ok c] c l] by simp
next
  case True
  then obtain us vs where cbs: "cbs = us @ cb # vs" "cb \<notin> set us" by (meson split_list_first)
  have rem: "remove1 cb cbs = us @ vs" using cbs by (simp add: remove1_append)
  have apart': "cb_apart x y" if "x \<in> set us" "y \<in> set (us @ vs)" "x \<noteq> y" for x y
    using apart that by (auto simp: cbs)
  have d: "distinct us" "set us \<inter> set vs = {}" using dist by (auto simp: cbs)
  have l': "cb_list w (reset_cbs s) (us @ cb # vs)" using l by (simp add: cbs)
  obtain w' s' where w': "MemoryContextUnregisterResetCallback c cb w = Inr w'"
    "w' = w\<lparr>mem := mem w', ctxs := (ctxs w)(c \<mapsto> s')\<rparr>" "s' = s\<lparr>reset_cbs := reset_cbs s'\<rparr>"
    "cb_list w' (reset_cbs s') (us @ vs)"
    "\<And>a. mem w' a \<noteq> mem w a \<Longrightarrow> \<exists>x \<in> set us. x + 16 \<le> a \<and> a < x + 24"
    by (rule Unregister_run[OF valid_ctx[OF ok c] c l' cbs(2) apart' d]) blast+
  have m: "client_owned G w a" if ne: "mem w' a \<noteq> mem w a" for a
  proof -
    obtain x where "x \<in> set us" "x + 16 \<le> a" "a < x + 24" using w'(5)[OF ne] by blast
    then have "a \<in> cb_bytes cbs" by (force simp: cb_bytes_def cbs)
    then show ?thesis by (rule own)
  qed
  have hv: "heap_view s' = heap_view s" by (subst w'(3)) (simp add: heap_view_def)
  note cc = callbacks_changed[OF ok c m w'(2) disjI1[OF hv]]
  have s': "s' = s\<lparr>reset_cbs := reset_cbs s', isReset := isReset s'\<rparr>" "isReset s' = isReset s"
    using w'(3) by (cases s; cases s'; simp add: AllocSetContext.defs)+
  have "\<exists>x \<in> set (us @ vs). x + 16 \<le> a \<and> a < x + 24" if "mem w' a \<noteq> mem w a" for a
    using w'(5)[OF that] by auto
  then have "registered G w c (remove1 cb cbs) w'"
    unfolding registered_def rem using cc c w'(2,4) s' by blast
  then show ?thesis using True w'(1) by auto
qed

end
