(* ===== verification/ProgressProofs.thy ===== *)
theory ProgressProofs
  imports LibraryProofs
begin

text \<open>
  Progress: when \<open>malloc\<close> grants the next request, allocation, creation and initialisation do not
  report out of memory and do not return null. Together with the contracts, which allow these
  outcomes, this shows that the library gives up only when \<open>malloc\<close> does.
\<close>

unbundle bit_operations_syntax

section \<open>A \<open>malloc\<close> with memory to give\<close>

text \<open>The next call of \<open>malloc\<close> succeeds for every size up to \<open>N\<close>.\<close>

definition grants :: "world \<Rightarrow> nat \<Rightarrow> bool" where
  "grants w N \<longleftrightarrow> (case answers w of [] \<Rightarrow> False | a # as \<Rightarrow> admissible (regions w) a N)"

lemma admissible_smaller: "admissible rs a N \<Longrightarrow> 0 < n \<Longrightarrow> n \<le> N \<Longrightarrow> admissible rs a n"
  by (auto simp: admissible_def overlaps_def list_all_iff)

lemma grants_smaller: "grants w N \<Longrightarrow> 0 < n \<Longrightarrow> n \<le> N \<Longrightarrow> grants w n"
  by (auto simp: grants_def admissible_smaller split: list.splits)

lemma malloc_granted:
  assumes "grants w N" and "0 < unat n" and "unat n \<le> N"
  obtains a w' where "malloc n w = (a, w')" and "a \<noteq> 0"
proof -
  obtain a as where a: "answers w = a # as" "admissible (regions w) a (unat n)"
    using assms by (auto simp: grants_def split: list.splits intro: admissible_smaller)
  then have "a \<noteq> 0" by (simp add: admissible_def)
  with a that show ?thesis by (simp add: malloc_def)
qed

lemma grants_cong: "answers w' = answers w \<Longrightarrow> regions w' = regions w \<Longrightarrow> grants w' N = grants w N"
  by (cases "answers w") (simp_all add: grants_def)

section \<open>Outcomes other than out of memory\<close>

definition no_oom :: "error + 'a \<Rightarrow> bool" where
  "no_oom r \<longleftrightarrow> (\<forall>n. r \<noteq> Inl (OutOfMemory n))"

text \<open>An allocation that neither reports out of memory nor returns null.\<close>

definition given :: "error + addr \<times> world \<Rightarrow> bool" where
  "given r \<longleftrightarrow> no_oom r \<and> (\<forall>w. r \<noteq> Inr (0, w))"

named_theorems progress "operations that do not report out of memory"

lemma no_oom_Inr [progress]: "no_oom (Inr x)" by (simp add: no_oom_def)

lemma no_oom_seqE [progress]: "no_oom m \<Longrightarrow> (\<And>x. m = Inr x \<Longrightarrow> no_oom (f x)) \<Longrightarrow> no_oom (seqE m f)"
  by (cases m) (auto simp: no_oom_def)

lemma given_seqE [progress]: "no_oom m \<Longrightarrow> (\<And>x. m = Inr x \<Longrightarrow> given (f x)) \<Longrightarrow> given (seqE m f)"
  by (cases m) (auto simp: given_def no_oom_def)

lemma given_pointer [progress]: "given (Inr (MemoryChunkGetPointer chunk, w))"
  by (simp add: given_def no_oom_def MemoryChunkGetPointer_def sizeof_MemoryChunk_def)

lemma no_oom_if [progress]: "(b \<Longrightarrow> no_oom m) \<Longrightarrow> (\<not> b \<Longrightarrow> no_oom n) \<Longrightarrow> no_oom (if b then m else n)"
  by simp

lemma given_if [progress]: "(b \<Longrightarrow> given m) \<Longrightarrow> (\<not> b \<Longrightarrow> given n) \<Longrightarrow> given (if b then m else n)"
  by simp

lemma no_oom_access [progress]:
  "no_oom (assertE b)" "no_oom (get_ctx w c)" "no_oom (upd_ctx c f w)" "no_oom (get_blk w b')"
  "no_oom (upd_blk b' g w)" "no_oom (Assert_valid w c)" "no_oom (load64E w a)" "no_oom (store64E a v w)"
  "no_oom (load_ptr w a)" "no_oom (store_ptr a p w)" "no_oom (get_freelist s i)"
  "no_oom (set_freelist c i p w)" "no_oom (MemoryChunkGetValue w a)"
  "no_oom (MemoryChunkSetHdrMask a p v i' w)" "no_oom (MemoryChunkSetHdrMaskExternal a i' w)"
  by (auto simp: no_oom_def assertE_def get_ctx_def upd_ctx_def get_blk_def upd_blk_def Assert_valid_def
      MemoryContextIsValid_def load64E_def store64E_def load_ptr_def store_ptr_def get_freelist_def
      set_freelist_def MemoryChunkGetValue_def MemoryChunkSetHdrMask_def MemoryChunkSetHdrMaskExternal_def
      Let_def seqE_eq_Inl split: option.splits if_splits)

lemma no_oom_loopE:
  assumes "\<And>s. b s \<Longrightarrow> no_oom (c s)"
  shows "no_oom (loopE b c s)"
  unfolding no_oom_def
proof (intro allI notI)
  fix n
  assume "loopE b c s = Inl (OutOfMemory n)"
  then obtain r where r: "while_option (\<lambda>r. case r of Inl e \<Rightarrow> False | Inr s \<Rightarrow> b s) (\<lambda>r. seqE r c) (Inr s) = Some r"
    "r = Inl (OutOfMemory n)" by (auto simp: loopE_def split: option.splits)
  have "no_oom r"
    by (rule while_option_rule[OF _ r(1)])
      (auto simp: assms no_oom_Inr split: sum.splits)
  then show False using r(2) by (simp add: no_oom_def)
qed

lemma given_split: "given (case x of (a, b) \<Rightarrow> f a b) \<longleftrightarrow> given (f (fst x) (snd x))"
  by (cases x) simp

lemma no_oom_size [progress]:
  "no_oom (AllocSetFreeIndex sz)" "no_oom (MemoryContextCheckSize c sz flags)"
  by (auto simp: no_oom_def AllocSetFreeIndex_def MemoryContextCheckSize_def MemoryContextSizeFailure_def Let_def seqE_eq_Inl assertE_def
      pg_leftmost_one_pos32_def split: if_splits)

lemma no_oom_grow_blksize [progress]: "no_oom (grow_blksize r b)"
  unfolding grow_blksize_def by (rule no_oom_loopE) (rule no_oom_Inr)

lemma no_oom_carve_block [progress]: "no_oom (carve_block c b x)"
  unfolding carve_block_def
  by (rule no_oom_loopE) (auto simp: carve_chunk_def Let_def intro!: progress split: prod.splits)


lemma malloc_block_granted:
  assumes "grants w N" and "0 < unat blksize" and "unat blksize \<le> N"
  obtains a w' where "malloc_block r blksize w = Inr (a, blksize, w')" and "a \<noteq> 0"
proof -
  obtain a w' where m: "malloc blksize w = (a, w')" "a \<noteq> 0" by (rule malloc_granted[OF assms])
  then have "malloc_block r blksize w = Inr (a, blksize, w')"
    by (simp add: malloc_block_def loopE_stop)
  then show ?thesis using that m(2) by blast
qed

lemma given_ChunkFromBlock [progress]: "given (AllocSetAllocChunkFromBlock c b sz cs i w)"
  by (auto simp: AllocSetAllocChunkFromBlock_def Let_def intro!: progress)

lemma given_pop_freelist [progress]: "given (pop_freelist c i chunk w)"
  by (auto simp: pop_freelist_def intro!: progress)

lemma given_AllocLarge:
  assumes g: "grants w N" and N: "unat sz + 56 \<le> N" "N < 2 ^ 64"
  shows "given (AllocSetAllocLarge c sz flags w)"
proof -
  define n where "n = MAXALIGN sz + of_nat ALLOC_BLOCKHDRSZ + of_nat ALLOC_CHUNKHDRSZ"
  have b: "unat (MAXALIGN sz) < unat sz + 8" by (rule MAXALIGN_bounds) (use N in simp)
  then have "unat n = unat (MAXALIGN sz) + 48"
    unfolding n_def using N by (simp add: unat_word_ariths ALLOC_BLOCKHDRSZ_def ALLOC_CHUNKHDRSZ_def)
  then have n: "0 < unat n" "unat n \<le> N" using b N by simp_all
  obtain a w' where m: "malloc n w = (a, w')" "a \<noteq> 0" by (rule malloc_granted[OF g n])
  show ?thesis
    unfolding AllocSetAllocLarge_def Let_def n_def[symmetric] m(1) prod.case if_not_P[OF m(2)]
    by (auto intro!: progress)
qed

lemma no_oom_install_block [progress]: "no_oom (install_block c b n w)"
  unfolding install_block_def Let_def by (intro progress)

lemma given_NewBlock:
  assumes ok: "heap_ok G w" and c: "ctxs w c = Some s" and nr: "\<not> isReset s"
    and k: "k < 11" and sz: "unat sz \<le> class_size k"
    and K: "blks w (blocks s) = Some K" and small: "endptr K - freeptr K < class_size k + 8"
    and g: "grants w N" and N: "2 ^ 30 \<le> N"
  shows "given (AllocSetAllocFromNewBlock c sz flags (int k) w)"
proof (rule NewBlock_run[OF ok c nr k sz K small, of flags])
  fix G1 w2 s2 and n :: Size
  assume w2: "answers w2 = answers w" "regions w2 = regions w"
    and n: "class_size k + 48 \<le> unat n" "unat n < 2 ^ 30"
    and run: "AllocSetAllocFromNewBlock c sz flags (int k) w =
     seqE (malloc_block (GetChunkSizeFromFreeListIdx (int k) + of_nat ALLOC_BLOCKHDRSZ + of_nat ALLOC_CHUNKHDRSZ)
             n w2) (\<lambda>(block, blksize, w).
     if block = 0 then MemoryContextAllocationFailure c sz flags w else
     seqE (install_block c block blksize w)
       (AllocSetAllocChunkFromBlock c block sz (GetChunkSizeFromFreeListIdx (int k)) (int k)))"
  have "grants w2 N" using grants_cong[OF w2] g by simp
  then obtain b w3 where
    m: "malloc_block (GetChunkSizeFromFreeListIdx (int k) + of_nat ALLOC_BLOCKHDRSZ + of_nat ALLOC_CHUNKHDRSZ)
      n w2 = Inr (b, n, w3)" "b \<noteq> 0"
    by (rule malloc_block_granted[of w2 N n]) (use n N in simp_all)
  show ?thesis
    unfolding run m(1) seqE_simps prod.case if_not_P[OF m(2)] by (intro progress)
qed

lemma given_AllocSetAlloc:
  assumes ok: "heap_ok G w" and c: "ctxs w c = Some s" and nr: "\<not> isReset s"
    and g: "grants w N" and N: "2 ^ 30 + unat sz \<le> N"
  shows "given (AllocSetAlloc c sz flags w)"
proof -
  have N2: "N < 2 ^ 64" using g by (auto simp: grants_def admissible_def split: list.splits)
  show ?thesis
  proof (cases "sz > ucast (allocChunkLimit s)")
    case True
    have "given (AllocSetAllocLarge c sz flags w)" by (rule given_AllocLarge[OF g _ N2]) (use N in simp)
    then show ?thesis
      using True by (simp add: AllocSetAlloc_def valid_ctx[OF ok c] get_ctx_Some[OF c] assertE_def given_def no_oom_def)
  next
    case False
    then have lim: "unat sz \<le> unat (allocChunkLimit s)"
      using unat_ucast_small[of "allocChunkLimit s", where 'b = 64]
      by (simp add: word_less_nat_alt order.strict_trans[OF unsigned_less])
    moreover have "unat (allocChunkLimit s) \<le> 8192"
      using ctx_params[OF ok c] by (simp add: params_ok_def)
    ultimately obtain k where k: "k < 11" "AllocSetFreeIndex sz = Inr (int k)" "unat sz \<le> class_size k"
      by (metis AllocSetFreeIndex_class order_trans)
    obtain K where K: "blks w (blocks s) = Some K" "freeptr K \<le> endptr K" "endptr K < 2 ^ 64"
      by (rule heap_ok_block[OF ok c ctx_head(1)[OF ok c]])
    have new: "given (AllocSetAllocFromNewBlock c sz flags (int k) w)"
      if "ptr_diff (endptr K) (freeptr K) < GetChunkSizeFromFreeListIdx (int k) + of_nat ALLOC_CHUNKHDRSZ"
    proof (rule given_NewBlock[OF ok c nr k(1,3) K(1) _ g])
      show "endptr K - freeptr K < class_size k + 8"
        using that by (simp add: word_less_nat_alt unat_ptr_diff[OF K(2,3)] unat_class(2)[OF k(1)] del: sizes)
    qed (use N in simp)
    show ?thesis
      using False k(2) new
      by (auto simp: AllocSetAlloc_def valid_ctx[OF ok c] get_ctx_Some[OF c] get_blk_def K(1) Let_def
          simp del: sizes intro!: progress)
  qed
qed

lemma alloc_post_given:
  assumes "alloc_post G w c sz flags zero res" and "given res" and "size_accepted sz flags"
  shows "\<exists>p G' w'. res = Inr (p, w') \<and> allocated G (touched w c) c sz p G' w'
    \<and> (zero \<longrightarrow> (\<forall>i < unat sz. mem w' (p + i) = 0))"
  using assms(1)
proof (cases rule: alloc_post_cases)
  case (chunk p G' w')
  then show ?thesis by blast
qed (use assms(2,3) in \<open>auto simp: given_def no_oom_def\<close>)

text \<open>Where \<open>malloc\<close> grants enough, an allocation of an admissible size gives a chunk.\<close>

lemma context_alloc_granted:
  assumes ok: "heap_ok G w" and c: "ctxs w c = Some s"
    and g: "grants w N" and N: "2 ^ 30 + unat sz \<le> N" and acc: "size_accepted sz flags"
  shows "\<exists>p G' w'. context_alloc c sz flags w = Inr (p, w') \<and> allocated G (touched w c) c sz p G' w'"
proof -
  let ?w = "touched w c"
  have c': "ctxs ?w c = Some (s\<lparr>isReset := False\<rparr>)" by (rule touched_ctx[OF c])
  have "methods s = MCTX_ASET_ID" using ctx_params[OF ok c] by (simp add: params_ok_def)
  then have run: "context_alloc c sz flags w = AllocSetAlloc c sz flags ?w"
    using c by (simp add: context_alloc_def upd_ctx_def touched_def modify_def get_ctx_def mcxt_alloc_def)
  have "grants ?w N" using g grants_cong[of ?w w] by (simp add: touched_def)
  then have "given (context_alloc c sz flags w)"
    unfolding run by (intro given_AllocSetAlloc[OF heap_touched(1)[OF ok] c' _ _ N]) simp_all
  from alloc_post_given[OF context_alloc_post[OF ok c] this acc] show ?thesis by blast
qed

lemma AllocExtended_granted:
  assumes ok: "heap_ok G w" and c: "ctxs w c = Some s"
    and g: "grants w N" and N: "2 ^ 30 + unat sz \<le> N" and acc: "size_accepted sz flags"
  shows "\<exists>p G' w'. MemoryContextAllocExtended c sz flags w = Inr (p, w') \<and> allocated G (touched w c) c sz p G' w'
    \<and> (flags AND MCXT_ALLOC_ZERO \<noteq> 0 \<longrightarrow> (\<forall>i < unat sz. mem w' (p + i) = 0))"
proof (rule alloc_post_given[OF MemoryContextAlloc_post(4)[OF ok c] _ acc])
  obtain p G' w1 where a: "context_alloc c sz flags w = Inr (p, w1)" "allocated G (touched w c) c sz p G' w1"
    using context_alloc_granted[OF assms] by blast
  have p: "p \<noteq> 0" using a(2) by (simp add: allocated_def)
  obtain w2 where z: "MemSetAligned p sz w1 = Inr w2" by (rule zero_fill[OF a(2)])
  show "given (MemoryContextAllocExtended c sz flags w)"
    using p by (auto simp: MemoryContextAllocExtended_def valid_ctx[OF ok c] a(1) z given_def no_oom_def)
qed

section \<open>Creation\<close>

lemma no_oom_Create [progress]: "no_oom (MemoryContextCreate n t i p nm w)"
  unfolding MemoryContextCreate_def by (intro progress)

lemma no_oom_limit [progress]: "no_oom (compute_allocChunkLimit mx)"
  unfolding compute_allocChunkLimit_def by (rule no_oom_loopE) (rule no_oom_Inr)

lemma no_oom_get_context_freelist [progress]: "no_oom (get_context_freelist w i)"
  by (simp add: no_oom_def get_context_freelist_def)

lemma new_context_granted:
  assumes args: "create_args_ok mn ini mx" and g: "grants w (unat (if mn \<noteq> 0 then mn else ini))"
  shows "no_oom (new_context i par nm mn ini mx w)"
proof -
  define n where "n = (if mn \<noteq> 0 then max (of_nat (ALIGNED_CONTEXTSZ + ALLOC_BLOCKHDRSZ + ALLOC_CHUNKHDRSZ)) mn
     else max (of_nat (ALIGNED_CONTEXTSZ + ALLOC_BLOCKHDRSZ + ALLOC_CHUNKHDRSZ)) ini :: Size)"
  note n = first_block[OF args, folded n_def]
  have "grants w (unat n)" "0 < unat n" using g n by simp_all
  then obtain a w' where m: "malloc n w = (a, w')" "a \<noteq> 0" by (rule malloc_granted) simp
  show ?thesis
    unfolding new_context_def Let_def n_def[symmetric] m(1) prod.case if_not_P[OF m(2)] by (intro progress)
qed

lemma Create_internal_granted:
  assumes lib: "lib_ok G T F w" and par: "par = 0 \<or> par \<in> live F w" and args: "create_args_ok mn ini mx"
    and g: "grants w (unat (if mn \<noteq> 0 then mn else ini))"
  shows "\<exists>c G' F' w'. AllocSetContextCreateInternal par nm mn ini mx w = Inr (c, w')
    \<and> context_created G T F w par nm ini mx c G' F' w'"
proof -
  have "no_oom (AllocSetContextCreateInternal par nm mn ini mx w)"
    unfolding AllocSetContextCreateInternal_def recycle_context_def Let_def
    by (intro progress new_context_granted[OF args g])
  then show ?thesis
    using Create_internal_run[OF lib par, of mn ini mx nm] args by (auto simp: no_oom_def)
qed

text \<open>A context that is not recycled is one answer of \<open>malloc\<close>.\<close>

lemma MemoryContextCreate_keeps:
  assumes "MemoryContextCreate n t i p nm w = Inr w'"
  shows "answers w' = answers w \<and> regions w' = regions w \<and> context_freelists w' = context_freelists w"
  using assms
  by (auto simp: MemoryContextCreate_def seqE_eq_Inr upd_ctx_def split: if_splits option.splits)

lemma Create_internal_takes:
  assumes run: "AllocSetContextCreateInternal par nm mn ini mx w = Inr (c, w')"
    and args: "create_args_ok mn ini mx" and empty: "\<forall>fl \<in> set (context_freelists w). first_free fl = 0"
  shows "\<exists>v. malloc (if mn \<noteq> 0 then mn else ini) w = (c, v) \<and> answers w' = answers v \<and> regions w' = regions v
    \<and> context_freelists w' = context_freelists v"
proof -
  define n where "n = (if mn \<noteq> 0 then max (of_nat (ALIGNED_CONTEXTSZ + ALLOC_BLOCKHDRSZ + ALLOC_CHUNKHDRSZ)) mn
     else max (of_nat (ALIGNED_CONTEXTSZ + ALLOC_BLOCKHDRSZ + ALLOC_CHUNKHDRSZ)) ini :: Size)"
  note n = first_block(1)[OF args, folded n_def]
  have "new_context (choose_freeListIndex mn ini) par nm mn ini mx w = Inr (c, w')"
    using run empty
    by (auto simp: AllocSetContextCreateInternal_def Let_def seqE_eq_Inr get_context_freelist_def
        split: if_splits)
  then have "\<exists>v. malloc n w = (c, v) \<and> answers w' = answers v \<and> regions w' = regions v
    \<and> context_freelists w' = context_freelists v"
    unfolding new_context_def Let_def n_def[symmetric]
    by (auto simp: seqE_eq_Inr upd_ctx_def split: prod.splits if_splits option.splits
        dest!: MemoryContextCreate_keeps)
  then show ?thesis unfolding n .
qed

lemma Init_granted:
  assumes a: "admissible [] a 8192" and b: "admissible [(a, 8192)] b 8192"
  shows "\<exists>w. MemoryContextInit (initial_world m (a # b # as)) = Inr w
    \<and> TopMemoryContext w = a \<and> ErrorContext w = b
    \<and> answers w = as \<and> regions w = [(b, 8192), (a, 8192)]"
proof -
  let ?w = "initial_world m (a # b # as)"
  have args: "create_args_ok ALLOCSET_DEFAULT_MINSIZE ALLOCSET_DEFAULT_INITSIZE ALLOCSET_DEFAULT_MAXSIZE"
    "create_args_ok (8 * 1024) (8 * 1024) (8 * 1024)"
    by (simp_all add: create_args_ok_def ALLOCSET_DEFAULT_MINSIZE_def ALLOCSET_DEFAULT_INITSIZE_def
        ALLOCSET_DEFAULT_MAXSIZE_def)
  have sizes: "(if ALLOCSET_DEFAULT_MINSIZE \<noteq> 0 then ALLOCSET_DEFAULT_MINSIZE else ALLOCSET_DEFAULT_INITSIZE) = 8192"
    by (simp add: ALLOCSET_DEFAULT_MINSIZE_def ALLOCSET_DEFAULT_INITSIZE_def)
  have g1: "grants ?w (unat (8192 :: Size))" using a by (simp add: grants_def initial_world_def)
  obtain c G1 F1 w1 where c1:
    "AllocSetContextCreateInternal 0 ''TopMemoryContext'' ALLOCSET_DEFAULT_MINSIZE
       ALLOCSET_DEFAULT_INITSIZE ALLOCSET_DEFAULT_MAXSIZE ?w = Inr (c, w1)"
    "context_created undefined (\<lambda>_. []) (\<lambda>_. []) ?w 0 ''TopMemoryContext'' ALLOCSET_DEFAULT_INITSIZE
       ALLOCSET_DEFAULT_MAXSIZE c G1 F1 w1"
    using Create_internal_granted[OF initial_lib_ok(1) _ args(1), folded sizes, OF _ g1[folded sizes]] by blast
  note cc = c1(2)[unfolded context_created_def]
  have "\<forall>fl \<in> set (context_freelists ?w). first_free fl = 0" by (simp add: initial_world_def)
  from Create_internal_takes[OF c1(1) args(1) this] obtain v where
    "malloc 8192 ?w = (c, v)" "answers w1 = answers v" "regions w1 = regions v"
    "context_freelists w1 = context_freelists v"
    unfolding sizes by blast
  then have w1: "c = a" "answers w1 = b # as" "regions w1 = [(a, 8192)]"
    "context_freelists w1 = context_freelists ?w"
    using a by (auto simp: malloc_def initial_world_def)
  define w2 where "w2 = w1\<lparr>TopMemoryContext := c, CurrentMemoryContext := c\<rparr>"
  have g2: "grants w2 (unat (8192 :: Size))" using b by (simp add: grants_def w1 w2_def)
  have ok2: "lib_ok G1 (\<lambda>_. []) F1 w2" and live2: "live F1 w2 = {c}"
    using cc initial_lib_ok lib_ok_globals[of w2 w1] by (simp_all add: w2_def)
  have par: "c = 0 \<or> c \<in> live F1 w2" by (simp add: live2)
  obtain e G2 F2 w3 where e1:
    "AllocSetContextCreateInternal c ''ErrorContext'' (8 * 1024) (8 * 1024) (8 * 1024) w2 = Inr (e, w3)"
    "context_created G1 (\<lambda>_. []) F1 w2 c ''ErrorContext'' (8 * 1024) (8 * 1024) e G2 F2 w3"
    using Create_internal_granted[OF ok2 par args(2), of "''ErrorContext''"] g2 by auto
  note ce = e1(2)[unfolded context_created_def]
  have "\<forall>fl \<in> set (context_freelists w2). first_free fl = 0" by (simp add: w2_def w1 initial_world_def)
  from Create_internal_takes[OF e1(1) args(2) this]
  have eb: "e = b" "answers w3 = as" "regions w3 = [(b, 8192), (a, 8192)]"
    using b by (auto simp: malloc_def w2_def w1 split: if_splits)
  have top: "TopMemoryContext w3 = c" using ce by (simp add: same_globals_def w2_def)
  obtain s where s: "ctxs w3 e = Some s" using ce by blast
  have "heap_ok G2 w3" using ce by (simp add: lib_ok_def)
  then have "heap_ok G2 (w3\<lparr>ErrorContext := e\<rparr>)" using heap_ok_fields(1)[of "w3\<lparr>ErrorContext := e\<rparr>" w3] by simp
  then have v: "Assert_valid (w3\<lparr>ErrorContext := e\<rparr>) e = Inr ()" by (rule valid_ctx) (simp add: s)
  have top0: "TopMemoryContext ?w = 0" by (simp add: initial_world_def)
  have "MemoryContextInit ?w = seqE (AllocSetContextCreateInternal c ''ErrorContext''
        (8 * 1024) (8 * 1024) (8 * 1024) w2) (\<lambda>(e, w).
       MemoryContextAllowInCriticalSection e True (w\<lparr>ErrorContext := e\<rparr>))"
    using c1(1) by (simp add: MemoryContextInit_def top0 assertE_def Let_def w2_def)
  then have "MemoryContextInit ?w
    = MemoryContextAllowInCriticalSection e True (w3\<lparr>ErrorContext := e\<rparr>)"
    unfolding e1(1) by simp
  then show ?thesis
    using v s top w1(1) eb by (simp add: MemoryContextAllowInCriticalSection_def upd_ctx_def)
qed

end
