(* ===== verification/Pool.thy ===== *)
theory Pool
  imports ProgressProofs
begin

text \<open>
  The interface that a client of the allocator relies on: a pool of chunks from which chunks are
  allocated, to which they are released, and in which they are resized. The locale \<open>chunk_pool\<close> states
  the laws and proves what follows for lists of requests; \<open>resizable_pool\<close> extends it. A memory
  context and the current memory context are pools.
\<close>

unbundle bit_operations_syntax

section \<open>Many chunks\<close>

text \<open>A client that allocates a list of chunks, and one that releases a list of them.\<close>

fun alloc_all :: "(Size \<Rightarrow> 'w \<Rightarrow> error + addr \<times> 'w) \<Rightarrow> Size list \<Rightarrow> 'w \<Rightarrow> error + addr list \<times> 'w" where
  "alloc_all alloc [] w = Inr ([], w)"
| "alloc_all alloc (sz # szs) w =
     seqE (alloc sz w) (\<lambda>(p, w). seqE (alloc_all alloc szs w) (\<lambda>(ps, w). Inr (p # ps, w)))"

fun release_all :: "(addr \<Rightarrow> 'w \<Rightarrow> error + 'w) \<Rightarrow> addr list \<Rightarrow> 'w \<Rightarrow> error + 'w" where
  "release_all release [] w = Inr w"
| "release_all release (p # ps) w = seqE (release p w) (release_all release ps)"

text \<open>Resizing one chunk step by step, as a growing buffer does.\<close>

fun resize_all :: "(addr \<Rightarrow> Size \<Rightarrow> 'w \<Rightarrow> error + addr \<times> 'w) \<Rightarrow> addr \<Rightarrow> Size list \<Rightarrow> 'w
    \<Rightarrow> error + addr \<times> 'w" where
  "resize_all resize p [] w = Inr (p, w)"
| "resize_all resize p (sz # szs) w = seqE (resize p sz w) (\<lambda>(q, w). resize_all resize q szs w)"

section \<open>The interface\<close>

text \<open>
  \<open>ok X w\<close>: the invariant holds in \<open>w\<close> and \<open>X\<close> is the set of chunks in use, with owner and size.
  \<open>byte_at\<close> reads a byte of memory.
\<close>

locale chunk_pool =
  fixes ok :: "(addr \<times> 'o \<times> nat) set \<Rightarrow> 'w \<Rightarrow> bool"
    and byte_at :: "'w \<Rightarrow> addr \<Rightarrow> byte"
    and owner :: 'o
    and alloc :: "Size \<Rightarrow> 'w \<Rightarrow> error + addr \<times> 'w"
    and release :: "addr \<Rightarrow> 'w \<Rightarrow> error + 'w"
  assumes unique: "ok X w \<Longrightarrow> (p, d, n) \<in> X \<Longrightarrow> (p, e, k) \<in> X \<Longrightarrow> d = e \<and> n = k"
    and alloc_law: "ok X w \<Longrightarrow>
      (\<exists>p n w'. alloc sz w = Inr (p, w') \<and> unat sz \<le> n \<and> (\<forall>d k. (p, d, k) \<notin> X)
         \<and> ok (insert (p, owner, n) X) w'
         \<and> (\<forall>q d k a. (q, d, k) \<in> X \<and> q \<le> a \<and> a < q + k \<longrightarrow> byte_at w' a = byte_at w a))
      \<or> alloc sz w = Inl (OutOfMemory sz) \<or> alloc sz w = Inl (BadSize sz)"
    and release_law: "ok X w \<Longrightarrow> (p, d, n) \<in> X \<Longrightarrow>
      \<exists>w'. release p w = Inr w' \<and> ok (X - {(p, d, n)}) w'
         \<and> (\<forall>q e k a. (q, e, k) \<in> X - {(p, d, n)} \<and> q \<le> a \<and> a < q + k \<longrightarrow> byte_at w' a = byte_at w a)"
begin

definition kept :: "(addr \<times> 'o \<times> nat) set \<Rightarrow> 'w \<Rightarrow> 'w \<Rightarrow> bool" where
  "kept X w w' \<longleftrightarrow> (\<forall>q d k a. (q, d, k) \<in> X \<and> q \<le> a \<and> a < q + k \<longrightarrow> byte_at w' a = byte_at w a)"

lemma kept_refl: "kept X w w" by (simp add: kept_def)

lemma kept_trans: "kept X w v \<Longrightarrow> kept Y v u \<Longrightarrow> X \<subseteq> Y \<Longrightarrow> kept X w u"
  unfolding kept_def by (metis subsetD)

text \<open>The chunks that a list of allocations adds are new, one for each pointer.\<close>

lemma alloc_all_ok:
  assumes "ok X w" and "alloc_all alloc szs w = Inr (ps, w')"
  shows "\<exists>Y. ok (X \<union> Y) w' \<and> X \<inter> Y = {} \<and> fst ` Y = set ps \<and> distinct ps
    \<and> length ps = length szs \<and> kept X w w'"
  using assms
proof (induction szs arbitrary: X w ps)
  case Nil
  then show ?case by (intro exI[of _ "{}"]) (simp add: kept_refl)
next
  case (Cons sz szs)
  from Cons.prems(2) obtain p v qs where a: "alloc sz w = Inr (p, v)" "alloc_all alloc szs v = Inr (qs, w')" "ps = p # qs"
    by (auto simp: seqE_eq_Inr)
  obtain n where n: "\<forall>d k. (p, d, k) \<notin> X" "ok (insert (p, owner, n) X) v" "kept X w v"
    using alloc_law[OF Cons.prems(1), of sz] a(1) by (auto simp: kept_def)
  obtain Y where Y: "ok (insert (p, owner, n) X \<union> Y) w'" "insert (p, owner, n) X \<inter> Y = {}" "fst ` Y = set qs"
    "distinct qs" "length qs = length szs" "kept (insert (p, owner, n) X) v w'"
    using Cons.IH[OF n(2) a(2)] by blast
  have "p \<notin> set qs"
  proof
    assume "p \<in> set qs"
    then obtain d k where "(p, d, k) \<in> Y" unfolding Y(3)[symmetric] by force
    with unique[OF Y(1), of p d k owner n] have "(p, owner, n) \<in> Y" by simp
    then show False using Y(2) by blast
  qed
  moreover have "ok (X \<union> insert (p, owner, n) Y) w'" using Y(1) by simp
  moreover have "X \<inter> insert (p, owner, n) Y = {}" using Y(2) n(1) by blast
  moreover have "kept X w w'" by (rule kept_trans[OF n(3) Y(6)]) blast
  ultimately show ?case
    using Y(3,4,5) a(3) by (intro exI[of _ "insert (p, owner, n) Y"]) simp
qed

text \<open>Chunks can be released in any order; what is left is what was there besides them.\<close>

lemma release_all_ok:
  assumes "ok (X \<union> Y) w" and "X \<inter> Y = {}" and "fst ` Y = set qs" and "distinct qs"
  shows "\<exists>w'. release_all release qs w = Inr w' \<and> ok X w' \<and> kept X w w'"
  using assms
proof (induction qs arbitrary: Y w)
  case Nil
  then show ?case by (simp add: kept_refl)
next
  case (Cons p qs)
  from Cons.prems(3) obtain d n where pn: "(p, d, n) \<in> Y" by force
  then obtain v where v: "release p w = Inr v" "ok (X \<union> Y - {(p, d, n)}) v" "kept (X \<union> Y - {(p, d, n)}) w v"
    using release_law[OF Cons.prems(1), of p d n] by (auto simp: kept_def)
  have eq: "X \<union> Y - {(p, d, n)} = X \<union> (Y - {(p, d, n)})" using pn Cons.prems(2) by blast
  have "fst ` (Y - {(p, d, n)}) = set qs"
  proof -
    have "q \<noteq> p" if "(q, e, k) \<in> Y - {(p, d, n)}" for q e k
      using unique[OF Cons.prems(1), of q e k d n] that pn by auto
    then have "fst ` (Y - {(p, d, n)}) = fst ` Y - {p}" using pn by force
    then show ?thesis using Cons.prems(3,4) by auto
  qed
  moreover have "X \<inter> (Y - {(p, d, n)}) = {}" using Cons.prems(2) by blast
  ultimately obtain w' where w': "release_all release qs v = Inr w'" "ok X w'" "kept X v w'"
    using Cons.IH[of "Y - {(p, d, n)}" v] v(2) Cons.prems(4) unfolding eq by auto
  moreover have "kept X w w'"
    using v(3) w'(3) pn Cons.prems(2) unfolding kept_def by (metis Diff_iff IntI UnI1 empty_iff singletonD)
  ultimately show ?case using v(1) by auto
qed

text \<open>Allocate a list of chunks, release them in any order: the pool is as before.\<close>

lemma alloc_release:
  assumes X: "ok X w" and a: "alloc_all alloc szs w = Inr (ps, v)" and qs: "set qs = set ps" "distinct qs"
  shows "\<exists>w'. release_all release qs v = Inr w' \<and> ok X w' \<and> kept X w w'"
proof -
  obtain Y where Y: "ok (X \<union> Y) v" "X \<inter> Y = {}" "fst ` Y = set ps" "kept X w v"
    using alloc_all_ok[OF X a] by blast
  obtain w' where w': "release_all release qs v = Inr w'" "ok X w'" "kept X v w'"
    using release_all_ok[OF Y(1,2) _ qs(2)] Y(3) qs(1) by auto
  moreover have "kept X w w'" by (rule kept_trans[OF Y(4) w'(3)]) simp
  ultimately show ?thesis by blast
qed

end

text \<open>The extension by a resizing operation.\<close>

locale resizable_pool = chunk_pool +
  fixes resize :: "addr \<Rightarrow> Size \<Rightarrow> 'b \<Rightarrow> error + addr \<times> 'b"
  assumes resize_law: "ok X w \<Longrightarrow> (p, d, n) \<in> X \<Longrightarrow>
      (\<exists>q k w'. resize p sz w = Inr (q, w') \<and> unat sz \<le> k \<and> ok (insert (q, d, k) (X - {(p, d, n)})) w'
         \<and> (\<forall>e j. (q, e, j) \<notin> X - {(p, d, n)})
         \<and> (\<forall>i < min n k. byte_at w' (q + i) = byte_at w (p + i))
         \<and> (\<forall>r e l a. (r, e, l) \<in> X - {(p, d, n)} \<and> r \<le> a \<and> a < r + l \<longrightarrow> byte_at w' a = byte_at w a))
      \<or> resize p sz w = Inl (OutOfMemory sz) \<or> resize p sz w = Inl (BadSize sz)"
begin

lemma resize_all_ok:
  assumes "ok X w" and "(p, d, n) \<in> X" and "resize_all resize p szs w = Inr (q, w')"
    and "m \<le> n" and "\<And>sz. sz \<in> set szs \<Longrightarrow> m \<le> unat sz"
  shows "\<exists>k. ok (insert (q, d, k) (X - {(p, d, n)})) w' \<and> kept (X - {(p, d, n)}) w w'
    \<and> (if szs = [] then k = n else unat (last szs) \<le> k) \<and> (\<forall>i < m. byte_at w' (q + i) = byte_at w (p + i))"
  using assms
proof (induction szs arbitrary: X w p n)
  case Nil
  then have "insert (q, d, n) (X - {(p, d, n)}) = X" by auto
  then show ?case using Nil by (intro exI[of _ n]) (simp add: kept_refl)
next
  case (Cons sz szs)
  from Cons.prems(3) obtain r v where r: "resize p sz w = Inr (r, v)" "resize_all resize r szs v = Inr (q, w')"
    by (auto simp: seqE_eq_Inr)
  let ?X = "X - {(p, d, n)}"
  have "\<exists>k. unat sz \<le> k \<and> ok (insert (r, d, k) ?X) v \<and> (\<forall>e j. (r, e, j) \<notin> ?X)
      \<and> (\<forall>i < min n k. byte_at v (r + i) = byte_at w (p + i)) \<and> kept ?X w v"
    using resize_law[OF Cons.prems(1,2), of sz] unfolding r(1)
  proof (elim disjE exE)
    fix q' k u
    assume *: "(Inr (r, v) :: error + _) = Inr (q', u) \<and> unat sz \<le> k \<and> ok (insert (q', d, k) ?X) u
       \<and> (\<forall>e j. (q', e, j) \<notin> ?X) \<and> (\<forall>i < min n k. byte_at u (q' + i) = byte_at w (p + i))
       \<and> (\<forall>r e l a. (r, e, l) \<in> ?X \<and> r \<le> a \<and> a < r + l \<longrightarrow> byte_at u a = byte_at w a)"
    then have "q' = r" "u = v" by simp_all
    then have "kept ?X w v" using * by (simp add: kept_def)
    then show ?thesis using * \<open>q' = r\<close> \<open>u = v\<close> by blast
  qed simp_all
  then obtain k where k: "unat sz \<le> k" "ok (insert (r, d, k) ?X) v"
      "\<forall>i < min n k. byte_at v (r + i) = byte_at w (p + i)" "kept ?X w v"
    and new: "\<forall>e j. (r, e, j) \<notin> ?X" by blast
  have eq: "insert (r, d, k) ?X - {(r, d, k)} = ?X" using new by blast
  have "m \<le> k" using Cons.prems(5)[of sz] k(1) by simp
  have "\<exists>l. ok (insert (q, d, l) (insert (r, d, k) ?X - {(r, d, k)})) w' \<and> kept (insert (r, d, k) ?X - {(r, d, k)}) v w'
    \<and> (if szs = [] then l = k else unat (last szs) \<le> l) \<and> (\<forall>i < m. byte_at w' (q + i) = byte_at v (r + i))"
    by (rule Cons.IH[OF k(2) _ r(2) \<open>m \<le> k\<close>]) (use Cons.prems(5) in simp_all)
  then obtain l where l: "ok (insert (q, d, l) ?X) w'" "kept ?X v w'"
    "if szs = [] then l = k else unat (last szs) \<le> l" "\<forall>i < m. byte_at w' (q + i) = byte_at v (r + i)"
    unfolding eq by blast
  have "kept ?X w w'" by (rule kept_trans[OF k(4) l(2)]) simp
  then show ?case using l k(1,3) \<open>m \<le> k\<close> Cons.prems(4) by (intro exI[of _ l]) (auto split: if_splits)
qed

end

section \<open>The contexts provide it\<close>

definition pool_ok :: "addr \<Rightarrow> (addr \<times> addr \<times> nat) set \<Rightarrow> world \<Rightarrow> bool" where
  "pool_ok c X w \<longleftrightarrow> (\<exists>G s. heap_ok G w \<and> ctxs w c = Some s \<and> chunks G w = X)"

definition current_pool_ok :: "addr \<Rightarrow> (addr \<times> addr \<times> nat) set \<Rightarrow> world \<Rightarrow> bool" where
  "current_pool_ok c X w \<longleftrightarrow> pool_ok c X w \<and> CurrentMemoryContext w = c"

lemma pool_unique: "pool_ok c X w \<Longrightarrow> (p, d, n) \<in> X \<Longrightarrow> (p, e, k) \<in> X \<Longrightarrow> d = e \<and> n = k"
  unfolding pool_ok_def using chunks_disjoint by fastforce

lemma pool_evolves:
  assumes "evolves G w Y G' w'" and "ctxs w c = Some s" and "chunks G' w' = X"
  shows "pool_ok c X w'" and "CurrentMemoryContext w' = CurrentMemoryContext w"
proof -
  have sr: "same_rest w w'" and ok: "heap_ok G' w'" using assms(1) by (simp_all add: evolves_def)
  obtain s' where "ctxs w' c = Some s'" by (rule same_rest_ctx[OF sr assms(2)])
  then show "pool_ok c X w'" using ok assms(3) by (auto simp: pool_ok_def)
  show "CurrentMemoryContext w' = CurrentMemoryContext w" using sr by (simp add: same_rest_def)
qed

lemma pool_alloc:
  assumes X: "pool_ok c X w" and post: "\<forall>G s. heap_ok G w \<and> ctxs w c = Some s \<longrightarrow> alloc_post G w c sz 0 False res"
  shows "(\<exists>p n w'. res = Inr (p, w') \<and> unat sz \<le> n \<and> (\<forall>d k. (p, d, k) \<notin> X)
         \<and> pool_ok c (insert (p, c, n) X) w' \<and> CurrentMemoryContext w' = CurrentMemoryContext w
         \<and> (\<forall>q d k a. (q, d, k) \<in> X \<and> q \<le> a \<and> a < q + k \<longrightarrow> mem w' a = mem w a))
      \<or> res = Inl (OutOfMemory sz) \<or> res = Inl (BadSize sz)"
proof -
  obtain G s where G: "heap_ok G w" "ctxs w c = Some s" "chunks G w = X" using X by (auto simp: pool_ok_def)
  note ch = heap_touched(2)[OF G(1), of c]
  show ?thesis
    using post[rule_format, OF conjI, OF G(1,2)]
  proof (cases rule: alloc_post_cases)
    case (chunk p G' w')
    obtain n where n: "unat sz \<le> n" "\<forall>d j. (p, d, j) \<notin> X" "chunks G' w' = insert (p, c, n) X"
      and ev: "evolves G (touched w c) X G' w'"
      using chunk(4) ch G(3) by (auto simp: allocated_def)
    have "\<forall>q d k a. (q, d, k) \<in> X \<and> q \<le> a \<and> a < q + k \<longrightarrow> mem w' a = mem w a"
      using ev by (fastforce simp: evolves_def same_data_def)
    then show ?thesis
      using chunk(2) n(1,2) pool_evolves[OF ev touched_ctx[OF G(2)] n(3)]
      by (intro disjI1 exI[of _ p] exI[of _ n] exI[of _ w']) simp
  qed (simp_all)
qed

lemma pool_release:
  assumes X: "pool_ok c X w" and p: "(p, d, n) \<in> X"
  shows "\<exists>w'. pfree p w = Inr w' \<and> pool_ok c (X - {(p, d, n)}) w' \<and> CurrentMemoryContext w' = CurrentMemoryContext w
    \<and> (\<forall>q e k a. (q, e, k) \<in> X - {(p, d, n)} \<and> q \<le> a \<and> a < q + k \<longrightarrow> mem w' a = mem w a)"
proof -
  obtain G s where G: "heap_ok G w" "ctxs w c = Some s" "chunks G w = X" using X by (auto simp: pool_ok_def)
  obtain G' w' where w': "pfree p w = Inr w'" "evolves G w (X - {(p, d, n)}) G' w'" "chunks G' w' = X - {(p, d, n)}"
    using pfree_chunk[OF G(1), of p d n] p unfolding G(3) freed_def by blast
  have "\<forall>q e k a. (q, e, k) \<in> X - {(p, d, n)} \<and> q \<le> a \<and> a < q + k \<longrightarrow> mem w' a = mem w a"
    using w'(2) by (fastforce simp: evolves_def same_data_def)
  then show ?thesis using w'(1) pool_evolves[OF w'(2) G(2) w'(3)] by blast
qed

lemma pool_resize:
  assumes X: "pool_ok c X w" and p: "(p, d, n) \<in> X"
  shows "(\<exists>q k w'. repalloc p sz w = Inr (q, w') \<and> unat sz \<le> k
         \<and> pool_ok c (insert (q, d, k) (X - {(p, d, n)})) w' \<and> (\<forall>e j. (q, e, j) \<notin> X - {(p, d, n)})
         \<and> (\<forall>i < min n k. mem w' (q + i) = mem w (p + i))
         \<and> (\<forall>r e l a. (r, e, l) \<in> X - {(p, d, n)} \<and> r \<le> a \<and> a < r + l \<longrightarrow> mem w' a = mem w a))
      \<or> repalloc p sz w = Inl (OutOfMemory sz) \<or> repalloc p sz w = Inl (BadSize sz)"
proof -
  obtain G s where G: "heap_ok G w" "ctxs w c = Some s" "chunks G w = X" using X by (auto simp: pool_ok_def)
  let ?Y = "X - {(p, d, n)}"
  have r: "if size_accepted sz 0 then realloc_spec G w (p, d, n) sz 0 (repalloc p sz w)
    else repalloc p sz w = Inl (BadSize sz)"
    using repalloc_chunk[OF G(1)] p G(3) by (simp add: repalloc_def)
  show ?thesis
  proof (cases "repalloc p sz w = Inl (OutOfMemory sz) \<or> repalloc p sz w = Inl (BadSize sz)")
    case False
    then obtain q G' w' where q: "repalloc p sz w = Inr (q, w')" "resized G w (p, d, n) sz q G' w'"
      using r by (auto simp: realloc_spec_def out_of_memory_def split: if_splits)
    then obtain k where ev: "evolves G w ?Y G' w'" and k: "\<forall>d j. (q, d, j) \<notin> ?Y" "unat sz \<le> k"
      "chunks G' w' = insert (q, d, k) ?Y" "\<forall>i < min n k. mem w' (q + i) = mem w (p + i)"
      unfolding resized_def G(3) by auto
    have "\<forall>r e l a. (r, e, l) \<in> ?Y \<and> r \<le> a \<and> a < r + l \<longrightarrow> mem w' a = mem w a"
      using ev by (fastforce simp: evolves_def same_data_def)
    then show ?thesis
      using q(1) k pool_evolves(1)[OF ev G(2) k(3)] by blast
  qed blast
qed

interpretation context_pool: resizable_pool "pool_ok c" mem c "MemoryContextAlloc c" pfree repalloc
  for c
proof unfold_locales
  fix X w sz
  assume X: "pool_ok c X w"
  have post: "\<forall>G s. heap_ok G w \<and> ctxs w c = Some s \<longrightarrow> alloc_post G w c sz 0 False (MemoryContextAlloc c sz w)"
    by (simp add: MemoryContextAlloc_post(1))
  show "(\<exists>p n w'. MemoryContextAlloc c sz w = Inr (p, w') \<and> unat sz \<le> n \<and> (\<forall>d k. (p, d, k) \<notin> X)
         \<and> pool_ok c (insert (p, c, n) X) w'
         \<and> (\<forall>q d k a. (q, d, k) \<in> X \<and> q \<le> a \<and> a < q + k \<longrightarrow> mem w' a = mem w a))
      \<or> MemoryContextAlloc c sz w = Inl (OutOfMemory sz) \<or> MemoryContextAlloc c sz w = Inl (BadSize sz)"
    using pool_alloc[OF X post] by blast
next
  fix X w p d n and sz :: Size
  assume X: "pool_ok c X w" and p: "(p, d, n) \<in> X"
  show "\<exists>w'. pfree p w = Inr w' \<and> pool_ok c (X - {(p, d, n)}) w'
     \<and> (\<forall>q e k a. (q, e, k) \<in> X - {(p, d, n)} \<and> q \<le> a \<and> a < q + k \<longrightarrow> mem w' a = mem w a)"
    using pool_release[OF X p] by blast
  show "(\<exists>q k w'. repalloc p sz w = Inr (q, w') \<and> unat sz \<le> k
         \<and> pool_ok c (insert (q, d, k) (X - {(p, d, n)})) w' \<and> (\<forall>e j. (q, e, j) \<notin> X - {(p, d, n)})
         \<and> (\<forall>i < min n k. mem w' (q + i) = mem w (p + i))
         \<and> (\<forall>r e l a. (r, e, l) \<in> X - {(p, d, n)} \<and> r \<le> a \<and> a < r + l \<longrightarrow> mem w' a = mem w a))
      \<or> repalloc p sz w = Inl (OutOfMemory sz) \<or> repalloc p sz w = Inl (BadSize sz)"
    by (rule pool_resize[OF X p])
qed (rule pool_unique)

interpretation current_pool: chunk_pool "current_pool_ok c" mem c palloc pfree
  for c
proof unfold_locales
  fix X w sz
  assume X: "current_pool_ok c X w"
  then have c: "pool_ok c X w" "CurrentMemoryContext w = c" by (simp_all add: current_pool_ok_def)
  have post: "\<forall>G s. heap_ok G w \<and> ctxs w c = Some s \<longrightarrow> alloc_post G w c sz 0 False (palloc sz w)"
    using palloc_post(1) unfolding c(2)[symmetric] by simp
  show "(\<exists>p n w'. palloc sz w = Inr (p, w') \<and> unat sz \<le> n \<and> (\<forall>d k. (p, d, k) \<notin> X)
         \<and> current_pool_ok c (insert (p, c, n) X) w'
         \<and> (\<forall>q d k a. (q, d, k) \<in> X \<and> q \<le> a \<and> a < q + k \<longrightarrow> mem w' a = mem w a))
      \<or> palloc sz w = Inl (OutOfMemory sz) \<or> palloc sz w = Inl (BadSize sz)"
    using pool_alloc[OF c(1) post]
  proof (elim disjE exE)
    fix p n w'
    assume *: "palloc sz w = Inr (p, w') \<and> unat sz \<le> n \<and> (\<forall>d k. (p, d, k) \<notin> X)
      \<and> pool_ok c (insert (p, c, n) X) w' \<and> CurrentMemoryContext w' = CurrentMemoryContext w
      \<and> (\<forall>q d k a. (q, d, k) \<in> X \<and> q \<le> a \<and> a < q + k \<longrightarrow> mem w' a = mem w a)"
    then have "current_pool_ok c (insert (p, c, n) X) w'" using c(2) by (simp add: current_pool_ok_def)
    with * show ?thesis by blast
  qed simp_all
next
  fix X p d n w
  assume X: "current_pool_ok c X w" and p: "(p, d, n) \<in> X"
  then have c: "pool_ok c X w" "CurrentMemoryContext w = c" by (simp_all add: current_pool_ok_def)
  obtain w' where w': "pfree p w = Inr w'" "pool_ok c (X - {(p, d, n)}) w'"
      "CurrentMemoryContext w' = CurrentMemoryContext w"
      "\<forall>q e k a. (q, e, k) \<in> X - {(p, d, n)} \<and> q \<le> a \<and> a < q + k \<longrightarrow> mem w' a = mem w a"
    using pool_release[OF c(1) p] by blast
  have "current_pool_ok c (X - {(p, d, n)}) w'" using w'(2,3) c(2) by (simp add: current_pool_ok_def)
  then show "\<exists>w'. pfree p w = Inr w' \<and> current_pool_ok c (X - {(p, d, n)}) w'
     \<and> (\<forall>q e k a. (q, e, k) \<in> X - {(p, d, n)} \<and> q \<le> a \<and> a < q + k \<longrightarrow> mem w' a = mem w a)"
    using w'(1,4) by blast
qed (rule pool_unique, unfold current_pool_ok_def, blast+)

end
