(* ===== verification/Client.thy ===== *)
theory Client
  imports Pool
begin

text \<open>
  The library as a machine that serves calls: what a client knows of the state (its view), the calls
  with the obligations of the client, what each call adds to the view, and the states that a process
  can reach from \<open>MemoryContextInit\<close>. The calls run the modelled functions of \<open>src/mcxt.c\<close>. Reset
  callbacks may be registered; their functions do nothing that the model can see, and the log of the
  calls says which ran with which argument.
\<close>

unbundle bit_operations_syntax

section \<open>What a client knows\<close>

text \<open>
  \<open>owned\<close>: the chunks of the client, with the context and the size it asked for. \<open>stored\<close>: the bytes
  of its chunks whose value it knows, because it stored them, asked for zeroed memory, or kept them
  through a \<open>repalloc\<close>. \<open>alignment\<close>: what it asked for when a chunk came from an aligned allocation.
  \<open>contexts\<close>, \<open>children\<close>: the contexts it may use and their tree. \<open>pending\<close>: the callback structs of a
  context, the last one first. \<open>called\<close>: the functions and arguments of the callbacks that ran.
\<close>

record view =
  owned :: "addr \<Rightarrow> (addr \<times> nat) option"
  alignment :: "addr \<Rightarrow> Size option"
  stored :: "addr \<Rightarrow> byte option"
  contexts :: "addr set"
  children :: "addr \<Rightarrow> addr list"
  current :: addr
  topctx :: addr
  pending :: "addr \<Rightarrow> addr list"
  called :: "(uint64 \<times> uint64) list"

text \<open>The contexts of the tree below a context, itself included.\<close>

inductive below :: "(addr \<Rightarrow> addr list) \<Rightarrow> addr \<Rightarrow> addr \<Rightarrow> bool" for T where
  below_self: "below T c c"
| below_child: "below T c p \<Longrightarrow> x \<in> set (T p) \<Longrightarrow> below T c x"

definition subcontexts :: "view \<Rightarrow> addr \<Rightarrow> addr set" where
  "subcontexts V c = {x. below (children V) c x}"

text \<open>The tree itself, of which there is only one (\<open>shape_unique\<close>).\<close>

definition subtree :: "view \<Rightarrow> addr \<Rightarrow> ctree" where
  "subtree V c = (THE t. shape (children V) t \<and> root t = c)"

text \<open>The byte at \<open>a\<close> belongs to a chunk of the client.\<close>

definition owns_byte :: "view \<Rightarrow> addr \<Rightarrow> bool" where
  "owns_byte V a \<longleftrightarrow> (\<exists>p c n. owned V p = Some (c, n) \<and> p \<le> a \<and> a < p + n)"

text \<open>The bytes of the callback structs that are registered, and what is in such a struct.\<close>

definition struct_bytes :: "view \<Rightarrow> addr set" where
  "struct_bytes V = (\<Union>c. cb_bytes (pending V c))"

definition entry :: "view \<Rightarrow> addr \<Rightarrow> uint64 \<times> uint64" where
  "entry V x = cb_entry (\<lambda>a. case stored V a of None \<Rightarrow> 0 | Some b \<Rightarrow> b) x"

section \<open>Calls\<close>

datatype call =
    Palloc Size uint32
  | Alloc addr Size uint32
  | PallocAligned Size Size uint32
  | AllocAligned addr Size Size uint32
  | Free addr
  | Realloc addr Size uint32
  | Store addr byte
  | Switch addr
  | Create addr string Size Size Size
  | SetParent addr addr
  | Register addr addr
  | Unregister addr addr
  | Reset addr
  | ResetOnly addr
  | ResetChildren addr
  | DeleteChildren addr
  | Delete addr

definition no_callbacks :: callbacks where
  "no_callbacks f a w = Inr w"

text \<open>The function of the library that a call runs, with the value it returns (0 for \<open>void\<close>).\<close>

definition void :: "error + world \<Rightarrow> error + addr \<times> world" where
  "void r = seqE r (\<lambda>w. Inr (0, w))"

fun perform :: "call \<Rightarrow> world \<Rightarrow> error + addr \<times> world" where
  "perform (Palloc sz flags) w = palloc_extended sz flags w"
| "perform (Alloc c sz flags) w = MemoryContextAllocExtended c sz flags w"
| "perform (PallocAligned sz al flags) w = palloc_aligned sz al flags w"
| "perform (AllocAligned c sz al flags) w = MemoryContextAllocAligned c sz al flags w"
| "perform (Free p) w = void (pfree p w)"
| "perform (Realloc p sz flags) w = repalloc_extended p sz flags w"
| "perform (Store a b) w = void (store8E a b w)"
| "perform (Switch c) w = Inr (MemoryContextSwitchTo c w)"
| "perform (Create par nm mn ini mx) w = AllocSetContextCreateInternal par nm mn ini mx w"
| "perform (SetParent x np) w = void (MemoryContextSetParent x np w)"
| "perform (Register c x) w = void (MemoryContextRegisterResetCallback c x w)"
| "perform (Unregister c x) w = void (MemoryContextUnregisterResetCallback c x w)"
| "perform (Reset c) w = void (MemoryContextReset no_callbacks c w)"
| "perform (ResetOnly c) w = void (MemoryContextResetOnly no_callbacks c w)"
| "perform (ResetChildren c) w = void (MemoryContextResetChildren no_callbacks c w)"
| "perform (DeleteChildren c) w = void (MemoryContextDeleteChildren no_callbacks c w)"
| "perform (Delete c) w = void (MemoryContextDelete no_callbacks c w)"

text \<open>
  The obligations of a client: it frees, resizes and writes only what it owns, uses only contexts
  that exist, creates contexts with admissible sizes, makes no context a descendant of itself, and
  deletes neither the current nor the top context. It asks for an alignment that is a power of two, and
  for no size that wraps around with it. A callback struct that it registers lies in one of its chunks
  and has its function and argument filled in; while it is registered the client leaves it alone, and
  no context is reset or deleted with a struct in it that is registered for another context.
\<close>

definition alignment_allowed :: "Size \<Rightarrow> Size \<Rightarrow> bool" where
  "alignment_allowed sz al \<longleftrightarrow>
     al \<in> {0, 1, 2, 4, 8} \<or> alignment_ok al \<and> unat sz + unat al < 2 ^ 64"

definition no_struct_in :: "view \<Rightarrow> addr \<Rightarrow> bool" where
  "no_struct_in V p \<longleftrightarrow>
     (case owned V p of None \<Rightarrow> True | Some (c, n) \<Rightarrow> {p ..< p + n} \<inter> struct_bytes V = {})"

definition struct_ready :: "view \<Rightarrow> addr \<Rightarrow> bool" where
  "struct_ready V x \<longleftrightarrow>
     (\<exists>p d n. owned V p = Some (d, n) \<and> p \<le> x \<and> x + 24 \<le> p + n)
     \<and> (\<forall>a. x \<le> a \<and> a < x + 16 \<longrightarrow> stored V a \<noteq> None)"

definition structs_outlive :: "view \<Rightarrow> addr set \<Rightarrow> bool" where
  "structs_outlive V D \<longleftrightarrow>
     (\<forall>c x p d n. x \<in> set (pending V c) \<and> owned V p = Some (d, n) \<and> p \<le> x \<and> x < p + n \<and> d \<in> D
        \<longrightarrow> d = c)"

fun permitted :: "view \<Rightarrow> call \<Rightarrow> bool" where
  "permitted V (Palloc sz flags) \<longleftrightarrow> True"
| "permitted V (Alloc c sz flags) \<longleftrightarrow> c \<in> contexts V"
| "permitted V (PallocAligned sz al flags) \<longleftrightarrow> alignment_allowed sz al"
| "permitted V (AllocAligned c sz al flags) \<longleftrightarrow> c \<in> contexts V \<and> alignment_allowed sz al"
| "permitted V (Free p) \<longleftrightarrow> owned V p \<noteq> None \<and> no_struct_in V p"
| "permitted V (Realloc p sz flags) \<longleftrightarrow> owned V p \<noteq> None \<and> no_struct_in V p
     \<and> (case alignment V p of None \<Rightarrow> True | Some al \<Rightarrow> unat sz + unat al < 2 ^ 64)"
| "permitted V (Store a b) \<longleftrightarrow> owns_byte V a \<and> a \<notin> struct_bytes V"
| "permitted V (Switch c) \<longleftrightarrow> c \<in> contexts V"
| "permitted V (Create par nm mn ini mx) \<longleftrightarrow>
     (par = 0 \<or> par \<in> contexts V) \<and> create_args_ok mn ini mx"
| "permitted V (SetParent x np) \<longleftrightarrow>
     x \<in> contexts V \<and> (np = 0 \<or> np \<in> contexts V \<and> np \<notin> subcontexts V x)"
| "permitted V (Register c x) \<longleftrightarrow>
     c \<in> contexts V \<and> struct_ready V x \<and> {x ..< x + 24} \<inter> struct_bytes V = {}"
| "permitted V (Unregister c x) \<longleftrightarrow> c \<in> contexts V \<and> x \<in> set (pending V c)"
| "permitted V (Reset c) \<longleftrightarrow> c \<in> contexts V \<and> {topctx V, current V} \<inter> (subcontexts V c - {c}) = {}
     \<and> structs_outlive V (subcontexts V c)"
| "permitted V (ResetOnly c) \<longleftrightarrow> c \<in> contexts V \<and> structs_outlive V {c}"
| "permitted V (ResetChildren c) \<longleftrightarrow> c \<in> contexts V \<and> structs_outlive V (subcontexts V c - {c})"
| "permitted V (DeleteChildren c) \<longleftrightarrow>
     c \<in> contexts V \<and> {topctx V, current V} \<inter> (subcontexts V c - {c}) = {}
     \<and> structs_outlive V (subcontexts V c - {c})"
| "permitted V (Delete c) \<longleftrightarrow> c \<in> contexts V \<and> {topctx V, current V} \<inter> subcontexts V c = {}
     \<and> structs_outlive V (subcontexts V c)"

text \<open>Chunks that are gone take what the client knows of their bytes with them.\<close>

definition keep_owned :: "(addr \<Rightarrow> addr \<Rightarrow> bool) \<Rightarrow> view \<Rightarrow> view" where
  "keep_owned P V =
     (let V' = V\<lparr>owned := (\<lambda>p. case owned V p of None \<Rightarrow> None
                              | Some (c, n) \<Rightarrow> if P p c then Some (c, n) else None)\<rparr> in
      V'\<lparr>stored := (\<lambda>a. if owns_byte V' a then stored V a else None)\<rparr>)"

definition got_chunk :: "addr \<Rightarrow> Size option \<Rightarrow> addr \<Rightarrow> nat \<Rightarrow> (nat \<Rightarrow> byte option) \<Rightarrow> view \<Rightarrow> view" where
  "got_chunk p al c n f V =
     V\<lparr>owned := (owned V)(p \<mapsto> (c, n)), alignment := (alignment V)(p := al),
       stored := (\<lambda>a. if p \<le> a \<and> a < p + n then f (a - p) else stored V a)\<rparr>"

definition fresh_bytes :: "uint32 \<Rightarrow> nat \<Rightarrow> byte option" where
  "fresh_bytes flags i = (if flags AND MCXT_ALLOC_ZERO \<noteq> 0 then Some 0 else None)"

definition without_contexts :: "addr set \<Rightarrow> view \<Rightarrow> view" where
  "without_contexts D V =
     V\<lparr>contexts := contexts V - D, children := (\<lambda>p. filter (\<lambda>x. x \<notin> D) (children V p))\<rparr>"

definition rehang :: "addr \<Rightarrow> addr \<Rightarrow> (addr \<Rightarrow> addr list) \<Rightarrow> addr \<Rightarrow> addr list" where
  "rehang x np T =
     (if x \<in> set (T np) then T else
      let T' = (\<lambda>p. remove1 x (T p)) in if np = 0 then T' else T'(np := x # T' np))"

text \<open>An alignment up to 8 is the one of every chunk.\<close>

definition real_alignment :: "Size \<Rightarrow> Size option" where
  "real_alignment al = (if unat al \<le> 8 then None else Some al)"

text \<open>The callbacks of the contexts \<open>xs\<close> ran in this order.\<close>

definition ran_callbacks :: "addr list \<Rightarrow> view \<Rightarrow> view" where
  "ran_callbacks xs V =
     V\<lparr>pending := (\<lambda>c. if c \<in> set xs then [] else pending V c),
       called := called V @ concat (map (\<lambda>c. map (entry V) (pending V c)) xs)\<rparr>"

text \<open>What the client knows after a call that returned \<open>r\<close>.\<close>

fun after :: "view \<Rightarrow> call \<Rightarrow> addr \<Rightarrow> view" where
  "after V (Palloc sz flags) r =
     (if r = 0 then V else got_chunk r None (current V) (unat sz) (fresh_bytes flags) V)"
| "after V (Alloc c sz flags) r =
     (if r = 0 then V else got_chunk r None c (unat sz) (fresh_bytes flags) V)"
| "after V (PallocAligned sz al flags) r =
     (if r = 0 then V else got_chunk r (real_alignment al) (current V) (unat sz) (fresh_bytes flags) V)"
| "after V (AllocAligned c sz al flags) r =
     (if r = 0 then V else got_chunk r (real_alignment al) c (unat sz) (fresh_bytes flags) V)"
| "after V (Free p) r = keep_owned (\<lambda>q c. q \<noteq> p) V"
| "after V (Realloc p sz flags) r =
     (case owned V p of None \<Rightarrow> V
      | Some (c, n) \<Rightarrow>
          if r = 0 then V
          else got_chunk r (alignment V p) c (unat sz) (\<lambda>i. if i < n then stored V (p + i) else None)
                 (keep_owned (\<lambda>q c. q \<noteq> p) V))"
| "after V (Store a b) r = V\<lparr>stored := (stored V)(a \<mapsto> b)\<rparr>"
| "after V (Switch c) r = V\<lparr>current := c\<rparr>"
| "after V (Create par nm mn ini mx) r =
     V\<lparr>contexts := insert r (contexts V),
       children := (if par = 0 then children V else (children V)(par := r # children V par))\<rparr>"
| "after V (SetParent x np) r = V\<lparr>children := rehang x np (children V)\<rparr>"
| "after V (Register c x) r =
     V\<lparr>pending := (pending V)(c := x # pending V c),
       stored := (\<lambda>a. if x + 16 \<le> a \<and> a < x + 24 then None else stored V a)\<rparr>"
| "after V (Unregister c x) r = V\<lparr>pending := (pending V)(c := remove1 x (pending V c))\<rparr>"
| "after V (Reset c) r =
     without_contexts (subcontexts V c - {c}) (keep_owned (\<lambda>p d. d \<notin> subcontexts V c)
       (ran_callbacks (postorder (subtree V c)) V))"
| "after V (ResetOnly c) r = keep_owned (\<lambda>p d. d \<noteq> c) (ran_callbacks [c] V)"
| "after V (ResetChildren c) r =
     keep_owned (\<lambda>p d. d \<notin> subcontexts V c - {c}) (ran_callbacks (tl (preorder (subtree V c))) V)"
| "after V (DeleteChildren c) r =
     without_contexts (subcontexts V c - {c}) (keep_owned (\<lambda>p d. d \<notin> subcontexts V c - {c})
       (ran_callbacks (butlast (postorder (subtree V c))) V))"
| "after V (Delete c) r =
     without_contexts (subcontexts V c) (keep_owned (\<lambda>p d. d \<notin> subcontexts V c)
       (ran_callbacks (postorder (subtree V c)) V))"

section \<open>Runs\<close>

definition view_after_init :: "world \<Rightarrow> view" where
  "view_after_init w =
     \<lparr> owned = (\<lambda>_. None), alignment = (\<lambda>_. None), stored = (\<lambda>_. None), contexts = {TopMemoryContext w, ErrorContext w},
       children = (\<lambda>_. [])(TopMemoryContext w := [ErrorContext w]),
       current = TopMemoryContext w, topctx = TopMemoryContext w,
       pending = (\<lambda>_. []), called = [] \<rparr>"

inductive step :: "view \<times> world \<Rightarrow> call \<Rightarrow> view \<times> world \<Rightarrow> bool" where
  step: "permitted V x \<Longrightarrow> perform x w = Inr (r, w') \<Longrightarrow> step (V, w) x (after V x r, w')"

inductive reachable :: "view \<times> world \<Rightarrow> bool" where
  reachable_init: "MemoryContextInit (initial_world m as) = Inr w \<Longrightarrow> reachable (view_after_init w, w)"
| reachable_step: "reachable s \<Longrightarrow> step s x s' \<Longrightarrow> reachable s'"

inductive_cases stepE: "step (V, w) x (V', w')"

text \<open>
  The errors that a call may stop with: none for calls that do not allocate. An aligned allocation
  reports the size with its padding.
\<close>

definition alloc_errors :: "Size \<Rightarrow> uint32 \<Rightarrow> error set" where
  "alloc_errors sz flags =
     (if \<not> size_accepted sz flags then {BadSize sz}
      else if flags AND MCXT_ALLOC_NO_OOM = 0 then {OutOfMemory sz} else {})"

definition padded :: "Size option \<Rightarrow> Size \<Rightarrow> Size" where
  "padded al sz = (case al of None \<Rightarrow> sz | Some a \<Rightarrow> sz + a)"

fun allowed_errors :: "view \<Rightarrow> call \<Rightarrow> error set" where
  "allowed_errors V (Palloc sz flags) = alloc_errors sz flags"
| "allowed_errors V (Alloc c sz flags) = alloc_errors sz flags"
| "allowed_errors V (PallocAligned sz al flags) = alloc_errors (padded (real_alignment al) sz) flags"
| "allowed_errors V (AllocAligned c sz al flags) = alloc_errors (padded (real_alignment al) sz) flags"
| "allowed_errors V (Realloc p sz flags) = alloc_errors (padded (alignment V p) sz) flags"
| "allowed_errors V (Create par nm mn ini mx) = {OutOfMemory (if mn \<noteq> 0 then mn else ini)}"
| "allowed_errors V _ = {}"

end
