(* ===== verification/ClientData.thy ===== *)
theory ClientData
  imports Client
begin

text \<open>
  What relates the memory of a client's view to the chunks of the library: every pointer of the client
  has a chunk of its own, which starts at the pointer or, for an aligned allocation, shortly before it;
  and the bytes that the client knows are in memory. Then the callback structs: which views keep them
  in order. All of this is about views, sets of chunks and memory; no operation is run here.
\<close>

unbundle bit_operations_syntax

section \<open>Pointers and their chunks\<close>

definition held :: "(addr \<Rightarrow> byte) \<Rightarrow> Size option \<Rightarrow> addr \<Rightarrow> addr \<Rightarrow> nat \<Rightarrow> addr \<times> addr \<times> nat \<Rightarrow> bool" where
  "held m al p c k = (\<lambda>(q, d, j). d = c \<and>
     (case al of None \<Rightarrow> q = p \<and> k \<le> j
      | Some a \<Rightarrow> alignment_ok a \<and> q + 8 \<le> p \<and> p \<le> q + unat a \<and> k + unat a \<le> j \<and> unat a dvd p
          \<and> regular_hdr m (p - 8) q a MCTX_ALIGNED_REDIRECT_ID))"

definition same_chunks :: "(addr \<Rightarrow> (addr \<times> nat) option) \<Rightarrow> (addr \<Rightarrow> Size option)
    \<Rightarrow> (addr \<times> addr \<times> nat) set \<Rightarrow> (addr \<Rightarrow> byte) \<Rightarrow> bool" where
  "same_chunks own al X m \<longleftrightarrow>
     (\<exists>H. bij_betw H (dom own) X \<and> (\<forall>p c k. own p = Some (c, k) \<longrightarrow> held m (al p) p c k (H p)))"

definition data_ok :: "(addr \<times> addr \<times> nat) set \<Rightarrow> (addr \<Rightarrow> byte) \<Rightarrow> view \<Rightarrow> bool" where
  "data_ok X m V \<longleftrightarrow>
     same_chunks (owned V) (alignment V) X m \<and> (\<forall>a b. stored V a = Some b \<longrightarrow> owns_byte V a \<and> m a = b)"

text \<open>Chunks do not overlap, not even with the header before the other one.\<close>

definition chunks_apart :: "(addr \<times> addr \<times> nat) set \<Rightarrow> bool" where
  "chunks_apart X \<longleftrightarrow>
     (\<forall>p c n q d j. (p, c, n) \<in> X \<longrightarrow> (q, d, j) \<in> X
        \<longrightarrow> (p, c, n) = (q, d, j) \<or> p + n + 8 \<le> q \<or> q + j + 8 \<le> p)"

lemma chunks_apartD:
  "chunks_apart X \<Longrightarrow> (p, c, n) \<in> X \<Longrightarrow> (q, d, j) \<in> X
   \<Longrightarrow> (p, c, n) = (q, d, j) \<or> p + n + 8 \<le> q \<or> q + j + 8 \<le> p"
  unfolding chunks_apart_def by blast

lemma chunks_apart_subset: "chunks_apart X \<Longrightarrow> Y \<subseteq> X \<Longrightarrow> chunks_apart Y"
  unfolding chunks_apart_def by blast

lemma heap_chunks_apart: "heap_ok G w \<Longrightarrow> chunks_apart (chunks G w)"
  unfolding chunks_apart_def using chunks_disjoint by blast

lemma held_bounds:
  "held m al p c k (q, d, j) \<Longrightarrow> d = c \<and> q \<le> p \<and> p + k \<le> q + j"
  by (auto simp: held_def split: option.splits)

lemma held_cong:
  assumes h: "held m al p c k (q, d, j)" and m: "\<And>a. q \<le> a \<Longrightarrow> a < p \<Longrightarrow> m' a = m a"
  shows "held m' al p c k (q, d, j)"
proof (cases al)
  case (Some a)
  have "regular_hdr m' (p - 8) q a i = regular_hdr m (p - 8) q a i" for i
    by (rule regular_hdr_cong) (use h m Some in \<open>auto simp: held_def\<close>)
  then show ?thesis using h Some by (simp add: held_def)
qed (use h in \<open>simp add: held_def\<close>)

lemma held_aligned:
  assumes "held (mem w) (Some a) p c k (q, d, j)" and "(q, d, j) \<in> chunks G w"
  shows "aligned_at G w p a (q, c, j)" and "alignment_ok a" and "8 dvd p" and "k + unat a \<le> j"
proof -
  show a: "alignment_ok a" and "k + unat a \<le> j" using assms(1) by (simp_all add: held_def)
  show "aligned_at G w p a (q, c, j)" using assms by (auto simp: held_def aligned_at_def)
  obtain l where "8 dvd unat a" using a by (rule alignment_okD)
  moreover have "unat a dvd p" using assms(1) by (simp add: held_def)
  ultimately show "8 dvd p" by (rule dvd_trans)
qed

lemma data_okI:
  assumes "bij_betw H (dom (owned V)) X"
    and "\<And>p c k. owned V p = Some (c, k) \<Longrightarrow> held m (alignment V p) p c k (H p)"
    and "\<And>a b. stored V a = Some b \<Longrightarrow> owns_byte V a \<and> m a = b"
  shows "data_ok X m V"
  using assms unfolding data_ok_def same_chunks_def by blast

lemma hosts:
  assumes "data_ok X m V"
  obtains H where "bij_betw H (dom (owned V)) X" and "\<And>p c k. owned V p = Some (c, k)
      \<Longrightarrow> \<exists>q j. H p = (q, c, j) \<and> (q, c, j) \<in> X \<and> held m (alignment V p) p c k (q, c, j)"
    and "\<And>p q. owned V p \<noteq> None \<Longrightarrow> owned V q \<noteq> None \<Longrightarrow> H p = H q \<Longrightarrow> p = q"
proof -
  obtain H where H: "bij_betw H (dom (owned V)) X"
      "\<And>p c k. owned V p = Some (c, k) \<Longrightarrow> held m (alignment V p) p c k (H p)"
    using assms by (auto simp: data_ok_def same_chunks_def)
  have "\<exists>q j. H p = (q, c, j) \<and> (q, c, j) \<in> X \<and> held m (alignment V p) p c k (q, c, j)"
    if p: "owned V p = Some (c, k)" for p c k
  proof -
    obtain q d j where t: "H p = (q, d, j)" by (cases "H p")
    have "H p \<in> X" using H(1) p by (auto simp: bij_betw_def)
    moreover have "d = c" using held_bounds H(2)[OF p] t by simp
    ultimately show ?thesis using H(2)[OF p] t by simp
  qed
  moreover have "p = q" if "owned V p \<noteq> None" "owned V q \<noteq> None" "H p = H q" for p q
    using H(1) that by (auto simp: bij_betw_def inj_on_def)
  ultimately show ?thesis using that H(1) by blast
qed

lemma owned_chunk:
  assumes d: "data_ok X m V" and p: "owned V p = Some (c, k)"
  obtains q j where "(q, c, j) \<in> X" and "held m (alignment V p) p c k (q, c, j)"
  using hosts[OF d] p that by metis

lemma owned_byte_chunk:
  assumes "data_ok X m V" and "owns_byte V a"
  obtains q c j where "(q, c, j) \<in> X" and "q \<le> a" and "a < q + j"
proof -
  obtain p c k where p: "owned V p = Some (c, k)" "p \<le> a" "a < p + k" using assms(2) by (auto simp: owns_byte_def)
  obtain q j where q: "(q, c, j) \<in> X" "held m (alignment V p) p c k (q, c, j)" by (rule owned_chunk[OF assms(1) p(1)])
  show ?thesis using that[OF q(1)] held_bounds[OF q(2)] p by simp
qed

lemma stored_byte: "data_ok X m V \<Longrightarrow> stored V a = Some b \<Longrightarrow> owns_byte V a \<and> m a = b"
  by (simp add: data_ok_def)

text \<open>Two pointers of a client are apart, and what one pointer owns the other does not.\<close>

lemma owned_apart:
  assumes d: "data_ok X m V" and X: "chunks_apart X"
    and p: "owned V p = Some (c, n)" and q: "owned V q = Some (d, k)" and ne: "p \<noteq> q"
  shows "p + n + 8 \<le> q \<or> q + k + 8 \<le> p"
proof -
  obtain H where host: "\<And>p c k. owned V p = Some (c, k)
      \<Longrightarrow> \<exists>q j. H p = (q, c, j) \<and> (q, c, j) \<in> X \<and> held m (alignment V p) p c k (q, c, j)"
    and inj: "\<And>p q. owned V p \<noteq> None \<Longrightarrow> owned V q \<noteq> None \<Longrightarrow> H p = H q \<Longrightarrow> p = q"
    by (rule hosts[OF d]) blast
  obtain x i where x: "H p = (x, c, i)" "(x, c, i) \<in> X" "held m (alignment V p) p c n (x, c, i)" using host[OF p] by blast
  obtain y j where y: "H q = (y, d, j)" "(y, d, j) \<in> X" "held m (alignment V q) q d k (y, d, j)" using host[OF q] by blast
  have "(x, c, i) \<noteq> (y, d, j)" using inj[of p q] p q ne x(1) y(1) by auto
  then have "x + i + 8 \<le> y \<or> y + j + 8 \<le> x" using chunks_apartD[OF X x(2) y(2)] by blast
  then show ?thesis using held_bounds[OF x(3)] held_bounds[OF y(3)] by auto
qed

lemma owned_byte_unique:
  assumes "data_ok X m V" and "chunks_apart X"
    and "owned V p = Some (c, n)" "p \<le> a" "a < p + n" and "owned V q = Some (d, k)" "q \<le> a" "a < q + k"
  shows "p = q"
  using owned_apart[OF assms(1-3,6)] assms(4,5,7,8) by (cases "p = q") auto

lemma new_not_owned:
  assumes d: "data_ok X m V" and X: "chunks_apart (insert (q, c, j) X)" and q: "(q, c, j) \<notin> X"
    and h: "held m' al p c k (q, c, j)"
  shows "owned V p = None" and "p \<le> a \<Longrightarrow> a < p + k \<Longrightarrow> \<not> owns_byte V a"
proof -
  note hb = held_bounds[OF h]
  show "owned V p = None"
  proof (rule ccontr)
    assume "owned V p \<noteq> None"
    then obtain e i where o: "owned V p = Some (e, i)" by auto
    obtain x l where x: "(x, e, l) \<in> X" "held m (alignment V p) p e i (x, e, l)" by (rule owned_chunk[OF d o])
    have "(x, e, l) \<noteq> (q, c, j)" using x(1) q by auto
    then show False using chunks_apartD[OF X, of x e l q c j] x(1) held_bounds[OF x(2)] hb by auto
  qed
  show "\<not> owns_byte V a" if a: "p \<le> a" "a < p + k"
  proof
    assume "owns_byte V a"
    then obtain x e l where x: "(x, e, l) \<in> X" "x \<le> a" "a < x + l" by (rule owned_byte_chunk[OF d])
    have "(x, e, l) \<noteq> (q, c, j)" using x(1) q by auto
    then show False using chunks_apartD[OF X, of x e l q c j] x hb a by auto
  qed
qed

section \<open>Changes of the chunks\<close>

lemma bij_betw_filter:
  assumes "bij_betw H A B" and "\<And>x. x \<in> A \<Longrightarrow> P x \<longleftrightarrow> R (H x)"
  shows "bij_betw H {x \<in> A. P x} {y \<in> B. R y}"
  using assms unfolding bij_betw_def inj_on_def by auto

lemma owned_keep: "owned (keep_owned P V) p = Some (c, n) \<longleftrightarrow> owned V p = Some (c, n) \<and> P p c"
  by (auto simp: keep_owned_def Let_def split: option.splits)

lemma stored_keep: "stored (keep_owned P V) a = Some b \<longleftrightarrow> owns_byte (keep_owned P V) a \<and> stored V a = Some b"
  by (auto simp: keep_owned_def Let_def owns_byte_def)

lemma view_fields [simp]:
  "children (keep_owned P V) = children V" "contexts (keep_owned P V) = contexts V"
  "current (keep_owned P V) = current V" "topctx (keep_owned P V) = topctx V"
  "alignment (keep_owned P V) = alignment V" "pending (keep_owned P V) = pending V"
  "called (keep_owned P V) = called V"
  "children (got_chunk p al c n f V) = children V" "contexts (got_chunk p al c n f V) = contexts V"
  "current (got_chunk p al c n f V) = current V" "topctx (got_chunk p al c n f V) = topctx V"
  "pending (got_chunk p al c n f V) = pending V" "called (got_chunk p al c n f V) = called V"
  "owned (without_contexts D V) = owned V" "stored (without_contexts D V) = stored V"
  "alignment (without_contexts D V) = alignment V" "pending (without_contexts D V) = pending V"
  "called (without_contexts D V) = called V" "owns_byte (without_contexts D V) a = owns_byte V a"
  "current (without_contexts D V) = current V" "topctx (without_contexts D V) = topctx V"
  "contexts (without_contexts D V) = contexts V - D"
  "owns_byte (keep_owned P (ran_callbacks xs V)) a = owns_byte (keep_owned P V) a"
  "children (ran_callbacks xs V) = children V" "contexts (ran_callbacks xs V) = contexts V"
  "current (ran_callbacks xs V) = current V" "topctx (ran_callbacks xs V) = topctx V"
  "owned (ran_callbacks xs V) = owned V" "stored (ran_callbacks xs V) = stored V"
  "alignment (ran_callbacks xs V) = alignment V" "owns_byte (ran_callbacks xs V) a = owns_byte V a"
  by (simp_all add: keep_owned_def Let_def got_chunk_def without_contexts_def owns_byte_def ran_callbacks_def)

lemma data_ok_fields:
  "owned V' = owned V \<Longrightarrow> alignment V' = alignment V \<Longrightarrow> stored V' = stored V \<Longrightarrow> data_ok X m V' = data_ok X m V"
  by (simp add: data_ok_def owns_byte_def)

lemma data_ran: "data_ok X m (keep_owned P (ran_callbacks xs V)) = data_ok X m (keep_owned P V)"
  by (rule data_ok_fields) (auto simp: keep_owned_def Let_def ran_callbacks_def owns_byte_def fun_eq_iff)

lemma data_without: "data_ok X m (without_contexts D V) = data_ok X m V"
  by (rule data_ok_fields) simp_all

text \<open>The view of a client stays right when the bytes of the chunks are as before.\<close>

lemma data_mem:
  assumes d: "data_ok X m V" and m: "\<And>p c n a. (p, c, n) \<in> X \<Longrightarrow> p \<le> a \<Longrightarrow> a < p + n \<Longrightarrow> m' a = m a"
  shows "data_ok X m' V"
proof -
  obtain H where H: "bij_betw H (dom (owned V)) X" and host: "\<And>p c k. owned V p = Some (c, k)
      \<Longrightarrow> \<exists>q j. H p = (q, c, j) \<and> (q, c, j) \<in> X \<and> held m (alignment V p) p c k (q, c, j)"
    and inj: "\<And>p q. owned V p \<noteq> None \<Longrightarrow> owned V q \<noteq> None \<Longrightarrow> H p = H q \<Longrightarrow> p = q"
    by (rule hosts[OF d]) blast
  have "held m' (alignment V p) p c k (H p)" if p: "owned V p = Some (c, k)" for p c k
  proof -
    obtain q j where t: "H p = (q, c, j)" "(q, c, j) \<in> X" "held m (alignment V p) p c k (q, c, j)"
      using host[OF p] by blast
    show ?thesis
      unfolding t(1) by (rule held_cong[OF t(3)]) (use m[OF t(2)] held_bounds[OF t(3)] in auto)
  qed
  moreover have "m' a = b" if s: "stored V a = Some b" for a b
  proof -
    have o: "owns_byte V a" "m a = b" using stored_byte[OF d s] by simp_all
    obtain q c j where "(q, c, j) \<in> X" "q \<le> a" "a < q + j" by (rule owned_byte_chunk[OF d o(1)])
    then show ?thesis using m o(2) by metis
  qed
  ultimately show ?thesis using d H unfolding data_ok_def same_chunks_def by blast
qed

text \<open>Contexts lose their chunks, a pointer is given back.\<close>

lemma data_keep:
  assumes d: "data_ok X m V"
  shows "data_ok {(q, c, n) \<in> X. Q c} m (keep_owned (\<lambda>p c. Q c) V)"
proof -
  let ?V = "keep_owned (\<lambda>p c. Q c) V"
  obtain H where H: "bij_betw H (dom (owned V)) X" and host: "\<And>p c k. owned V p = Some (c, k)
      \<Longrightarrow> \<exists>q j. H p = (q, c, j) \<and> (q, c, j) \<in> X \<and> held m (alignment V p) p c k (q, c, j)"
    and inj: "\<And>p q. owned V p \<noteq> None \<Longrightarrow> owned V q \<noteq> None \<Longrightarrow> H p = H q \<Longrightarrow> p = q"
    by (rule hosts[OF d]) blast
  have "bij_betw H {p \<in> dom (owned V). Q (fst (the (owned V p)))} {t \<in> X. Q (fst (snd t))}"
    by (rule bij_betw_filter[OF H]) (use host in fastforce)
  moreover have "dom (owned ?V) = {p \<in> dom (owned V). Q (fst (the (owned V p)))}"
    using owned_keep[of "\<lambda>p. Q" V] by (auto simp: dom_def)
  moreover have "{t \<in> X. Q (fst (snd t))} = {(q, c, n) \<in> X. Q c}" by auto
  ultimately have "bij_betw H (dom (owned ?V)) {(q, c, n) \<in> X. Q c}" by simp
  then show ?thesis
  proof (rule data_okI)
    show "held m (alignment ?V p) p c k (H p)" if "owned ?V p = Some (c, k)" for p c k
      using that host[of p c k] by (auto simp: owned_keep)
    show "owns_byte ?V a \<and> m a = b" if "stored ?V a = Some b" for a b
      using that stored_byte[OF d, of a b] by (simp add: stored_keep)
  qed
qed

lemma data_drop:
  assumes d: "data_ok X m V" and p: "owned V p = Some (c, k)"
  obtains q j where "(q, c, j) \<in> X" and "held m (alignment V p) p c k (q, c, j)"
    and "data_ok (X - {(q, c, j)}) m (keep_owned (\<lambda>x d. x \<noteq> p) V)"
proof -
  let ?V = "keep_owned (\<lambda>x d. x \<noteq> p) V"
  obtain H where H: "bij_betw H (dom (owned V)) X" and host: "\<And>p c k. owned V p = Some (c, k)
      \<Longrightarrow> \<exists>q j. H p = (q, c, j) \<and> (q, c, j) \<in> X \<and> held m (alignment V p) p c k (q, c, j)"
    and inj: "\<And>p q. owned V p \<noteq> None \<Longrightarrow> owned V q \<noteq> None \<Longrightarrow> H p = H q \<Longrightarrow> p = q"
    by (rule hosts[OF d]) blast
  obtain q j where t: "H p = (q, c, j)" "(q, c, j) \<in> X" "held m (alignment V p) p c k (q, c, j)"
    using host[OF p] by blast
  have "bij_betw H {x \<in> dom (owned V). x \<noteq> p} {t \<in> X. t \<noteq> H p}"
    by (rule bij_betw_filter[OF H]) (use inj p in blast)
  moreover have "dom (owned ?V) = {x \<in> dom (owned V). x \<noteq> p}"
    using owned_keep[of "\<lambda>x d. x \<noteq> p" V] by (auto simp: dom_def)
  moreover have "{t \<in> X. t \<noteq> H p} = X - {(q, c, j)}" using t(1) by auto
  ultimately have "bij_betw H (dom (owned ?V)) (X - {(q, c, j)})" by simp
  then have "data_ok (X - {(q, c, j)}) m ?V"
  proof (rule data_okI)
    show "held m (alignment ?V p) p c k (H p)" if "owned ?V p = Some (c, k)" for p c k
      using that host[of p c k] by (auto simp: owned_keep)
    show "owns_byte ?V a \<and> m a = b" if "stored ?V a = Some b" for a b
      using that stored_byte[OF d, of a b] by (simp add: stored_keep)
  qed
  then show ?thesis by (rule that[OF t(2,3)])
qed

text \<open>A new pointer with a chunk of its own.\<close>

lemma data_new:
  assumes d: "data_ok X m V" and X: "chunks_apart (insert (q, c, j) X)" and q: "(q, c, j) \<notin> X"
    and h: "held m al p c k (q, c, j)" and f: "\<And>i b. i < k \<Longrightarrow> f i = Some b \<Longrightarrow> m (p + i) = b"
  shows "data_ok (insert (q, c, j) X) m (got_chunk p al c k f V)"
  unfolding data_ok_def
proof (intro conjI allI impI)
  let ?V = "got_chunk p al c k f V"
  note un = new_not_owned(1)[OF d X q h]
  obtain H where H: "bij_betw H (dom (owned V)) X" and host: "\<And>p c k. owned V p = Some (c, k)
      \<Longrightarrow> \<exists>q j. H p = (q, c, j) \<and> (q, c, j) \<in> X \<and> held m (alignment V p) p c k (q, c, j)"
    and inj: "\<And>p q. owned V p \<noteq> None \<Longrightarrow> owned V q \<noteq> None \<Longrightarrow> H p = H q \<Longrightarrow> p = q"
    by (rule hosts[OF d]) blast
  have np: "p \<notin> dom (owned V)" using un by auto
  have "bij_betw (H(p := (q, c, j))) (dom (owned V)) X"
    using H by (rule bij_betw_cong[THEN iffD1, rotated]) (use np in auto)
  from notIn_Un_bij_betw[OF np _ this] q
  have "bij_betw (H(p := (q, c, j))) (dom (owned ?V)) (insert (q, c, j) X)" by (simp add: got_chunk_def)
  moreover have "held m (alignment ?V x) x e i ((H(p := (q, c, j))) x)" if "owned ?V x = Some (e, i)" for x e i
    using that host[of x e i] h by (auto simp: got_chunk_def split: if_splits)
  ultimately show "same_chunks (owned ?V) (alignment ?V) (insert (q, c, j) X) m"
    unfolding same_chunks_def by blast
  fix a b assume st: "stored ?V a = Some b"
  show "m a = b"
    using st d f[of "a - p" b] by (auto simp: got_chunk_def data_ok_def split: if_splits)
  show "owns_byte ?V a"
  proof (cases "p \<le> a \<and> a < p + k")
    case False
    then have "owns_byte V a" using st d by (auto simp: got_chunk_def data_ok_def)
    then obtain x e l where "owned V x = Some (e, l)" "x \<le> a" "a < x + l" by (auto simp: owns_byte_def)
    moreover then have "x \<noteq> p" using un by auto
    ultimately show ?thesis unfolding owns_byte_def got_chunk_def by (intro exI[of _ x] exI[of _ e] exI[of _ l]) simp
  qed (auto simp: owns_byte_def got_chunk_def)
qed

text \<open>Bytes of the client are written.\<close>

lemma data_write:
  assumes d: "data_ok X m V" and X: "chunks_apart X" and m: "\<And>a. m' a \<noteq> m a \<Longrightarrow> owns_byte V a"
    and V': "owned V' = owned V" "alignment V' = alignment V"
    and st: "\<And>a b. stored V' a = Some b \<Longrightarrow> owns_byte V a \<and> m' a = b"
  shows "data_ok X m' V'"
proof -
  obtain H where H: "bij_betw H (dom (owned V)) X" and host: "\<And>p c k. owned V p = Some (c, k)
      \<Longrightarrow> \<exists>q j. H p = (q, c, j) \<and> (q, c, j) \<in> X \<and> held m (alignment V p) p c k (q, c, j)"
    and inj: "\<And>p q. owned V p \<noteq> None \<Longrightarrow> owned V q \<noteq> None \<Longrightarrow> H p = H q \<Longrightarrow> p = q"
    by (rule hosts[OF d]) blast
  have "held m' (alignment V p) p c k (H p)" if p: "owned V p = Some (c, k)" for p c k
  proof -
    obtain q j where t: "H p = (q, c, j)" "(q, c, j) \<in> X" "held m (alignment V p) p c k (q, c, j)"
      using host[OF p] by blast
    have same: "m' a = m a" if a: "q \<le> a" "a < p" for a
    proof (rule ccontr)
      assume "m' a \<noteq> m a"
      then obtain x f l where x: "owned V x = Some (f, l)" "x \<le> a" "a < x + l"
        using m unfolding owns_byte_def by blast
      obtain y i where y: "H x = (y, f, i)" "(y, f, i) \<in> X" "held m (alignment V x) x f l (y, f, i)"
        using host[OF x(1)] by blast
      have "x \<noteq> p" using x(2) a(2) by auto
      then have "(q, c, j) \<noteq> (y, f, i)" using inj[of p x] p x(1) t(1) y(1) by auto
      then have "q + j + 8 \<le> y \<or> y + i + 8 \<le> q" using chunks_apartD[OF X t(2) y(2)] by blast
      then show False using held_bounds[OF t(3)] held_bounds[OF y(3)] x a by auto
    qed
    show ?thesis unfolding t(1) by (rule held_cong[OF t(3) same])
  qed
  moreover have "owns_byte V' a = owns_byte V a" for a by (simp add: owns_byte_def V'(1))
  ultimately show ?thesis using H st V' unfolding data_ok_def same_chunks_def by auto
qed

section \<open>Callback structs\<close>

text \<open>
  Every struct that is registered lies in a chunk of the client, with its function and argument known
  and its link unknown to the client; no two of them overlap.
\<close>

definition structs_ok :: "view \<Rightarrow> bool" where
  "structs_ok V \<longleftrightarrow>
     (\<forall>c x. x \<in> set (pending V c) \<longrightarrow> c \<in> contexts V \<and> struct_ready V x
        \<and> (\<forall>a. x + 16 \<le> a \<and> a < x + 24 \<longrightarrow> stored V a = None))
     \<and> (\<forall>c. distinct (pending V c))
     \<and> (\<forall>c d x y. x \<in> set (pending V c) \<longrightarrow> y \<in> set (pending V d) \<longrightarrow> (c, x) \<noteq> (d, y) \<longrightarrow> cb_apart x y)"

lemma structs_okD:
  assumes "structs_ok V"
  shows "x \<in> set (pending V c) \<Longrightarrow> c \<in> contexts V" and "x \<in> set (pending V c) \<Longrightarrow> struct_ready V x"
    and "x \<in> set (pending V c) \<Longrightarrow> x + 16 \<le> a \<Longrightarrow> a < x + 24 \<Longrightarrow> stored V a = None"
    and "distinct (pending V c)"
    and "x \<in> set (pending V c) \<Longrightarrow> y \<in> set (pending V d) \<Longrightarrow> (c, x) \<noteq> (d, y) \<Longrightarrow> cb_apart x y"
  using assms unfolding structs_ok_def by blast+

lemma pending_context: "structs_ok V \<Longrightarrow> pending V c \<noteq> [] \<Longrightarrow> c \<in> contexts V"
  using structs_okD(1)[of V "hd (pending V c)" c] by simp

lemma in_struct_bytes:
  "a \<in> struct_bytes V \<longleftrightarrow> (\<exists>c x. x \<in> set (pending V c) \<and> x \<le> a \<and> a < x + 24)"
  by (auto simp: struct_bytes_def cb_bytes_def)

lemma struct_chunk:
  assumes "structs_ok V" and "x \<in> set (pending V c)"
  obtains p d n where "owned V p = Some (d, n)" and "p \<le> x" and "x + 24 \<le> p + n"
  using structs_okD(2)[OF assms] by (auto simp: struct_ready_def)

lemma struct_byte_owned:
  assumes s: "structs_ok V" and a: "a \<in> struct_bytes V"
  shows "owns_byte V a"
proof -
  obtain c x where x: "x \<in> set (pending V c)" "x \<le> a" "a < x + 24" using a by (auto simp: in_struct_bytes)
  obtain p d n where "owned V p = Some (d, n)" "p \<le> x" "x + 24 \<le> p + n" by (rule struct_chunk[OF s x(1)])
  then show ?thesis unfolding owns_byte_def using x(2,3) by (intro exI[of _ p] exI[of _ d] exI[of _ n]) simp
qed

text \<open>The structs that remain are where they were.\<close>

lemma structs_ok_kept:
  assumes s: "structs_ok V" and p: "\<And>c. pending V' c = pending V c \<or> pending V' c = []"
    and c: "\<And>c. pending V' c \<noteq> [] \<Longrightarrow> c \<in> contexts V'"
    and o: "\<And>c x p d n. x \<in> set (pending V' c) \<Longrightarrow> owned V p = Some (d, n) \<Longrightarrow> p \<le> x \<Longrightarrow> x + 24 \<le> p + n
      \<Longrightarrow> owned V' p = Some (d, n)"
    and st: "\<And>c x a. x \<in> set (pending V' c) \<Longrightarrow> x \<le> a \<Longrightarrow> a < x + 24 \<Longrightarrow> stored V' a = stored V a"
  shows "structs_ok V'"
proof -
  have sub: "x \<in> set (pending V c)" if "x \<in> set (pending V' c)" for x c
    using that p[of c] by (auto split: if_splits)
  have "c \<in> contexts V' \<and> struct_ready V' x \<and> (\<forall>a. x + 16 \<le> a \<and> a < x + 24 \<longrightarrow> stored V' a = None)"
    if x: "x \<in> set (pending V' c)" for c x
  proof -
    have "c \<in> contexts V'" by (rule c) (use x in auto)
    moreover have "struct_ready V' x"
      using structs_okD(2)[OF s sub[OF x]] o[OF x] st[OF x] unfolding struct_ready_def by fastforce
    moreover have "\<forall>a. x + 16 \<le> a \<and> a < x + 24 \<longrightarrow> stored V' a = None"
      using structs_okD(3)[OF s sub[OF x]] st[OF x] by simp
    ultimately show ?thesis by blast
  qed
  moreover have "distinct (pending V' c)" for c using p[of c] structs_okD(4)[OF s, of c] by auto
  moreover have "cb_apart x y" if "x \<in> set (pending V' c)" "y \<in> set (pending V' d)" "(c, x) \<noteq> (d, y)" for c d x y
    by (rule structs_okD(5)[OF s sub[OF that(1)] sub[OF that(2)] that(3)])
  ultimately show ?thesis unfolding structs_ok_def by blast
qed

lemma structs_same:
  assumes "structs_ok V" and "pending V' = pending V" and "contexts V \<subseteq> contexts V'"
    and "owned V' = owned V" and "\<And>a. a \<in> struct_bytes V \<Longrightarrow> stored V' a = stored V a"
  shows "structs_ok V'"
proof (rule structs_ok_kept[OF assms(1)])
  show "c \<in> contexts V'" if "pending V' c \<noteq> []" for c
    using pending_context[OF assms(1), of c] that assms(2,3) by auto
  show "stored V' a = stored V a" if "x \<in> set (pending V' c)" "x \<le> a" "a < x + 24" for c x a
    using assms(2,5) that in_struct_bytes by metis
qed (use assms in auto)

lemma structs_keep:
  assumes s: "structs_ok V" and V: "contexts V' = contexts V" "owned V' = owned V" "stored V' = stored V"
    and p: "\<And>c. pending V' c = pending V c \<or> pending V' c = []"
    and P: "\<And>c x p d n. x \<in> set (pending V' c) \<Longrightarrow> owned V p = Some (d, n) \<Longrightarrow> p \<le> x \<Longrightarrow> x + 24 \<le> p + n
      \<Longrightarrow> P p d"
  shows "structs_ok (keep_owned P V')"
proof (rule structs_ok_kept[OF s])
  let ?V = "keep_owned P V'"
  show "pending ?V c = pending V c \<or> pending ?V c = []" for c using p[of c] by simp
  show "c \<in> contexts ?V" if "pending ?V c \<noteq> []" for c
    using pending_context[OF s, of c] that p[of c] V(1) by auto
  show o: "owned ?V p = Some (d, n)"
    if "x \<in> set (pending ?V c)" "owned V p = Some (d, n)" "p \<le> x" "x + 24 \<le> p + n" for c x p d n
    unfolding owned_keep using P[of x c p d n] that V(2) by simp
  show "stored ?V a = stored V a" if x: "x \<in> set (pending ?V c)" "x \<le> a" "a < x + 24" for c x a
  proof -
    have "x \<in> set (pending V c)" using x(1) p[of c] by auto
    then obtain q d n where q: "owned V q = Some (d, n)" "q \<le> x" "x + 24 \<le> q + n" by (rule struct_chunk[OF s])
    have "owns_byte ?V a"
      unfolding owns_byte_def using o[OF x(1) q] q(2,3) x(2,3) by (intro exI[of _ q] exI[of _ d] exI[of _ n]) simp
    then have "stored ?V a = Some b \<longleftrightarrow> stored V' a = Some b" for b by (simp add: stored_keep)
    then show ?thesis using V(3) by (metis option.exhaust)
  qed
qed

lemma structs_without:
  assumes s: "structs_ok V" and p: "\<And>c. c \<in> D \<Longrightarrow> pending V c = []"
  shows "structs_ok (without_contexts D V)"
proof (rule structs_ok_kept[OF s])
  show "c \<in> contexts (without_contexts D V)" if "pending (without_contexts D V) c \<noteq> []" for c
    using pending_context[OF s, of c] that p[of c] by auto
qed simp_all

lemma structs_drop:
  assumes s: "structs_ok V" and n: "no_struct_in V p"
  shows "structs_ok (keep_owned (\<lambda>q d. q \<noteq> p) V)"
proof (rule structs_keep[OF s])
  show "q \<noteq> p" if x: "x \<in> set (pending V c)" "owned V q = Some (d, k)" "q \<le> x" "x + 24 \<le> q + k" for c x q d k
  proof
    assume "q = p"
    then have "x \<in> {p ..< p + k} \<inter> struct_bytes V" using x by (force simp: in_struct_bytes)
    moreover have "{p ..< p + k} \<inter> struct_bytes V = {}" using n x(2) \<open>q = p\<close> by (simp add: no_struct_in_def)
    ultimately show False by blast
  qed
qed simp_all

lemma structs_new:
  assumes s: "structs_ok V" and d: "data_ok X m V" and X: "chunks_apart (insert (q, c, j) X)"
    and q: "(q, c, j) \<notin> X" and h: "held m' al p c k (q, c, j)"
  shows "structs_ok (got_chunk p al c k f V)"
proof (rule structs_ok_kept[OF s])
  note un = new_not_owned[OF d X q h]
  show "owned (got_chunk p al c k f V) r = Some (e, n)" if "owned V r = Some (e, n)" for r e n
    using that un(1) by (auto simp: got_chunk_def)
  show "stored (got_chunk p al c k f V) a = stored V a"
    if "x \<in> set (pending (got_chunk p al c k f V) e)" "x \<le> a" "a < x + 24" for e x a
  proof -
    have "a \<in> struct_bytes V" using that by (auto simp: in_struct_bytes)
    then have "owns_byte V a" by (rule struct_byte_owned[OF s])
    then show ?thesis using un(2)[of a] by (auto simp: got_chunk_def)
  qed
  show "e \<in> contexts (got_chunk p al c k f V)" if "pending (got_chunk p al c k f V) e \<noteq> []" for e
    using that pending_context[OF s] by simp
qed simp_all

text \<open>A struct is registered or unregistered.\<close>

lemma struct_apart:
  assumes "{x ..< x + 24} \<inter> struct_bytes V = {}" and y: "y \<in> set (pending V e)"
  shows "cb_apart x y"
proof (rule ccontr)
  assume "\<not> cb_apart x y"
  then have "max x y \<in> {x ..< x + 24}" "max x y \<in> struct_bytes V"
    using y by (auto simp: cb_apart_def in_struct_bytes max_def) fastforce+
  then show False using assms(1) by blast
qed

lemma structs_registered:
  assumes s: "structs_ok V" and c: "c \<in> contexts V" and x: "struct_ready V x"
    and new: "{x ..< x + 24} \<inter> struct_bytes V = {}"
  shows "structs_ok (V\<lparr>pending := (pending V)(c := x # pending V c),
    stored := (\<lambda>a. if x + 16 \<le> a \<and> a < x + 24 then None else stored V a)\<rparr>)" (is "structs_ok ?V")
proof -
  note apart = struct_apart[OF new]
  have "e \<in> contexts ?V \<and> struct_ready ?V y \<and> (\<forall>a. y + 16 \<le> a \<and> a < y + 24 \<longrightarrow> stored ?V a = None)"
    if y: "y \<in> set (pending ?V e)" for e y
  proof (cases "y \<in> set (pending V e)")
    case True
    then have "stored ?V a = stored V a" if "y \<le> a" "a < y + 24" for a
      using apart[OF True] that by (auto simp: cb_apart_def)
    then show ?thesis
      using structs_okD(1-3)[OF s True] by (simp add: struct_ready_def)
  next
    case False
    then have "e = c" "y = x" using y by (auto split: if_splits)
    then show ?thesis using c x by (simp add: struct_ready_def)
  qed
  moreover have "x \<notin> set (pending V c)" using apart[of x c] by (auto simp: cb_apart_def)
  then have "distinct (pending ?V e)" for e using structs_okD(4)[OF s] by simp
  moreover have "cb_apart y z" if yz: "y \<in> set (pending ?V d)" "z \<in> set (pending ?V e)" "(d, y) \<noteq> (e, z)" for d e y z
  proof -
    consider "y \<in> set (pending V d)" "z \<in> set (pending V e)" | "y \<in> set (pending V d)" "z = x"
      | "y = x" "z \<in> set (pending V e)"
      using yz by (cases "d = c"; cases "e = c") auto
    then show ?thesis
    proof cases
      case 1
      show ?thesis by (rule structs_okD(5)[OF s 1 yz(3)])
    qed (use apart in \<open>auto simp: cb_apart_def\<close>)
  qed
  ultimately show ?thesis unfolding structs_ok_def by blast
qed

lemma structs_unregistered:
  assumes s: "structs_ok V"
  shows "structs_ok (V\<lparr>pending := (pending V)(c := remove1 x (pending V c))\<rparr>)" (is "structs_ok ?V")
proof -
  have sub: "y \<in> set (pending V e)" if "y \<in> set (pending ?V e)" for y e
    using that set_remove1_subset[of x "pending V c"] by (auto split: if_splits)
  have "distinct (pending ?V e)" for e using structs_okD(4)[OF s] by simp
  moreover have "e \<in> contexts ?V \<and> struct_ready ?V y \<and> (\<forall>a. y + 16 \<le> a \<and> a < y + 24 \<longrightarrow> stored ?V a = None)"
    if "y \<in> set (pending ?V e)" for e y
    using structs_okD(1-3)[OF s sub[OF that]] by (simp add: struct_ready_def)
  moreover have "cb_apart y z" if "y \<in> set (pending ?V d)" "z \<in> set (pending ?V e)" "(d, y) \<noteq> (e, z)" for d e y z
    by (rule structs_okD(5)[OF s sub[OF that(1)] sub[OF that(2)] that(3)])
  ultimately show ?thesis unfolding structs_ok_def by blast
qed

text \<open>What is in a struct is what the client put there.\<close>

lemma entry_mem:
  assumes s: "structs_ok V" and d: "data_ok X m V" and x: "x \<in> set (pending V c)"
  shows "entry V x = cb_entry m x"
proof -
  let ?m = "\<lambda>a. case stored V a of None \<Rightarrow> 0 | Some b \<Rightarrow> b"
  have "?m a = m a" if "x \<le> a" "a < x + 16" for a
  proof -
    have "stored V a \<noteq> None" using structs_okD(2)[OF s x] that by (simp add: struct_ready_def)
    then obtain b where "stored V a = Some b" by blast
    then show ?thesis using stored_byte[OF d] by simp
  qed
  then have "load64 ?m x = load64 m x" "load64 ?m (x + 8) = load64 m (x + 8)"
    by (intro load64_cong; simp)+
  then show ?thesis by (simp add: entry_def cb_entry_def cb_func_def cb_arg_def)
qed

section \<open>Callbacks in the state\<close>

definition cbs_ok :: "view \<Rightarrow> world \<Rightarrow> bool" where
  "cbs_ok V w \<longleftrightarrow> calls w = called V
     \<and> (\<forall>c \<in> contexts V. \<exists>s. ctxs w c = Some s \<and> cb_list w (reset_cbs s) (pending V c)
          \<and> (isReset s \<longrightarrow> pending V c = []))"

lemma cbs_okD:
  assumes "cbs_ok V w"
  shows "calls w = called V" and "c \<in> contexts V \<Longrightarrow> ctxs w c = Some s \<Longrightarrow> cb_list w (reset_cbs s) (pending V c)"
    and "c \<in> contexts V \<Longrightarrow> ctxs w c = Some s \<Longrightarrow> isReset s \<longrightarrow> pending V c = []"
  using assms unfolding cbs_ok_def by force+

lemma cb_list_moved:
  assumes "cb_list w a xs" and "\<And>x. x \<in> set xs \<Longrightarrow> in_region w' x 24"
    and "\<And>x. x \<in> set xs \<Longrightarrow> load64 (mem w') (cb_next x) = load64 (mem w) (cb_next x)"
  shows "cb_list w' a xs"
  using assms by (induction xs arbitrary: a) auto

lemma struct_in_region:
  assumes s: "structs_ok V" and d: "data_ok X m V" and X: "X \<subseteq> chunks G w" and ok: "heap_ok G w"
    and x: "x \<in> set (pending V c)"
  shows "in_region w x 24"
proof -
  obtain p e n where p: "owned V p = Some (e, n)" "p \<le> x" "x + 24 \<le> p + n" by (rule struct_chunk[OF s x])
  obtain q j where q: "(q, e, j) \<in> X" "held m (alignment V p) p e n (q, e, j)" by (rule owned_chunk[OF d p(1)])
  show ?thesis
    by (rule in_region_sub[OF chunk_facts(5)[OF ok subsetD[OF X q(1)]]]) (use held_bounds[OF q(2)] p in auto)
qed

text \<open>After a step, a context has the callbacks it had, still in place, or none.\<close>

lemma cbs_ok_step:
  assumes c: "cbs_ok V w" and s: "structs_ok V'" and d: "data_ok X (mem w') V'"
    and X: "X \<subseteq> chunks G' w'" and ok: "heap_ok G' w'"
    and log: "calls w' = called V'"
    and m: "\<And>c x a. x \<in> set (pending V' c) \<Longrightarrow> x + 16 \<le> a \<Longrightarrow> a < x + 24 \<Longrightarrow> mem w' a = mem w a"
    and keep: "\<And>e. e \<in> contexts V' \<Longrightarrow>
      e \<in> contexts V \<and> pending V' e = pending V e
        \<and> (\<forall>s. ctxs w e = Some s \<longrightarrow> (\<exists>s'. ctxs w' e = Some s' \<and> reset_cbs s' = reset_cbs s \<and> (isReset s' \<longrightarrow> isReset s)))
      \<or> pending V' e = [] \<and> (\<exists>s'. ctxs w' e = Some s' \<and> reset_cbs s' = 0)"
  shows "cbs_ok V' w'"
  unfolding cbs_ok_def
proof (intro conjI ballI)
  fix e assume e: "e \<in> contexts V'"
  show "\<exists>s. ctxs w' e = Some s \<and> cb_list w' (reset_cbs s) (pending V' e) \<and> (isReset s \<longrightarrow> pending V' e = [])"
    using keep[OF e]
  proof (elim disjE conjE)
    assume a: "e \<in> contexts V" "pending V' e = pending V e"
      "\<forall>s. ctxs w e = Some s \<longrightarrow> (\<exists>s'. ctxs w' e = Some s' \<and> reset_cbs s' = reset_cbs s \<and> (isReset s' \<longrightarrow> isReset s))"
    obtain t where t: "ctxs w e = Some t" "cb_list w (reset_cbs t) (pending V e)" "isReset t \<longrightarrow> pending V e = []"
      using c a(1) unfolding cbs_ok_def by blast
    obtain s' where s': "ctxs w' e = Some s'" "reset_cbs s' = reset_cbs t" "isReset s' \<longrightarrow> isReset t" using a(3) t(1) by blast
    have "cb_list w' (reset_cbs t) (pending V' e)"
    proof (rule cb_list_moved)
      show "cb_list w (reset_cbs t) (pending V' e)" using t(2) a(2) by simp
      show "in_region w' x 24" if "x \<in> set (pending V' e)" for x by (rule struct_in_region[OF s d X ok that])
      show "load64 (mem w') (cb_next x) = load64 (mem w) (cb_next x)" if "x \<in> set (pending V' e)" for x
        by (rule load64_cong) (use m[OF that] in \<open>simp add: cb_next_def\<close>)
    qed
    then show ?thesis using s' t(3) a(2) by auto
  next
    assume "pending V' e = []" "\<exists>s'. ctxs w' e = Some s' \<and> reset_cbs s' = 0"
    then show ?thesis by auto
  qed
qed (rule log)

end
