(* ===== verification/ResetTreeProofs.thy ===== *)
theory ResetTreeProofs
  imports LibraryProofs
begin

text \<open>
  Emptying contexts without deleting them: \<open>MemoryContextResetOnly\<close> under the invariant of the whole
  library, and \<open>MemoryContextResetChildren\<close>, which goes through the descendants of a context in
  preorder while their callbacks run.
\<close>

unbundle bit_operations_syntax

section \<open>The descendants of a context\<close>

text \<open>
  What emptying the contexts \<open>D\<close> relies on, as \<open>deletable\<close> does for deletion: the callbacks of each
  context are linked in memory that lives at least as long as the context, and a context that counts
  as reset has none.
\<close>

definition resettable :: "(addr \<Rightarrow> ghost) \<Rightarrow> world \<Rightarrow> addr set \<Rightarrow> callbacks \<Rightarrow> (addr \<Rightarrow> addr list)
    \<Rightarrow> addr set \<Rightarrow> bool" where
  "resettable G w A cbf cbs D \<longleftrightarrow>
     quiet A cbf \<and> (\<forall>a \<in> A. outlives G w D a)
     \<and> (\<forall>x \<in> D. (\<exists>s. ctxs w x = Some s \<and> cb_list w (reset_cbs s) (cbs x) \<and> (isReset s \<longrightarrow> cbs x = []))
          \<and> A \<inter> cb_bytes (cbs x) = {} \<and> (\<forall>a \<in> cb_bytes (cbs x). outlives G w (D - {x}) a))"

lemma outlives_all_reset:
  assumes "all_reset G T F w A cbs xs G' w'" and "outlives G w E a" and "set xs \<subseteq> E"
  shows "outlives G' w' (E - set xs) a"
  using assms unfolding all_reset_def outlives_def by blast

lemma resettable_all_reset:
  assumes ok: "heap_ok G w" and e: "all_reset G T F w A cbs xs G' w'"
    and r: "resettable G w A cbf cbs D" and sub: "set xs \<subseteq> D"
  shows "resettable G' w' A cbf cbs (D - set xs)"
  unfolding resettable_def
proof (intro conjI ballI)
  note e' = e[unfolded all_reset_def] and r' = r[unfolded resettable_def]
  have ok': "heap_ok G' w'" using e' by (simp add: lib_ok_def)
  show "quiet A cbf" using r' by blast
  show "outlives G' w' (D - set xs) a" if "a \<in> A" for a
    by (rule outlives_all_reset[OF e _ sub]) (use r' that in blast)
  fix x assume x: "x \<in> D - set xs"
  show "A \<inter> cb_bytes (cbs x) = {}" using r' x by blast
  show ol: "outlives G' w' (D - set xs - {x}) a" if "a \<in> cb_bytes (cbs x)" for a
  proof -
    have "outlives G' w' (D - {x} - set xs) a"
      by (rule outlives_all_reset[OF e]) (use r' that x sub in blast)+
    moreover have "D - {x} - set xs = D - set xs - {x}" by blast
    ultimately show ?thesis by metis
  qed
  obtain s where s: "ctxs w x = Some s" "cb_list w (reset_cbs s) (cbs x)" "isReset s \<longrightarrow> cbs x = []"
    using r' x by blast
  have s': "ctxs w' x = Some s" using e' x s(1) by simp
  have "cb_list w' (reset_cbs s) (cbs x)"
  proof (rule cb_list_stays[OF s(2)])
    show "mem w' y = mem w y" if y: "y \<in> cb_bytes (cbs x)" for y
    proof -
      have "A \<inter> cb_bytes (cbs x) = {}" using r' x by blast
      then have "y \<notin> A" using y by blast
      then show ?thesis using e' by blast
    qed
    fix y assume y: "y \<in> set (cbs x)"
    then have "y \<in> cb_bytes (cbs x)" by (auto simp: cb_bytes_def)
    then have y1: "in_region w' y 1" by (rule outlives_region(1)[OF ok' ol])
    have y24: "in_region w y 24" by (rule cb_list_region[OF s(2) y])
    have "set (regions w') \<subseteq> set (regions w)" using e' by blast
    then show "in_region w' y 24"
      by (rule in_region_stays[OF heap_okD(1)[OF ok] _ y24 _ y1]) simp
  qed
  then show "\<exists>s. ctxs w' x = Some s \<and> cb_list w' (reset_cbs s) (cbs x) \<and> (isReset s \<longrightarrow> cbs x = [])"
    using s' s(3) by blast
qed

lemma resettable_one:
  assumes ok: "heap_ok G w" and r: "resettable G w A cbf cbs D" and x: "x \<in> D"
  obtains s where "ctxs w x = Some s" and "cb_list w (reset_cbs s) (cbs x)" and "isReset s \<longrightarrow> cbs x = []"
    and "callbacks_allowed G w A (cbs x) cbf"
proof -
  note r' = r[unfolded resettable_def]
  have "\<forall>a \<in> A. client_owned G w a" using r' outlives_region(2)[OF ok] by blast
  then have "callbacks_allowed G w A (cbs x) cbf" using r' x unfolding callbacks_allowed_def by blast
  then show ?thesis using that r' x by blast
qed

lemma ResetChildren_run:
  assumes lib: "lib_ok G T F w" and sh: "shape T (CNode c ts)" and c: "ctxs w c = Some s" "c \<in> live F w"
    and r: "resettable G w A cbf cbs (set (concat (map preorder ts)))"
  shows "\<exists>G' w'. MemoryContextResetChildren cbf c w = Inr w'
    \<and> all_reset G T F w A cbs (concat (map preorder ts)) G' w'"
proof -
  let ?xs = "concat (map preorder ts)"
  let ?c = "\<lambda>(cur, w). seqE (MemoryContextResetOnly cbf cur w) (\<lambda>w.
          seqE (MemoryContextTraverseNext w cur c) (\<lambda>nxt. Inr (nxt, w)))"
  have lk: "links_ok T (ctxs w)" by (rule lib_okD(2)[OF lib])
  note fd = first_descendant[OF lk sh c(1)]
  have dist: "distinct ?xs" using distinct_preorder[OF lk sh] by simp
  have "set (preorder (CNode c ts)) \<subseteq> live F w" by (rule tree_live[OF lib sh]) (use c(2) in simp)
  then have live: "set ?xs \<subseteq> live F w" by simp
  have "\<exists>w'. loopE (\<lambda>(cur, w). cur \<noteq> 0) ?c (first ?xs 0, w) = Inr (0, w') \<and> (\<exists>G'. all_reset G T F w A cbs ?xs G' w')"
  proof (rule loopE_list[OF fd(2), of "\<lambda>us v. \<exists>G'. all_reset G T F w A cbs us G' v"])
    fix us b vs v
    assume xs: "?xs = us @ b # vs" and "\<exists>G'. all_reset G T F w A cbs us G' v"
    then obtain G1 where e: "all_reset G T F w A cbs us G1 v" by blast
    have lib1: "lib_ok G1 T F v" and lv: "live F v = live F w" using e by (simp_all add: all_reset_def)
    have "set us \<subseteq> set ?xs" using xs by auto
    then have r1: "resettable G1 v A cbf cbs (set ?xs - set us)"
      by (rule resettable_all_reset[OF lib_okD(1)[OF lib] e r])
    have b: "b \<in> set ?xs - set us" using dist xs by auto
    obtain u where u: "ctxs v b = Some u" "cb_list v (reset_cbs u) (cbs b)" "isReset u \<longrightarrow> cbs b = []"
      "callbacks_allowed G1 v A (cbs b) cbf"
      by (rule resettable_one[OF lib_okD(1)[OF lib1] r1 b])
    have "b \<in> live F v" using b live lv by blast
    then obtain G2 v2 where v2: "MemoryContextResetOnly cbf b v = Inr v2" "all_reset G1 T F v A cbs [b] G2 v2"
      using ResetOnly_lib[where cbs = cbs, OF lib1 u(1) _ u(2-4)] by blast
    have "all_reset G T F w A cbs (us @ [b]) G2 v2"
      by (rule all_reset_trans[OF e v2(2)]) (use b r in \<open>auto simp: resettable_def\<close>)
    moreover have "links_ok T (ctxs v2)" using v2(2) lib_okD(2) by (auto simp: all_reset_def)
    then have "chain (\<lambda>x. MemoryContextTraverseNext v2 x c) (Inr 0) (us @ b # vs)"
      using traversal[OF _ sh, of v2] unfolding xs by blast
    then have "MemoryContextTraverseNext v2 b c = Inr (first vs 0)" by (rule chain_next)
    ultimately show "\<exists>v'. ?c (b, v) = Inr (first vs 0, v') \<and> (\<exists>G'. all_reset G T F w A cbs (us @ [b]) G' v')"
      using v2(1) by auto
  qed (use all_reset_Nil[OF lib] in blast)
  then obtain G' w' where "loopE (\<lambda>(cur, w). cur \<noteq> 0) ?c (first ?xs 0, w) = Inr (0, w')"
    "all_reset G T F w A cbs ?xs G' w'" by blast
  then show ?thesis
    using fd(1) by (auto simp: MemoryContextResetChildren_def valid_ctx[OF lib_okD(1)[OF lib] c(1)] get_ctx_Some[OF c(1)])
qed

end
