(* ===== verification/ClientProofs.thy ===== *)
theory ClientProofs
  imports ClientData ResetTreeProofs
begin

text \<open>
  The view of the client agrees with the state: \<open>represents\<close> holds after \<open>MemoryContextInit\<close> and every
  permitted call keeps it or stops with an error that the call allows. The locale \<open>service\<close> draws the
  consequence for clients that make any number of calls.
\<close>

unbundle bit_operations_syntax

section \<open>The view agrees with the state\<close>

definition tree_ok :: "(addr \<Rightarrow> ghost) \<Rightarrow> (nat \<Rightarrow> addr list) \<Rightarrow> view \<Rightarrow> world \<Rightarrow> bool" where
  "tree_ok G F V w \<longleftrightarrow>
     lib_ok G (children V) F w \<and> wf (child_rel (children V)) \<and> contexts V = live F w
     \<and> current V = CurrentMemoryContext w \<and> current V \<in> contexts V \<and> topctx V = TopMemoryContext w"

text \<open>
  \<open>accounts X\<close>: the client knows of the chunks \<open>X\<close>; it need not know of all, as within a \<open>repalloc\<close>.
\<close>

definition accounts :: "(addr \<times> addr \<times> nat) set \<Rightarrow> (addr \<Rightarrow> ghost) \<Rightarrow> (nat \<Rightarrow> addr list) \<Rightarrow> view
    \<Rightarrow> world \<Rightarrow> bool" where
  "accounts X G F V w \<longleftrightarrow>
     tree_ok G F V w \<and> X \<subseteq> chunks G w \<and> data_ok X (mem w) V \<and> structs_ok V \<and> cbs_ok V w"

definition represents :: "(addr \<Rightarrow> ghost) \<Rightarrow> (nat \<Rightarrow> addr list) \<Rightarrow> view \<Rightarrow> world \<Rightarrow> bool" where
  "represents G F V w \<longleftrightarrow> accounts (chunks G w) G F V w"

definition served :: "view \<Rightarrow> call \<Rightarrow> error + addr \<times> world \<Rightarrow> bool" where
  "served V x res \<longleftrightarrow>
     (\<exists>r G' F' w'. res = Inr (r, w') \<and> represents G' F' (after V x r) w')
     \<or> (\<exists>e \<in> allowed_errors V x. res = Inl e)"

lemma servedI: "represents G' F' (after V x r) w' \<Longrightarrow> served V x (Inr (r, w'))"
  by (auto simp: served_def)

lemma below_iff: "below T c x \<longleftrightarrow> (x, c) \<in> (child_rel T)\<^sup>*"
proof
  show "below T c x \<Longrightarrow> (x, c) \<in> (child_rel T)\<^sup>*"
    by (induction rule: below.induct) (auto simp: child_rel_def intro: converse_rtrancl_into_rtrancl)
  show "(x, c) \<in> (child_rel T)\<^sup>* \<Longrightarrow> below T c x"
    by (induction rule: converse_rtrancl_induct) (auto simp: child_rel_def intro: below.intros)
qed

section \<open>Contexts\<close>

lemma tree_ok_fields:
  "children V' = children V \<Longrightarrow> contexts V' = contexts V \<Longrightarrow> current V' = current V \<Longrightarrow> topctx V' = topctx V
   \<Longrightarrow> tree_ok G F V' w = tree_ok G F V w"
  by (simp add: tree_ok_def)

lemma tree_okD:
  assumes "tree_ok G F V w"
  shows "lib_ok G (children V) F w" and "wf (child_rel (children V))" and "contexts V = live F w"
    and "current V = CurrentMemoryContext w" and "current V \<in> live F w" and "topctx V = TopMemoryContext w"
proof -
  show "lib_ok G (children V) F w" and "wf (child_rel (children V))" and c: "contexts V = live F w"
    and "current V = CurrentMemoryContext w" and "topctx V = TopMemoryContext w"
    using assms unfolding tree_ok_def by blast+
  have "current V \<in> contexts V" using assms unfolding tree_ok_def by blast
  then show "current V \<in> live F w" by (simp only: c)
qed

lemma tree_okI:
  assumes "lib_ok G (children V) F w" and "wf (child_rel (children V))" and "contexts V = live F w"
    and "current V = CurrentMemoryContext w" and "current V \<in> live F w" and "topctx V = TopMemoryContext w"
  shows "tree_ok G F V w"
  using assms unfolding tree_ok_def by simp

lemma tree_ok_context:
  assumes t: "tree_ok G F V w" and c: "c \<in> contexts V"
  obtains s where "ctxs w c = Some s" and "c \<in> live F w"
  using tree_okD(3)[OF t] c by (auto simp: live_def)

text \<open>Contexts that wait to be used again have no chunks.\<close>

lemma chunk_context_live:
  assumes lib: "lib_ok G T F w" and q: "(q, c, n) \<in> chunks G w"
  shows "c \<in> live F w"
proof -
  obtain s where s: "ctxs w c = Some s" using q by (auto simp: chunks_iff)
  have "c \<notin> set (F i)" for i
  proof
    assume c: "c \<in> set (F i)"
    note fl = lib_okD(3)[OF lib, unfolded freelists_ok_def]
    have i: "i < 2" using fl c by (cases "i < 2") auto
    then have "\<exists>s. ctxs w c = Some s \<and> recyclable i s" using fl c unfolding freelist_ok_def by blast
    then have "isReset s" using s by (auto simp: recyclable_def)
    then have "(q, c, n) \<in> other_chunks G w c"
      using reset_context(3)[OF lib_okD(1)[OF lib] s] q by simp
    then show False by (simp add: other_chunks_def)
  qed
  then show ?thesis using s by (simp add: live_def)
qed

lemma tree_touched:
  assumes t: "tree_ok G F V w" and c: "c \<in> contexts V"
  shows "tree_ok G F V (touched w c)"
proof -
  have cl: "c \<in> live F w" using c tree_okD(3)[OF t] by simp
  note lt = lib_ok_touched[OF tree_okD(1)[OF t] cl]
  have "TopMemoryContext (touched w c) = TopMemoryContext w" by (simp add: touched_def)
  then show ?thesis by (intro tree_okI) (use tree_okD[OF t] lt in simp_all)
qed

lemma tree_evolves:
  assumes t: "tree_ok G F V w" and ev: "evolves G w X G' w'"
  shows "tree_ok G' F V w'"
proof -
  note le = lib_ok_evolves[OF tree_okD(1)[OF t] ev]
  have "CurrentMemoryContext w' = CurrentMemoryContext w" "TopMemoryContext w' = TopMemoryContext w"
    using ev by (simp_all add: evolves_def same_rest_def)
  then show ?thesis by (intro tree_okI) (use tree_okD[OF t] le in simp_all)
qed

section \<open>The state changes\<close>

lemma accountsD:
  assumes "accounts X G F V w"
  shows "tree_ok G F V w" and "data_ok X (mem w) V" and "heap_ok G w" and "structs_ok V" and "cbs_ok V w"
    and "X \<subseteq> chunks G w" and "chunks_apart X"
proof -
  show t: "tree_ok G F V w" and "data_ok X (mem w) V" and "structs_ok V" and "cbs_ok V w" and X: "X \<subseteq> chunks G w"
    using assms by (simp_all add: accounts_def)
  show h: "heap_ok G w" by (rule lib_okD(1)[OF tree_okD(1)[OF t]])
  show "chunks_apart X" by (rule chunks_apart_subset[OF heap_chunks_apart[OF h] X])
qed

lemma representsD:
  assumes "represents G F V w"
  shows "tree_ok G F V w" and "data_ok (chunks G w) (mem w) V" and "heap_ok G w" and "structs_ok V" and "cbs_ok V w"
    and "chunks_apart (chunks G w)"
  using accountsD[OF assms[unfolded represents_def]] by blast+

lemma representsI:
  assumes "tree_ok G F V w" and "data_ok (chunks G w) (mem w) V" and "structs_ok V" and "cbs_ok V w"
  shows "represents G F V w"
  using assms by (simp add: represents_def accounts_def)

text \<open>The bytes of callback structs are in the chunks that the client knows of.\<close>

lemma struct_byte_kept:
  assumes a: "accounts X G F V w" and x: "x \<in> set (pending V c)" "x \<le> b" "b < x + 24"
    and m: "\<And>p c n b. (p, c, n) \<in> X \<Longrightarrow> p \<le> b \<Longrightarrow> b < p + n \<Longrightarrow> m b = mem w b"
  shows "m b = mem w b"
proof -
  note a' = accountsD[OF a]
  have "b \<in> struct_bytes V" using x by (auto simp: in_struct_bytes)
  then have "owns_byte V b" by (rule struct_byte_owned[OF a'(4)])
  then obtain q d j where "(q, d, j) \<in> X" "q \<le> b" "b < q + j" by (rule owned_byte_chunk[OF a'(2)])
  then show ?thesis by (rule m)
qed

text \<open>The context of an allocation counts as used.\<close>

lemma represents_touched:
  assumes r: "represents G F V w" and c: "c \<in> contexts V"
  shows "represents G F V (touched w c)"
proof (rule representsI)
  note r' = representsD[OF r]
  have f: "mem (touched w c) = mem w" "calls (touched w c) = calls w" by (simp_all add: touched_def)
  note ht = heap_touched[OF r'(3)]
  show "tree_ok G F V (touched w c)" by (rule tree_touched[OF r'(1) c])
  show d: "data_ok (chunks G (touched w c)) (mem (touched w c)) V" using r'(2) ht(2) f by simp
  show "cbs_ok V (touched w c)"
  proof (rule cbs_ok_step[OF r'(5,4) d subset_refl ht(1)])
    show "calls (touched w c) = called V" using cbs_okD(1)[OF r'(5)] f by simp
    fix e assume "e \<in> contexts V"
    then show "e \<in> contexts V \<and> pending V e = pending V e
        \<and> (\<forall>s. ctxs w e = Some s \<longrightarrow> (\<exists>s'. ctxs (touched w c) e = Some s' \<and> reset_cbs s' = reset_cbs s
               \<and> (isReset s' \<longrightarrow> isReset s)))
      \<or> pending V e = [] \<and> (\<exists>s'. ctxs (touched w c) e = Some s' \<and> reset_cbs s' = 0)"
      by (auto simp: touched_def modify_apply)
  qed (simp add: f)
qed (rule representsD(4)[OF r])

text \<open>The client gives back a pointer.\<close>

lemma forget_pointer:
  assumes a: "accounts X G F V w" and p: "owned V p = Some (c, k)" and n: "no_struct_in V p"
  obtains q j where "(q, c, j) \<in> X" and "held (mem w) (alignment V p) p c k (q, c, j)"
    and "accounts (X - {(q, c, j)}) G F (keep_owned (\<lambda>x d. x \<noteq> p) V) w"
proof -
  note a' = accountsD[OF a]
  let ?V = "keep_owned (\<lambda>x d. x \<noteq> p) V"
  obtain q j where q: "(q, c, j) \<in> X" "held (mem w) (alignment V p) p c k (q, c, j)"
      "data_ok (X - {(q, c, j)}) (mem w) ?V" by (rule data_drop[OF a'(2) p])
  have "tree_ok G F ?V w" using a'(1) tree_ok_fields[of ?V V] by simp
  moreover have "structs_ok ?V" by (rule structs_drop[OF a'(4) n])
  moreover have "cbs_ok ?V w" using a'(5) by (simp add: cbs_ok_def)
  ultimately have "accounts (X - {(q, c, j)}) G F ?V w" using q(3) a'(6) by (auto simp: accounts_def)
  then show ?thesis by (rule that[OF q(1,2)])
qed

text \<open>The library allocates or frees; the chunks that the client knows of are still there.\<close>

lemma accounts_evolves:
  assumes a: "accounts X G F V w" and ev: "evolves G w X G' w'" and X: "X \<subseteq> chunks G' w'"
  shows "accounts X G' F V w'"
proof -
  note a' = accountsD[OF a]
  have ev': "heap_ok G' w'" "same_data X w w'" "same_rest w w'" using ev by (simp_all add: evolves_def)
  have m: "mem w' b = mem w b" if "(p, c, n) \<in> X" "p \<le> b" "b < p + n" for p c n b
    using same_dataD[OF ev'(2) that(1), of "b - p"] that(2,3) by simp
  have d: "data_ok X (mem w') V" by (rule data_mem[OF a'(2) m])
  have "cbs_ok V w'"
  proof (rule cbs_ok_step[OF a'(5,4) d X ev'(1)])
    show "calls w' = called V" using cbs_okD(1)[OF a'(5)] ev'(3) by (simp add: same_rest_def)
    show "mem w' b = mem w b" if "x \<in> set (pending V c)" "x + 16 \<le> b" "b < x + 24" for c x b
      by (rule struct_byte_kept[OF a that(1)]) (use that m in auto)
    fix e assume e: "e \<in> contexts V"
    have "\<exists>s'. ctxs w' e = Some s' \<and> reset_cbs s' = reset_cbs s \<and> (isReset s' \<longrightarrow> isReset s)" if s: "ctxs w e = Some s" for s
    proof -
      obtain s' where "ctxs w' e = Some s'" "client_view s' = client_view s" by (rule same_rest_ctx[OF ev'(3) s])
      then show ?thesis using client_view_fields(1,8)[of s' s] by auto
    qed
    then show "e \<in> contexts V \<and> pending V e = pending V e
        \<and> (\<forall>s. ctxs w e = Some s \<longrightarrow> (\<exists>s'. ctxs w' e = Some s' \<and> reset_cbs s' = reset_cbs s
               \<and> (isReset s' \<longrightarrow> isReset s)))
      \<or> pending V e = [] \<and> (\<exists>s'. ctxs w' e = Some s' \<and> reset_cbs s' = 0)"
      using e by blast
  qed
  then show ?thesis using tree_evolves[OF a'(1) ev] d X a'(4) by (simp add: accounts_def)
qed

text \<open>A new chunk becomes known to the client.\<close>

lemma accounts_new:
  assumes a: "accounts X G F V w" and ch: "chunks G w = insert (q, c, j) X" and q: "(q, c, j) \<notin> X"
    and h: "held (mem w) al p c k (q, c, j)" and f: "\<And>i b. i < k \<Longrightarrow> f i = Some b \<Longrightarrow> mem w (p + i) = b"
  shows "represents G F (got_chunk p al c k f V) w"
proof (rule representsI)
  note a' = accountsD[OF a]
  have X: "chunks_apart (insert (q, c, j) X)" using heap_chunks_apart[OF a'(3)] ch by simp
  show "tree_ok G F (got_chunk p al c k f V) w"
    using a'(1) tree_ok_fields[of "got_chunk p al c k f V" V] by simp
  show "data_ok (chunks G w) (mem w) (got_chunk p al c k f V)"
    unfolding ch by (rule data_new[OF a'(2) X q h f])
  show "structs_ok (got_chunk p al c k f V)" by (rule structs_new[OF a'(4,2) X q h])
  show "cbs_ok (got_chunk p al c k f V) w" using a'(5) by (simp add: cbs_ok_def)
qed

section \<open>Calls on chunks\<close>

text \<open>What an allocation returns is in the view afterwards.\<close>

lemma represents_allocated:
  assumes r: "represents G F V w" and c: "c \<in> contexts V"
    and ev: "evolves G (touched w c) (chunks G (touched w c)) G' w'"
    and ch: "chunks G' w' = insert (q, c, j) (chunks G (touched w c))" "(q, c, j) \<notin> chunks G (touched w c)"
    and h: "held (mem w') al p c (unat sz) (q, c, j)"
    and z: "flags AND MCXT_ALLOC_ZERO \<noteq> 0 \<longrightarrow> (\<forall>i < unat sz. mem w' (p + i) = 0)"
  shows "represents G' F (got_chunk p al c (unat sz) (fresh_bytes flags) V) w'"
proof (rule accounts_new[OF _ ch h])
  have "accounts (chunks G (touched w c)) G F V (touched w c)"
    using represents_touched[OF r c] by (simp add: represents_def)
  then show "accounts (chunks G (touched w c)) G' F V w'"
    by (rule accounts_evolves[OF _ ev]) (use ch in auto)
qed (use z in \<open>auto simp: fresh_bytes_def split: if_splits\<close>)

lemma represents_unchanged:
  assumes r: "represents G F V w" and u: "unchanged G w G' w'"
  shows "represents G' F V w'"
  using accounts_evolves[OF r[unfolded represents_def], of G' w'] u
  by (simp add: unchanged_def represents_def)

lemma served_alloc:
  assumes r: "represents G F V w" and c: "c \<in> contexts V"
    and post: "alloc_post G w c sz flags (flags AND MCXT_ALLOC_ZERO \<noteq> 0) res"
    and x: "\<And>r. after V x r = (if r = 0 then V else got_chunk r None c (unat sz) (fresh_bytes flags) V)"
      "allowed_errors V x = alloc_errors sz flags"
  shows "served V x res"
  using post
proof (cases rule: alloc_post_cases)
  case (null G' w')
  have "represents G' F (after V x 0) w'"
    using represents_unchanged[OF represents_touched[OF r c] null(4)] by (simp add: x)
  then show ?thesis unfolding null(2) by (rule servedI)
next
  case (chunk p G' w')
  obtain n where n: "unat sz \<le> n" "\<forall>d j. (p, d, j) \<notin> chunks G (touched w c)"
      "chunks G' w' = insert (p, c, n) (chunks G (touched w c))"
    and ev: "evolves G (touched w c) (chunks G (touched w c)) G' w'"
    using chunk(4) by (auto simp: allocated_def)
  have "held (mem w') None p c (unat sz) (p, c, n)" using n(1) by (simp add: held_def)
  from represents_allocated[OF r c ev n(3) _ this chunk(5)] n(2)
  have "represents G' F (after V x p) w'" using chunk(3) by (simp add: x)
  then show ?thesis unfolding chunk(2) by (rule servedI)
qed (simp_all add: served_def x alloc_errors_def)

lemma small_alignment:
  assumes "al \<in> {0, 1, 2, 4, 8}"
  shows "MemoryContextAllocAligned c sz al flags w = MemoryContextAllocExtended c sz flags w"
    and "real_alignment al = None"
  using assms by (auto simp: MemoryContextAllocAligned_def MAXIMUM_ALIGNOF_def real_alignment_def)

lemma served_alloc_aligned:
  assumes r: "represents G F V w" and c: "c \<in> contexts V" and al: "alignment_allowed sz al"
    and x: "\<And>r. after V x r = (if r = 0 then V else got_chunk r (real_alignment al) c (unat sz) (fresh_bytes flags) V)"
      "allowed_errors V x = alloc_errors (padded (real_alignment al) sz) flags"
  shows "served V x (MemoryContextAllocAligned c sz al flags w)"
proof (cases "al \<in> {0, 1, 2, 4, 8}")
  case True
  note sm = small_alignment[OF True]
  obtain s where s: "ctxs w c = Some s" by (rule tree_ok_context[OF representsD(1)[OF r] c])
  show ?thesis
    unfolding sm(1)
    by (rule served_alloc[OF r c MemoryContextAlloc_post(4)[OF representsD(3)[OF r] s]])
      (simp_all add: x sm(2) padded_def)
next
  case False
  then have a: "alignment_ok al" and nw: "unat sz + unat al < 2 ^ 64" using al by (auto simp: alignment_allowed_def)
  obtain k :: nat where "16 \<le> unat al" using a by (rule alignment_okD)
  then have ra: "real_alignment al = Some al" by (simp add: real_alignment_def)
  obtain s where s: "ctxs w c = Some s" by (rule tree_ok_context[OF representsD(1)[OF r] c])
  let ?res = "MemoryContextAllocAligned c sz al flags w"
  consider (bad) "\<not> size_accepted (sz + al) flags" "?res = Inl (BadSize (sz + al))"
    | (new) p G' w' where "?res = Inr (p, w')" "p \<noteq> 0" "aligned_alloc G (touched w c) c sz al p G' w'"
        "flags AND MCXT_ALLOC_ZERO \<noteq> 0 \<longrightarrow> (\<forall>i < unat sz. mem w' (p + i) = 0)"
    | (oom) "size_accepted (sz + al) flags" "out_of_memory G (touched w c) (sz + al) flags ?res"
    using MemoryContextAllocAligned_post[OF representsD(3)[OF r] s a nw, of flags]
    by (auto simp: aligned_post_def split: if_splits)
  then show ?thesis
  proof cases
    case bad
    then show ?thesis by (simp add: served_def x ra padded_def alloc_errors_def)
  next
    case oom
    then consider (abort) "flags AND MCXT_ALLOC_NO_OOM = 0" "?res = Inl (OutOfMemory (sz + al))"
      | (null) G' w' where "?res = Inr (0, w')" "unchanged G (touched w c) G' w'"
      by (auto simp: out_of_memory_def split: if_splits)
    then show ?thesis
    proof cases
      case abort
      then show ?thesis using oom(1) by (simp add: served_def x ra padded_def alloc_errors_def)
    next
      case null
      have "represents G' F (after V x 0) w'"
        using represents_unchanged[OF represents_touched[OF r c] null(2)] by (simp add: x)
      then show ?thesis unfolding null(1) by (rule servedI)
    qed
  next
    case new
    obtain q n where q: "allocated G (touched w c) c (sz + al) q G' w'"
        "chunks G' w' = insert (q, c, n) (chunks G (touched w c))"
        "aligned_at G' w' p al (q, c, n)" "unat sz + unat al \<le> n"
      using new(3) by (auto simp: aligned_alloc_def)
    have ev: "evolves G (touched w c) (chunks G (touched w c)) G' w'"
      and fresh: "(q, c, n) \<notin> chunks G (touched w c)" using q(1) by (auto simp: allocated_def)
    have "held (mem w') (Some al) p c (unat sz) (q, c, n)"
      using q(3,4) a by (simp add: held_def aligned_at_def)
    from represents_allocated[OF r c ev q(2) fresh this new(4)]
    have "represents G' F (after V x p) w'" using new(2) by (simp add: x ra)
    then show ?thesis unfolding new(1) by (rule servedI)
  qed
qed

lemma served_free:
  assumes r: "represents G F V w" and p: "owned V p \<noteq> None" and ns: "no_struct_in V p"
  shows "served V (Free p) (perform (Free p) w)"
proof -
  note r' = representsD[OF r]
  obtain c k where k: "owned V p = Some (c, k)" using p by auto
  let ?V = "keep_owned (\<lambda>q c. q \<noteq> p) V"
  obtain q n where q: "(q, c, n) \<in> chunks G w" "held (mem w) (alignment V p) p c k (q, c, n)"
    and a: "accounts (chunks G w - {(q, c, n)}) G F ?V w"
    by (rule forget_pointer[OF r[unfolded represents_def] k ns])
  have "pfree p w = pfree q w"
  proof (cases "alignment V p")
    case (Some al)
    note ha = held_aligned[OF q(2)[unfolded Some] q(1)]
    show ?thesis by (rule aligned_dispatch(1)[OF r'(3) ha(1,3)])
  qed (use q(2) in \<open>simp add: held_def\<close>)
  then obtain G' w' where run: "pfree p w = Inr w'"
    and fr: "evolves G w (chunks G w - {(q, c, n)}) G' w'" "chunks G' w' = chunks G w - {(q, c, n)}"
    using pfree_chunk[OF r'(3) q(1)] by (auto simp: freed_def)
  have "represents G' F ?V w'"
    using accounts_evolves[OF a fr(1)] fr(2) by (simp add: represents_def)
  then have "represents G' F (after V (Free p) 0) w'" by simp
  then show ?thesis by (simp add: void_def run servedI del: after.simps)
qed

text \<open>A chunk took the place of another one; what the client knew of its data is still right.\<close>

lemma represents_resized:
  assumes r: "represents G F V w" and k: "owned V p = Some (c, k)" and ns: "no_struct_in V p"
    and host: "(q, c, n) \<in> chunks G w" "held (mem w) (alignment V p) p c k (q, c, n)"
    and ev: "evolves G w (chunks G w - {(q, c, n)}) G' w'"
    and ch: "chunks G' w' = insert (q', c, n') (chunks G w - {(q, c, n)})" "(q', c, n') \<notin> chunks G w - {(q, c, n)}"
    and h: "held (mem w') (alignment V p) p' c (unat sz) (q', c, n')"
    and m: "\<And>i. i < unat sz \<Longrightarrow> i < k \<Longrightarrow> mem w' (p' + i) = mem w (p + i)"
  shows "represents G' F (got_chunk p' (alignment V p) c (unat sz) (\<lambda>i. if i < k then stored V (p + i) else None)
    (keep_owned (\<lambda>x d. x \<noteq> p) V)) w'"
proof -
  note r' = representsD[OF r]
  let ?V = "keep_owned (\<lambda>x d. x \<noteq> p) V"
  obtain q1 n1 where q1: "(q1, c, n1) \<in> chunks G w" "held (mem w) (alignment V p) p c k (q1, c, n1)"
    and a: "accounts (chunks G w - {(q1, c, n1)}) G F ?V w"
    by (rule forget_pointer[OF r[unfolded represents_def] k ns])
  have "q1 \<le> p \<and> p + k \<le> q1 + n1" "q \<le> p \<and> p + k \<le> q + n"
    using held_bounds[OF q1(2)] held_bounds[OF host(2)] by auto
  then have "(q1, c, n1) = (q, c, n)" using chunks_apartD[OF r'(6) q1(1) host(1)] by auto
  then have a': "accounts (chunks G w - {(q, c, n)}) G' F ?V w'"
    using accounts_evolves[OF a] ev ch(1) by auto
  show ?thesis
  proof (rule accounts_new[OF a' ch h])
    fix i b assume i: "i < unat sz" "(if i < k then stored V (p + i) else None) = Some b"
    then have "i < k" "mem w (p + i) = b" using stored_byte[OF r'(2)] by (auto split: if_splits)
    then show "mem w' (p' + i) = b" using m[OF i(1)] by simp
  qed
qed

lemma served_realloc_regular:
  assumes r: "represents G F V w" and k: "owned V p = Some (c, k)" and ns: "no_struct_in V p"
    and al: "alignment V p = None"
  shows "served V (Realloc p sz flags) (perform (Realloc p sz flags) w)"
proof -
  note r' = representsD[OF r]
  obtain q n where "(q, c, n) \<in> chunks G w" "held (mem w) (alignment V p) p c k (q, c, n)"
    by (rule owned_chunk[OF r'(2) k])
  then have n: "(p, c, n) \<in> chunks G w" "held (mem w) (alignment V p) p c k (p, c, n)" "k \<le> n"
    by (simp_all add: held_def al)
  let ?x = "Realloc p sz flags" and ?X = "chunks G w - {(p, c, n)}"
  have res: "if size_accepted sz flags then realloc_spec G w (p, c, n) sz flags (perform ?x w)
    else perform ?x w = Inl (BadSize sz)"
    using repalloc_chunk[OF r'(3) n(1)] by (simp add: repalloc_extended_def)
  then consider (bad) "\<not> size_accepted sz flags" "perform ?x w = Inl (BadSize sz)"
    | (moved) q G' w' where "perform ?x w = Inr (q, w')" "resized G w (p, c, n) sz q G' w'"
    | (abort) "size_accepted sz flags" "flags AND MCXT_ALLOC_NO_OOM = 0" "perform ?x w = Inl (OutOfMemory sz)"
    | (null) G' w' where "perform ?x w = Inr (0, w')" "unchanged G w G' w'"
    by (auto simp: realloc_spec_def out_of_memory_def split: if_splits)
  then show ?thesis
  proof cases
    case null
    have "represents G' F (after V ?x 0) w'" using represents_unchanged[OF r null(2)] by (simp add: k)
    then show ?thesis unfolding null(1) by (rule servedI)
  next
    case moved
    obtain n' where ev: "evolves G w ?X G' w'" and q: "q \<noteq> 0" "(q, c, n') \<notin> ?X"
      and n': "unat sz \<le> n'" "chunks G' w' = insert (q, c, n') ?X"
        "\<And>i. i < min n n' \<Longrightarrow> mem w' (q + i) = mem w (p + i)"
      using moved(2) unfolding resized_def by auto
    have "held (mem w') (alignment V p) q c (unat sz) (q, c, n')" using n'(1) by (simp add: held_def al)
    from represents_resized[OF r k ns n(1,2) ev n'(2) q(2) this] n'(1,3) n(3)
    have "represents G' F (after V ?x q) w'" using q(1) by (simp add: k)
    then show ?thesis unfolding moved(1) by (rule servedI)
  qed (simp_all add: served_def al padded_def alloc_errors_def)
qed

lemma served_realloc_aligned:
  assumes r: "represents G F V w" and k: "owned V p = Some (c, k)" and ns: "no_struct_in V p"
    and al: "alignment V p = Some a" and nw: "unat sz + unat a < 2 ^ 64"
  shows "served V (Realloc p sz flags) (perform (Realloc p sz flags) w)"
proof -
  note r' = representsD[OF r]
  let ?w = "touched w c" and ?x = "Realloc p sz flags"
  obtain q n where q: "(q, c, n) \<in> chunks G w" "held (mem w) (alignment V p) p c k (q, c, n)"
    by (rule owned_chunk[OF r'(2) k])
  note ha = held_aligned[OF q(2)[unfolded al] q(1)]
  obtain s where "ctxs w c = Some s" using q(1) by (auto simp: chunks_iff)
  have run: "perform ?x w = AlignedAllocRealloc p sz flags w"
    using mcxt_realloc_aligned[OF r'(3) ha(1,3)] by (simp add: repalloc_extended_def)
  have post: "aligned_realloc_post G w p (q, c, n) sz a flags (perform ?x w)"
    unfolding run by (rule AlignedAllocRealloc_post[OF r'(3) ha(1,2) nw])
  have cV: "c \<in> contexts V"
    using chunk_context_live[OF tree_okD(1)[OF r'(1)] q(1)] tree_okD(3)[OF r'(1)] by simp
  have rt: "represents G F V ?w" by (rule represents_touched[OF r cV])
  have t: "chunks G ?w = chunks G w" "mem ?w = mem w"
    using heap_touched(2)[OF r'(3)] by (simp_all add: touched_def)
  from post consider (bad) "\<not> size_accepted (sz + a) flags" "perform ?x w = Inl (BadSize (sz + a))"
    | (moved) p' G' w' where "perform ?x w = Inr (p', w')" "aligned_resized G ?w p (q, c, n) sz a p' G' w'"
    | (abort) "size_accepted (sz + a) flags" "flags AND MCXT_ALLOC_NO_OOM = 0" "perform ?x w = Inl (OutOfMemory (sz + a))"
    | (null) G' w' where "perform ?x w = Inr (0, w')" "unchanged G ?w G' w'"
    by (auto simp: aligned_realloc_post_def out_of_memory_def split: if_splits)
  then show ?thesis
  proof cases
    case null
    have "represents G' F (after V ?x 0) w'" using represents_unchanged[OF rt null(2)] by (simp add: k)
    then show ?thesis unfolding null(1) by (rule servedI)
  next
    case moved
    let ?X = "chunks G ?w - {(q, c, n)}"
    obtain q' n' where ev: "evolves G ?w ?X G' w'" and p': "p' \<noteq> 0"
      and n': "chunks G' w' = insert (q', c, n') ?X" "aligned_at G' w' p' a (q', c, n')" "unat sz + unat a \<le> n'"
      and m: "\<And>i. i < min (unat sz) (n - unat a) \<Longrightarrow> mem w' (p' + i) = mem ?w (p + i)"
      and fresh: "(q', c, n') \<notin> ?X"
      using moved(2) unfolding aligned_resized_def by auto
    have h: "held (mem w') (alignment V p) p' c (unat sz) (q', c, n')"
      using n'(2,3) ha(2) by (simp add: held_def al aligned_at_def)
    have "(q, c, n) \<in> chunks G ?w" "held (mem ?w) (alignment V p) p c k (q, c, n)" using q t by simp_all
    from represents_resized[OF rt k ns this ev n'(1) fresh h m] ha(4)
    have "represents G' F (after V ?x p') w'" using p' by (simp add: k)
    then show ?thesis unfolding moved(1) by (rule servedI)
  qed (simp_all add: served_def al padded_def alloc_errors_def)
qed

section \<open>Calls that write to memory of the client\<close>

lemma owned_byte_client:
  assumes "data_ok (chunks G w) m V" and "owns_byte V a"
  shows "client_owned G w a"
  by (rule owned_byte_chunk[OF assms]) (auto simp: client_owned_def)

text \<open>Writes to bytes of the client, and changes of what it knows of them.\<close>

lemma represents_written:
  assumes r: "represents G F V w" and m: "\<And>a. m' a \<noteq> mem w a \<Longrightarrow> owns_byte V a"
    and V': "owned V' = owned V" "alignment V' = alignment V"
    and st: "\<And>a b. stored V' a = Some b \<Longrightarrow> owns_byte V a \<and> m' a = b"
  shows "data_ok (chunks G w) m' V'" and "heap_ok G (w\<lparr>mem := m'\<rparr>)"
    and "chunks G (w\<lparr>mem := m'\<rparr>) = chunks G w"
proof -
  note r' = representsD[OF r]
  show "data_ok (chunks G w) m' V'" by (rule data_write[OF r'(2,6) m V' st])
  have "client_owned G w a" if "m' a \<noteq> mem w a" for a by (rule owned_byte_client[OF r'(2) m[OF that]])
  from client_writes[OF r'(3) this]
  show "heap_ok G (w\<lparr>mem := m'\<rparr>)" and "chunks G (w\<lparr>mem := m'\<rparr>) = chunks G w" by blast+
qed

lemma served_store:
  assumes r: "represents G F V w" and a: "owns_byte V a" and ns: "a \<notin> struct_bytes V"
  shows "served V (Store a b) (perform (Store a b) w)"
proof -
  note r' = representsD[OF r] and t = tree_okD[OF representsD(1)[OF r]]
  let ?w = "w\<lparr>mem := (mem w)(a := b)\<rparr>" and ?V = "after V (Store a b) 0"
  obtain q c n where q: "(q, c, n) \<in> chunks G w" "q \<le> a" "a < q + n" by (rule owned_byte_chunk[OF r'(2) a])
  have "in_region w a 1" by (rule in_region_sub[OF chunk_facts(5)[OF r'(3) q(1)]]) (use q in simp_all)
  then have run: "perform (Store a b) w = Inr (0, ?w)" by (simp add: void_def store8E_def)
  have m: "owns_byte V x" if "((mem w)(a := b)) x \<noteq> mem w x" for x using that a by (auto split: if_splits)
  have st: "owns_byte V x \<and> ((mem w)(a := b)) x = y" if "stored ?V x = Some y" for x y
    using that stored_byte[OF r'(2), of x y] a by (auto split: if_splits)
  have V: "owned ?V = owned V" "alignment ?V = alignment V" by simp_all
  note wr = represents_written[where m' = "(mem w)(a := b)", OF r m V st]
  have ch: "chunks G ?w = chunks G w" by (rule wr(3))
  have "represents G F ?V ?w"
  proof (rule representsI)
    have lv: "live F ?w = live F w" by (simp add: live_def)
    have "lib_ok G (children V) F ?w" using wr(2) t(1) by (simp add: lib_ok_def freelists_ok_def)
    then have "tree_ok G F V ?w" by (rule tree_okI) (use t(2-6) lv in \<open>simp_all\<close>)
    then show "tree_ok G F ?V ?w" using tree_ok_fields[of ?V V] by simp
    show d: "data_ok (chunks G ?w) (mem ?w) ?V" using wr(1) unfolding ch by simp
    show so: "structs_ok ?V" by (rule structs_same[OF r'(4)]) (use ns in auto)
    show "cbs_ok ?V ?w"
    proof (rule cbs_ok_step[OF r'(5) so d subset_refl wr(2)])
      show "calls ?w = called ?V" using cbs_okD(1)[OF r'(5)] by simp
      show "mem ?w x = mem w x" if "y \<in> set (pending ?V c)" "y + 16 \<le> x" "x < y + 24" for c y x
        using that ns by (force simp: in_struct_bytes)
    qed auto
  qed
  then show ?thesis unfolding run by (rule servedI)
qed

text \<open>Callbacks are registered and unregistered.\<close>

lemma represents_registered:
  assumes r: "represents G F V w" and c: "c \<in> contexts V" and reg: "registered G w c xs w'"
    and V': "owned V' = owned V" "alignment V' = alignment V" "pending V' = (pending V)(c := xs)" "called V' = called V"
      "contexts V' = contexts V" "children V' = children V" "current V' = current V" "topctx V' = topctx V"
    and st: "stored V' = (\<lambda>a. if \<exists>x \<in> set xs. x + 16 \<le> a \<and> a < x + 24 then None else stored V a)"
    and so: "structs_ok V'" and ne: "pending V c \<noteq> [] \<or> (\<exists>s'. ctxs w' c = Some s' \<and> \<not> isReset s')"
  shows "represents G F V' w'"
proof -
  note r' = representsD[OF r] and t = tree_okD[OF representsD(1)[OF r]]
  obtain s s' where s: "ctxs w c = Some s" "w' = w\<lparr>mem := mem w', ctxs := (ctxs w)(c \<mapsto> s')\<rparr>"
      "s' = s\<lparr>reset_cbs := reset_cbs s', isReset := isReset s'\<rparr>" "isReset s' \<longrightarrow> isReset s"
      "cb_list w' (reset_cbs s') xs"
    and ok: "heap_ok G w'" and ch: "chunks G w' = chunks G w"
    and m: "\<And>a. mem w' a \<noteq> mem w a \<Longrightarrow> \<exists>x \<in> set xs. x + 16 \<le> a \<and> a < x + 24"
    using reg unfolding registered_def by blast
  have f: "ctxs w' = (ctxs w)(c \<mapsto> s')" "calls w' = calls w" "context_freelists w' = context_freelists w"
    "CurrentMemoryContext w' = CurrentMemoryContext w" "TopMemoryContext w' = TopMemoryContext w"
    by (subst s(2), simp)+
  have own: "owns_byte V a" if a: "x \<in> set xs" "x + 16 \<le> a" "a < x + 24" for x a
  proof -
    have "a \<in> struct_bytes V'" using a V'(3) by (fastforce simp: in_struct_bytes)
    then have "owns_byte V' a" by (rule struct_byte_owned[OF so])
    then show ?thesis by (simp add: owns_byte_def V'(1))
  qed
  have d: "data_ok (chunks G w') (mem w') V'"
    unfolding ch
  proof (rule represents_written(1)[OF r _ V'(1,2)])
    show "owns_byte V a" if "mem w' a \<noteq> mem w a" for a using m[OF that] own by blast
    show "owns_byte V a \<and> mem w' a = b" if "stored V' a = Some b" for a b
      using that m[of a] stored_byte[OF r'(2), of a b] by (auto simp: st split: if_splits)
  qed
  have cF: "c \<notin> set (F i)" for i using c t(3) by (auto simp: live_def)
  have "links_of s' = links_of s" by (subst s(3)) (simp add: links_of_def)
  from lib_ok_ctx[OF t(1) s(1) cF ok f(1) this f(3)] have lib: "lib_ok G (children V) F w'" .
  have lv: "live F w' = live F w" using s(1) by (auto simp: live_def f(1))
  have "tree_ok G F V' w'"
    by (rule tree_okI) (use lib t(2-6) lv f in \<open>simp_all add: V'\<close>)
  moreover have "cbs_ok V' w'"
    unfolding cbs_ok_def
  proof (intro conjI ballI)
    show "calls w' = called V'" using cbs_okD(1)[OF r'(5)] f(2) V'(4) by simp
    fix e assume e: "e \<in> contexts V'"
    show "\<exists>s. ctxs w' e = Some s \<and> cb_list w' (reset_cbs s) (pending V' e) \<and> (isReset s \<longrightarrow> pending V' e = [])"
    proof (cases "e = c")
      case True
      have "\<not> isReset s'" using ne cbs_okD(3)[OF r'(5) c s(1)] s(4) by (auto simp: f(1))
      then show ?thesis using True f(1) s(5) V'(3) by simp
    next
      case False
      then have pe: "pending V' e = pending V e" by (simp add: V'(3))
      have eV: "e \<in> contexts V" using e V'(5) by simp
      obtain u where u: "ctxs w e = Some u" by (rule tree_ok_context[OF r'(1) eV])
      have "cb_list w' (reset_cbs u) (pending V e)"
      proof (rule cb_list_moved[OF cbs_okD(2)[OF r'(5) eV u]])
        fix x assume x: "x \<in> set (pending V e)"
        show "in_region w' x 24" by (rule struct_in_region[OF so d subset_refl ok, of x e]) (use x pe in simp)
        show "load64 (mem w') (cb_next x) = load64 (mem w) (cb_next x)"
        proof (rule load64_cong, rule ccontr)
          fix a assume a: "cb_next x \<le> a" "a < cb_next x + 8" "mem w' a \<noteq> mem w a"
          obtain y where y: "y \<in> set xs" "y + 16 \<le> a" "a < y + 24" using m[OF a(3)] by blast
          have "cb_apart x y"
            by (rule structs_okD(5)[OF so, of x e y c]) (use x y(1) V'(3) False in auto)
          then show False using y a(1,2) by (auto simp: cb_apart_def cb_next_def)
        qed
      qed
      then show ?thesis using u cbs_okD(3)[OF r'(5) eV u] False pe by (simp add: f(1))
    qed
  qed
  ultimately show ?thesis using d so by (intro representsI)
qed

lemma served_register:
  assumes r: "represents G F V w" and c: "c \<in> contexts V" and x: "struct_ready V x"
    and new: "{x ..< x + 24} \<inter> struct_bytes V = {}"
  shows "served V (Register c x) (perform (Register c x) w)"
proof -
  note r' = representsD[OF r]
  let ?V = "after V (Register c x) 0"
  obtain s where s: "ctxs w c = Some s" by (rule tree_ok_context[OF r'(1) c])
  obtain p d n where p: "owned V p = Some (d, n)" "p \<le> x" "x + 24 \<le> p + n" using x by (auto simp: struct_ready_def)
  obtain q j where q: "(q, d, j) \<in> chunks G w" "q \<le> p" "p + n \<le> q + j"
    using owned_chunk[OF r'(2) p(1)] held_bounds by metis
  have reg: "in_region w x 24" by (rule in_region_sub[OF chunk_facts(5)[OF r'(3) q(1)]]) (use q p in auto)
  have x0: "x \<noteq> 0" using chunk_facts(2)[OF r'(3) q(1)] q(2) p(2) by auto
  have own: "client_owned G w a" if "x \<le> a" "a < x + 24" for a
    unfolding client_owned_def using q p that
    by (intro disjI2 exI[of _ q] exI[of _ d] exI[of _ j]) simp
  obtain w' where w': "MemoryContextRegisterResetCallback c x w = Inr w'" "registered G w c (x # pending V c) w'"
      "\<exists>s'. ctxs w' c = Some s' \<and> \<not> isReset s'"
    using Register_post[OF r'(3) s cbs_okD(2)[OF r'(5) c s] x0 reg struct_apart[OF new, of _ c] own] by blast
  have "stored ?V a = (if \<exists>y \<in> set (x # pending V c). y + 16 \<le> a \<and> a < y + 24 then None else stored V a)" for a
    using structs_okD(3)[OF r'(4), of _ c a] by auto
  then have st: "stored ?V = (\<lambda>a. if \<exists>y \<in> set (x # pending V c). y + 16 \<le> a \<and> a < y + 24 then None else stored V a)"
    by (rule ext)
  have so: "structs_ok ?V" using structs_registered[OF r'(4) c x new] by simp
  have "represents G F ?V w'"
    by (rule represents_registered[OF r c w'(2) _ _ _ _ _ _ _ _ st so]) (use w'(3) in simp_all)
  then show ?thesis unfolding perform.simps void_def w'(1) seqE_simps by (rule servedI)
qed

lemma served_unregister:
  assumes r: "represents G F V w" and c: "c \<in> contexts V" and x: "x \<in> set (pending V c)"
  shows "served V (Unregister c x) (perform (Unregister c x) w)"
proof -
  note r' = representsD[OF r]
  let ?V = "after V (Unregister c x) 0"
  obtain s where s: "ctxs w c = Some s" by (rule tree_ok_context[OF r'(1) c])
  have apart: "cb_apart y z" if "y \<in> set (pending V c)" "z \<in> set (pending V c)" "y \<noteq> z" for y z
    by (rule structs_okD(5)[OF r'(4) that(1,2)]) (use that(3) in simp)
  have own: "client_owned G w a" if "a \<in> cb_bytes (pending V c)" for a
    by (rule owned_byte_client[OF r'(2)], rule struct_byte_owned[OF r'(4)]) (use that in \<open>auto simp: struct_bytes_def\<close>)
  obtain w' where w': "MemoryContextUnregisterResetCallback c x w = Inr w'"
      "registered G w c (remove1 x (pending V c)) w'"
    using Unregister_post[OF r'(3) s cbs_okD(2)[OF r'(5) c s] apart structs_okD(4)[OF r'(4)] own, of x] x by auto
  have sub: "set (remove1 x (pending V c)) \<subseteq> set (pending V c)" by (rule set_remove1_subset)
  have "stored ?V a = (if \<exists>y \<in> set (remove1 x (pending V c)). y + 16 \<le> a \<and> a < y + 24 then None else stored V a)" for a
    using structs_okD(3)[OF r'(4), of _ c a] sub by auto
  then have st: "stored ?V = (\<lambda>a. if \<exists>y \<in> set (remove1 x (pending V c)). y + 16 \<le> a \<and> a < y + 24 then None else stored V a)"
    by (rule ext)
  have so: "structs_ok ?V" using structs_unregistered[OF r'(4)] by simp
  have "pending V c \<noteq> []" using x by auto
  then have "represents G F ?V w'"
    by (intro represents_registered[OF r c w'(2) _ _ _ _ _ _ _ _ st so]) simp_all
  then show ?thesis unfolding perform.simps void_def w'(1) seqE_simps by (rule servedI)
qed

section \<open>Calls on contexts\<close>

lemma strip_links_callbacks:
  assumes "map_option strip_links (C' d) = map_option strip_links (C d)" and "C d = Some s"
  shows "\<exists>s'. C' d = Some s' \<and> reset_cbs s' = reset_cbs s \<and> isReset s' = isReset s"
proof -
  obtain s' where "C' d = Some s'" "strip_links s' = strip_links s" using assms by (cases "C' d") auto
  then show ?thesis using strip_links_fields(1,4)[of s' s] by simp
qed

text \<open>Calls that leave the chunks alone.\<close>

lemma represents_chunks:
  assumes r: "represents G F V w" and t: "tree_ok G' F' V' w'"
    and same: "chunks G' w' = chunks G w" "mem w' = mem w" "calls w' = calls w"
    and V': "owned V' = owned V" "alignment V' = alignment V" "stored V' = stored V" "pending V' = pending V"
      "called V' = called V" "contexts V \<subseteq> contexts V'"
    and keep: "\<And>e s. e \<in> contexts V \<Longrightarrow> ctxs w e = Some s
      \<Longrightarrow> \<exists>s'. ctxs w' e = Some s' \<and> reset_cbs s' = reset_cbs s \<and> isReset s' = isReset s"
    and new: "\<And>e. e \<in> contexts V' \<Longrightarrow> e \<notin> contexts V \<Longrightarrow> \<exists>s'. ctxs w' e = Some s' \<and> reset_cbs s' = 0"
  shows "represents G' F' V' w'"
proof (rule representsI[OF t])
  note r' = representsD[OF r]
  have ok: "heap_ok G' w'" by (rule lib_okD(1)[OF tree_okD(1)[OF t]])
  show d: "data_ok (chunks G' w') (mem w') V'" using r'(2) same V' data_ok_fields[of V' V] by simp
  show so: "structs_ok V'" by (rule structs_same[OF r'(4)]) (simp_all add: V')
  show "cbs_ok V' w'"
  proof (rule cbs_ok_step[OF r'(5) so d subset_refl ok])
    show "calls w' = called V'" using cbs_okD(1)[OF r'(5)] same(3) V'(5) by simp
    fix e assume e: "e \<in> contexts V'"
    show "e \<in> contexts V \<and> pending V' e = pending V e
        \<and> (\<forall>s. ctxs w e = Some s \<longrightarrow> (\<exists>s'. ctxs w' e = Some s' \<and> reset_cbs s' = reset_cbs s
               \<and> (isReset s' \<longrightarrow> isReset s)))
      \<or> pending V' e = [] \<and> (\<exists>s'. ctxs w' e = Some s' \<and> reset_cbs s' = 0)"
      using keep[of e] new[OF e] pending_context[OF r'(4), of e] V'(4) by (cases "e \<in> contexts V") fastforce+
  qed (simp add: same(2))
qed

lemma served_switch:
  assumes r: "represents G F V w" and c: "c \<in> contexts V"
  shows "served V (Switch c) (perform (Switch c) w)"
proof -
  note t = tree_okD[OF representsD(1)[OF r]]
  let ?w = "w\<lparr>CurrentMemoryContext := c\<rparr>"
  have f: "regions ?w = regions w" "mem ?w = mem w" "ctxs ?w = ctxs w" "blks ?w = blks w"
    "context_freelists ?w = context_freelists w" by simp_all
  note lg = lib_ok_globals[OF f]
  have "tree_ok G F (V\<lparr>current := c\<rparr>) ?w"
    by (rule tree_okI) (use t(1-3) t(6) lg(1,2) c in simp_all)
  then have "represents G F (after V (Switch c) (CurrentMemoryContext w)) ?w"
    by (intro represents_chunks[OF r]) (use lg(3) in simp_all)
  then show ?thesis by (simp add: MemoryContextSwitchTo_def servedI del: after.simps)
qed

lemma served_create:
  assumes r: "represents G F V w" and p: "par = 0 \<or> par \<in> contexts V" and args: "create_args_ok mn ini mx"
  shows "served V (Create par nm mn ini mx) (perform (Create par nm mn ini mx) w)"
proof -
  note t = tree_okD[OF representsD(1)[OF r]]
  let ?x = "Create par nm mn ini mx" and ?T = "children V"
  have par: "par = 0 \<or> par \<in> live F w" using p t(3) by simp
  from Create_internal_run[OF t(1) par, of mn ini mx nm] args
  consider (oom) "perform ?x w = Inl (OutOfMemory (if mn \<noteq> 0 then mn else ini))"
    | (made) c G' F' w' where "perform ?x w = Inr (c, w')"
        "context_created G ?T F w par nm ini mx c G' F' w'" by auto
  then show ?thesis
  proof cases
    case oom
    then show ?thesis by (simp add: served_def)
  next
    case made
    let ?T' = "if par = 0 then ?T else ?T(par := c # ?T par)"
    note cc = made(2)[unfolded context_created_def]
    have lib: "lib_ok G' ?T' F' w'" and lv: "live F' w' = insert c (live F w)" and cl: "c \<notin> live F w"
      and ch: "chunks G' w' = chunks G w" "mem w' = mem w"
      and keep: "\<forall>d \<in> live F w. map_option strip_links (ctxs w' d) = map_option strip_links (ctxs w d)"
      and gl: "same_globals w w'" using cc by blast+
    obtain s where s: "ctxs w' c = Some s" "reset_cbs s = 0" "firstchild s = 0" using cc by blast
    have "?T' c = []" by (rule iffD1[OF no_children[OF lib_okD(2)[OF lib] s(1)]]) (rule s(3))
    moreover have pc: "par \<noteq> 0 \<Longrightarrow> c \<noteq> par" using par cl by auto
    ultimately have "?T c = []" by (auto split: if_splits)
    then have wf: "wf (child_rel ?T')" using wf_new_child[OF t(2)] pc t(2) by simp
    have tr: "tree_ok G' F' (after V ?x c) w'"
      by (rule tree_okI) (use lib wf lv t(3-6) gl in \<open>simp_all add: same_globals_def\<close>)
    have "represents G' F' (after V ?x c) w'"
    proof (rule represents_chunks[OF r tr ch])
      show "\<exists>s'. ctxs w' e = Some s' \<and> reset_cbs s' = reset_cbs u \<and> isReset s' = isReset u"
        if "e \<in> contexts V" "ctxs w e = Some u" for e u
        by (rule strip_links_callbacks[where C = "ctxs w", OF _ that(2)]) (use keep that(1) t(3) in blast)
    qed (use gl s in \<open>auto simp: same_globals_def\<close>)
    then show ?thesis unfolding made(1) by (rule servedI)
  qed
qed

lemma rehang_eq:
  assumes lk: "links_ok T C" and x: "C x = Some k"
  shows "rehang x np T = (if np = parent k then T else moved_child x (parent k) np T)"
proof -
  have par: "x \<in> set (T p) \<longleftrightarrow> p \<noteq> 0 \<and> parent k = p" for p
    using links_okD(6)[OF lk] x by auto
  have rem: "(\<lambda>p. remove1 x (T p)) = T(parent k := remove1 x (T (parent k)))"
    using par by (auto simp: fun_eq_iff remove1_idem)
  have "T(parent k := remove1 x (T (parent k))) = T" if "parent k = 0"
    using par that by (auto simp: fun_eq_iff remove1_idem)
  then show ?thesis using par by (auto simp: rehang_def moved_child_def rem Let_def)
qed

lemma served_set_parent:
  assumes r: "represents G F V w" and x: "x \<in> contexts V"
    and np: "np = 0 \<or> np \<in> contexts V \<and> np \<notin> subcontexts V x"
  shows "served V (SetParent x np) (perform (SetParent x np) w)"
proof -
  note r' = representsD[OF r] and t = tree_okD[OF representsD(1)[OF r]]
  let ?T = "children V"
  obtain k where k: "ctxs w x = Some k" "x \<in> live F w" by (rule tree_ok_context[OF r'(1) x])
  have x0: "x \<noteq> 0" by (rule links_ok_nonzero[OF lib_okD(2)[OF t(1)] k(1)])
  have "x \<in> subcontexts V x" by (simp add: subcontexts_def below_self)
  then have ne: "np \<noteq> x" using np x0 by auto
  have npl: "np = 0 \<or> np \<in> live F w" using np t(3) by auto
  let ?T' = "if np = parent k then ?T else moved_child x (parent k) np ?T"
  obtain C' where C': "MemoryContextSetParent x np w = Inr (w\<lparr>ctxs := C'\<rparr>)" "only_links (ctxs w) C'"
    "lib_ok G ?T' F (w\<lparr>ctxs := C'\<rparr>)"
    using SetParent_lib[OF t(1) k ne npl] by blast
  let ?w = "w\<lparr>ctxs := C'\<rparr>"
  have eq: "rehang x np ?T = ?T'" by (rule rehang_eq[OF lib_okD(2)[OF t(1)] k(1)])
  have "np = 0 \<or> (np, x) \<notin> (child_rel ?T)\<^sup>*" using np by (auto simp: subcontexts_def below_iff)
  then have wf: "wf (child_rel ?T')" using wf_moved_child[OF t(2)] t(2) by simp
  note sh = only_links_same_heap[OF C'(2)]
  have lv: "live F ?w = live F w" by (rule same_heap_live[OF sh])
  have tr: "tree_ok G F (after V (SetParent x np) 0) ?w"
    by (rule tree_okI) (use C'(3) wf lv t(3-6) in \<open>simp_all add: eq\<close>)
  have "represents G F (after V (SetParent x np) 0) ?w"
  proof (rule represents_chunks[OF r tr])
    show "chunks G ?w = chunks G w" by (rule same_heap_ok(2)[OF sh r'(3)])
    show "\<exists>s'. ctxs ?w e = Some s' \<and> reset_cbs s' = reset_cbs u \<and> isReset s' = isReset u"
      if "e \<in> contexts V" "ctxs w e = Some u" for e u
      by (rule strip_links_callbacks[where C = "ctxs w", OF _ that(2)]) (use C'(2) in \<open>simp add: only_links_def\<close>)
  qed simp_all
  then show ?thesis by (simp add: void_def C'(1) servedI del: after.simps)
qed

section \<open>Deleting and resetting\<close>

text \<open>The tree of contexts below \<open>c\<close>.\<close>

lemma context_tree:
  assumes t: "tree_ok G F V w" and c: "c \<in> contexts V"
  obtains ts where "shape (children V) (CNode c ts)" and "subtree V c = CNode c ts"
    and "set (preorder (CNode c ts)) = subcontexts V c"
    and "set (concat (map preorder ts)) = subcontexts V c - {c}" and "subcontexts V c \<subseteq> live F w"
proof -
  note t' = tree_okD[OF t]
  obtain tr where tr: "root tr = c" "shape (children V) tr" using tree_exists[OF t'(2)] by blast
  then obtain ts where ts: "tr = CNode c ts" by (cases tr) auto
  have "subtree V c = tr"
    unfolding subtree_def by (rule the_equality) (use tr shape_unique in blast)+
  then have st: "subtree V c = CNode c ts" using ts by simp
  have sub: "set (preorder tr) = subcontexts V c"
    using in_preorder_iff[OF tr(2)] by (auto simp: subcontexts_def below_iff tr(1))
  have "distinct (preorder tr)" by (rule distinct_preorder[OF lib_okD(2)[OF t'(1)] tr(2)])
  then have rest: "set (concat (map preorder ts)) = subcontexts V c - {c}" using sub ts by auto
  have "set (preorder tr) \<subseteq> live F w" by (rule tree_live[OF t'(1) tr(2)]) (use c t'(3) tr(1) in simp)
  then have live: "subcontexts V c \<subseteq> live F w" unfolding sub .
  show ?thesis by (rule that[OF tr(2)[unfolded ts] st sub[unfolded ts] rest live])
qed

lemma no_callbacks_quiet: "quiet {} no_callbacks"
  by (simp add: quiet_def no_callbacks_def) (metis world.surjective world.update_convs(2))

text \<open>The callback structs are there as long as they are needed.\<close>

lemma structs_outlive_contexts:
  assumes r: "represents G F V w" and o: "structs_outlive V D" and a: "a \<in> cb_bytes (pending V x)"
  shows "outlives G w (D - {x}) a"
proof -
  note r' = representsD[OF r]
  obtain y where y: "y \<in> set (pending V x)" "y \<le> a" "a < y + 24" using a by (auto simp: cb_bytes_def)
  obtain p d n where p: "owned V p = Some (d, n)" "p \<le> y" "y + 24 \<le> p + n" by (rule struct_chunk[OF r'(4) y(1)])
  obtain q j where q: "(q, d, j) \<in> chunks G w" "held (mem w) (alignment V p) p d n (q, d, j)" by (rule owned_chunk[OF r'(2) p(1)])
  have "d \<in> D \<Longrightarrow> d = x" using o y(1) p unfolding structs_outlive_def by force
  then show ?thesis
    unfolding outlives_def using q(1) held_bounds[OF q(2)] y p
    by (intro disjI2 exI[of _ q] exI[of _ d] exI[of _ j]) auto
qed

lemma can_delete_contexts:
  assumes r: "represents G F V w" and D: "D \<subseteq> live F w" and nt: "{topctx V, current V} \<inter> D = {}"
    and o: "structs_outlive V D"
  shows "can_delete G (children V) F w {} no_callbacks (pending V) D"
proof -
  note r' = representsD[OF r] and t = tree_okD[OF representsD(1)[OF r]]
  have "x \<noteq> TopMemoryContext w \<and> x \<noteq> CurrentMemoryContext w
      \<and> (\<exists>s. ctxs w x = Some s \<and> cb_list w (reset_cbs s) (pending V x))
      \<and> (\<forall>a \<in> cb_bytes (pending V x). outlives G w (D - {x}) a)" if x: "x \<in> D" for x
  proof -
    have c: "x \<in> contexts V" using x D t(3) by auto
    obtain s where "ctxs w x = Some s" by (rule tree_ok_context[OF r'(1) c])
    then show ?thesis
      using cbs_okD(2)[OF r'(5) c] structs_outlive_contexts[OF r o, of _ x] x nt t(4,6) by auto
  qed
  then show ?thesis
    unfolding can_delete_def deletable_def using t(1) D no_callbacks_quiet by simp
qed

text \<open>
  What is left after the contexts \<open>xs\<close>, that are those in \<open>D\<close>, were emptied, and the ones in \<open>E\<close> of them
  deleted.
\<close>

lemma tree_without:
  assumes t: "tree_ok G F V w" and nt: "current V \<notin> E"
    and lib: "lib_ok G' (\<lambda>p. filter (\<lambda>x. x \<notin> E) (children V p)) F' w'" and lv: "live F' w' = live F w - E"
    and gl: "CurrentMemoryContext w' = CurrentMemoryContext w" "TopMemoryContext w' = TopMemoryContext w"
  shows "tree_ok G' F' (without_contexts E (keep_owned P (ran_callbacks xs V))) w'"
proof (rule tree_okI)
  note t' = tree_okD[OF t]
  let ?V = "without_contexts E (keep_owned P (ran_callbacks xs V))"
  have T: "children ?V = (\<lambda>p. filter (\<lambda>x. x \<notin> E) (children V p))" by (simp add: without_contexts_def)
  show "wf (child_rel (children ?V))" using wf_filtered[OF t'(2)] by (simp add: T)
  show "lib_ok G' (children ?V) F' w'" using lib by (simp add: T)
qed (use tree_okD(3-6)[OF t] lv gl nt in simp_all)

lemma represents_emptied:
  assumes r: "represents G F V w" and xs: "set xs = D" "E \<subseteq> D" and o: "structs_outlive V D"
    and t: "tree_ok G' F' (without_contexts E (keep_owned (\<lambda>p d. d \<notin> D) (ran_callbacks xs V))) w'"
    and ch: "chunks G' w' = {(p, d, n) \<in> chunks G w. d \<notin> D}" and m: "mem w' = mem w"
    and log: "calls w' = calls w @ concat (map (\<lambda>x. map (cb_entry (mem w)) (pending V x)) xs)"
    and keep: "\<And>e s. e \<in> contexts V - D \<Longrightarrow> ctxs w e = Some s
      \<Longrightarrow> \<exists>s'. ctxs w' e = Some s' \<and> reset_cbs s' = reset_cbs s \<and> isReset s' = isReset s"
    and emp: "\<And>e. e \<in> D - E \<Longrightarrow> \<exists>s'. ctxs w' e = Some s' \<and> reset_cbs s' = 0"
  shows "represents G' F' (without_contexts E (keep_owned (\<lambda>p d. d \<notin> D) (ran_callbacks xs V))) w'"
proof (rule representsI[OF t])
  note r' = representsD[OF r]
  let ?K = "keep_owned (\<lambda>p d. d \<notin> D) (ran_callbacks xs V)"
  let ?V = "without_contexts E ?K"
  have ok: "heap_ok G' w'" by (rule lib_okD(1)[OF tree_okD(1)[OF t]])
  have pe: "pending ?V e = (if e \<in> D then [] else pending V e)" for e
    by (simp add: ran_callbacks_def xs(1))
  show d: "data_ok (chunks G' w') (mem w') ?V"
    unfolding data_without data_ran ch m by (rule data_keep[OF r'(2)])
  have "structs_ok ?K"
  proof (rule structs_keep[OF r'(4)])
    show "d \<notin> D" if x: "x \<in> set (pending (ran_callbacks xs V) c)" "owned V p = Some (d, n)" "p \<le> x" "x + 24 \<le> p + n"
      for c x p d n
    proof
      assume "d \<in> D"
      moreover have "c \<notin> D" "x \<in> set (pending V c)" using x(1) pe[of c] by (auto split: if_splits)
      ultimately show False using o x(2-4) unfolding structs_outlive_def by force
    qed
  qed (use pe in auto)
  then show so: "structs_ok ?V" by (rule structs_without) (use pe xs(2) in auto)
  show "cbs_ok ?V w'"
  proof (rule cbs_ok_step[OF r'(5) so d subset_refl ok])
    have "(\<lambda>x. map (cb_entry (mem w)) (pending V x)) = (\<lambda>x. map (entry V) (pending V x))"
      using entry_mem[OF r'(4,2)] by (auto simp: fun_eq_iff)
    then show "calls w' = called ?V" using log cbs_okD(1)[OF r'(5)] by (simp only: ran_callbacks_def) simp
    fix e assume e: "e \<in> contexts ?V"
    show "e \<in> contexts V \<and> pending ?V e = pending V e
        \<and> (\<forall>s. ctxs w e = Some s \<longrightarrow> (\<exists>s'. ctxs w' e = Some s' \<and> reset_cbs s' = reset_cbs s
               \<and> (isReset s' \<longrightarrow> isReset s)))
      \<or> pending ?V e = [] \<and> (\<exists>s'. ctxs w' e = Some s' \<and> reset_cbs s' = 0)"
      using keep[of e] emp[of e] e unfolding pe by (cases "e \<in> D") fastforce+
  qed (simp add: m)
qed

lemma without_none: "without_contexts {} V = V"
  by (simp add: without_contexts_def)

lemma represents_deleted:
  assumes r: "represents G F V w" and nt: "current V \<notin> D" and o: "structs_outlive V D"
    and d: "deleted G (children V) F w {} (pending V) xs G' T' F' w'" and xs: "set xs = D"
  shows "represents G' F' (without_contexts D (keep_owned (\<lambda>p d. d \<notin> D) (ran_callbacks xs V))) w'"
proof -
  note r' = representsD[OF r] and t = tree_okD[OF representsD(1)[OF r]]
  note d' = d[unfolded deleted_def xs]
  have m: "mem w' = mem w" using d' by (auto simp: fun_eq_iff)
  have tr: "tree_ok G' F' (without_contexts D (keep_owned (\<lambda>p d. d \<notin> D) (ran_callbacks xs V))) w'"
    by (rule tree_without[OF r'(1) nt]) (use d' in blast)+
  show ?thesis
  proof (rule represents_emptied[OF r xs subset_refl o tr _ m])
    show "\<exists>s'. ctxs w' e = Some s' \<and> reset_cbs s' = reset_cbs s \<and> isReset s' = isReset s"
      if "e \<in> contexts V - D" "ctxs w e = Some s" for e s
      by (rule strip_links_callbacks[where C = "ctxs w", OF _ that(2)]) (use d' that(1) t(3) in blast)
  qed (use d' in blast)+
qed

lemma served_delete:
  assumes r: "represents G F V w" and c: "c \<in> contexts V" and nt: "{topctx V, current V} \<inter> subcontexts V c = {}"
    and o: "structs_outlive V (subcontexts V c)"
  shows "served V (Delete c) (perform (Delete c) w)"
proof -
  note r' = representsD[OF r]
  obtain ts where ts: "shape (children V) (CNode c ts)" "subtree V c = CNode c ts"
    "set (preorder (CNode c ts)) = subcontexts V c" "subcontexts V c \<subseteq> live F w"
    by (rule context_tree[OF r'(1) c])
  have "can_delete G (children V) F w {} no_callbacks (pending V) (set (preorder (CNode c ts)))"
    unfolding ts(3) by (rule can_delete_contexts[OF r ts(4) nt o])
  from MemoryContextDelete_run[OF this ts(1)] obtain G' T' F' w' where
    run: "MemoryContextDelete no_callbacks c w = Inr w'"
    and d: "deleted G (children V) F w {} (pending V) (postorder (CNode c ts)) G' T' F' w'" by auto
  have "represents G' F' (after V (Delete c) 0) w'"
    unfolding after.simps ts(2) by (rule represents_deleted[OF r _ o d]) (use ts(3) nt in auto)
  then show ?thesis by (simp add: void_def run servedI del: after.simps)
qed

lemma served_delete_children:
  assumes r: "represents G F V w" and c: "c \<in> contexts V"
    and nt: "{topctx V, current V} \<inter> (subcontexts V c - {c}) = {}"
    and o: "structs_outlive V (subcontexts V c - {c})"
  shows "served V (DeleteChildren c) (perform (DeleteChildren c) w)"
proof -
  note r' = representsD[OF r]
  let ?D = "subcontexts V c - {c}"
  obtain s where s: "ctxs w c = Some s" "c \<in> live F w" by (rule tree_ok_context[OF r'(1) c])
  obtain ts where ts: "shape (children V) (CNode c ts)" "subtree V c = CNode c ts"
      "set (concat (map preorder ts)) = ?D" "?D \<subseteq> live F w"
    by (rule context_tree[OF r'(1) c]) blast
  have "can_delete G (children V) F w {} no_callbacks (pending V) (set (concat (map preorder ts)))"
    unfolding ts(3) by (rule can_delete_contexts[OF r ts(4) nt o])
  from DeleteChildren_run[OF this ts(1) s] obtain G' T' F' w' where
    run: "MemoryContextDeleteChildren no_callbacks c w = Inr w'"
    and d: "deleted G (children V) F w {} (pending V) (concat (map postorder ts)) G' T' F' w'" by auto
  have po: "butlast (postorder (CNode c ts)) = concat (map postorder ts)" by simp
  have "represents G' F' (after V (DeleteChildren c) 0) w'"
    unfolding after.simps ts(2) po by (rule represents_deleted[OF r _ o d]) (use ts(3) nt in auto)
  then show ?thesis by (simp add: void_def run servedI del: after.simps)
qed

lemma served_reset:
  assumes r: "represents G F V w" and c: "c \<in> contexts V"
    and nt: "{topctx V, current V} \<inter> (subcontexts V c - {c}) = {}" and o: "structs_outlive V (subcontexts V c)"
  shows "served V (Reset c) (perform (Reset c) w)"
proof -
  note r' = representsD[OF r] and t = tree_okD[OF representsD(1)[OF r]]
  let ?D = "subcontexts V c" and ?E = "subcontexts V c - {c}"
  have self: "c \<in> ?D" by (simp add: subcontexts_def below_self)
  obtain s where s: "ctxs w c = Some s" "c \<in> live F w" by (rule tree_ok_context[OF r'(1) c])
  obtain ts where ts: "shape (children V) (CNode c ts)" "subtree V c = CNode c ts"
      "set (concat (map preorder ts)) = ?E" "?E \<subseteq> live F w"
    by (rule context_tree[OF r'(1) c]) blast
  have oE: "structs_outlive V ?E" using o unfolding structs_outlive_def by blast
  have can: "can_delete G (children V) F w {} no_callbacks (pending V) (set (concat (map preorder ts)))"
    unfolding ts(3) by (rule can_delete_contexts[OF r ts(4) nt oE])
  have ol: "outlives G w (set (concat (map preorder ts))) a" if "a \<in> cb_bytes (pending V c)" for a
    unfolding ts(3) by (rule structs_outlive_contexts[OF r o that])
  obtain G' T' F' w' where run: "MemoryContextReset no_callbacks c w = Inr w'"
    and d: "reset_all G (children V) F w {} (pending V) (concat (map postorder ts)) c (pending V c) G' T' F' w'"
    using MemoryContextReset_run[OF can ts(1) s cbs_okD(2)[OF r'(5) c s(1)] Int_empty_left cbs_okD(3)[OF r'(5) c s(1)] ol]
    by blast
  have xs: "set (concat (map postorder ts)) = ?E" using ts(3) by simp
  note d' = d[unfolded reset_all_def xs]
  let ?xs = "postorder (CNode c ts)"
  have xs': "set ?xs = ?D" using xs self by auto
  have m: "mem w' = mem w" using d' by (auto simp: fun_eq_iff)
  have tr: "tree_ok G' F' (without_contexts ?E (keep_owned (\<lambda>p d. d \<notin> ?D) (ran_callbacks ?xs V))) w'"
    by (rule tree_without[OF r'(1)]) (use d' nt in blast)+
  have "represents G' F' (after V (Reset c) 0) w'"
    unfolding after.simps ts(2)
  proof (rule represents_emptied[OF r xs' Diff_subset o tr _ m])
    have "chunks G' w' = {(p, d, n) \<in> chunks G w. d \<noteq> c \<and> d \<notin> ?E}" using d' by blast
    then show "chunks G' w' = {(p, d, n) \<in> chunks G w. d \<notin> ?D}" using self by auto
    have "calls w' = calls w @ concat (map (\<lambda>x. map (cb_entry (mem w)) (pending V x)) (concat (map postorder ts)))
        @ map (cb_entry (mem w)) (pending V c)" using d' by blast
    then show "calls w' = calls w @ concat (map (\<lambda>x. map (cb_entry (mem w)) (pending V x)) ?xs)" by simp
    show "\<exists>s'. ctxs w' e = Some s' \<and> reset_cbs s' = reset_cbs s \<and> isReset s' = isReset s"
      if "e \<in> contexts V - ?D" "ctxs w e = Some s" for e s
    proof (rule strip_links_callbacks[where C = "ctxs w", OF _ that(2)])
      have "e \<in> live F w - ?E - {c}" using that(1) t(3) self by auto
      then show "map_option strip_links (ctxs w' e) = map_option strip_links (ctxs w e)" using d' by blast
    qed
    show "\<exists>s'. ctxs w' e = Some s' \<and> reset_cbs s' = 0" if "e \<in> ?D - ?E" for e
    proof -
      have "e = c" using that by auto
      then show ?thesis using d' by blast
    qed
  qed
  then show ?thesis by (simp add: void_def run servedI del: after.simps)
qed

lemma resettable_contexts:
  assumes r: "represents G F V w" and D: "D \<subseteq> live F w" and o: "structs_outlive V D"
  shows "resettable G w {} no_callbacks (pending V) D"
proof -
  note r' = representsD[OF r]
  have "(\<exists>s. ctxs w x = Some s \<and> cb_list w (reset_cbs s) (pending V x) \<and> (isReset s \<longrightarrow> pending V x = []))
      \<and> (\<forall>a \<in> cb_bytes (pending V x). outlives G w (D - {x}) a)" if x: "x \<in> D" for x
  proof -
    have c: "x \<in> contexts V" using x D tree_okD(3)[OF r'(1)] by auto
    obtain s where "ctxs w x = Some s" by (rule tree_ok_context[OF r'(1) c])
    then show ?thesis
      using cbs_okD(2,3)[OF r'(5) c] structs_outlive_contexts[OF r o, of _ x] by auto
  qed
  then show ?thesis unfolding resettable_def using no_callbacks_quiet by simp
qed

lemma represents_all_reset:
  assumes r: "represents G F V w" and o: "structs_outlive V (set xs)"
    and a: "all_reset G (children V) F w {} (pending V) xs G' w'"
  shows "represents G' F (keep_owned (\<lambda>p d. d \<notin> set xs) (ran_callbacks xs V)) w'"
proof -
  note r' = representsD[OF r] and a' = a[unfolded all_reset_def]
  have m: "mem w' = mem w" using a' by (auto simp: fun_eq_iff)
  have lib: "lib_ok G' (\<lambda>p. filter (\<lambda>x. x \<notin> {}) (children V p)) F w'" using a' by simp
  have lv: "live F w' = live F w - {}" using a' by simp
  have tr: "tree_ok G' F (without_contexts {} (keep_owned (\<lambda>p d. d \<notin> set xs) (ran_callbacks xs V))) w'"
    by (rule tree_without[OF r'(1) _ lib lv]) (use a' in blast)+
  have "represents G' F (without_contexts {} (keep_owned (\<lambda>p d. d \<notin> set xs) (ran_callbacks xs V))) w'"
  proof (rule represents_emptied[OF r refl empty_subsetI o tr _ m])
    show "\<exists>s'. ctxs w' e = Some s' \<and> reset_cbs s' = reset_cbs s \<and> isReset s' = isReset s"
      if "e \<in> contexts V - set xs" "ctxs w e = Some s" for e s
      using a' that by simp
    show "\<exists>s'. ctxs w' e = Some s' \<and> reset_cbs s' = 0" if "e \<in> set xs - {}" for e
      using a' that by blast
  qed (use a' in blast)+
  then show ?thesis by (simp add: without_none)
qed

lemma served_reset_only:
  assumes r: "represents G F V w" and c: "c \<in> contexts V" and o: "structs_outlive V {c}"
  shows "served V (ResetOnly c) (perform (ResetOnly c) w)"
proof -
  note r' = representsD[OF r] and t = tree_okD[OF representsD(1)[OF r]]
  obtain s where s: "ctxs w c = Some s" "c \<in> live F w" by (rule tree_ok_context[OF r'(1) c])
  have al: "callbacks_allowed G w {} (pending V c) no_callbacks"
    using no_callbacks_quiet by (simp add: callbacks_allowed_def)
  obtain G' w' where run: "MemoryContextResetOnly no_callbacks c w = Inr w'"
    "all_reset G (children V) F w {} (pending V) [c] G' w'"
    using ResetOnly_lib[where cbs = "pending V", OF t(1) s cbs_okD(2,3)[OF r'(5) c s(1)] al] by blast
  have "represents G' F (after V (ResetOnly c) 0) w'" using represents_all_reset[OF r _ run(2)] o by simp
  then show ?thesis by (simp add: void_def run(1) servedI del: after.simps)
qed

lemma served_reset_children:
  assumes r: "represents G F V w" and c: "c \<in> contexts V" and o: "structs_outlive V (subcontexts V c - {c})"
  shows "served V (ResetChildren c) (perform (ResetChildren c) w)"
proof -
  note r' = representsD[OF r] and t = tree_okD[OF representsD(1)[OF r]]
  let ?D = "subcontexts V c - {c}"
  obtain s where s: "ctxs w c = Some s" "c \<in> live F w" by (rule tree_ok_context[OF r'(1) c])
  obtain ts where ts: "shape (children V) (CNode c ts)" "subtree V c = CNode c ts"
      "set (concat (map preorder ts)) = ?D" "?D \<subseteq> live F w"
    by (rule context_tree[OF r'(1) c]) blast
  have "resettable G w {} no_callbacks (pending V) (set (concat (map preorder ts)))"
    unfolding ts(3) by (rule resettable_contexts[OF r ts(4) o])
  from ResetChildren_run[OF t(1) ts(1) s this] obtain G' w' where
    run: "MemoryContextResetChildren no_callbacks c w = Inr w'"
    and a: "all_reset G (children V) F w {} (pending V) (concat (map preorder ts)) G' w'" by blast
  have po: "tl (preorder (CNode c ts)) = concat (map preorder ts)" by simp
  have "represents G' F (after V (ResetChildren c) 0) w'"
    unfolding after.simps ts(2) po
    using represents_all_reset[OF r _ a] o unfolding ts(3) by blast
  then show ?thesis by (simp add: void_def run servedI del: after.simps)
qed

section \<open>Every call\<close>

lemma served_call:
  assumes r: "represents G F V w" and x: "permitted V x"
  shows "served V x (perform x w)"
proof (cases x)
  case (Palloc sz flags)
  note t = tree_okD[OF representsD(1)[OF r]]
  have c: "current V \<in> contexts V" using t(3,5) by simp
  obtain s where s: "ctxs w (CurrentMemoryContext w) = Some s"
    using tree_ok_context[OF representsD(1)[OF r] c] t(4) by metis
  show ?thesis
    unfolding Palloc
    by (rule served_alloc[OF r c]) (use palloc_post(3)[OF representsD(3)[OF r] s] t(4) in simp_all)
next
  case (Alloc c sz flags)
  then have c: "c \<in> contexts V" using x by simp
  obtain s where s: "ctxs w c = Some s" by (rule tree_ok_context[OF representsD(1)[OF r] c])
  show ?thesis
    unfolding Alloc
    by (rule served_alloc[OF r c]) (use MemoryContextAlloc_post(4)[OF representsD(3)[OF r] s] in simp_all)
next
  case (PallocAligned sz al flags)
  note t = tree_okD[OF representsD(1)[OF r]]
  have c: "current V \<in> contexts V" using t(3,5) by simp
  have "served V x (MemoryContextAllocAligned (current V) sz al flags w)"
    by (rule served_alloc_aligned[OF r c]) (use x in \<open>simp_all add: PallocAligned\<close>)
  then show ?thesis by (simp add: PallocAligned palloc_aligned_def t(4))
next
  case (AllocAligned c sz al flags)
  then have "served V x (MemoryContextAllocAligned c sz al flags w)"
    using x by (intro served_alloc_aligned[OF r]) simp_all
  then show ?thesis by (simp add: AllocAligned)
next
  case (Realloc p sz flags)
  obtain c k where k: "owned V p = Some (c, k)" using x Realloc by auto
  have ns: "no_struct_in V p" using x Realloc by simp
  show ?thesis
  proof (cases "alignment V p")
    case None
    show ?thesis unfolding Realloc by (rule served_realloc_regular[OF r k ns None])
  next
    case (Some a)
    show ?thesis unfolding Realloc by (rule served_realloc_aligned[OF r k ns Some]) (use x Realloc Some in simp)
  qed
qed (use x served_free[OF r] served_store[OF r] served_switch[OF r] served_create[OF r]
      served_set_parent[OF r] served_register[OF r] served_unregister[OF r]
      served_reset[OF r] served_reset_only[OF r] served_reset_children[OF r] served_delete_children[OF r] served_delete[OF r]
     in \<open>simp_all del: perform.simps\<close>)

section \<open>Runs from the start of the process\<close>

lemma represents_init:
  assumes "MemoryContextInit (initial_world m as) = Inr w"
  shows "\<exists>G F. represents G F (view_after_init w) w"
proof -
  obtain G T F where i: "initialised G T F w" using Init_run[of m as] assms by auto
  then obtain e where i': "lib_ok G T F w" "live F w = {TopMemoryContext w, e}" "e \<noteq> TopMemoryContext w"
    "T = (\<lambda>_. [])(TopMemoryContext w := [e])" "CurrentMemoryContext w = TopMemoryContext w"
    "ErrorContext w = e" "chunks G w = {}" "\<forall>d \<in> live F w. \<exists>u. ctxs w d = Some u \<and> reset_cbs u = 0"
    "calls w = []"
    unfolding initialised_def by blast
  let ?V = "view_after_init w"
  have T: "children ?V = T" by (simp add: view_after_init_def i'(4,6))
  have "child_rel T \<subseteq> {(e, TopMemoryContext w)}" by (auto simp: child_rel_def i'(4) split: if_splits)
  moreover have "wf {(e, TopMemoryContext w)}" using i'(3) by (simp add: wf_insert)
  ultimately have "wf (child_rel T)" by (rule wf_subset[rotated])
  then have wf: "wf (child_rel (children ?V))" unfolding T .
  have lib: "lib_ok G (children ?V) F w" unfolding T by (rule i'(1))
  have "tree_ok G F ?V w"
    by (rule tree_okI[OF lib wf]) (use i'(2,5,6) in \<open>simp_all add: view_after_init_def\<close>)
  moreover have "data_ok (chunks G w) (mem w) ?V"
    by (rule data_okI[of "\<lambda>_. undefined"]) (simp_all add: i'(7) view_after_init_def bij_betw_def)
  moreover have "structs_ok ?V" by (simp add: structs_ok_def view_after_init_def)
  moreover have "cbs_ok ?V w" using i'(2,6,8,9) by (auto simp: cbs_ok_def view_after_init_def)
  ultimately have "represents G F ?V w" by (rule representsI)
  then show ?thesis by blast
qed

lemma represents_step:
  assumes "step (V, w) x (V', w')" and "represents G F V w"
  shows "\<exists>G' F'. represents G' F' V' w'"
proof -
  obtain r where "V' = after V x r" "permitted V x" "perform x w = Inr (r, w')"
    using assms(1) by (rule stepE) blast
  then show ?thesis using served_call[OF assms(2), of x] by (auto simp: served_def)
qed

lemma reachable_represents:
  assumes "reachable s"
  shows "\<exists>G F. represents G F (fst s) (snd s)"
  using assms
proof (induction rule: reachable.induct)
  case (reachable_init m as w)
  then show ?case using represents_init by simp
next
  case (reachable_step s x s')
  then show ?case using represents_step[of "fst s" "snd s" x "fst s'" "snd s'"] by auto
qed

section \<open>Clients that make many calls\<close>

text \<open>A client chooses the next call from its view, which records all results so far, or stops.\<close>

fun play :: "('v \<Rightarrow> 'x \<Rightarrow> 'r \<Rightarrow> 'v) \<Rightarrow> ('x \<Rightarrow> 'w \<Rightarrow> error + 'r \<times> 'w) \<Rightarrow> ('v \<Rightarrow> 'x option) \<Rightarrow> nat
    \<Rightarrow> 'v \<times> 'w \<Rightarrow> error + 'v \<times> 'w" where
  "play aft run client 0 s = Inr s"
| "play aft run client (Suc n) (V, w) =
     (case client V of
        None \<Rightarrow> Inr (V, w)
      | Some x \<Rightarrow> seqE (run x w) (\<lambda>(r, w). play aft run client n (aft V x r, w)))"

locale service =
  fixes rel :: "'v \<Rightarrow> 'w \<Rightarrow> bool"
    and may :: "'v \<Rightarrow> 'x \<Rightarrow> bool"
    and aft :: "'v \<Rightarrow> 'x \<Rightarrow> 'r \<Rightarrow> 'v"
    and run :: "'x \<Rightarrow> 'w \<Rightarrow> error + 'r \<times> 'w"
    and errs :: "'v \<Rightarrow> 'x \<Rightarrow> error set"
  assumes serves: "rel V w \<Longrightarrow> may V x \<Longrightarrow>
    (\<exists>r w'. run x w = Inr (r, w') \<and> rel (aft V x r) w') \<or> (\<exists>e \<in> errs V x. run x w = Inl e)"
begin

lemma play_safe:
  assumes "rel V w" and "\<And>V x. client V = Some x \<Longrightarrow> may V x"
  shows "(\<exists>V' w'. play aft run client n (V, w) = Inr (V', w') \<and> rel V' w')
    \<or> (\<exists>U x e. client U = Some x \<and> e \<in> errs U x \<and> play aft run client n (V, w) = Inl e)"
  using assms(1)
proof (induction n arbitrary: V w)
  case (Suc n)
  show ?case
  proof (cases "client V")
    case None
    then show ?thesis using Suc.prems by simp
  next
    case (Some x)
    from serves[OF Suc.prems assms(2)[OF Some]] show ?thesis
    proof (elim disjE exE bexE conjE)
      fix r w' assume "run x w = Inr (r, w')" "rel (aft V x r) w'"
      then show ?thesis using Suc.IH[of "aft V x r" w'] Some by simp
    next
      fix e assume "e \<in> errs V x" "run x w = Inl e"
      then show ?thesis using Some by auto
    qed
  qed
qed simp

lemma play_completes:
  assumes "rel V w" and "\<And>V x. client V = Some x \<Longrightarrow> may V x \<and> errs V x = {}"
  shows "\<exists>V' w'. play aft run client n (V, w) = Inr (V', w') \<and> rel V' w'"
  using play_safe[OF assms(1), of client n] assms(2) by blast

end

lemma reachable_call:
  assumes s: "reachable (V, w)" and x: "permitted V x"
  shows "(\<exists>r w'. perform x w = Inr (r, w') \<and> reachable (after V x r, w'))
    \<or> (\<exists>e \<in> allowed_errors V x. perform x w = Inl e)"
proof -
  obtain G F where "represents G F V w" using reachable_represents[OF s] by auto
  from served_call[OF this x] show ?thesis
    unfolding served_def using reachable_step[OF s step.step[OF x]] by blast
qed

interpretation library: service "\<lambda>V w. reachable (V, w)" permitted after perform allowed_errors
  by unfold_locales (rule reachable_call)

section \<open>What a client sees\<close>

lemma represents_reads:
  assumes r: "represents G F V w" and a: "stored V a = Some b"
  shows "load8E w a = Inr b"
proof -
  note r' = representsD[OF r]
  have own: "owns_byte V a" and b: "mem w a = b" using stored_byte[OF r'(2) a] by simp_all
  obtain q c j where q: "(q, c, j) \<in> chunks G w" "q \<le> a" "a < q + j" by (rule owned_byte_chunk[OF r'(2) own])
  have "in_region w a 1" by (rule in_region_sub[OF chunk_facts(5)[OF r'(3) q(1)]]) (use q in simp_all)
  then show ?thesis using b by (simp add: load8E_def)
qed

lemma represents_owned:
  assumes r: "represents G F V w" and p: "owned V p = Some (c, n)"
  shows "8 dvd p \<and> (\<forall>a. alignment V p = Some a \<longrightarrow> unat a dvd p) \<and> in_region w p n
    \<and> GetMemoryChunkContext w p = Inr c"
proof -
  note r' = representsD[OF r]
  obtain q j where q: "(q, c, j) \<in> chunks G w" "held (mem w) (alignment V p) p c n (q, c, j)" by (rule owned_chunk[OF r'(2) p])
  have reg: "in_region w p n"
    by (rule in_region_sub[OF chunk_facts(5)[OF r'(3) q(1)]]) (use held_bounds[OF q(2)] in auto)
  show ?thesis
  proof (cases "alignment V p")
    case None
    then have "(p, c, j) \<in> chunks G w" using q by (simp add: held_def)
    then show ?thesis using chunk_facts(1)[OF r'(3)] GetMemoryChunk_chunk[OF r'(3)] reg None by simp
  next
    case (Some a)
    note ha = held_aligned[OF q(2)[unfolded Some] q(1)]
    have "unat a dvd p" using q(2) Some by (simp add: held_def)
    then show ?thesis using ha(3) aligned_dispatch(2)[OF r'(3) ha(1,3)] reg Some by simp
  qed
qed

lemma represents_apart:
  assumes r: "represents G F V w" and p: "owned V p = Some (c, n)" and q: "owned V q = Some (d, k)"
    and ne: "p \<noteq> q"
  shows "p + n + 8 \<le> q \<or> q + k + 8 \<le> p"
  by (rule owned_apart[OF representsD(2,6)[OF r] p q ne])

text \<open>The callbacks that ran are those that the view says, and the others are still linked.\<close>

lemma represents_callbacks:
  assumes r: "represents G F V w"
  shows "calls w = called V
    \<and> (\<forall>c \<in> contexts V. \<exists>s. ctxs w c = Some s \<and> cb_list w (reset_cbs s) (pending V c)
         \<and> map (cb_entry (mem w)) (pending V c) = map (entry V) (pending V c))"
proof -
  note r' = representsD[OF r]
  have "map (cb_entry (mem w)) (pending V c) = map (entry V) (pending V c)" for c
    using entry_mem[OF r'(4,2)] by simp
  then show ?thesis using r'(5) unfolding cbs_ok_def by blast
qed

end
