(* ===== verification/StringProofs.thy ===== *)
theory StringProofs
  imports PallocProofs
begin

text \<open>
  The string functions of \<open>src/mcxt.c\<close>: the loops of \<open>strlen\<close>, \<open>strnlen\<close> and \<open>pchomp\<close> end with the
  length they are to find, and the copies are strings in new chunks.
\<close>

unbundle bit_operations_syntax

section \<open>Strings in memory\<close>

text \<open>The bytes \<open>bs\<close>, none of them 0, at \<open>s\<close>, and a 0 behind them.\<close>

definition cstring :: "world \<Rightarrow> addr \<Rightarrow> byte list \<Rightarrow> bool" where
  "cstring w s bs \<longleftrightarrow>
     0 \<notin> set bs \<and> (\<forall>i < length bs. mem w (s + i) = bs ! i) \<and> mem w (s + length bs) = 0"

text \<open>The \<open>n\<close> bytes at \<open>s\<close> lie in one chunk.\<close>

definition within_chunk :: "(addr \<times> addr \<times> nat) set \<Rightarrow> addr \<Rightarrow> nat \<Rightarrow> bool" where
  "within_chunk X s n \<longleftrightarrow> (\<exists>q d j. (q, d, j) \<in> X \<and> q \<le> s \<and> s + n \<le> q + j)"

lemma within_chunk_region:
  assumes "heap_ok G w" and "within_chunk (chunks G w) s n"
  shows "in_region w s n" and "s + n < 2 ^ 64"
proof -
  obtain q d j where q: "(q, d, j) \<in> chunks G w" "q \<le> s" "s + n \<le> q + j"
    using assms(2) by (auto simp: within_chunk_def)
  show "in_region w s n" by (rule in_region_sub[OF chunk_facts(5)[OF assms(1) q(1)]]) (use q in auto)
  show "s + n < 2 ^ 64" using chunk_facts(3)[OF assms(1) q(1)] q(3) by simp
qed

lemma cstring_nonzero: "cstring w s bs \<Longrightarrow> i < length bs \<Longrightarrow> mem w (s + i) \<noteq> 0"
  by (metis cstring_def nth_mem)

section \<open>The loops\<close>

lemma unat_Size_less: "unat (x :: Size) < 2 ^ 64"
  using unsigned_less[of x, where 'a = nat] by simp

lemma unat_Suc: "Suc k < 2 ^ 64 \<Longrightarrow> unat (of_nat k + 1 :: Size) = Suc k"
  by (metis Suc_eq_plus1 of_nat_1 of_nat_add unat_of_nat_small)

lemma of_nat_unat_word: "of_nat (unat n) = (n :: Size)"
  by simp

lemma strlen_ok:
  assumes str: "cstring w s bs" and reg: "in_region w s (length bs + 1)" and len: "length bs < 2 ^ 64"
  shows "strlen w s = Inr (of_nat (length bs))"
proof -
  let ?b = "\<lambda>(n :: Size, c :: byte). c \<noteq> 0"
  let ?c = "\<lambda>(n :: Size, c :: byte). seqE (load8E w (s + unat (n + 1))) (\<lambda>c. Inr (n + 1, c))"
  have rd: "load8E w (s + i) = Inr (mem w (s + i))" if "i \<le> length bs" for i
    using in_region_sub[OF reg, of "s + i" 1] that by (simp add: load8E_def)
  have "\<exists>t. loopE ?b ?c (0, mem w s) = Inr t
      \<and> (case t of (n, c) \<Rightarrow> unat n \<le> length bs \<and> c = mem w (s + unat n)) \<and> \<not> ?b t"
  proof (rule loopE_total[where m = "\<lambda>(n, c). length bs - unat n"])
    fix t assume t: "case t of (n, c) \<Rightarrow> unat n \<le> length bs \<and> c = mem w (s + unat n)" "?b t"
    obtain n c where nc: "t = (n, c)" by (cases t)
    have "unat n \<noteq> length bs" using t str by (auto simp: nc cstring_def)
    then have lt: "unat n < length bs" using t by (simp add: nc)
    then have n1: "unat (n + 1) = Suc (unat n)" using unat_Suc[of "unat n"] len by simp
    show "\<exists>t'. ?c t = Inr t' \<and> (case t' of (n, c) \<Rightarrow> unat n \<le> length bs \<and> c = mem w (s + unat n))
        \<and> (case t' of (n, c) \<Rightarrow> length bs - unat n) < (case t of (n, c) \<Rightarrow> length bs - unat n)"
      using lt rd[of "Suc (unat n)"] by (simp add: nc n1)
  qed simp
  then obtain n where n: "loopE ?b ?c (0, mem w s) = Inr (n, 0)" "unat n \<le> length bs" "mem w (s + unat n) = 0"
    by auto
  have "unat n = length bs" using n(2,3) cstring_nonzero[OF str, of "unat n"] by fastforce
  then have "n = of_nat (length bs)" using of_nat_unat_word[of n] by simp
  then show ?thesis using n(1) rd[of 0] by (simp add: strlen_def)
qed

text \<open>\<open>strnlen\<close> stops at the first 0 or at the bound.\<close>

lemma strnlen_ok:
  assumes k: "k \<le> unat len" "\<And>i. i < k \<Longrightarrow> mem w (s + i) \<noteq> 0" "k = unat len \<or> mem w (s + k) = 0"
    and reg: "in_region w s (min (unat len) (k + 1))"
  shows "strnlen w s len = Inr (of_nat k)"
proof -
  let ?b = "\<lambda>(n :: Size, stop). n < len \<and> \<not> stop"
  let ?c = "\<lambda>(n :: Size, stop :: bool). seqE (load8E w (s + unat n)) (\<lambda>c. Inr (if c = 0 then (n, True) else (n + 1, False)))"
  let ?P = "\<lambda>(n :: Size, stop). unat n \<le> k \<and> (stop \<longrightarrow> unat n = k)"
  have "\<exists>t. loopE ?b ?c (0, False) = Inr t \<and> ?P t \<and> \<not> ?b t"
  proof (rule loopE_total[where m = "\<lambda>(n, stop). 2 * (unat len - unat n) + (if stop then 0 else 1)"])
    fix t assume t: "?P t" "?b t"
    obtain n where n: "t = (n, False)" "unat n \<le> k" "unat n < unat len"
      using t by (cases t) (auto simp: word_less_nat_alt)
    have rd: "load8E w (s + unat n) = Inr (mem w (s + unat n))"
      using in_region_sub[OF reg, of "s + unat n" 1] n by (simp add: load8E_def)
    show "\<exists>t'. ?c t = Inr t' \<and> ?P t' \<and> (case t' of (n, stop) \<Rightarrow> 2 * (unat len - unat n) + (if stop then 0 else 1))
        < (case t of (n, stop) \<Rightarrow> 2 * (unat len - unat n) + (if stop then 0 else 1))"
    proof (cases "mem w (s + unat n) = 0")
      case True
      then have "unat n = k" using k(2)[of "unat n"] n(2) by fastforce
      then show ?thesis using True rd by (simp add: n(1))
    next
      case False
      then have "unat n < k" using k(1,3) n by (cases "unat n = k") auto
      moreover have "unat (n + 1) = Suc (unat n)"
        using unat_Suc[of "unat n"] n(3) unat_Size_less[of len] by simp
      ultimately show ?thesis using False rd n(3) by (simp add: n(1))
    qed
  qed simp
  then obtain n stop where n: "loopE ?b ?c (0, False) = Inr (n, stop)" "unat n \<le> k" "stop \<longrightarrow> unat n = k"
    "\<not> (n < len \<and> \<not> stop)" by auto
  have "unat n = k" using n(2-4) k(1) by (auto simp: word_less_nat_alt)
  then have "n = of_nat k" using of_nat_unat_word[of n] by simp
  then show ?thesis using n(1) by (simp add: strnlen_def)
qed

section \<open>Copies\<close>

text \<open>What a client writes into a new chunk does not change that it is the new chunk.\<close>

lemma allocated_fill:
  assumes al: "allocated G v c sz p G' w'" and m: "\<And>a. \<not> (p \<le> a \<and> a < p + unat sz) \<Longrightarrow> m a = mem w' a"
  shows "allocated G v c sz p G' (w'\<lparr>mem := m\<rparr>)"
proof -
  obtain n where n: "unat sz \<le> n" "\<forall>d j. (p, d, j) \<notin> chunks G v" "chunks G' w' = insert (p, c, n) (chunks G v)"
    and ev: "evolves G v (chunks G v) G' w'" and p: "p \<noteq> 0"
    using al by (auto simp: allocated_def)
  have ok': "heap_ok G' w'" using ev by (simp add: evolves_def)
  have ch: "(p, c, n) \<in> chunks G' w'" using n(3) by simp
  have m': "m a = mem w' a" if "\<not> (p \<le> a \<and> a < p + n)" for a using that n(1) by (intro m) auto
  note cw = client_write_evolves[OF ok' ch m']
  have eq: "chunks G' w' - {(p, c, n)} = chunks G v" using n by auto
  have "evolves G v (chunks G v) G' (w'\<lparr>mem := m\<rparr>)"
    using evolves_trans[OF ev cw(1)[unfolded eq]] by simp
  then show ?thesis using n p cw(2) by (auto simp: allocated_def)
qed

text \<open>The outcome of a copy: as for an allocation of one byte more than the string, with the string.\<close>

definition string_post :: "(addr \<Rightarrow> ghost) \<Rightarrow> world \<Rightarrow> addr \<Rightarrow> byte list \<Rightarrow> error + addr \<times> world \<Rightarrow> bool" where
  "string_post G w c bs res \<longleftrightarrow>
     (let sz = of_nat (length bs + 1) in
      if \<not> size_accepted sz 0 then res = Inl (BadSize sz)
      else res = Inl (OutOfMemory sz)
        \<or> (\<exists>p G' w'. res = Inr (p, w') \<and> allocated G (touched w c) c sz p G' w' \<and> cstring w' p bs))"

lemma new_chunk_apart:
  assumes al: "allocated G v c sz p G' w'" and s: "within_chunk (chunks G v) s n" and ok: "heap_ok G v"
  shows "in_region w' p (unat sz)" and "in_region w' s n" and "s + n \<le> p \<or> p + unat sz \<le> s"
    and "i < n \<Longrightarrow> mem w' (s + i) = mem v (s + i)"
proof -
  obtain k where k: "unat sz \<le> k" "\<forall>d j. (p, d, j) \<notin> chunks G v" "chunks G' w' = insert (p, c, k) (chunks G v)"
    and ev: "evolves G v (chunks G v) G' w'" using al by (auto simp: allocated_def)
  have ok': "heap_ok G' w'" using ev by (simp add: evolves_def)
  have ch: "(p, c, k) \<in> chunks G' w'" using k(3) by simp
  obtain q d j where q: "(q, d, j) \<in> chunks G v" "q \<le> s" "s + n \<le> q + j" using s by (auto simp: within_chunk_def)
  then have q': "(q, d, j) \<in> chunks G' w'" using k(3) by simp
  show "in_region w' p (unat sz)" by (rule in_region_sub[OF chunk_facts(5)[OF ok' ch]]) (use k in auto)
  show "in_region w' s n" by (rule in_region_sub[OF chunk_facts(5)[OF ok' q']]) (use q in auto)
  have "p \<noteq> q" using k(2) q(1) by auto
  then show "s + n \<le> p \<or> p + unat sz \<le> s" using chunks_disjoint[OF ok' ch q'] k(1) q(2,3) by auto
  show "mem w' (s + i) = mem v (s + i)" if "i < n"
    using ev q that unfolding evolves_def same_data_def by fastforce
qed

lemma Strdup_post:
  assumes ok: "heap_ok G w" and c: "ctxs w c = Some u"
    and str: "cstring w s bs" and loc: "within_chunk (chunks G w) s (length bs + 1)"
  shows "string_post G w c bs (MemoryContextStrdup c s w)"
proof -
  let ?sz = "of_nat (length bs + 1) :: Size"
  have len: "length bs + 1 < 2 ^ 64" using within_chunk_region(2)[OF ok loc] by simp
  have sz: "unat ?sz = length bs + 1" by (rule unat_of_nat_small[OF len])
  have "strlen w s = Inr (of_nat (length bs))"
    by (rule strlen_ok[OF str within_chunk_region(1)[OF ok loc]]) (use len in simp)
  then have run: "MemoryContextStrdup c s w = seqE (MemoryContextAlloc c ?sz w)
      (\<lambda>(nstr, w). seqE (memcpyE nstr s ?sz w) (\<lambda>w. Inr (nstr, w)))"
    by (simp add: MemoryContextStrdup_def Let_def add.commute)
  show ?thesis
    using MemoryContextAlloc_post(1)[OF ok c, of ?sz]
  proof (cases rule: alloc_post_cases)
    case (chunk p G' w')
    let ?v = "touched w c"
    have loc': "within_chunk (chunks G ?v) s (length bs + 1)" using loc heap_touched(2)[OF ok] by simp
    note na = new_chunk_apart[OF chunk(4) loc' heap_touched(1)[OF ok]]
    let ?m = "\<lambda>x. if p \<le> x \<and> x < p + unat ?sz then mem w' (s + (x - p)) else mem w' x"
    have cp: "memcpyE p s ?sz w' = Inr (w'\<lparr>mem := ?m\<rparr>)"
      using na(1-3) sz by (auto simp: memcpyE_def simp del: of_nat_Suc of_nat_add)
    have "allocated G ?v c ?sz p G' (w'\<lparr>mem := ?m\<rparr>)" by (rule allocated_fill[OF chunk(4)]) auto
    moreover have "cstring (w'\<lparr>mem := ?m\<rparr>) p bs"
      using str na(4) sz by (auto simp: cstring_def simp del: of_nat_Suc of_nat_add)
    ultimately show ?thesis
      using chunk(1,2) cp unfolding string_post_def Let_def run by auto
  qed (simp_all add: run string_post_def Let_def del: of_nat_Suc of_nat_add)
qed

lemma pnstrdup_post:
  assumes ok: "heap_ok G w" and c: "ctxs w (CurrentMemoryContext w) = Some u"
    and bs: "\<forall>i < length bs. mem w (s + i) = bs ! i" "0 \<notin> set bs"
    and len: "length bs \<le> unat len" "length bs = unat len \<or> mem w (s + length bs) = 0"
    and loc: "within_chunk (chunks G w) s (min (unat len) (length bs + 1))" and big: "length bs + 1 < 2 ^ 64"
  shows "string_post G w (CurrentMemoryContext w) bs (pnstrdup s len w)"
proof -
  let ?k = "length bs" and ?c = "CurrentMemoryContext w"
  let ?sz = "of_nat (?k + 1) :: Size"
  have sz: "unat ?sz = ?k + 1" by (rule unat_of_nat_small[OF big])
  have k: "unat (of_nat ?k :: Size) = ?k" by (rule unat_of_nat_small) (use big in simp)
  have "strnlen w s len = Inr (of_nat ?k)"
  proof (rule strnlen_ok[OF len(1) _ len(2) within_chunk_region(1)[OF ok loc]])
    show "mem w (s + i) \<noteq> 0" if "i < ?k" for i using bs that by (metis nth_mem)
  qed
  then have run: "pnstrdup s len w = seqE (palloc ?sz w) (\<lambda>(out, w).
     seqE (memcpyE out s (of_nat ?k) w) (\<lambda>w.
     seqE (store8E (out + ?k) 0 w) (\<lambda>w. Inr (out, w))))"
    by (simp add: pnstrdup_def k add.commute)
  show ?thesis
    using palloc_post(1)[OF ok c, of ?sz]
  proof (cases rule: alloc_post_cases)
    case (chunk p G' w')
    let ?v = "touched w ?c"
    have loc': "within_chunk (chunks G ?v) s ?k"
      using loc len(1) heap_touched(2)[OF ok] by (auto simp: within_chunk_def min_def split: if_splits) fastforce+
    note na = new_chunk_apart[OF chunk(4) loc' heap_touched(1)[OF ok]]
    let ?m = "\<lambda>x. if p \<le> x \<and> x < p + ?k then mem w' (s + (x - p)) else mem w' x"
    have rp: "in_region w' p ?k" by (rule in_region_sub[OF na(1)]) (use sz in auto)
    have ap: "p + ?k \<le> s \<or> s + ?k \<le> p" using na(3) sz by linarith
    have cp: "memcpyE p s (of_nat ?k) w' = Inr (w'\<lparr>mem := ?m\<rparr>)"
    proof (cases "?k = 0")
      case True
      then have "?m = mem w'" by (auto simp: fun_eq_iff)
      then show ?thesis using True by (simp add: memcpyE_def del: length_0_conv)
    next
      case False
      then have "(of_nat ?k :: Size) \<noteq> 0" using k by (metis unat_0)
      then show ?thesis unfolding memcpyE_def k using rp na(2) ap by simp
    qed
    let ?w = "w'\<lparr>mem := ?m(p + ?k := 0)\<rparr>"
    have "in_region w' (p + ?k) 1" by (rule in_region_sub[OF na(1)]) (use sz in auto)
    then have st: "store8E (p + ?k) 0 (w'\<lparr>mem := ?m\<rparr>) = Inr ?w" by (simp add: store8E_def in_region_def)
    have "allocated G ?v ?c ?sz p G' ?w" by (rule allocated_fill[OF chunk(4)]) (use sz in auto)
    moreover have "cstring ?w p bs" using bs na(4) by (auto simp: cstring_def)
    ultimately show ?thesis
      using chunk(1,2) cp st unfolding string_post_def Let_def run by auto
  qed (simp_all add: run string_post_def Let_def del: of_nat_Suc of_nat_add)
qed

section \<open>Trailing newlines\<close>

definition chomped :: "byte list \<Rightarrow> byte list" where
  "chomped bs = rev (dropWhile (\<lambda>b. b = 10) (rev bs))"

lemma chomped_take: "chomped bs = take (length (chomped bs)) bs"
proof -
  have "bs = chomped bs @ rev (takeWhile (\<lambda>b. b = 10) (rev bs))"
    unfolding chomped_def by (metis rev_append rev_rev_ident takeWhile_dropWhile_id)
  then show ?thesis by (metis append_eq_conv_conj)
qed

lemma chomped_snoc: "chomped (bs @ [b]) = (if b = 10 then chomped bs else bs @ [b])"
  by (simp add: chomped_def)

lemma chomp_loop:
  assumes "\<forall>i < length bs. load8E w (s + i) = Inr (bs ! i)" and "length bs < 2 ^ 64"
  shows "\<exists>c. loopE (\<lambda>(n, c). 0 < n \<and> c = 10) (\<lambda>(n, c). seqE (chomp_char w s (n - 1)) (\<lambda>c. Inr (n - 1, c)))
      (of_nat (length bs), if bs = [] then 0 else last bs) = Inr (of_nat (length (chomped bs)), c)"
  using assms
proof (induction bs rule: rev_induct)
  case Nil
  then show ?case by (simp add: loopE_stop chomped_def)
next
  case (snoc b bs)
  let ?b = "\<lambda>(n :: Size, c :: byte). 0 < n \<and> c = 10"
  let ?c = "\<lambda>(n :: Size, c :: byte). seqE (chomp_char w s (n - 1)) (\<lambda>c. Inr (n - 1, c))"
  let ?n = "of_nat (length bs + 1) :: Size"
  have n: "unat ?n = length bs + 1" by (rule unat_of_nat_small) (use snoc.prems(2) in simp)
  have n1: "?n - 1 = of_nat (length bs)" by simp
  have pos: "0 < ?n" using n by (metis add_gr_0 unat_gt_0 word_neq_0_conv zero_less_one)
  show ?case
  proof (cases "b = 10")
    case False
    then have "loopE ?b ?c (?n, b) = Inr (?n, b)" by (simp add: loopE_stop)
    then show ?thesis using False by (simp add: chomped_snoc)
  next
    case True
    have rd: "load8E w (s + i) = Inr (bs ! i)" if "i < length bs" for i
      using snoc.prems(1) that by (simp add: nth_append)
    have "chomp_char w s (of_nat (length bs)) = Inr (if bs = [] then 0 else last bs)"
    proof (cases "bs = []")
      case False
      have l: "unat (of_nat (length bs) :: Size) = length bs"
        by (rule unat_of_nat_small) (use snoc.prems(2) in simp)
      have "unat (of_nat (length bs) - 1 :: Size) = length bs - 1"
        using False l by (metis length_0_conv unat_0 unat_minus_one)
      moreover have "0 < (of_nat (length bs) :: Size)" using False l by (metis length_0_conv unat_0 word_gt_0)
      ultimately show ?thesis
        using False rd[of "length bs - 1"] by (simp add: chomp_char_def last_conv_nth)
    qed (simp add: chomp_char_def)
    then have "loopE ?b ?c (?n, b) = loopE ?b ?c (of_nat (length bs), if bs = [] then 0 else last bs)"
      using True pos n1 by (subst loopE_step[of ?b "(?n, b)" ?c "(of_nat (length bs), if bs = [] then 0 else last bs)"]) auto
    then show ?thesis using snoc.IH rd snoc.prems(2) True by (simp add: chomped_snoc)
  qed
qed

lemma pchomp_post:
  assumes ok: "heap_ok G w" and c: "ctxs w (CurrentMemoryContext w) = Some u"
    and str: "cstring w s bs" and loc: "within_chunk (chunks G w) s (length bs + 1)"
  shows "string_post G w (CurrentMemoryContext w) (chomped bs) (pchomp s w)"
proof -
  let ?n = "of_nat (length (chomped bs)) :: Size"
  have reg: "in_region w s (length bs + 1)" and len: "length bs + 1 < 2 ^ 64"
    using within_chunk_region[OF ok loc] by simp_all
  have rd: "load8E w (s + i) = Inr (bs ! i)" if "i < length bs" for i
    using in_region_sub[OF reg, of "s + i" 1] that str by (simp add: load8E_def cstring_def)
  have l: "unat (of_nat (length bs) :: Size) = length bs" by (rule unat_of_nat_small) (use len in simp)
  have first: "chomp_char w s (of_nat (length bs)) = Inr (if bs = [] then 0 else last bs)"
  proof (cases "bs = []")
    case False
    have "unat (of_nat (length bs) - 1 :: Size) = length bs - 1"
      using False l by (metis length_0_conv unat_0 unat_minus_one)
    moreover have "0 < (of_nat (length bs) :: Size)" using False l by (metis length_0_conv unat_0 word_gt_0)
    ultimately show ?thesis
      using False rd[of "length bs - 1"] by (simp add: chomp_char_def last_conv_nth)
  qed (simp add: chomp_char_def)
  obtain c0 where lp: "loopE (\<lambda>(n, c). 0 < n \<and> c = 10) (\<lambda>(n, c). seqE (chomp_char w s (n - 1)) (\<lambda>c. Inr (n - 1, c)))
      (of_nat (length bs), if bs = [] then 0 else last bs) = Inr (?n, c0)"
    using chomp_loop[of bs w s] rd len by auto
  have sl: "strlen w s = Inr (of_nat (length bs))" by (rule strlen_ok[OF str reg]) (use len in simp)
  have run: "pchomp s w = pnstrdup s ?n w"
    unfolding pchomp_def sl seqE_simps first using lp by simp
  have le: "length (chomped bs) \<le> length bs" by (metis chomped_take length_take min.cobounded1)
  have u: "unat ?n = length (chomped bs)" by (rule unat_of_nat_small) (use le len in simp)
  show ?thesis
    unfolding run
  proof (rule pnstrdup_post[OF ok c])
    show "\<forall>i < length (chomped bs). mem w (s + i) = chomped bs ! i"
      using str le chomped_take[of bs] by (metis cstring_def nth_take order.strict_trans2)
    show "0 \<notin> set (chomped bs)" using str chomped_take[of bs] by (metis cstring_def in_set_takeD)
    show "within_chunk (chunks G w) s (min (unat ?n) (length (chomped bs) + 1))"
      using loc le u by (fastforce simp: within_chunk_def)
  qed (use u le len in simp_all)
qed

lemma pstrdup_string:
  assumes "heap_ok G w" and "ctxs w (CurrentMemoryContext w) = Some u"
    and "cstring w s bs" and "within_chunk (chunks G w) s (length bs + 1)"
  shows "string_post G w (CurrentMemoryContext w) bs (pstrdup s w)"
  using Strdup_post[OF assms] by (simp add: pstrdup_def)

lemma pnstrdup_string:
  assumes ok: "heap_ok G w" and c: "ctxs w (CurrentMemoryContext w) = Some u"
    and str: "cstring w s bs" and loc: "within_chunk (chunks G w) s (length bs + 1)"
  shows "string_post G w (CurrentMemoryContext w) (take (unat len) bs) (pnstrdup s len w)"
proof (rule pnstrdup_post[OF ok c])
  show "\<forall>i < length (take (unat len) bs). mem w (s + i) = take (unat len) bs ! i"
    using str by (simp add: cstring_def)
  show "0 \<notin> set (take (unat len) bs)" using str by (auto simp: cstring_def dest: in_set_takeD)
  show "length (take (unat len) bs) = unat len \<or> mem w (s + length (take (unat len) bs)) = 0"
    using str by (auto simp: cstring_def min_def)
  show "within_chunk (chunks G w) s (min (unat len) (length (take (unat len) bs) + 1))"
    using loc unfolding within_chunk_def by fastforce
qed (use within_chunk_region(2)[OF ok loc] in simp_all)

end
