(* ===== verification/StatsProofs.thy ===== *)
theory StatsProofs
  imports ClientProofs StringProofs
begin

text \<open>
  The statistics of \<open>src/aset.c\<close> and \<open>src/mcxt.c\<close>: the loops of \<open>AllocSetStats\<close> and
  \<open>MemoryContextMemConsumed\<close> end, none of their assertions fails, and the counters are those of the
  ghost state; the total space agrees with the accounting of \<open>MemoryContextMemAllocated\<close>.
\<close>

unbundle bit_operations_syntax

section \<open>One context\<close>

definition add_counters :: "MemoryContextCounters \<Rightarrow> MemoryContextCounters \<Rightarrow> MemoryContextCounters" where
  "add_counters t c =
     \<lparr>nblocks = nblocks t + nblocks c, freechunks = freechunks t + freechunks c,
      totalspace = totalspace t + totalspace c, freespace = freespace t + freespace c\<rparr>"

lemma counters_update:
  "t\<lparr>nblocks := nblocks t + nblocks c, freechunks := freechunks t + freechunks c,
     totalspace := totalspace t + totalspace c, freespace := freespace t + freespace c\<rparr> = add_counters t c"
  by (cases t) (simp add: add_counters_def)

text \<open>What the statistics of a context are to be: its blocks, the chunks on its freelists, the
  accounted memory, and the room behind the allocated part of its blocks and in its free chunks.\<close>

definition set_counters :: "(addr \<Rightarrow> ghost) \<Rightarrow> world \<Rightarrow> addr \<Rightarrow> MemoryContextCounters" where
  "set_counters G w c =
     \<lparr>nblocks = of_nat (length (gblocks (G c))),
      freechunks = of_nat (\<Sum>k \<leftarrow> [0..<11]. length (gfree (G c) k)),
      totalspace = mem_allocated (the (ctxs w c)),
      freespace = of_nat (\<Sum>b \<leftarrow> gblocks (G c). endptr (the (blks w b)) - freeptr (the (blks w b)))
        + of_nat (\<Sum>k \<leftarrow> [0..<11]. length (gfree (G c) k) * (class_size k + 8))\<rparr>"

lemma stats_blocks_run:
  assumes ok: "heap_ok G w" and c: "ctxs w c = Some s"
  shows "stats_blocks w (blocks s) z = Inr (z\<lparr>nblocks := nblocks z + of_nat (length (gblocks (G c))),
     totalspace := totalspace z + of_nat (\<Sum>b \<leftarrow> gblocks (G c). endptr (the (blks w b)) - b),
     freespace := freespace z + of_nat (\<Sum>b \<leftarrow> gblocks (G c). endptr (the (blks w b)) - freeptr (the (blks w b)))\<rparr>)"
proof -
  let ?bs = "gblocks (G c)"
  let ?I = "\<lambda>us x. x = z\<lparr>nblocks := nblocks z + of_nat (length us),
     totalspace := totalspace z + of_nat (\<Sum>b \<leftarrow> us. endptr (the (blks w b)) - b),
     freespace := freespace z + of_nat (\<Sum>b \<leftarrow> us. endptr (the (blks w b)) - freeptr (the (blks w b)))\<rparr>"
  let ?c = "\<lambda>(block, c). seqE (get_blk w block) (\<lambda>k. Inr (bnext k, c\<lparr>nblocks := nblocks c + 1,
              totalspace := totalspace c + ptr_diff (endptr k) block,
              freespace := freespace c + ptr_diff (endptr k) (freeptr k)\<rparr>))"
  have A: "aset_ok (set (regions w)) (mem w) (blks w) c s (G c)" by (rule heap_okD(2)[OF ok c])
  then have seg: "dseg bnext bprev (blks w) 0 ?bs 0" and head: "blocks s = first ?bs 0"
    by (simp_all add: aset_ok_def blocks_ok_def)
  have "\<exists>x'. loopE (\<lambda>(b, x). b \<noteq> 0) ?c (first ?bs 0, z) = Inr (0, x') \<and> ?I ?bs x'"
  proof (rule loopE_list[OF dseg_nonzero[OF seg]])
    fix us b vs x
    assume bs: "?bs = us @ b # vs" and x: "?I us x"
    have b: "b \<in> set ?bs" by (simp add: bs)
    obtain K where K: "blks w b = Some K" "b + 40 \<le> freeptr K" "freeptr K \<le> endptr K" "endptr K < 2 ^ 64"
      by (rule heap_ok_block[OF ok c b])
    have "bnext K = first vs 0" using dseg_split(2)[OF seg[unfolded bs] K(1)] .
    moreover have "ptr_diff (endptr K) b = of_nat (endptr K - b)"
      "ptr_diff (endptr K) (freeptr K) = of_nat (endptr K - freeptr K)"
      using K by (simp_all add: ptr_diff_def of_nat_diff)
    ultimately show "\<exists>x'. ?c (b, x) = Inr (first vs 0, x') \<and> ?I (us @ [b]) x'"
      using K(1) x by (simp add: get_blk_def add.assoc)
  qed simp
  then show ?thesis by (auto simp: stats_blocks_def head)
qed

lemma fseg_next: "fseg m a (us @ x # vs) \<Longrightarrow> unat (load64 m (x + 8)) = first vs 0"
  by (induction us arbitrary: a) (auto dest: fseg_first)

lemma stats_freelist_run:
  assumes ok: "heap_ok G w" and c: "ctxs w c = Some s" and k: "k < 11"
  shows "stats_freelist w (int k) (freelist s ! k) z
    = Inr (z\<lparr>freechunks := freechunks z + of_nat (length (gfree (G c) k)),
         freespace := freespace z + of_nat (length (gfree (G c) k) * (class_size k + 8))\<rparr>)"
proof -
  let ?xs = "gfree (G c) k"
  let ?sz = "GetChunkSizeFromFreeListIdx (int k) + of_nat ALLOC_CHUNKHDRSZ"
  let ?I = "\<lambda>us x. x = z\<lparr>freechunks := freechunks z + of_nat (length us),
         freespace := freespace z + of_nat (length us * (class_size k + 8))\<rparr>"
  let ?c = "\<lambda>(chunk, c). seqE (MemoryChunkGetValue w chunk) (\<lambda>v.
          seqE (assertE (int (unat v) = int k)) (\<lambda>_.
          seqE (load_ptr w (GetFreeListLink chunk)) (\<lambda>nxt.
            Inr (nxt, c\<lparr>freechunks := freechunks c + 1, freespace := freespace c + ?sz\<rparr>))))"
  have sz: "?sz = of_nat (class_size k + 8)" using unat_class(2)[OF k] by (metis of_nat_unat_word)
  have step: "a + of_nat (class_size k + 8) + of_nat (n * (class_size k + 8)) = a + (of_nat (n * (class_size k + 8)) + of_nat (class_size k + 8))"
    for a :: Size and n by (simp add: add.commute add.left_commute)
  note fh = free_head[OF ok c k]
  have fr: "frees_ok (mem w) (freelist s) (G c)" using heap_okD(2)[OF ok c] by (simp add: aset_ok_def)
  then have tl: "x \<in> set ?xs \<Longrightarrow> (x, k) \<in> tiles (G c)" for x using k by (simp add: frees_ok_def)
  have "\<exists>x'. loopE (\<lambda>(b, x). b \<noteq> 0) ?c (first ?xs 0, z) = Inr (0, x') \<and> ?I ?xs x'"
  proof (rule loopE_list[OF fseg_nonzero[OF fh(2)]])
    fix us b vs x
    assume xs: "?xs = us @ b # vs" and x: "?I us x"
    have "(b, k) \<in> tiles (G c)" by (rule tl) (simp add: xs)
    then obtain r: "MemoryChunkGetValue w b = Inr (of_nat k)" "in_region w (b + 8) (class_size k)"
      by (rule tile_reads[OF ok c]) blast
    have v: "unat (of_nat k :: Size) = k" by (rule unat_of_nat_small) (use k in simp)
    have "assertE (int (unat (of_nat k :: Size)) = int k) = Inr ()" unfolding v by simp
    moreover have "in_region w (b + 8) 8"
      by (rule in_region_sub[OF r(2)]) (use class_size_bounds[OF k] in auto)
    moreover have "unat (load64 (mem w) (b + 8)) = first vs 0"
      using fh(2) unfolding xs by (rule fseg_next)
    ultimately show "\<exists>x'. ?c (b, x) = Inr (first vs 0, x') \<and> ?I (us @ [b]) x'"
      using r(1) by (simp only: seqE_simps split_conv) (simp add: load_ptr_def load64E_def x sz[simplified] step)
  qed simp
  then show ?thesis using fseg_first[OF fh(2)] by (auto simp: stats_freelist_def)
qed

lemma stats_freelists_run:
  assumes ok: "heap_ok G w" and c: "ctxs w c = Some s"
  shows "\<exists>i. loopE (\<lambda>(fidx, c). fidx < int ALLOCSET_NUM_FREELISTS)
        (\<lambda>(fidx, c). seqE (get_freelist s fidx) (\<lambda>chunk.
           seqE (stats_freelist w fidx chunk c) (\<lambda>c. Inr (fidx + 1, c)))) (0, z)
    = Inr (i, z\<lparr>freechunks := freechunks z + of_nat (\<Sum>k \<leftarrow> [0..<11]. length (gfree (G c) k)),
         freespace := freespace z + of_nat (\<Sum>k \<leftarrow> [0..<11]. length (gfree (G c) k) * (class_size k + 8))\<rparr>)"
proof -
  let ?z = "\<lambda>n. z\<lparr>freechunks := freechunks z + of_nat (\<Sum>k \<leftarrow> [0..<n]. length (gfree (G c) k)),
         freespace := freespace z + of_nat (\<Sum>k \<leftarrow> [0..<n]. length (gfree (G c) k) * (class_size k + 8))\<rparr>"
  let ?b = "\<lambda>(fidx, c :: MemoryContextCounters). fidx < int ALLOCSET_NUM_FREELISTS"
  let ?c = "\<lambda>(fidx, c). seqE (get_freelist s fidx) (\<lambda>chunk.
           seqE (stats_freelist w fidx chunk c) (\<lambda>c. Inr (fidx + 1, c)))"
  let ?P = "\<lambda>(i, x). \<exists>n \<le> 11. i = int n \<and> x = ?z n"
  have "\<exists>t. loopE ?b ?c (0, z) = Inr t \<and> ?P t \<and> \<not> ?b t"
  proof (rule loopE_total[where m = "\<lambda>(i, x). nat (11 - i)"])
    show "?P (0, z)" by (auto intro: exI[of _ 0])
    fix t assume t: "?P t" "?b t"
    then obtain n where n: "t = (int n, ?z n)" "n < 11"
      by (cases t) (auto simp: ALLOCSET_NUM_FREELISTS_def)
    have "get_freelist s (int n) = Inr (freelist s ! n)"
      using n(2) free_head(3)[OF ok c n(2)] by (simp add: get_freelist_def)
    then have "?c t = Inr (int (Suc n), ?z (Suc n))"
      using stats_freelist_run[OF ok c n(2), of "?z n"] by (simp add: n(1) add.assoc)
    then show "\<exists>t'. ?c t = Inr t' \<and> ?P t' \<and> (case t' of (i, x) \<Rightarrow> nat (11 - i)) < (case t of (i, x) \<Rightarrow> nat (11 - i))"
      using n by (intro exI[of _ "(int (Suc n), ?z (Suc n))"]) (auto intro!: exI[of _ "Suc n"])
  qed
  then obtain i n where "loopE ?b ?c (0, z) = Inr (i, ?z n)" "n \<le> 11" "i = int n" "\<not> i < 11"
    by (auto simp: ALLOCSET_NUM_FREELISTS_def)
  then show ?thesis by (intro exI[of _ i]) simp
qed

text \<open>The total space counts the header of the context and its blocks, as the accounting does.\<close>

lemma total_space:
  assumes ok: "heap_ok G w" and c: "ctxs w c = Some s"
  shows "mem_allocated s = of_nat (ALIGNED_CONTEXTSZ + (\<Sum>b \<leftarrow> gblocks (G c). endptr (the (blks w b)) - b))"
proof -
  let ?bs = "gblocks (G c)"
  have A: "aset_ok (set (regions w)) (mem w) (blks w) c s (G c)" by (rule heap_okD(2)[OF ok c])
  then have d: "distinct ?bs" and kb: "KeeperBlock c \<in> set ?bs"
    and m: "mem_allocated s = of_nat (\<Sum>b \<in> set ?bs. block_size (blks w) c b)"
    by (simp_all add: aset_ok_def blocks_ok_def)
  have sz: "block_size (blks w) c b = (if b = KeeperBlock c then ALIGNED_CONTEXTSZ else 0) + (endptr (the (blks w b)) - b)"
    if b: "b \<in> set ?bs" for b
  proof -
    obtain K where K: "blks w b = Some K" "b + 40 \<le> freeptr K" "freeptr K \<le> endptr K"
      by (rule heap_ok_block[OF ok c b])
    then show ?thesis
      by (auto simp: block_size_def base_def IsKeeperBlock_def KeeperBlock_def)
  qed
  have "(\<Sum>b \<in> set ?bs. block_size (blks w) c b)
    = (\<Sum>b \<in> set ?bs. if b = KeeperBlock c then ALIGNED_CONTEXTSZ else 0) + (\<Sum>b \<in> set ?bs. endptr (the (blks w b)) - b)"
    using sz by (simp add: sum.distrib)
  also have "\<dots> = ALIGNED_CONTEXTSZ + (\<Sum>b \<leftarrow> ?bs. endptr (the (blks w b)) - b)"
    using kb by (simp add: sum_list_distinct_conv_sum_set[OF d])
  finally show ?thesis unfolding m by simp
qed

lemma count_set_run:
  assumes ok: "heap_ok G w" and c: "ctxs w c = Some s"
  shows "count_set w s = Inr (set_counters G w c)"
proof -
  let ?z = "\<lparr>nblocks = 0, freechunks = 0, totalspace = of_nat ALIGNED_CONTEXTSZ, freespace = 0\<rparr> :: MemoryContextCounters"
  note b = stats_blocks_run[OF ok c, of ?z]
  obtain i where f: "loopE (\<lambda>(fidx, c). fidx < int ALLOCSET_NUM_FREELISTS)
        (\<lambda>(fidx, c). seqE (get_freelist s fidx) (\<lambda>chunk.
           seqE (stats_freelist w fidx chunk c) (\<lambda>c. Inr (fidx + 1, c)))) (0, set_counters G w c\<lparr>freechunks := 0,
             freespace := of_nat (\<Sum>b \<leftarrow> gblocks (G c). endptr (the (blks w b)) - freeptr (the (blks w b)))\<rparr>)
      = Inr (i, set_counters G w c)"
    using stats_freelists_run[OF ok c, of "set_counters G w c\<lparr>freechunks := 0,
             freespace := of_nat (\<Sum>b \<leftarrow> gblocks (G c). endptr (the (blks w b)) - freeptr (the (blks w b)))\<rparr>"]
    by (auto simp: set_counters_def)
  have "stats_blocks w (blocks s) ?z = Inr (set_counters G w c\<lparr>freechunks := 0,
             freespace := of_nat (\<Sum>b \<leftarrow> gblocks (G c). endptr (the (blks w b)) - freeptr (the (blks w b)))\<rparr>)"
    using total_space[OF ok c] c unfolding b by (simp add: set_counters_def)
  with f show ?thesis
    unfolding count_set_def seqE_simps by simp
qed

text \<open>The print function gets the text of these numbers, uncut, and the totals grow by them.\<close>

lemma AllocSetStats_run:
  assumes ok: "heap_ok G w" and c: "ctxs w c = Some s"
  shows "AllocSetStats c printfunc passthru totals err w =
    seqE (case printfunc of None \<Rightarrow> Inr w
          | Some f \<Rightarrow> f c passthru (stats_text (set_counters G w c)) err w) (\<lambda>w'.
      Inr (map_option (\<lambda>t. add_counters t (set_counters G w c)) totals, w'))"
  unfolding AllocSetStats_def valid_ctx[OF ok c] get_ctx_Some[OF c] count_set_run[OF ok c] seqE_simps stats_text_fits
  by (auto simp: counters_update intro!: arg_cong2[where f = seqE])

lemma add_stats_run:
  assumes "heap_ok G w" and "ctxs w c = Some s"
  shows "add_stats MCTX_ASET_ID w c totals = Inr (add_counters totals (set_counters G w c))"
  by (simp add: add_stats_def mcxt_stats_def AllocSetStats_run[OF assms])

section \<open>A tree of contexts\<close>

lemma context_methods: "heap_ok G w \<Longrightarrow> ctxs w c = Some s \<Longrightarrow> methods s = MCTX_ASET_ID"
  using ctx_params by (simp add: params_ok_def)

lemma MemConsumed_tree:
  assumes ok: "heap_ok G w" and lk: "links_ok T (ctxs w)" and sh: "shape T t" and c: "ctxs w (root t) = Some s"
  shows "MemoryContextMemConsumed w (root t)
    = Inr (fold (\<lambda>x a. add_counters a (set_counters G w x)) (preorder t) zero_counters)"
proof -
  obtain ts where t: "t = CNode (root t) ts" by (cases t) auto
  have sh': "shape T (CNode (root t) ts)" using sh t by simp
  note fd = first_descendant[OF lk sh' c]
  let ?xs = "concat (map preorder ts)"
  let ?f = "\<lambda>us. fold (\<lambda>x a. add_counters a (set_counters G w x)) us"
  let ?z = "add_counters zero_counters (set_counters G w (root t))"
  let ?c = "\<lambda>(cur, consumed). seqE (get_ctx w cur) (\<lambda>c.
           seqE (add_stats (methods c) w cur consumed) (\<lambda>consumed.
           seqE (MemoryContextTraverseNext w cur (root t)) (\<lambda>nxt. Inr (nxt, consumed))))"
  have "\<exists>x'. loopE (\<lambda>(cur, consumed). cur \<noteq> 0) ?c (first ?xs 0, ?z) = Inr (0, x') \<and> x' = ?f ?xs ?z"
  proof (rule loopE_list[OF fd(2), of "\<lambda>us x. x = ?f us ?z"])
    fix us b vs x
    assume xs: "?xs = us @ b # vs" and x: "x = ?f us ?z"
    have "b \<in> set ?xs" unfolding xs by simp
    then obtain k where k: "ctxs w b = Some k" using fd(3) by blast
    have "chain (\<lambda>x. MemoryContextTraverseNext w x (root t)) (Inr 0) (us @ b # vs)"
      using traversal[OF lk sh'] unfolding xs .
    then have "MemoryContextTraverseNext w b (root t) = Inr (first vs 0)" by (rule chain_next)
    then show "\<exists>x'. ?c (b, x) = Inr (first vs 0, x') \<and> x' = ?f (us @ [b]) ?z"
      using k x add_stats_run[OF ok k] context_methods[OF ok k] by (simp add: get_ctx_def)
  qed simp
  then have lp: "loopE (\<lambda>(cur, consumed). cur \<noteq> 0) ?c (firstchild s, ?z) = Inr (0, ?f ?xs ?z)"
    unfolding fd(1) by blast
  have pre: "?f (preorder t) zero_counters = ?f ?xs ?z" by (subst t) simp
  show ?thesis
    unfolding pre using lp add_stats_run[OF ok c] context_methods[OF ok c]
    by (simp add: MemoryContextMemConsumed_def valid_ctx[OF ok c] get_ctx_Some[OF c])
qed

lemma total_consumed:
  "totalspace (fold (\<lambda>x a. add_counters a (set_counters G w x)) xs a)
    = totalspace a + (\<Sum>x \<leftarrow> xs. mem_allocated (the (ctxs w x)))"
  by (induction xs arbitrary: a) (simp_all add: add_counters_def set_counters_def add.assoc)

lemma IsEmpty_run:
  assumes ok: "heap_ok G w" and lk: "links_ok T (ctxs w)" and c: "ctxs w c = Some s"
  shows "MemoryContextIsEmpty w c = Inr (T c = [] \<and> isReset s)"
  using no_children[OF lk c] context_methods[OF ok c]
  by (cases "firstchild s = 0") (simp_all add: MemoryContextIsEmpty_def valid_ctx[OF ok c] get_ctx_Some[OF c] mcxt_is_empty_def AllocSetIsEmpty_def)

end
