(* ===== verification/Sample.thy ===== *)
theory Sample
  imports StatsProofs
begin

text \<open>
  A concrete state of the process, on which the theorems are applied to show that their hypotheses
  can hold: a context at 4096 with a keeper block (a chunk of 64 bytes in use, with a callback
  struct in it, and a free chunk of 8 bytes), a large block at 20480 with a chunk of 16384 bytes
  (and in it the redirection header of an aligned chunk), and a child context at 65536 that is
  reset.
\<close>

unbundle bit_operations_syntax

definition sample_mem :: "addr \<Rightarrow> byte" where
  "sample_mem =
     store64 (store64 (store64 (store64 (store64 (store64 (store64 (store64 (\<lambda>_. 0)
       4336 (hdrmask_of 40 3 MCTX_ASET_ID)) 4344 7) 4352 9) 4360 0)
       4408 (hdrmask_of 112 0 MCTX_ASET_ID)) 4416 0)
       20520 (hdrmask_external MCTX_ASET_ID))
       20536 (hdrmask_of 8 64 MCTX_ALIGNED_REDIRECT_ID)"

definition sample_parent :: AllocSetContext where
  "sample_parent =
     \<lparr> ctx_type = T_AllocSetContext, isReset = False, allowInCritSection = False,
       mem_allocated = 24624, methods = MCTX_ASET_ID, parent = 0, firstchild = 65536, prevchild = 0,
       nextchild = 0, ctx_name = ''parent'', ident = 0, reset_cbs = 4344,
       blocks = 4296, freelist = 4408 # replicate 10 0, initBlockSize = 8192,
       maxBlockSize = 8388608, nextBlockSize = 16384, allocChunkLimit = 8192, freeListIndex = 0 \<rparr>"

definition sample_child :: AllocSetContext where
  "sample_child =
     \<lparr> ctx_type = T_AllocSetContext, isReset = True, allowInCritSection = False,
       mem_allocated = 1024, methods = MCTX_ASET_ID, parent = 4096, firstchild = 0, prevchild = 0,
       nextchild = 0, ctx_name = ''child'', ident = 0, reset_cbs = 0,
       blocks = 65736, freelist = replicate 11 0, initBlockSize = 1024,
       maxBlockSize = 8192, nextBlockSize = 1024, allocChunkLimit = 1024, freeListIndex = 1 \<rparr>"

definition sample_world :: world where
  "sample_world =
     \<lparr> regions = [(65536, 1024), (20480, 16432), (4096, 8192)], mem = sample_mem,
       ctxs = [4096 \<mapsto> sample_parent, 65536 \<mapsto> sample_child],
       blks = [4296 \<mapsto> \<lparr>aset = 4096, bprev = 0, bnext = 20480, freeptr = 4424, endptr = 12288\<rparr>,
               20480 \<mapsto> \<lparr>aset = 4096, bprev = 4296, bnext = 0, freeptr = 36912, endptr = 36912\<rparr>,
               65736 \<mapsto> \<lparr>aset = 65536, bprev = 0, bnext = 0, freeptr = 65776, endptr = 66560\<rparr>],
       answers = [131072, 262144], calls = [],
       context_freelists = [\<lparr>num_free = 0, first_free = 0\<rparr>, \<lparr>num_free = 0, first_free = 0\<rparr>],
       CurrentMemoryContext = 4096, TopMemoryContext = 4096, ErrorContext = 0 \<rparr>"

definition sample_ghost :: "addr \<Rightarrow> ghost" where
  "sample_ghost c =
     (if c = 4096 then
        \<lparr> gblocks = [4296, 20480], gtiles = [4296 \<mapsto> [(4336, 3), (4408, 0)]],
          gfree = (\<lambda>k. if k = 0 then [4408] else []) \<rparr>
      else
        \<lparr> gblocks = [65736], gtiles = [65736 \<mapsto> []], gfree = (\<lambda>_. []) \<rparr>)"

lemma sample_loads:
  "load64 sample_mem 4336 = hdrmask_of 40 3 MCTX_ASET_ID"
  "load64 sample_mem 4344 = 7" "load64 sample_mem 4352 = 9" "load64 sample_mem 4360 = 0"
  "load64 sample_mem 4408 = hdrmask_of 112 0 MCTX_ASET_ID" "load64 sample_mem 4416 = 0"
  "load64 sample_mem 20520 = hdrmask_external MCTX_ASET_ID"
  "load64 sample_mem 20536 = hdrmask_of 8 64 MCTX_ALIGNED_REDIRECT_ID"
  by (simp_all add: sample_mem_def load64_store64_disjoint)

lemma sample_regions: "regions_ok (regions sample_world)"
  by (simp add: sample_world_def admissible_def overlaps_def)

lemma sample_hdrs:
  "regular_hdr sample_mem 4336 4296 3 MCTX_ASET_ID"
  "regular_hdr sample_mem 4408 4296 0 MCTX_ASET_ID"
  "regular_hdr sample_mem 20536 20528 64 MCTX_ALIGNED_REDIRECT_ID"
  "external_hdr sample_mem 20520 MCTX_ASET_ID"
  by (simp_all add: regular_hdr_def external_hdr_def sample_loads MEMORYCHUNK_MAX_VALUE_def)

lemmas sample_consts = KeeperBlock_eq base_def IsKeeperBlock_def

lemma sample_parent_ok:
  "aset_ok (set (regions sample_world)) sample_mem (blks sample_world) 4096 sample_parent (sample_ghost 4096)"
proof -
  have "params_ok 4096 sample_parent (sample_ghost 4096)"
    by (simp add: params_ok_def sample_parent_def)
  moreover have "blocks_ok (set (regions sample_world)) sample_mem (blks sample_world) 4096 (sample_ghost 4096)"
    using sample_hdrs
    by (simp add: blocks_ok_def sample_ghost_def sample_consts sample_world_def block_ok_def class_size_def)
  moreover have "frees_ok sample_mem (freelist sample_parent) (sample_ghost 4096)"
    by (simp add: frees_ok_def sample_parent_def sample_ghost_def tiles_def sample_loads nth_Cons')
  ultimately show ?thesis
    by (simp add: aset_ok_def sample_parent_def sample_ghost_def block_size_def sample_world_def
        sample_consts)
qed

lemma sample_child_ok:
  "aset_ok (set (regions sample_world)) sample_mem (blks sample_world) 65536 sample_child (sample_ghost 65536)"
  by (simp add: aset_ok_def params_ok_def pristine_def blocks_ok_def frees_ok_def block_ok_def
      sample_child_def sample_ghost_def sample_world_def sample_consts block_size_def)

lemma sample_heap_ok: "heap_ok sample_ghost sample_world"
  unfolding heap_ok_def
proof (intro conjI allI impI)
  show "regions_ok (regions sample_world)" by (rule sample_regions)
  fix c s assume c: "ctxs sample_world c = Some s"
  then have "c = 4096 \<and> s = sample_parent \<or> c = 65536 \<and> s = sample_child"
    by (auto simp: sample_world_def split: if_splits)
  then show "aset_ok (set (regions sample_world)) (mem sample_world) (blks sample_world) c s (sample_ghost c)"
    using sample_parent_ok sample_child_ok by (auto simp: sample_world_def)
  show "blks sample_world c = None" using c by (auto simp: sample_world_def split: if_splits)
next
  fix b k assume "blks sample_world b = Some k"
  then show "ctxs sample_world (aset k) \<noteq> None" "b \<in> set (gblocks (sample_ghost (aset k)))"
    by (auto simp: sample_world_def sample_ghost_def split: if_splits)
qed

lemma sample_chunks:
  "(4344, 4096, 64) \<in> chunks sample_ghost sample_world"
  "(20528, 4096, 16384) \<in> chunks sample_ghost sample_world"
  by (simp_all add: chunks_iff units_def block_units_def free_chunks_def)
    (auto simp: sample_world_def sample_ghost_def class_size_def)

lemma sample_aligned: "aligned_at sample_ghost sample_world 20544 64 (20528, 4096, 16384)"
  using sample_chunks(2) sample_hdrs(3) by (simp add: aligned_at_def sample_world_def)

text \<open>The tree and the freelists of contexts of this state.\<close>

definition sample_tree :: "addr \<Rightarrow> addr list" where
  "sample_tree = (\<lambda>_. [])(4096 := [65536])"

definition none_waiting :: "nat \<Rightarrow> addr list" where
  "none_waiting = (\<lambda>_. [])"

lemma sample_links_ok: "links_ok sample_tree (ctxs sample_world)"
  unfolding links_ok_def
proof (intro conjI allI impI)
  fix c x p
  show "ctxs sample_world 0 = None" by (simp add: sample_world_def)
  show "map_option firstchild (ctxs sample_world c) = Some (first (sample_tree c) 0)" if "ctxs sample_world c \<noteq> None"
    using that by (auto simp: sample_world_def sample_tree_def sample_parent_def sample_child_def split: if_splits)
  show "sample_tree c = []" if "ctxs sample_world c = None"
    using that by (auto simp: sample_world_def sample_tree_def split: if_splits)
  show "dseg nextchild prevchild (ctxs sample_world) 0 (sample_tree c) 0"
    by (simp add: sample_world_def sample_tree_def sample_child_def)
  show "distinct (c # sample_tree c)" by (simp add: sample_tree_def)
  show "x \<in> set (sample_tree p) \<longleftrightarrow> p \<noteq> 0 \<and> map_option parent (ctxs sample_world x) = Some p"
    by (auto simp: sample_world_def sample_tree_def sample_parent_def sample_child_def)
qed

lemma sample_lib_ok: "lib_ok sample_ghost sample_tree none_waiting sample_world"
proof -
  have "freelist_ok C i [] \<lparr>num_free = 0, first_free = 0\<rparr>" for C i
    by (simp add: freelist_ok_def MAX_FREE_CONTEXTS_def)
  then have "freelists_ok none_waiting sample_world"
    by (auto simp: freelists_ok_def none_waiting_def sample_world_def less_2_cases_iff)
  then show ?thesis using sample_heap_ok sample_links_ok by (simp add: lib_ok_def)
qed

lemma sample_live: "live none_waiting sample_world = {4096, 65536}"
  by (auto simp: live_def none_waiting_def sample_world_def)

lemma sample_shape: "shape sample_tree (CNode 4096 [CNode 65536 []])"
  by (simp add: sample_tree_def)

lemma sample_callbacks:
  "cb_list sample_world 4344 [4344]" "cb_entry (mem sample_world) 4344 = (7, 9)"
  "ctxs sample_world 4096 = Some sample_parent" "reset_cbs sample_parent = 4344"
  "ctxs sample_world 65536 = Some sample_child" "reset_cbs sample_child = 0" "isReset sample_child"
  "\<not> isReset sample_parent"
  by (simp_all add: cb_entry_def cb_func_def cb_arg_def cb_next_def sample_world_def sample_loads
      sample_parent_def sample_child_def in_region_def)

lemma sample_cb_chunk: "a \<in> cb_bytes [4344] \<Longrightarrow> 4344 \<le> a \<and> a < 4344 + 64"
  by (auto simp: cb_bytes_def)

text \<open>The same process with no context selected as top or current, so that all can be deleted.\<close>

definition sample_idle :: world where
  "sample_idle = sample_world\<lparr>TopMemoryContext := 0, CurrentMemoryContext := 0\<rparr>"

definition sample_cbs :: "addr \<Rightarrow> addr list" where
  "sample_cbs c = (if c = 4096 then [4344] else [])"

lemma sample_idle:
  "lib_ok sample_ghost sample_tree none_waiting sample_idle" "live none_waiting sample_idle = {4096, 65536}"
  "chunks sample_ghost sample_idle = chunks sample_ghost sample_world" "mem sample_idle = mem sample_world"
  "calls sample_idle = []" "ctxs sample_idle = ctxs sample_world"
proof -
  have f: "regions sample_idle = regions sample_world" "mem sample_idle = mem sample_world"
    "ctxs sample_idle = ctxs sample_world" "blks sample_idle = blks sample_world"
    "context_freelists sample_idle = context_freelists sample_world"
    by (simp_all add: sample_idle_def)
  note lib_ok_globals[OF f]
  then show "lib_ok sample_ghost sample_tree none_waiting sample_idle" "live none_waiting sample_idle = {4096, 65536}"
    "chunks sample_ghost sample_idle = chunks sample_ghost sample_world"
    using sample_lib_ok sample_live by simp_all
  show "mem sample_idle = mem sample_world" "ctxs sample_idle = ctxs sample_world" by (fact f)+
  show "calls sample_idle = []" by (simp add: sample_idle_def sample_world_def)
qed

lemma sample_can_delete:
  "can_delete sample_ghost sample_tree none_waiting sample_idle {} (\<lambda>f a w. Inr w) sample_cbs {4096, 65536}"
proof -
  have "cb_list sample_idle 4344 [4344]"
    using sample_callbacks(1) by (simp add: sample_idle_def in_region_def)
  moreover have "outlives sample_ghost sample_idle ({4096, 65536} - {4096}) a" if "a \<in> cb_bytes [4344]" for a
    using sample_chunks(1) sample_cb_chunk[OF that] unfolding outlives_def sample_idle(3) by blast
  moreover have "cb_bytes [] = {}" by (simp add: cb_bytes_def)
  ultimately have "deletable sample_ghost sample_idle {} (\<lambda>f a w. Inr w) sample_cbs {4096, 65536}"
    unfolding deletable_def using quiet_skip sample_callbacks
    by (simp add: sample_idle(6) sample_cbs_def) (simp add: sample_idle_def)
  then show ?thesis using sample_idle(1,2) by (simp add: can_delete_def)
qed

section \<open>A run from the start of the process\<close>

lemma sample_start:
  obtains w where "MemoryContextInit (initial_world (\<lambda>_. 0) [65536, 131072, 262144]) = Inr w"
    and "TopMemoryContext w = 65536" and "ErrorContext w = 131072" and "grants w (2 ^ 30 + 100)"
proof -
  have "\<exists>w. MemoryContextInit (initial_world (\<lambda>_. 0) [65536, 131072, 262144]) = Inr w
    \<and> TopMemoryContext w = 65536 \<and> ErrorContext w = 131072
    \<and> answers w = [262144] \<and> regions w = [(131072, 8192), (65536, 8192)]"
    by (rule Init_granted) (simp_all add: admissible_def overlaps_def)
  then show ?thesis using that by (auto simp: grants_def admissible_def overlaps_def)
qed

text \<open>After initialisation and an allocation of 100 zeroed bytes in the top context.\<close>

lemma sample_run:
  obtains V w p where "reachable (V, w)" and "p \<noteq> 0" and "owned V = [p \<mapsto> (65536, 100)]"
    and "stored V = (\<lambda>a. if p \<le> a \<and> a < p + 100 then Some 0 else None)"
    and "contexts V = {65536, 131072}" and "topctx V = 65536" and "current V = 65536"
    and "children V = (\<lambda>_. [])(65536 := [131072])" and "pending V = (\<lambda>_. [])" and "called V = []"
proof -
  obtain w where w: "MemoryContextInit (initial_world (\<lambda>_. 0) [65536, 131072, 262144]) = Inr w"
    "TopMemoryContext w = 65536" "ErrorContext w = 131072" "grants w (2 ^ 30 + 100)" by (rule sample_start)
  let ?V = "view_after_init w" and ?x = "Alloc 65536 100 MCXT_ALLOC_ZERO"
  have s: "reachable (?V, w)" by (rule reachable_init[OF w(1)])
  have V: "contexts ?V = {65536, 131072}" "topctx ?V = 65536" "current ?V = 65536"
    "children ?V = (\<lambda>_. [])(65536 := [131072])"
    by (simp_all add: view_after_init_def w)
  have x: "permitted ?V ?x" by (simp add: V)
  obtain G F where r: "represents G F ?V w" using represents_init[OF w(1)] by blast
  obtain u where u: "ctxs w 65536 = Some u" by (rule tree_ok_context[OF representsD(1)[OF r], of 65536]) (simp_all add: V)
  obtain p G' w' where p: "MemoryContextAllocExtended 65536 100 MCXT_ALLOC_ZERO w = Inr (p, w')"
    "allocated G (touched w 65536) 65536 100 p G' w'"
    using AllocExtended_granted[OF representsD(3)[OF r] u w(4), of 100 MCXT_ALLOC_ZERO]
    by (auto simp: size_accepted_def)
  have p0: "p \<noteq> 0" using p(2) by (simp add: allocated_def)
  have "reachable (after ?V ?x p, w')"
    by (rule reachable_step[OF s step.step[OF x]]) (simp add: p(1))
  then show ?thesis
    by (rule that[OF _ p0])
      (use p0 V in \<open>auto simp: got_chunk_def fresh_bytes_def MCXT_ALLOC_ZERO_def view_after_init_def fun_eq_iff\<close>)
qed

text \<open>
  Then a callback struct at the start of this chunk, with function and argument 0, is registered for the
  context; and the context is reset.
\<close>

lemma sample_callback_run:
  obtains V w p where "reachable (V, w)" and "pending V = (\<lambda>_. [])(65536 := [p])" and "called V = []"
    and "entry V p = (0, 0)" and "65536 \<in> contexts V" and "permitted V (ResetOnly 65536)"
proof -
  obtain V w p where s: "reachable (V, w)" "p \<noteq> 0" "owned V = [p \<mapsto> (65536, 100)]"
    "stored V = (\<lambda>a. if p \<le> a \<and> a < p + 100 then Some 0 else None)" "contexts V = {65536, 131072}"
    "pending V = (\<lambda>_. [])" "called V = []"
    by (rule sample_run)
  let ?x = "Register 65536 p"
  have "permitted V ?x"
    by (auto simp: s struct_ready_def struct_bytes_def cb_bytes_def)
  from reachable_call[OF s(1) this] obtain r w' where w': "reachable (after V ?x r, w')" by auto
  let ?V = "after V ?x r"
  have "?V = V\<lparr>pending := (\<lambda>_. [])(65536 := [p]), stored := stored ?V\<rparr>"
    by (simp add: s fun_eq_iff)
  have m: "load64 (\<lambda>a. case stored ?V a of None \<Rightarrow> 0 | Some b \<Rightarrow> b) x = 0" if "x = p \<or> x = p + 8" for x
  proof -
    have "load64 (\<lambda>a. case stored ?V a of None \<Rightarrow> 0 | Some b \<Rightarrow> b) x = load64 (\<lambda>_. 0) x"
      by (rule load64_cong) (use that in \<open>auto simp: s\<close>)
    then show ?thesis by (simp add: load64_def)
  qed
  have "entry ?V p = (0, 0)" using m by (simp add: entry_def cb_entry_def cb_func_def cb_arg_def)
  moreover have "permitted ?V (ResetOnly 65536)" by (auto simp: s structs_outlive_def)
  ultimately show ?thesis by (intro that[OF w']) (simp_all add: s)
qed

section \<open>An aligned request that wraps around\<close>

text \<open>
  The request for \<open>2 ^ 64 - 1\<close> bytes with alignment 64 allocates 63 bytes, in a chunk of 64 at 4432,
  and returns the pointer 4480.
\<close>

lemma sample_index: "AllocSetFreeIndex 63 = Inr 3" by code_simp

lemma sample_class: "GetChunkSizeFromFreeListIdx 3 = 64" by code_simp

lemma sample_offsets: "128 AND MEMORYCHUNK_BLOCKOFFSET_MASK = 128" "184 AND MEMORYCHUNK_BLOCKOFFSET_MASK = 184" "40 AND MEMORYCHUNK_BLOCKOFFSET_MASK = 40" by code_simp+

lemma sample_values: "3 \<le> MEMORYCHUNK_MAX_VALUE" "64 \<le> MEMORYCHUNK_MAX_VALUE" by code_simp+

lemma sample_ids: "methodid_word MCTX_ASET_ID \<le> MEMORY_CONTEXT_METHODID_MASK" "methodid_word MCTX_ALIGNED_REDIRECT_ID \<le> MEMORY_CONTEXT_METHODID_MASK" by code_simp+

lemma sample_wrapped_chunk: "\<exists>w. MemoryContextAllocExtended 4096 63 0 sample_world = Inr (4432, w) \<and> regions w = regions sample_world"
  by (simp add: MemoryContextAllocExtended_def MemoryContextIsValid_def Assert_valid_def context_alloc_def upd_ctx_def get_ctx_def mcxt_alloc_def
    AllocSetAlloc_def sample_index sample_class get_freelist_def get_blk_def upd_blk_def ptr_diff_def AllocSetAllocChunkFromBlock_def Let_def sample_world_def sample_parent_def
    ALLOC_CHUNKHDRSZ_def sizeof_MemoryChunk_def MemoryChunkSetHdrMask_def store64E_def in_region_def MemoryChunkGetPointer_def
    AllocSizeIsValid_def MaxAllocSize_def sample_offsets sample_values sample_ids)

lemma sample_wraps: "\<exists>w. MemoryContextAllocAligned 4096 (- 1) 64 0 sample_world = Inr (4480, w)"
proof -
  obtain w where w: "MemoryContextAllocExtended 4096 63 0 sample_world = Inr (4432, w)" "regions w = regions sample_world"
    using sample_wrapped_chunk by blast
  have t: "TYPEALIGN 64 4440 = 4480" "TYPEALIGN 64 4480 = 4480" by code_simp+
  show ?thesis
    using w(2) by (simp add: MemoryContextAllocAligned_def w(1) Let_def sizeof_MemoryChunk_def t MemoryChunkSetHdrMask_def store64E_def in_region_def
      PointerGetMemoryChunk_def ptr_diff_def MAXIMUM_ALIGNOF_def sample_offsets sample_values sample_ids sample_world_def[THEN arg_cong, of regions])
qed

end
