(* ===== verification/Check.thy ===== *)
theory Check
  imports StatsProofs
begin

text \<open>
  \<open>AllocSetCheck\<close> of \<open>src/aset.c\<close>, the consistency check that a build with
  \<open>MEMORY_CONTEXT_CHECKING\<close> offers, run on the state of this model. Two things it uses exist in such a
  build only: \<open>elog\<close>, which the repository does not define and whose warnings are collected in a list
  here, and the field \<open>requested_size\<close> of a chunk header, which the 8-byte headers of the model do not
  have and which is a parameter, a function of the chunk. Everything else (block headers, chunk
  headers, the sentinel byte, the accounting) is read from the state.

  The lemmas compute its result in every state with the invariant: its loops end, its assertion holds,
  and it finds nothing wrong with blocks, headers and tiling, so that every report is about the
  requested size of a chunk, the byte behind it, or a chunk without room.
\<close>

unbundle bit_operations_syntax

section \<open>The check\<close>

text \<open>The warnings, one constructor for each \<open>elog\<close>, with the pointers and sizes that it prints.\<close>

datatype warning =
    EmptyBlock addr
  | CorruptBlock addr
  | BadSingleChunk addr addr
  | BadChunkClass addr addr
  | BadBlockOffset addr addr
  | RequestTooLarge addr addr
  | BadChunkSize Size addr addr
  | WrittenPastEnd addr addr
  | InconsistentBlock addr
  | ExternalNotDedicated addr

definition warn :: "bool \<Rightarrow> warning \<Rightarrow> warning list" where
  "warn b x = (if b then [x] else [])"

definition InvalidAllocSize :: Size where "InvalidAllocSize = - 1"

text \<open>
  The helpers of \<open>memdebug.h\<close>: \<open>wipe_mem\<close> overwrites freed memory, \<open>set_sentinel\<close> marks the byte behind
  the space that was asked for, and \<open>sentinel_ok\<close> looks whether it is still there.
\<close>

definition wipe_mem :: "addr \<Rightarrow> Size \<Rightarrow> world \<Rightarrow> error + world" where
  "wipe_mem ptr sz w = memsetE ptr 0x7F sz w"

definition set_sentinel :: "addr \<Rightarrow> Size \<Rightarrow> world \<Rightarrow> error + world" where
  "set_sentinel a offset w = store8E (a + unat offset) 0x7E w"

definition sentinel_ok :: "world \<Rightarrow> addr \<Rightarrow> Size \<Rightarrow> error + bool" where
  "sentinel_ok w a offset = seqE (load8E w (a + unat offset)) (\<lambda>b. Inr (b = 0x7E))"

text \<open>
  One round of the inner loop: the size of the chunk at \<open>chunk\<close>, whether it is external, and the
  warnings. A size class of 64 or more would shift a 64-bit word too far.
\<close>

definition check_header :: "world \<Rightarrow> addr \<Rightarrow> AllocBlockData \<Rightarrow> Size \<Rightarrow> addr
    \<Rightarrow> error + Size \<times> bool \<times> warning list" where
  "check_header w block k blk_used chunk =
     seqE (MemoryChunkIsExternal w chunk) (\<lambda>external.
     if external then
       let chsize = ptr_diff (endptr k) (MemoryChunkGetPointer chunk) in
       Inr (chsize, True, warn (chsize + of_nat ALLOC_CHUNKHDRSZ \<noteq> blk_used) (BadSingleChunk chunk block))
     else
       seqE (MemoryChunkGetValue w chunk) (\<lambda>v.
       let fidx = int (unat v) in
       if fidx \<ge> 64 then Inl Fault else
       let chsize = GetChunkSizeFromFreeListIdx fidx in
       seqE (MemoryChunkGetBlock w chunk) (\<lambda>b.
         Inr (chsize, False, warn (\<not> FreeListIdxIsValid fidx) (BadChunkClass chunk block)
           @ warn (block \<noteq> b) (BadBlockOffset chunk block)))))"

definition check_request :: "world \<Rightarrow> addr \<Rightarrow> addr \<Rightarrow> Size \<Rightarrow> Size \<Rightarrow> error + warning list" where
  "check_request w block chunk dsize chsize =
     seqE (if dsize \<noteq> InvalidAllocSize \<and> dsize < chsize
           then seqE (sentinel_ok w chunk (of_nat ALLOC_CHUNKHDRSZ + dsize)) (\<lambda>ok. Inr (\<not> ok))
           else Inr False) (\<lambda>overrun.
       Inr (warn (dsize \<noteq> InvalidAllocSize \<and> dsize > chsize) (RequestTooLarge chunk block)
         @ warn (chsize < push_bit ALLOC_MINBITS 1) (BadChunkSize chsize chunk block)
         @ warn overrun (WrittenPastEnd block chunk)))"

text \<open>The inner loop. Its state: the position, the bytes and the number of chunks so far, whether an
  external chunk was seen, the warnings.\<close>

definition check_chunk :: "(addr \<Rightarrow> Size) \<Rightarrow> world \<Rightarrow> addr \<Rightarrow> AllocBlockData \<Rightarrow> Size
    \<Rightarrow> addr \<times> Size \<times> Size \<times> bool \<times> warning list \<Rightarrow> error + addr \<times> Size \<times> Size \<times> bool \<times> warning list" where
  "check_chunk requested_size w block k blk_used = (\<lambda>(bpoz, blk_data, nchunks, has_external_chunk, ws).
     let chunk = bpoz in
     seqE (check_header w block k blk_used chunk) (\<lambda>(chsize, external, ws1).
     seqE (check_request w block chunk (requested_size chunk) chsize) (\<lambda>ws2.
       Inr (bpoz + unat (of_nat ALLOC_CHUNKHDRSZ + chsize), blk_data + chsize, nchunks + 1,
            has_external_chunk \<or> external, ws @ ws1 @ ws2))))"

text \<open>The body of the outer loop: the size of the block and its warnings.\<close>

definition check_block :: "(addr \<Rightarrow> Size) \<Rightarrow> world \<Rightarrow> addr \<Rightarrow> addr \<Rightarrow> addr
    \<Rightarrow> AllocBlockData \<Rightarrow> error + Size \<times> warning list" where
  "check_block requested_size w cset prevblock block k =
     (let bpoz = block + ALLOC_BLOCKHDRSZ;
          blk_used = ptr_diff (freeptr k) bpoz;
          size = (if IsKeeperBlock cset block then ptr_diff (endptr k) cset else ptr_diff (endptr k) block) in
      seqE (loopE (\<lambda>(bpoz, _). bpoz < freeptr k) (check_chunk requested_size w block k blk_used)
             (bpoz, 0, 0, False, [])) (\<lambda>(_, blk_data, nchunks, has_external_chunk, ws).
        Inr (size,
          warn (blk_used = 0 \<and> \<not> IsKeeperBlock cset block) (EmptyBlock block)
          @ warn (aset k \<noteq> cset \<or> bprev k \<noteq> prevblock \<or> freeptr k < bpoz \<or> freeptr k > endptr k)
              (CorruptBlock block)
          @ ws
          @ warn (blk_data + nchunks * of_nat ALLOC_CHUNKHDRSZ \<noteq> blk_used) (InconsistentBlock block)
          @ warn (has_external_chunk \<and> nchunks > 1) (ExternalNotDedicated block))))"

definition AllocSetCheck :: "(addr \<Rightarrow> Size) \<Rightarrow> world \<Rightarrow> addr \<Rightarrow> error + warning list" where
  "AllocSetCheck requested_size w context =
     seqE (get_ctx w context) (\<lambda>s.
     seqE (loopE (\<lambda>(prevblock, block, total_allocated, ws). block \<noteq> 0)
       (\<lambda>(prevblock, block, total_allocated, ws).
          seqE (get_blk w block) (\<lambda>k.
          seqE (check_block requested_size w context prevblock block k) (\<lambda>(size, ws').
            Inr (block, bnext k, total_allocated + size, ws @ ws'))))
       (0, blocks s, 0, [])) (\<lambda>(prevblock, block, total_allocated, ws).
     seqE (assertE (total_allocated = mem_allocated s)) (\<lambda>_. Inr ws)))"

section \<open>The debug helpers\<close>

lemma sentinel_set:
  assumes "in_region w (a + unat offset) 1"
  obtains w' where "set_sentinel a offset w = Inr w'" and "sentinel_ok w' a offset = Inr True"
    and "mem w' = (mem w)(a + unat offset := 0x7E)"
  using assms that by (simp add: set_sentinel_def sentinel_ok_def store8E_def load8E_def in_region_def)

text \<open>A pointer whose header was wiped has a reserved method id, so it is reported when it is freed again.\<close>

lemma wiped_pointer_reported:
  assumes wipe: "wipe_mem a n w = Inr w'" and p: "8 dvd p" "a + 8 \<le> p" "p \<le> a + unat n" "p < 2 ^ 64"
  shows "pfree p w' = Inl (Corruption p) \<and> repalloc_extended p sz flags w' = Inl (Corruption p)
    \<and> GetMemoryChunkContext w' p = Inl (Corruption p) \<and> GetMemoryChunkSpace w' p = Inl (Corruption p)"
proof -
  have n: "n \<noteq> 0" and r: "in_region w a (unat n)" and w': "w' = w\<lparr>mem := fill (mem w) a 0x7F (unat n)\<rparr>"
    using wipe p by (auto simp: wipe_mem_def memsetE_def split: if_splits)
  have "in_region w (p - 8) 8" by (rule in_region_sub[OF r]) (use p in auto)
  then have "load64E w' (p - 8) = Inr (load64 (mem w') (p - 8))"
    by (simp add: load64E_def w' in_region_def)
  moreover have "load64 (mem w') (p - 8) = 0x7F7F7F7F7F7F7F7F"
  proof -
    have b: "mem w' (p - 8 + i) = 0x7F" if "i < 8" for i
      using that p by (auto simp: w' fill_def)
    show ?thesis unfolding load64_def using b[of 0] b[of 1] b[of 2] by (simp add: b)
  qed
  ultimately have "load64E w' (p - 8) = Inr 0x7F7F7F7F7F7F7F7F" by simp
  then show ?thesis
    by (rule Bogus_dispatch[OF p(1) _ p(4), rotated]) (use p in \<open>simp_all add: MEMORY_CONTEXT_METHODID_MASK_def MEMORY_CONTEXT_METHODID_BITS_def\<close>)
qed

section \<open>What it is to report\<close>

text \<open>
  The warnings that can occur for a chunk with a proper header: \<open>chunk\<close> is the address of the header,
  \<open>n\<close> the room behind it, \<open>r\<close> the requested size.
\<close>

definition chunk_warnings :: "(addr \<Rightarrow> byte) \<Rightarrow> addr \<Rightarrow> (addr \<Rightarrow> Size) \<Rightarrow> addr \<times> nat \<Rightarrow> warning list" where
  "chunk_warnings m block requested_size = (\<lambda>(chunk, n).
     let r = requested_size chunk in
     warn (r \<noteq> InvalidAllocSize \<and> n < unat r) (RequestTooLarge chunk block)
     @ warn (n < 8) (BadChunkSize (of_nat n) chunk block)
     @ warn (r \<noteq> InvalidAllocSize \<and> unat r < n \<and> m (chunk + 8 + unat r) \<noteq> 0x7E) (WrittenPastEnd block chunk))"

text \<open>The chunks of a block in the order of their addresses.\<close>

definition unit_list :: "(addr \<Rightarrow> AllocBlockData option) \<Rightarrow> ghost \<Rightarrow> addr \<Rightarrow> (addr \<times> nat) list" where
  "unit_list B g b =
     (case gtiles g b of None \<Rightarrow> [(b + 40, endptr (the (B b)) - (b + 48))]
      | Some ts \<Rightarrow> map (\<lambda>(x, k). (x, class_size k)) ts)"

definition all_warnings :: "(addr \<Rightarrow> ghost) \<Rightarrow> world \<Rightarrow> (addr \<Rightarrow> Size) \<Rightarrow> addr \<Rightarrow> warning list" where
  "all_warnings G w requested_size c =
     concat (map (\<lambda>b. concat (map (chunk_warnings (mem w) b requested_size) (unit_list (blks w) (G c) b)))
       (gblocks (G c)))"

section \<open>The result\<close>

lemma warn_simps [simp]: "warn False x = []" "warn True x = [x]"
  by (simp_all add: warn_def)

text \<open>The units of a block follow each other from \<open>a\<close> to \<open>e\<close>.\<close>

fun contiguous :: "addr \<Rightarrow> (addr \<times> nat) list \<Rightarrow> addr \<Rightarrow> bool" where
  "contiguous a [] e \<longleftrightarrow> a = e"
| "contiguous a ((x, n) # us) e \<longleftrightarrow> x = a \<and> contiguous (x + 8 + n) us e"

lemma contiguous_end: "contiguous a us e \<Longrightarrow> e = a + (\<Sum>u \<leftarrow> us. snd u) + 8 * length us"
  by (induction a us e rule: contiguous.induct) auto

lemma tiled_contiguous: "tiled m b a ts e \<Longrightarrow> contiguous a (map (\<lambda>(x, k). (x, class_size k)) ts) e"
  by (induction m b a ts e rule: tiled.induct) auto

lemma check_request_run:
  assumes r: "in_region w (x + 8) n" and n: "n + 8 < 2 ^ 64"
  shows "check_request w b x (rq x) (of_nat n) = Inr (chunk_warnings (mem w) b rq (x, n))"
proof -
  have un: "unat (of_nat n :: Size) = n" using n by (intro unat_of_nat_small) simp
  have cmp: "rq x < of_nat n \<longleftrightarrow> unat (rq x) < n" "of_nat n < rq x \<longleftrightarrow> n < unat (rq x)"
    "(of_nat n :: Size) < push_bit ALLOC_MINBITS 1 \<longleftrightarrow> n < 8"
    by (simp_all add: word_less_nat_alt un)
  show ?thesis
  proof (cases "unat (rq x) < n")
    case True
    have "in_region w (x + 8 + unat (rq x)) 1" by (rule in_region_sub[OF r]) (use True in auto)
    moreover have "unat (of_nat ALLOC_CHUNKHDRSZ + rq x) = 8 + unat (rq x)"
      using True n by (simp add: unat_word_ariths)
    ultimately show ?thesis
      using True unfolding check_request_def chunk_warnings_def cmp
      by (simp add: sentinel_ok_def load8E_def add.assoc Let_def del: sizes)
  next
    case False
    then show ?thesis unfolding check_request_def chunk_warnings_def cmp by (simp add: Let_def)
  qed
qed

lemma check_header_tile:
  assumes hdr: "regular_hdr (mem w) x b (of_nat k) MCTX_ASET_ID" and k: "k < 11" and r: "in_region w x 8"
  shows "check_header w b K u x = Inr (of_nat (class_size k), False, [])"
proof -
  have "unat (of_nat k :: Size) = k" using k by (intro unat_of_nat_small) simp
  moreover have "GetChunkSizeFromFreeListIdx (int k) = of_nat (class_size k)"
    using unat_class(1)[OF k] by (metis of_nat_unat_word)
  moreover have "FreeListIdxIsValid (int k)" using k by (simp add: FreeListIdxIsValid_def)
  ultimately show ?thesis
    using regular_hdr_read[OF hdr r] k by (simp add: check_header_def Let_def del: of_nat_unat)
qed

text \<open>The inner loop over the units of a block, of which the first may be external.\<close>

lemma check_units:
  assumes "contiguous a us e" and "e < 2 ^ 64"
    and "\<And>x n. (x, n) \<in> set us \<Longrightarrow> check_header w b K u x = Inr (of_nat n, ext, []) \<and> in_region w (x + 8) n"
  shows "loopE (\<lambda>(bpoz, _). bpoz < e) (check_chunk rq w b K u) (a, d, c, h, ws)
    = Inr (e, d + of_nat (\<Sum>u \<leftarrow> us. snd u), c + of_nat (length us), h \<or> ext \<and> us \<noteq> [],
           ws @ concat (map (chunk_warnings (mem w) b rq) us))"
  using assms
proof (induction us arbitrary: a d c h ws)
  case Nil
  then show ?case by (simp add: loopE_stop)
next
  case (Cons v us)
  obtain n where v: "v = (a, n)" using Cons.prems(1) by (cases v) auto
  have ce: "contiguous (a + 8 + n) us e" using Cons.prems(1) v by simp
  have le: "a + 8 + n \<le> e" using contiguous_end[OF ce] by simp
  have hd: "check_header w b K u a = Inr (of_nat n, ext, [])" "in_region w (a + 8) n"
    using Cons.prems(3)[of a n] v by simp_all
  have un: "unat (of_nat ALLOC_CHUNKHDRSZ + of_nat n :: Size) = 8 + n"
    using unat_of_nat_small[of "8 + n"] le Cons.prems(2) by simp
  have "check_chunk rq w b K u (a, d, c, h, ws)
      = Inr (a + 8 + n, d + of_nat n, c + 1, h \<or> ext, ws @ chunk_warnings (mem w) b rq (a, n))"
    using check_request_run[OF hd(2), of b rq] hd(1) le Cons.prems(2) un
    by (simp add: check_chunk_def Let_def)
  then have "loopE (\<lambda>(bpoz, _). bpoz < e) (check_chunk rq w b K u) (a, d, c, h, ws)
      = loopE (\<lambda>(bpoz, _). bpoz < e) (check_chunk rq w b K u)
          (a + 8 + n, d + of_nat n, c + 1, h \<or> ext, ws @ chunk_warnings (mem w) b rq (a, n))"
    using le by (intro loopE_step) simp_all
  also have "\<dots> = Inr (e, d + of_nat n + of_nat (\<Sum>u \<leftarrow> us. snd u), c + 1 + of_nat (length us),
      (h \<or> ext) \<or> ext \<and> us \<noteq> [],
      (ws @ chunk_warnings (mem w) b rq (a, n)) @ concat (map (chunk_warnings (mem w) b rq) us))"
    by (rule Cons.IH[OF ce Cons.prems(2)]) (use Cons.prems(3) in simp)
  finally show ?case by (auto simp: v add.assoc)
qed

lemma unit_list_facts:
  assumes ok: "heap_ok G w" and c: "ctxs w c = Some s" and b: "b \<in> set (gblocks (G c))" and K: "blks w b = Some K"
  shows "contiguous (b + 40) (unit_list (blks w) (G c) b) (freeptr K)"
    and "(x, n) \<in> set (unit_list (blks w) (G c) b) \<Longrightarrow> in_region w (x + 8) n \<and>
      check_header w b K (ptr_diff (freeptr K) (b + ALLOC_BLOCKHDRSZ)) x = Inr (of_nat n, gtiles (G c) b = None, [])"
proof -
  obtain K0 where K0: "blks w b = Some K0" "block_ok (set (regions w)) (mem w) c b K0 (gtiles (G c) b)"
      "(base c b, endptr K0 - base c b) \<in> set (regions w)" "freeptr K0 \<le> endptr K0" "endptr K0 < 2 ^ 64"
    by (rule heap_ok_block[OF ok c b])
  then have bk: "block_ok (set (regions w)) (mem w) c b K (gtiles (G c) b)" using K by simp
  have reg: "in_region w a j" if "b \<le> a" "a + j \<le> freeptr K" for a j
    using that K0 K base_le[of c b] by (intro in_regionI[OF K0(3)]) auto
  have "contiguous (b + 40) (unit_list (blks w) (G c) b) (freeptr K) \<and>
    ((x, n) \<in> set (unit_list (blks w) (G c) b) \<longrightarrow> in_region w (x + 8) n \<and>
      check_header w b K (ptr_diff (freeptr K) (b + ALLOC_BLOCKHDRSZ)) x = Inr (of_nat n, gtiles (G c) b = None, []))"
  proof (cases "gtiles (G c) b")
    case None
    have f: "freeptr K = endptr K" "b + 48 \<le> endptr K" "external_hdr (mem w) (b + 40) MCTX_ASET_ID"
      using bk None by (simp_all add: block_ok_def)
    have "MemoryChunkIsExternal w (b + 40) = Inr True" by (rule large_reads[OF ok c b None])
    moreover have "ptr_diff (endptr K) (b + 48) = of_nat (endptr K - (b + 48))"
      "ptr_diff (endptr K) (b + 40) = of_nat (endptr K - (b + 48)) + 8"
      using f(2) by (simp_all add: ptr_diff_def of_nat_diff)
    ultimately show ?thesis
      using f reg[of "b + 48" "endptr K - (b + 48)"] None K
      by (simp add: unit_list_def check_header_def MemoryChunkGetPointer_def sizeof_MemoryChunk_def
          Let_def add.commute[of _ b])
  next
    case (Some ts)
    have tl: "tiled (mem w) b (b + 40) ts (freeptr K)" using bk Some by (simp add: block_ok_def)
    have "in_region w (x + 8) n \<and> check_header w b K u x = Inr (of_nat n, False, [])"
      if xn: "(x, n) \<in> set (map (\<lambda>(x, k). (x, class_size k)) ts)" for u
    proof -
      obtain k where k: "(x, k) \<in> set ts" "n = class_size k" using xn by auto
      note bd = tiled_bounds[OF tl k(1)]
      show ?thesis
        using check_header_tile[OF tiled_hdr[OF tl k(1)], of K u] reg[of x 8] reg[of "x + 8" n] bd k(2) by simp
    qed
    then show ?thesis using tiled_contiguous[OF tl] Some by (simp add: unit_list_def)
  qed
  then show "contiguous (b + 40) (unit_list (blks w) (G c) b) (freeptr K)"
    and "(x, n) \<in> set (unit_list (blks w) (G c) b) \<Longrightarrow> in_region w (x + 8) n \<and>
      check_header w b K (ptr_diff (freeptr K) (b + ALLOC_BLOCKHDRSZ)) x = Inr (of_nat n, gtiles (G c) b = None, [])"
    by simp_all
qed

lemma check_block_run:
  assumes ok: "heap_ok G w" and c: "ctxs w c = Some s" and b: "b \<in> set (gblocks (G c))" and K: "blks w b = Some K"
    and prev: "bprev K = p"
  shows "check_block rq w c p b K = Inr (of_nat (block_size (blks w) c b),
     concat (map (chunk_warnings (mem w) b rq) (unit_list (blks w) (G c) b)))"
proof -
  let ?us = "unit_list (blks w) (G c) b"
  obtain K0 where K0: "blks w b = Some K0" "block_ok (set (regions w)) (mem w) c b K0 (gtiles (G c) b)"
      "b + 40 \<le> freeptr K0" "freeptr K0 \<le> endptr K0" "endptr K0 < 2 ^ 64" "aset K0 = c"
    by (rule heap_ok_block[OF ok c b])
  then have f: "b + 40 \<le> freeptr K" "freeptr K \<le> endptr K" "endptr K < 2 ^ 64" "aset K = c"
      "block_ok (set (regions w)) (mem w) c b K (gtiles (G c) b)" using K by auto
  note ul = unit_list_facts[OF ok c b K]
  have used: "ptr_diff (freeptr K) (b + ALLOC_BLOCKHDRSZ) = of_nat (freeptr K - (b + 40))"
    using f(1) by (simp add: ptr_diff_def of_nat_diff)
  have sum: "freeptr K - (b + 40) = (\<Sum>u \<leftarrow> ?us. snd u) + length ?us * 8"
    using contiguous_end[OF ul(1)] by simp
  have loop: "loopE (\<lambda>(bpoz, _). bpoz < freeptr K)
      (check_chunk rq w b K (ptr_diff (freeptr K) (b + ALLOC_BLOCKHDRSZ))) (b + ALLOC_BLOCKHDRSZ, 0, 0, False, [])
    = Inr (freeptr K, of_nat (\<Sum>u \<leftarrow> ?us. snd u), of_nat (length ?us), gtiles (G c) b = None \<and> ?us \<noteq> [],
        concat (map (chunk_warnings (mem w) b rq) ?us))"
    using check_units[OF ul(1), of w b K "ptr_diff (freeptr K) (b + ALLOC_BLOCKHDRSZ)"
        "gtiles (G c) b = None" rq 0 0 False "[]"] ul(2) f(2,3) by simp
  have size: "(if IsKeeperBlock c b then ptr_diff (endptr K) c else ptr_diff (endptr K) b)
      = of_nat (block_size (blks w) c b)"
    using f(1,2) K base_le[of c b] by (auto simp: block_size_def base_def ptr_diff_def of_nat_diff IsKeeperBlock_def KeeperBlock_eq)
  have empty: "IsKeeperBlock c b" if "ptr_diff (freeptr K) (b + ALLOC_BLOCKHDRSZ) = 0"
  proof -
    have "freeptr K - (b + 40) = 0"
      using that unat_of_nat_small[of "freeptr K - (b + 40)"] f(2,3) unfolding used by simp
    then have "?us = []" using sum by simp
    then have "gtiles (G c) b = Some []" by (auto simp: unit_list_def split: option.splits)
    then show ?thesis using f(5) by (simp add: block_ok_def)
  qed
  have data: "of_nat (\<Sum>u \<leftarrow> ?us. snd u) + of_nat (length ?us) * of_nat ALLOC_CHUNKHDRSZ
      = ptr_diff (freeptr K) (b + ALLOC_BLOCKHDRSZ)"
    unfolding used sum by simp
  have single: "gtiles (G c) b = None \<Longrightarrow> \<not> (1 :: Size) < of_nat (length ?us)"
    by (simp add: unit_list_def)
  have conds: "(ptr_diff (freeptr K) (b + ALLOC_BLOCKHDRSZ) = 0 \<and> \<not> IsKeeperBlock c b) = False"
    "(aset K \<noteq> c \<or> bprev K \<noteq> p \<or> freeptr K < b + ALLOC_BLOCKHDRSZ \<or> freeptr K > endptr K) = False"
    "(of_nat (\<Sum>u \<leftarrow> ?us. snd u) + of_nat (length ?us) * of_nat ALLOC_CHUNKHDRSZ
      \<noteq> ptr_diff (freeptr K) (b + ALLOC_BLOCKHDRSZ)) = False"
    "((gtiles (G c) b = None \<and> ?us \<noteq> []) \<and> of_nat (length ?us) > (1 :: Size)) = False"
    using empty data single f(1,2,4) prev by auto
  show ?thesis
    unfolding check_block_def Let_def size loop seqE_simps prod.case conds warn_simps append_Nil append_Nil2 ..
qed

text \<open>When there is nothing to report.\<close>

lemma all_warnings_empty:
  "all_warnings G w rq c = [] \<longleftrightarrow>
    (\<forall>b \<in> set (gblocks (G c)). \<forall>(x, n) \<in> set (unit_list (blks w) (G c) b).
       8 \<le> n \<and> (rq x \<noteq> InvalidAllocSize \<longrightarrow> unat (rq x) \<le> n
         \<and> (unat (rq x) < n \<longrightarrow> mem w (x + 8 + unat (rq x)) = 0x7E)))"
proof -
  have "chunk_warnings m b rq (x, n) = [] \<longleftrightarrow> 8 \<le> n \<and> (rq x \<noteq> InvalidAllocSize \<longrightarrow> unat (rq x) \<le> n
      \<and> (unat (rq x) < n \<longrightarrow> m (x + 8 + unat (rq x)) = 0x7E))" for m b x n
    by (auto simp: chunk_warnings_def warn_def Let_def not_less)
  then show ?thesis unfolding all_warnings_def concat_eq_Nil_conv by fastforce
qed

lemma AllocSetCheck_run:
  assumes ok: "heap_ok G w" and c: "ctxs w c = Some s"
  shows "AllocSetCheck rq w c = Inr (all_warnings G w rq c)"
proof -
  let ?bs = "gblocks (G c)"
  let ?f = "\<lambda>b. concat (map (chunk_warnings (mem w) b rq) (unit_list (blks w) (G c) b))"
  let ?body = "\<lambda>(prevblock, block, total_allocated, ws).
          seqE (get_blk w block) (\<lambda>k.
          seqE (check_block rq w c prevblock block k) (\<lambda>(size, ws').
            Inr (block, bnext k, total_allocated + size, ws @ ws')))"
  have A: "aset_ok (set (regions w)) (mem w) (blks w) c s (G c)" by (rule heap_okD(2)[OF ok c])
  then have seg: "dseg bnext bprev (blks w) 0 ?bs 0" and d: "distinct ?bs" and head: "blocks s = first ?bs 0"
    by (simp_all add: aset_ok_def blocks_ok_def)
  have run: "loopE (\<lambda>(prevblock, block, total_allocated, ws). block \<noteq> 0) ?body (p, first bs 0, t, ws)
    = Inr (last (p # bs), 0, t + of_nat (\<Sum>b \<leftarrow> bs. block_size (blks w) c b), ws @ concat (map ?f bs))"
    if "dseg bnext bprev (blks w) p bs 0" "set bs \<subseteq> set ?bs" for bs p t ws
    using that
  proof (induction bs arbitrary: p t ws)
    case Nil
    then show ?case by (simp add: loopE_stop)
  next
    case (Cons b bs)
    then obtain K where K: "blks w b = Some K" "bprev K = p" "bnext K = first bs 0" "b \<noteq> 0" by auto
    have b: "b \<in> set ?bs" using Cons.prems(2) by simp
    have "?body (p, b, t, ws) = Inr (b, first bs 0, t + of_nat (block_size (blks w) c b), ws @ ?f b)"
      using check_block_run[OF ok c b K(1,2), of rq] K by (simp add: get_blk_def)
    then have "loopE (\<lambda>(prevblock, block, total_allocated, ws). block \<noteq> 0) ?body (p, b, t, ws)
        = loopE (\<lambda>(prevblock, block, total_allocated, ws). block \<noteq> 0) ?body
            (b, first bs 0, t + of_nat (block_size (blks w) c b), ws @ ?f b)"
      by (rule loopE_step[rotated]) (use K(4) in simp)
    also have "\<dots> = Inr (last (b # bs), 0, t + of_nat (block_size (blks w) c b)
        + of_nat (\<Sum>b \<leftarrow> bs. block_size (blks w) c b), (ws @ ?f b) @ concat (map ?f bs))"
      by (rule Cons.IH) (use Cons.prems in simp_all)
    finally show ?case by (simp only: first.simps last.simps list.simps concat.simps append_assoc
          sum_list.Cons of_nat_add add.assoc if_False)
  qed
  have "mem_allocated s = of_nat (\<Sum>b \<leftarrow> ?bs. block_size (blks w) c b)"
    using A by (simp add: aset_ok_def sum_list_distinct_conv_sum_set[OF d])
  then show ?thesis
    using run[OF seg, of 0 "[]"] c
    by (simp add: AllocSetCheck_def get_ctx_def head all_warnings_def)
qed

end
