(* ===== verification/Spec2Isabelle.thy ===== *)
theory Spec2Isabelle
  imports Sample Check
begin

text \<open>
  The memory contexts of PostgreSQL as a stand-alone C library (\<open>src/\<close>): a hierarchical arena
  allocator. Memory is allocated in contexts, contexts form a tree, and resetting or deleting a
  context gives back everything that was allocated in it and below it.

  \<^bold>\<open>The program and its model.\<close> Each definition has the name of the C function, macro or struct it
  models; long functions are split where the source has a comment, into helpers that the main
  definition calls in the order of the code.

  \<^item> \<open>Prelude\<close>: outcomes (\<open>error + 'a\<close>, with a value for every way in which the process can stop),
    sequencing, assertions, and \<open>while\<close> loops. A loop that does not end has the outcome
    \<open>Diverges\<close>, so there is no fuel and no bound to choose: a theorem that a function returns
    \<open>Inr\<close> includes that its loops end.
  \<^item> \<open>PgCompat\<close> (\<open>pg_compat.h\<close>, limits of \<open>memutils.h\<close>, flags of \<open>palloc.h\<close>): alignment, bit scan,
    checked arithmetic on 64-bit sizes.
  \<^item> \<open>World\<close> (\<open>memnodes.h\<close>, structs of \<open>aset.c\<close>): the state of the process. Contexts and block headers
    are records at their address, all other memory is bytes; every access is checked against the
    live \<open>malloc\<close> regions. What \<open>malloc\<close> answers is an arbitrary list, so the theorems hold for every
    placement and every failure.
  \<^item> \<open>MemoryChunk\<close> (\<open>memutils_memorychunk.h\<close>, method ids of \<open>mctx_internal.h\<close>): the packed 64-bit
    header before each chunk. \<open>SizeClasses\<close> (\<open>aset.c\<close>): size classes and block growth.
  \<^item> \<open>AllocSet\<close> and \<open>Stats\<close> (\<open>aset.c\<close>), \<open>ContextTree\<close>, \<open>Callbacks\<close>, \<open>Lifecycle\<close>, \<open>Palloc\<close> (\<open>mcxt.c\<close>,
    \<open>alignedalloc.c\<close>): all operations. The table \<open>mcxt_methods\<close> is a case distinction on the method
    id; the functions of reset callbacks are client code and a parameter \<open>cbf\<close>, of which \<open>quiet\<close>
    states what is assumed (they return, and write only to memory that is the client's).

  \<^bold>\<open>The invariants.\<close> \<open>HeapInv\<close> gives the abstract state of the allocator, the set of chunks
  \<open>(pointer, context, size)\<close>, and \<open>heap_ok\<close>, which ties it to blocks, headers and freelists with the
  help of a ghost value per context. \<open>links_ok\<close> (\<open>TreeProofs\<close>) says that the links of the contexts are
  those of a tree given by the lists of children, \<open>freelists_ok\<close> that deleted contexts wait in one of
  two lists to be used again, and \<open>lib_ok\<close> (\<open>DeleteProofs\<close>) puts the three together.

  \<^bold>\<open>The lemmas.\<close> \<open>Links\<close> proves list surgery on doubly linked structures once, in the locale
  \<open>dlinks\<close>, for block lists and for siblings. \<open>HeapSteps\<close> has the elementary changes of the heap;
  \<open>AllocProofs\<close>, \<open>FreeProofs\<close>, \<open>ResetProofs\<close> and \<open>DeleteProofs\<close> compose them into the contracts of the
  allocation set, \<open>PallocProofs\<close> lifts them to the public interface and adds aligned chunks,
  \<open>CallbackProofs\<close>, \<open>TreeProofs\<close>, \<open>CreateProofs\<close>, \<open>SubtreeProofs\<close>, \<open>ResetTreeProofs\<close> and
  \<open>LibraryProofs\<close> do the same for callbacks, links, creation and the deletion or reset of subtrees. \<open>StringProofs\<close> and \<open>StatsProofs\<close> are about
    the string functions and the statistics. \<open>Check\<close> models \<open>AllocSetCheck\<close> and the helpers of
  \<open>memdebug.h\<close>, and shows that the check accepts every state with the invariant. \<open>ProgressProofs\<close> shows that nothing fails for lack of
  memory as long as \<open>malloc\<close> grants what is asked: a request of up to \<open>2 ^ 30\<close> bytes more than the
  size, since a block is never larger than that beyond the chunk it is made for.

  \<^bold>\<open>The interfaces.\<close> The locales \<open>chunk_pool\<close> and \<open>resizable_pool\<close> (\<open>Pool\<close>) state the laws of
  allocation, release and resizing and are interpreted on \<open>MemoryContextAlloc\<close>, \<open>palloc\<close>, \<open>pfree\<close> and
  \<open>repalloc\<close>. \<open>Client\<close> describes the library from outside: the view of a client, its obligations, its
  calls, with aligned allocations and reset callbacks, and the states it can reach from
  \<open>MemoryContextInit\<close>; \<open>ClientData\<close> relates its pointers and callback structs to chunks and memory, and
  \<open>ClientProofs\<close> shows that the view agrees with the state after every call, and interprets the locale
  \<open>service\<close>. A view is a specification of the whole library that mentions no block, header or freelist.

  \<^bold>\<open>This theory\<close> states the properties of the program, most of them for an arbitrary state with the
  invariant, and applies each to a concrete state (\<open>Sample\<close>). First come the contracts of the single
  operations, then the properties of runs from the start of the process.

  \<^bold>\<open>What the proofs showed of the code.\<close> \<open>MemoryContextAllocAligned\<close> does not check the sum of the size
  and its padding for overflow (\<open>MemoryContextAllocAligned_wraps\<close>), and a recycled context keeps the
  chunk limit of its former block size (\<open>recycle_keeps_limit\<close>); neither breaks the invariant.

  \<^bold>\<open>Bounds.\<close> Sizes are 64-bit words and wrap; sizes of blocks below \<open>2 ^ 30\<close> come from the assertion of
  \<open>AllocSetContextCreateInternal\<close>. Struct sizes are those of the LP64 ABI. \<open>mem_allocated\<close> is exact
  modulo \<open>2 ^ 64\<close>.

  \<^bold>\<open>Not modelled.\<close> The text of error messages on \<open>stderr\<close> (a report is the error with the number or
  pointer it prints, then the process stops, as \<open>abort()\<close> does); the hooks for Valgrind, the clobbering
  of freed memory and the sentinel bytes of \<open>MEMORY_CONTEXT_CHECKING\<close> inside the operations, which the
  Makefile leaves undefined (the check itself and the helpers are in \<open>Check\<close>); the test programs. In
  the runs of a client the functions of reset callbacks do not touch memory, which the contracts of the
  single operations allow them, and the structs lie in chunks of the client. The library is not thread-safe and the model is sequential.
\<close>

unbundle bit_operations_syntax

lemma sample_fields:
  "ctxs sample_world 4096 = Some sample_parent" "CurrentMemoryContext sample_world = 4096"
  "ctxs sample_world (CurrentMemoryContext sample_world) = Some sample_parent"
  "ctxs sample_world 65536 = Some sample_child"
  by (simp_all add: sample_world_def)

lemma sample_grants: "0 < n \<Longrightarrow> n \<le> 2 ^ 31 \<Longrightarrow> grants sample_world n"
  by (simp add: grants_def sample_world_def admissible_def overlaps_def)

section \<open>Allocation\<close>

text \<open>C4: \<open>MemoryContextAllocExtended\<close> refines the abstract allocator. With the invariant, for any
  flags: a size outside the limit is reported; else a chunk that was not in use, in the requested
  context, with room for the size (zeroed where asked for) is returned, all other chunks keep their
  place and contents, and the invariant holds again; or, when \<open>malloc\<close> fails, the process
  reports out of memory, or returns null where \<open>MCXT_ALLOC_NO_OOM\<close> asks for it, with no chunk
  changed.\<close>

theorem MemoryContextAllocExtended_correct:
  assumes "heap_ok G w" and "ctxs w c = Some s"
  shows "alloc_post G w c sz flags (flags AND MCXT_ALLOC_ZERO \<noteq> 0)
    (MemoryContextAllocExtended c sz flags w)"
  by (rule MemoryContextAlloc_post(4)[OF assms])

theorem MemoryContextAllocExtended_correct_witness:
  "alloc_post sample_ghost sample_world 4096 100 MCXT_ALLOC_ZERO
     (MCXT_ALLOC_ZERO AND MCXT_ALLOC_ZERO \<noteq> 0)
     (MemoryContextAllocExtended 4096 100 MCXT_ALLOC_ZERO sample_world)"
  by (rule MemoryContextAllocExtended_correct[OF sample_heap_ok sample_fields(1)])

text \<open>C31: \<open>MemoryContextAlloc\<close>, \<open>MemoryContextAllocZero\<close> and \<open>MemoryContextAllocHuge\<close> do what
  \<open>MemoryContextAllocExtended\<close> does with the flags 0, zero and huge; in particular they never return
  null. \<open>palloc\<close>, \<open>palloc0\<close> and \<open>palloc_extended\<close> do the same in \<open>CurrentMemoryContext\<close>; their
  assertions never fail.\<close>

theorem MemoryContextAlloc_correct:
  assumes "heap_ok G w" and "ctxs w c = Some s" and "ctxs w (CurrentMemoryContext w) = Some t"
  shows "alloc_post G w c sz 0 False (MemoryContextAlloc c sz w)
    \<and> alloc_post G w c sz 0 True (MemoryContextAllocZero c sz w)
    \<and> alloc_post G w c sz MCXT_ALLOC_HUGE False (MemoryContextAllocHuge c sz w)
    \<and> alloc_post G w (CurrentMemoryContext w) sz 0 False (palloc sz w)
    \<and> alloc_post G w (CurrentMemoryContext w) sz 0 True (palloc0 sz w)
    \<and> alloc_post G w (CurrentMemoryContext w) sz flags (flags AND MCXT_ALLOC_ZERO \<noteq> 0)
        (palloc_extended sz flags w)"
  using MemoryContextAlloc_post[OF assms(1,2)] palloc_post[OF assms(1,3)] by blast

theorem MemoryContextAlloc_correct_witness:
  "alloc_post sample_ghost sample_world 65536 100 0 False (MemoryContextAlloc 65536 100 sample_world)
   \<and> alloc_post sample_ghost sample_world 4096 100 0 True (palloc0 100 sample_world)"
  using MemoryContextAlloc_correct[OF sample_heap_ok sample_fields(4,3), of 100] by (simp add: sample_fields(2))

text \<open>C33: The array variants multiply without wrapping: a product that does not fit 64 bits is
  reported as \<open>SizeOverflow\<close>, any other one is allocated, or taken to resize a chunk, like a single
  object of that size.\<close>

theorem palloc_mul_correct:
  assumes "heap_ok G w" and "ctxs w (CurrentMemoryContext w) = Some s" and "(p, c, n) \<in> chunks G w"
  shows "if unat s1 * unat s2 < 2 ^ 64
    then alloc_post G w (CurrentMemoryContext w) (s1 * s2) 0 False (palloc_mul s1 s2 w)
      \<and> alloc_post G w (CurrentMemoryContext w) (s1 * s2) 0 True (palloc0_mul s1 s2 w)
      \<and> alloc_post G w (CurrentMemoryContext w) (s1 * s2) flags (flags AND MCXT_ALLOC_ZERO \<noteq> 0)
          (palloc_mul_extended s1 s2 flags w)
      \<and> realloc_post G w (p, c, n) (s1 * s2) 0 (repalloc_mul p s1 s2 w)
      \<and> realloc_post G w (p, c, n) (s1 * s2) flags (repalloc_mul_extended p s1 s2 flags w)
    else palloc_mul s1 s2 w = Inl SizeOverflow \<and> palloc0_mul s1 s2 w = Inl SizeOverflow
      \<and> palloc_mul_extended s1 s2 flags w = Inl SizeOverflow \<and> repalloc_mul p s1 s2 w = Inl SizeOverflow
      \<and> repalloc_mul_extended p s1 s2 flags w = Inl SizeOverflow"
  using palloc_mul_post[OF assms(1,2), of s1 s2 flags] repalloc_mul_post[OF assms(1,3), of s1 s2 flags]
  by (cases "unat s1 * unat s2 < 2 ^ 64") (simp_all del: unat_word_ariths)

theorem palloc_mul_correct_witness:
  "palloc_mul (2 ^ 40) (2 ^ 30) sample_world = Inl SizeOverflow
    \<and> repalloc_mul 4344 (2 ^ 40) (2 ^ 30) sample_world = Inl SizeOverflow"
  using palloc_mul_correct[OF sample_heap_ok _ sample_chunks(1), of sample_parent "2 ^ 40" "2 ^ 30" 0]
  by (simp add: sample_world_def)

text \<open>C20: \<open>MemoryContextAllocAligned\<close> with a power of two above 8 and a size that does not wrap
  around: the pointer is a multiple of the alignment, \<open>sz\<close> bytes behind it lie in one new chunk,
  and its header redirects to that chunk; failures are reported as for the padded size.\<close>

theorem MemoryContextAllocAligned_correct:
  assumes "heap_ok G w" and "ctxs w c = Some s" and "alignment_ok a"
    and "unat sz + unat a < 2 ^ 64"
  shows "aligned_post G w c sz a flags (MemoryContextAllocAligned c sz a flags w)"
  by (rule MemoryContextAllocAligned_post[OF assms])

theorem MemoryContextAllocAligned_correct_witness:
  "aligned_post sample_ghost sample_world 4096 100 64 0
     (MemoryContextAllocAligned 4096 100 64 0 sample_world)"
proof (rule MemoryContextAllocAligned_correct[OF sample_heap_ok sample_fields(1)])
  show "alignment_ok 64" unfolding alignment_ok_def by (intro exI[of _ 6]) simp
qed simp



section \<open>Freeing and resizing\<close>

text \<open>C5: \<open>pfree\<close> of a chunk in use succeeds and takes away exactly that chunk; every other chunk,
  its contents, and everything outside the library's blocks is as before, and the invariant holds
  again.\<close>

theorem pfree_correct:
  assumes "heap_ok G w" and "(p, c, n) \<in> chunks G w"
  shows "\<exists>G' w'. pfree p w = Inr w' \<and> freed G w (p, c, n) G' w'"
  by (rule pfree_chunk[OF assms])

theorem pfree_correct_witness:
  "\<exists>G' w'. pfree 20528 sample_world = Inr w' \<and> freed sample_ghost sample_world (20528, 4096, 16384) G' w'"
  by (rule pfree_correct[OF sample_heap_ok sample_chunks(2)])

text \<open>C6: \<open>repalloc\<close>, \<open>repalloc_extended\<close> and \<open>repalloc_huge\<close>: an accepted size gives a chunk of the
  same context with room for it in place of the old one, with the contents kept up to the smaller
  of the two sizes; when \<open>malloc\<close> fails the old chunk is untouched; another size is reported.\<close>

theorem repalloc_correct:
  assumes "heap_ok G w" and "(p, c, n) \<in> chunks G w"
  shows "realloc_post G w (p, c, n) sz 0 (repalloc p sz w)
    \<and> realloc_post G w (p, c, n) sz flags (repalloc_extended p sz flags w)
    \<and> realloc_post G w (p, c, n) sz MCXT_ALLOC_HUGE (repalloc_huge p sz w)"
  using repalloc_posts[OF assms] by blast

theorem repalloc_correct_witness:
  "realloc_spec sample_ghost sample_world (4344, 4096, 64) 100 0 (repalloc 4344 100 sample_world)"
  using repalloc_correct[OF sample_heap_ok sample_chunks(1), of 100 0]
  by (simp add: realloc_post_def size_accepted_def)

text \<open>C32: \<open>repalloc0\<close> also zeroes the bytes from the old size to the new one, and refuses to
  shrink. \<open>repalloc0_array\<close> does so with the products of the counts and the size of the type, or
  reports that one of them overflows.\<close>

theorem repalloc0_correct:
  assumes "heap_ok G w" and "(p, c, n) \<in> chunks G w"
  shows "(if unat sz < unat oldsize \<or> \<not> size_accepted sz 0
      then repalloc0 p oldsize sz w = Inl (BadSize sz)
      else repalloc0 p oldsize sz w = Inl (OutOfMemory sz)
        \<or> (\<exists>q G' w'. repalloc0 p oldsize sz w = Inr (q, w') \<and> q \<noteq> 0
            \<and> evolves G w (chunks G w - {(p, c, n)}) G' w'
            \<and> (\<exists>n'. unat sz \<le> n' \<and> chunks G' w' = insert (q, c, n') (chunks G w - {(p, c, n)}))
            \<and> (\<forall>i < min n (unat oldsize). mem w' (q + i) = mem w (p + i))
            \<and> (\<forall>i. unat oldsize \<le> i \<and> i < unat sz \<longrightarrow> mem w' (q + i) = 0)))
    \<and> repalloc0_array p tsz oldcount count w =
        (if unat tsz * unat oldcount < 2 ^ 64 \<and> unat tsz * unat count < 2 ^ 64
         then repalloc0 p (tsz * oldcount) (tsz * count) w else Inl SizeOverflow)"
  by (rule conjI, rule repalloc0_post[OF assms]) (simp add: repalloc0_array_def mul_size_eq)

theorem repalloc0_correct_witness:
  "repalloc0 4344 64 32 sample_world = Inl (BadSize 32)
    \<and> repalloc0_array 4344 (2 ^ 40) 1 (2 ^ 30) sample_world = Inl SizeOverflow"
  using repalloc0_correct[OF sample_heap_ok sample_chunks(1), of 32 64 "2 ^ 40" 1 "2 ^ 30"] by simp

text \<open>C21: A pointer from an aligned allocation stands for the chunk around it: \<open>pfree\<close> frees that
  chunk, \<open>GetMemoryChunkContext\<close> and \<open>GetMemoryChunkSpace\<close> answer for it.\<close>

theorem aligned_pointer_correct:
  assumes "heap_ok G w" and "aligned_at G w p a (q, c, n)" and "8 dvd p"
  shows "(\<exists>G' w'. pfree p w = Inr w' \<and> freed G w (q, c, n) G' w')
    \<and> GetMemoryChunkContext w p = Inr c \<and> GetMemoryChunkSpace w p = Inr (of_nat (n + 8))"
proof -
  have "(q, c, n) \<in> chunks G w" using assms(2) by (simp add: aligned_at_def)
  from pfree_chunk[OF assms(1) this] aligned_dispatch[OF assms] show ?thesis by simp
qed

theorem aligned_pointer_correct_witness:
  "GetMemoryChunkContext sample_world 20544 = Inr 4096
   \<and> GetMemoryChunkSpace sample_world 20544 = Inr 16392"
  using aligned_pointer_correct[OF sample_heap_ok sample_aligned] by simp

text \<open>C22: \<open>repalloc_extended\<close> of an aligned pointer gives an aligned pointer with the same alignment,
  keeps the contents and frees the chunk of the old one.\<close>

theorem repalloc_aligned_correct:
  assumes "heap_ok G w" and "aligned_at G w p a (q, c, n)" and "8 dvd p" and "alignment_ok a"
    and "unat sz + unat a < 2 ^ 64"
  shows "aligned_realloc_post G w p (q, c, n) sz a flags (repalloc_extended p sz flags w)"
  using AlignedAllocRealloc_post[OF assms(1,2,4,5)] mcxt_realloc_aligned[OF assms(1-3)]
  by (simp add: repalloc_extended_def)

theorem repalloc_aligned_correct_witness:
  "aligned_realloc_post sample_ghost sample_world 20544 (20528, 4096, 16384) 20000 64 0
     (repalloc_extended 20544 20000 0 sample_world)"
proof (rule repalloc_aligned_correct[OF sample_heap_ok sample_aligned])
  show "alignment_ok 64" unfolding alignment_ok_def by (intro exI[of _ 6]) simp
qed simp_all

section \<open>Chunks\<close>

text \<open>C12: Chunks are aligned to 8 bytes, lie with their header in one live malloc region, and two
  chunks never overlap, not even with the header of the other. \<open>GetMemoryChunkContext\<close> returns the
  context a chunk was allocated in and \<open>GetMemoryChunkSpace\<close> its size with the header.\<close>

theorem chunks_separate:
  assumes "heap_ok G w" and "(p, c, n) \<in> chunks G w" and "(q, d, j) \<in> chunks G w"
  shows "8 dvd p \<and> in_region w (p - 8) (8 + n)
    \<and> ((p, c, n) = (q, d, j) \<or> p + n + 8 \<le> q \<or> q + j + 8 \<le> p)
    \<and> GetMemoryChunkContext w p = Inr c \<and> GetMemoryChunkSpace w p = Inr (of_nat (n + 8))"
  using chunk_facts(1,4)[OF assms(1,2)] chunks_disjoint[OF assms] GetMemoryChunk_chunk[OF assms(1,2)] by simp

theorem chunks_separate_witness:
  "8 dvd (4344::nat) \<and> in_region sample_world 4336 72
    \<and> GetMemoryChunkContext sample_world 4344 = Inr 4096 \<and> GetMemoryChunkSpace sample_world 4344 = Inr 72"
  using chunks_separate[OF sample_heap_ok sample_chunks] by simp



section \<open>Reset callbacks\<close>

text \<open>C16: \<open>MemoryContextResetOnly\<close> leaves a context alone that has not been used since its last
  reset. Otherwise it calls every registered callback exactly once, the last registered one first,
  and then empties the context: it keeps its keeper block only, all its chunks are gone, the chunks
  of the other contexts and all memory but what the callbacks wrote are as before.\<close>

theorem MemoryContextResetOnly_correct:
  assumes "heap_ok G w" and "ctxs w c = Some s" and "cb_list w (reset_cbs s) cbs"
    and "callbacks_allowed G w A cbs cbf"
  shows "if isReset s then MemoryContextResetOnly cbf c w = Inr w
    else \<exists>w'. MemoryContextResetOnly cbf c w = Inr w'
      \<and> reset_post G w c A cbs (G(c := fresh_ghost c)) w'"
  using ResetOnly_reset[OF assms(1,2)] ResetOnly_run[OF assms(1,2) _ assms(3,4)] by simp

theorem MemoryContextResetOnly_correct_witness:
  "\<exists>w'. MemoryContextResetOnly (\<lambda>f a w. Inr w) 4096 sample_world = Inr w' \<and> calls w' = [(7, 9)]
    \<and> chunks (sample_ghost(4096 := fresh_ghost 4096)) w' = other_chunks sample_ghost sample_world 4096"
proof -
  have "callbacks_allowed sample_ghost sample_world {} [4344] (\<lambda>f a w. Inr w)"
    using quiet_skip by (simp add: callbacks_allowed_def)
  moreover have "cb_list sample_world (reset_cbs sample_parent) [4344]"
    using sample_callbacks(1,4) by simp
  moreover have "calls sample_world = []" by (simp add: sample_world_def)
  ultimately show ?thesis
    using MemoryContextResetOnly_correct[OF sample_heap_ok sample_callbacks(3), of "[4344]" "{}" "\<lambda>f a w. Inr w"]
      sample_callbacks(2,8) by (auto simp: reset_post_def)
qed

text \<open>C24: \<open>MemoryContextRegisterResetCallback\<close> puts a callback at the head of the list of its context,
  which counts as used from then on; it writes to the callback struct only.\<close>

theorem RegisterResetCallback_correct:
  assumes "heap_ok G w" and "ctxs w c = Some s" and "cb_list w (reset_cbs s) cbs"
    and "cb \<noteq> 0" and "in_region w cb 24" and "\<And>x. x \<in> set cbs \<Longrightarrow> cb_apart cb x"
    and "\<And>a. cb \<le> a \<Longrightarrow> a < cb + 24 \<Longrightarrow> client_owned G w a"
  shows "\<exists>w'. MemoryContextRegisterResetCallback c cb w = Inr w' \<and> registered G w c (cb # cbs) w'
    \<and> (\<exists>s'. ctxs w' c = Some s' \<and> \<not> isReset s')"
  by (rule Register_post[OF assms])

theorem RegisterResetCallback_correct_witness:
  "\<exists>w'. MemoryContextRegisterResetCallback 4096 20552 sample_world = Inr w'
    \<and> registered sample_ghost sample_world 4096 [20552, 4344] w'"
proof -
  have 1: "cb_list sample_world (reset_cbs sample_parent) [4344]" using sample_callbacks(1,4) by simp
  have 2: "in_region sample_world 20552 24" by (simp add: in_region_def sample_world_def)
  have 3: "cb_apart 20552 x" if "x \<in> set [4344]" for x using that by (simp add: cb_apart_def)
  have 4: "client_owned sample_ghost sample_world a" if "20552 \<le> a" "a < 20552 + 24" for a
    unfolding client_owned_def
    by (rule disjI2, rule exI[of _ 20528], rule exI[of _ 4096], rule exI[of _ 16384])
      (use sample_chunks(2) that in simp)
  show ?thesis
    using RegisterResetCallback_correct[OF sample_heap_ok sample_callbacks(3) 1 _ 2 3 4] by auto
qed

text \<open>C25: \<open>MemoryContextUnregisterResetCallback\<close> takes a registered callback out of the list and
  leaves the others in their order; a callback that is not registered is an assertion failure.\<close>

theorem UnregisterResetCallback_correct:
  assumes "heap_ok G w" and "ctxs w c = Some s" and "cb_list w (reset_cbs s) cbs"
    and "\<And>x y. x \<in> set cbs \<Longrightarrow> y \<in> set cbs \<Longrightarrow> x \<noteq> y \<Longrightarrow> cb_apart x y" and "distinct cbs"
    and "\<And>a. a \<in> cb_bytes cbs \<Longrightarrow> client_owned G w a"
  shows "if cb \<in> set cbs
    then \<exists>w'. MemoryContextUnregisterResetCallback c cb w = Inr w' \<and> registered G w c (remove1 cb cbs) w'
    else MemoryContextUnregisterResetCallback c cb w = Inl AssertFailed"
  by (rule Unregister_post[OF assms])

theorem UnregisterResetCallback_correct_witness:
  "(\<exists>w'. MemoryContextUnregisterResetCallback 4096 4344 sample_world = Inr w'
     \<and> registered sample_ghost sample_world 4096 [] w')
   \<and> MemoryContextUnregisterResetCallback 4096 20552 sample_world = Inl AssertFailed"
proof -
  have 1: "cb_list sample_world (reset_cbs sample_parent) [4344]" using sample_callbacks(1,4) by simp
  have 2: "cb_apart x y" if "x \<in> set [4344]" "y \<in> set [4344]" "x \<noteq> y" for x y using that by simp
  have 3: "client_owned sample_ghost sample_world a" if "a \<in> cb_bytes [4344]" for a
    unfolding client_owned_def using sample_chunks(1) sample_cb_chunk[OF that] by blast
  show ?thesis
    using UnregisterResetCallback_correct[OF sample_heap_ok sample_callbacks(3) 1 2 _ 3, of 4344]
      UnregisterResetCallback_correct[OF sample_heap_ok sample_callbacks(3) 1 2 _ 3, of 20552]
    by simp
qed

section \<open>The context tree\<close>

text \<open>C23: \<open>MemoryContextSetParent\<close> makes a context the first child of the new parent, or a context
  without parent, with its own children below it as before; all other children keep their order and
  nothing but links changes. A context cannot become its own parent.\<close>

theorem MemoryContextSetParent_correct:
  assumes "lib_ok G T F w" and "ctxs w x = Some k" and "x \<in> live F w"
    and "np = 0 \<or> np \<in> live F w"
  shows "if np = x then MemoryContextSetParent x np w = Inl AssertFailed
    else \<exists>C'. MemoryContextSetParent x np w = Inr (w\<lparr>ctxs := C'\<rparr>) \<and> only_links (ctxs w) C'
      \<and> lib_ok G (if np = parent k then T else moved_child x (parent k) np T) F (w\<lparr>ctxs := C'\<rparr>)"
  using SetParent_lib[OF assms(1-3) _ assms(4)] valid_ctx[OF lib_okD(1)[OF assms(1)] assms(2)]
  by (simp add: MemoryContextSetParent_def assertE_def)

theorem MemoryContextSetParent_correct_witness:
  "\<exists>C'. MemoryContextSetParent 65536 0 sample_world = Inr (sample_world\<lparr>ctxs := C'\<rparr>)
    \<and> lib_ok sample_ghost (\<lambda>_. []) none_waiting (sample_world\<lparr>ctxs := C'\<rparr>)"
proof -
  have "moved_child 65536 4096 0 sample_tree = (\<lambda>_. [])"
    by (auto simp: moved_child_def sample_tree_def)
  then show ?thesis
    using MemoryContextSetParent_correct[OF sample_lib_ok sample_callbacks(5), of 0] sample_live
    by (auto simp: sample_child_def)
qed

text \<open>C26: \<open>MemoryContextTraverseNext\<close> walks over the descendants of \<open>top\<close> in preorder: after each one
  comes the next, after the last one the walk ends with null. It visits no context twice.\<close>

theorem TraverseNext_preorder:
  assumes "links_ok T (ctxs w)" and "shape T (CNode topc ts)"
    and "concat (map preorder ts) = us @ x # vs"
  shows "MemoryContextTraverseNext w x topc = Inr (first vs 0) \<and> x \<notin> set us \<and> x \<notin> set vs"
proof -
  have "chain (\<lambda>x. MemoryContextTraverseNext w x topc) (Inr 0) (us @ x # vs)"
    using traversal[OF assms(1,2)] assms(3) by simp
  then have "MemoryContextTraverseNext w x topc = Inr (first vs 0)" by (rule chain_next)
  moreover have "distinct (us @ x # vs)"
    using distinct_preorder[OF assms(1,2)] assms(3) by simp
  ultimately show ?thesis by simp
qed

theorem TraverseNext_preorder_witness:
  "MemoryContextTraverseNext sample_world 65536 4096 = Inr 0"
  using TraverseNext_preorder[OF sample_links_ok sample_shape, of "[]" 65536 "[]"] by simp

text \<open>C27: \<open>MemoryContextMemAllocated\<close> gives the accounted size of the context, or, with \<open>recurse\<close>, the
  sum over all contexts of the tree below it.\<close>

theorem MemAllocated_correct:
  assumes "heap_ok G w" and "links_ok T (ctxs w)" and "shape T t" and "ctxs w (root t) = Some s"
  shows "MemoryContextMemAllocated w (root t) recurse
    = Inr (if recurse then \<Sum>x \<leftarrow> preorder t. mem_allocated (the (ctxs w x)) else mem_allocated s)"
  using MemAllocated_tree[OF assms] by (cases recurse) simp_all

theorem MemAllocated_correct_witness:
  "MemoryContextMemAllocated sample_world 4096 True = Inr 25648"
  using MemAllocated_correct[OF sample_heap_ok sample_links_ok sample_shape, of sample_parent True]
    sample_callbacks(3,5) by (simp add: sample_parent_def sample_child_def)

section \<open>The life of a context\<close>

text \<open>C9: \<open>AllocSetContextCreateInternal\<close> fails an assertion exactly for sizes that are out of range.
  Otherwise it reports out of memory, only when \<open>malloc\<close> refuses the initial block, or
  returns a context that was not in use: empty, with the sizes asked for, first child of its
  parent; everything else is as before and the invariant of the library holds.\<close>

theorem AllocSetContextCreate_correct:
  assumes "lib_ok G T F w" and "par = 0 \<or> par \<in> live F w"
  shows "if \<not> create_args_ok mn ini mx
    then AllocSetContextCreateInternal par nm mn ini mx w = Inl AssertFailed
    else AllocSetContextCreateInternal par nm mn ini mx w = Inl (OutOfMemory (if mn \<noteq> 0 then mn else ini))
        \<and> \<not> grants w (unat (if mn \<noteq> 0 then mn else ini))
      \<or> (\<exists>c G' F' w'. AllocSetContextCreateInternal par nm mn ini mx w = Inr (c, w')
          \<and> context_created G T F w par nm ini mx c G' F' w')"
  using Create_internal_run[OF assms, of mn ini mx nm] Create_internal_granted[OF assms, of mn ini mx nm]
  by auto

theorem AllocSetContextCreate_correct_witness:
  "AllocSetContextCreateInternal 4096 ''x'' 0 512 8192 sample_world = Inl AssertFailed
   \<and> (\<exists>c G' F' w'. AllocSetContextCreateInternal 4096 ''x'' 0 1024 8192 sample_world = Inr (c, w')
          \<and> context_created sample_ghost sample_tree none_waiting sample_world 4096 ''x'' 1024 8192 c G' F' w')"
  using AllocSetContextCreate_correct[OF sample_lib_ok, of 4096 0 512 8192 "''x''"]
    AllocSetContextCreate_correct[OF sample_lib_ok, of 4096 0 1024 8192 "''x''"]
  by (simp add: sample_live create_args_ok_def sample_grants[of 1024, simplified])

text \<open>C15: \<open>MemoryContextInit\<close> starts the library in a fresh process, or reports out of memory: the top
  context is current, the error context is its child and usable in critical sections, there is no
  chunk, and the invariant holds. It succeeds when the first two requests to \<open>malloc\<close> are granted, and
  the two contexts are where \<open>malloc\<close> put them.\<close>

theorem MemoryContextInit_correct:
  shows "(MemoryContextInit (initial_world m as) = Inl (OutOfMemory 8192)
      \<or> (\<exists>G T F w'. MemoryContextInit (initial_world m as) = Inr w' \<and> initialised G T F w'))
    \<and> (\<forall>a b bs. as = a # b # bs \<and> admissible [] a 8192 \<and> admissible [(a, 8192)] b 8192
         \<longrightarrow> (\<exists>w'. MemoryContextInit (initial_world m as) = Inr w'
               \<and> TopMemoryContext w' = a \<and> ErrorContext w' = b))"
  using Init_run Init_granted by blast

theorem MemoryContextInit_correct_witness:
  "\<exists>w. MemoryContextInit (initial_world (\<lambda>_. 0) [65536, 131072]) = Inr w
    \<and> TopMemoryContext w = 65536 \<and> ErrorContext w = 131072"
proof -
  have "admissible [] 65536 8192" "admissible [(65536, 8192)] 131072 8192"
    by (simp_all add: admissible_def overlaps_def)
  then show ?thesis using MemoryContextInit_correct[of "\<lambda>_. 0" "[65536, 131072]"] by blast
qed

text \<open>C7: \<open>MemoryContextDelete\<close> deletes a context with all its descendants, children before their
  parents; every registered callback of every one of them is called exactly once, before its context
  goes; all other contexts keep their chunks, contents and children.\<close>

theorem MemoryContextDelete_correct:
  assumes "can_delete G T F w A cbf cbs (set (preorder t))" and "shape T t"
  shows "\<exists>G' T' F' w'. MemoryContextDelete cbf (root t) w = Inr w'
    \<and> deleted G T F w A cbs (postorder t) G' T' F' w'"
  by (rule MemoryContextDelete_run[OF assms])

theorem MemoryContextDelete_correct_witness:
  "\<exists>G' T' F' w'. MemoryContextDelete (\<lambda>f a w. Inr w) 4096 sample_idle = Inr w'
    \<and> live F' w' = {} \<and> chunks G' w' = {} \<and> calls w' = [(7, 9)]"
proof -
  obtain G' T' F' w' where d: "MemoryContextDelete (\<lambda>f a w. Inr w) 4096 sample_idle = Inr w'"
    "deleted sample_ghost sample_tree none_waiting sample_idle {} sample_cbs [65536, 4096] G' T' F' w'"
    using MemoryContextDelete_correct[OF _ sample_shape, of sample_ghost none_waiting sample_idle "{}"
        "\<lambda>f a w. Inr w" sample_cbs] sample_can_delete by auto
  have "d = 4096 \<or> d = 65536" if "(p, d, n) \<in> chunks sample_ghost sample_idle" for p d n
    using that by (auto simp: chunks_def sample_idle(6) sample_world_def chunks_of_def split: if_splits)
  then have "chunks G' w' = {}" using d(2) by (auto simp: deleted_def)
  moreover have "live F' w' = {}" using d(2) sample_idle(2) by (auto simp: deleted_def)
  moreover have "calls w' = [(7, 9)]"
    using d(2) sample_callbacks(2) by (simp add: deleted_def sample_idle(4,5) sample_cbs_def)
  ultimately show ?thesis using d(1) by blast
qed

text \<open>C8: \<open>MemoryContextReset\<close> deletes all descendants of a context, bottom up, then calls its callbacks
  and empties it, unless it has not been used since its last reset.\<close>

theorem MemoryContextReset_correct:
  assumes "can_delete G T F w A cbf cbs (set (concat (map preorder ts)))" and "shape T (CNode c ts)"
    and "ctxs w c = Some s" and "c \<in> live F w"
    and "cb_list w (reset_cbs s) cs" and "A \<inter> cb_bytes cs = {}" and "isReset s \<longrightarrow> cs = []"
    and "\<And>a. a \<in> cb_bytes cs \<Longrightarrow> outlives G w (set (concat (map preorder ts))) a"
  shows "\<exists>G' T' F' w'. MemoryContextReset cbf c w = Inr w'
    \<and> reset_all G T F w A cbs (concat (map postorder ts)) c cs G' T' F' w'"
  by (rule MemoryContextReset_run[OF assms])

theorem MemoryContextReset_correct_witness:
  "\<exists>G' T' F' w'. MemoryContextReset (\<lambda>f a w. Inr w) 4096 sample_idle = Inr w'
    \<and> lib_ok G' T' F' w' \<and> live F' w' = {4096} \<and> T' 4096 = [] \<and> calls w' = [(7, 9)]"
proof -
  let ?cbf = "\<lambda>f a w. Inr w :: error + world"
  have can: "can_delete sample_ghost sample_tree none_waiting sample_idle {} ?cbf sample_cbs
      (set (concat (map preorder [CNode 65536 []])))"
    by (rule can_delete_sub[OF sample_can_delete]) simp
  have c: "ctxs sample_idle 4096 = Some sample_parent" "4096 \<in> live none_waiting sample_idle"
    by (simp_all add: sample_idle sample_callbacks)
  have l: "cb_list sample_idle (reset_cbs sample_parent) [4344]"
    using sample_callbacks(1,4) by (simp add: sample_idle_def in_region_def)
  have o: "outlives sample_ghost sample_idle (set (concat (map preorder [CNode 65536 []]))) a"
    if "a \<in> cb_bytes [4344]" for a
    using sample_chunks(1) sample_cb_chunk[OF that] unfolding outlives_def sample_idle(3) by fastforce
  obtain G' T' F' w' where "MemoryContextReset ?cbf 4096 sample_idle = Inr w'"
    "reset_all sample_ghost sample_tree none_waiting sample_idle {} sample_cbs [65536] 4096 [4344] G' T' F' w'"
    using MemoryContextReset_correct[OF can sample_shape c l _ _ o] sample_callbacks(8) by auto
  then have "MemoryContextReset ?cbf 4096 sample_idle = Inr w' \<and> lib_ok G' T' F' w' \<and> live F' w' = {4096}
      \<and> T' 4096 = [] \<and> calls w' = [(7, 9)]"
    using sample_callbacks(2) by (auto simp: reset_all_def sample_idle sample_cbs_def)
  then show ?thesis by blast
qed

text \<open>C14: \<open>MemoryContextResetChildren\<close> empties every descendant of a context in preorder, each after its
  callbacks were called, and leaves the context itself, the tree, all other contexts and their chunks
  as they were.\<close>

theorem MemoryContextResetChildren_correct:
  assumes "lib_ok G T F w" and "shape T (CNode c ts)" and "ctxs w c = Some s" and "c \<in> live F w"
    and "resettable G w A cbf cbs (set (concat (map preorder ts)))"
  shows "\<exists>G' w'. MemoryContextResetChildren cbf c w = Inr w'
    \<and> all_reset G T F w A cbs (concat (map preorder ts)) G' w'"
  by (rule ResetChildren_run[OF assms])

theorem MemoryContextResetChildren_correct_witness:
  "\<exists>G' w'. MemoryContextResetChildren (\<lambda>f a w. Inr w) 4096 sample_world = Inr w'
    \<and> lib_ok G' sample_tree none_waiting w' \<and> ctxs w' 4096 = Some sample_parent \<and> calls w' = []"
proof -
  have r: "resettable sample_ghost sample_world {} (\<lambda>f a w. Inr w) (\<lambda>_. []) (set (concat (map preorder [CNode 65536 []])))"
    using quiet_skip sample_callbacks(5) by (simp add: resettable_def sample_child_def cb_bytes_def)
  obtain G' w' where "MemoryContextResetChildren (\<lambda>f a w. Inr w) 4096 sample_world = Inr w'"
    "all_reset sample_ghost sample_tree none_waiting sample_world {} (\<lambda>_. []) [65536] G' w'"
    using MemoryContextResetChildren_correct[OF sample_lib_ok sample_shape sample_callbacks(3) _ r] sample_live by auto
  moreover have "calls sample_world = []" by (simp add: sample_world_def)
  ultimately show ?thesis using sample_callbacks(3) by (auto simp: all_reset_def)
qed

section \<open>The library as a whole\<close>

text \<open>C1: In every state that a process can reach from \<open>MemoryContextInit\<close>, with any clients that
  meet their obligations and any answers of \<open>malloc\<close>, a permitted call returns and leads to such a
  state again, or stops with an error that is documented for it: \<open>pfree\<close>, reset, deletion,
  reparenting, the registration of callbacks and stores never fail, an allocation, aligned or not, only
  with its size as bad or as out of memory. No call reads or writes outside live memory, fails an assertion, finds corruption or loops.\<close>

theorem reachable_calls_safe:
  assumes "reachable (V, w)" and "permitted V x"
  shows "(\<exists>r w'. perform x w = Inr (r, w') \<and> reachable (after V x r, w'))
    \<or> (\<exists>e \<in> allowed_errors V x. perform x w = Inl e)"
  by (rule library.serves[OF assms])

theorem reachable_calls_safe_witness:
  "\<exists>V w p r w'. reachable (V, w) \<and> perform (Free p) w = Inr (r, w') \<and> owned V p = Some (65536, 100)
    \<and> reachable (after V (Free p) r, w')"
proof -
  obtain V w p where s: "reachable (V, w)" "owned V = [p \<mapsto> (65536, 100)]" "pending V = (\<lambda>_. [])" by (rule sample_run)
  have "permitted V (Free p)" by (simp add: s no_struct_in_def struct_bytes_def cb_bytes_def)
  then obtain r w' where "perform (Free p) w = Inr (r, w')" "reachable (after V (Free p) r, w')"
    using reachable_calls_safe[OF s(1), of "Free p"] by auto
  moreover have "owned V p = Some (65536, 100)" by (simp add: s(2))
  ultimately show ?thesis using s(1) by blast
qed



text \<open>C2: In every reachable state, a byte that a client stored, or got zeroed, in a chunk of its own,
  and kept through \<open>repalloc\<close>, reads back as it was, whatever was called in between; the chunks of
  the client are aligned, as much as was asked for, lie in live memory, do not overlap, and belong to
  the context they were allocated in.\<close>

theorem reachable_memory:
  assumes "reachable (V, w)"
  shows "(\<forall>a b. stored V a = Some b \<longrightarrow> load8E w a = Inr b)
    \<and> (\<forall>p c n. owned V p = Some (c, n) \<longrightarrow>
         8 dvd p \<and> (\<forall>a. alignment V p = Some a \<longrightarrow> unat a dvd p) \<and> in_region w p n
         \<and> GetMemoryChunkContext w p = Inr c)
    \<and> (\<forall>p c n q d k. owned V p = Some (c, n) \<and> owned V q = Some (d, k) \<and> p \<noteq> q
         \<longrightarrow> p + n + 8 \<le> q \<or> q + k + 8 \<le> p)"
proof -
  obtain G F where r: "represents G F V w" using reachable_represents[OF assms] by auto
  show ?thesis
    using represents_reads[OF r] represents_owned[OF r] represents_apart[OF r] by blast
qed

theorem reachable_memory_witness:
  "\<exists>V w p. reachable (V, w) \<and> owned V p = Some (65536, 100) \<and> load8E w p = Inr 0
    \<and> GetMemoryChunkContext w p = Inr 65536"
proof -
  obtain V w p where s: "reachable (V, w)" "owned V = [p \<mapsto> (65536, 100)]"
    "stored V = (\<lambda>a. if p \<le> a \<and> a < p + 100 then Some 0 else None)"
    by (rule sample_run)
  have "owned V p = Some (65536, 100)" "stored V p = Some 0" by (simp_all add: s)
  then show ?thesis using reachable_memory[OF s(1)] s(1) by blast
qed

text \<open>C3: In every reachable state the callbacks that ran are, in this order, those that the resets and
  deletions so far had to call: the registered ones of each context, the last one first, and those of a
  tree of contexts from its leaves up. The other ones are linked at their context, last one first, with
  the function and argument that the client stored.\<close>

theorem reachable_callbacks:
  assumes "reachable (V, w)"
  shows "calls w = called V
    \<and> (\<forall>c \<in> contexts V. \<exists>s. ctxs w c = Some s \<and> cb_list w (reset_cbs s) (pending V c)
         \<and> map (cb_entry (mem w)) (pending V c) = map (entry V) (pending V c))"
proof -
  obtain G F where r: "represents G F V w" using reachable_represents[OF assms] by auto
  show ?thesis by (rule represents_callbacks[OF r])
qed

theorem reachable_callbacks_witness:
  "\<exists>V w w'. reachable (V, w) \<and> calls w = []
    \<and> perform (ResetOnly 65536) w = Inr (0, w') \<and> calls w' = [(0, 0)]"
proof -
  obtain V w p where s: "reachable (V, w)" "pending V = (\<lambda>_. [])(65536 := [p])" "called V = []"
    "entry V p = (0, 0)" "permitted V (ResetOnly 65536)"
    by (rule sample_callback_run)
  from reachable_call[OF s(1,5)] obtain r w' where
    w': "perform (ResetOnly 65536) w = Inr (r, w')" "reachable (after V (ResetOnly 65536) r, w')" by auto
  have "r = 0" using w'(1) by (auto simp: void_def seqE_eq_Inr)
  then show ?thesis
    using reachable_callbacks[OF s(1)] reachable_callbacks[OF w'(2)] s w'(1) by (auto simp: ran_callbacks_def)
qed

text \<open>C10: Progress: when the next request to \<open>malloc\<close> is granted for \<open>2 ^ 30\<close> bytes more than the size,
  an allocation of an admissible size returns a new chunk; it neither reports out of memory nor
  returns null.\<close>

theorem allocation_succeeds:
  assumes "heap_ok G w" and "ctxs w c = Some s" and "grants w N" and "2 ^ 30 + unat sz \<le> N"
    and "size_accepted sz flags"
  shows "\<exists>p G' w'. MemoryContextAllocExtended c sz flags w = Inr (p, w')
    \<and> allocated G (touched w c) c sz p G' w'
    \<and> (flags AND MCXT_ALLOC_ZERO \<noteq> 0 \<longrightarrow> (\<forall>i < unat sz. mem w' (p + i) = 0))"
  by (rule AllocExtended_granted[OF assms])

theorem allocation_succeeds_witness:
  "\<exists>p w'. MemoryContextAllocExtended 4096 20000 0 sample_world = Inr (p, w') \<and> p \<noteq> 0"
proof -
  have g: "grants sample_world (2 ^ 30 + 20000)"
    by (simp add: grants_def sample_world_def admissible_def overlaps_def)
  from allocation_succeeds[OF sample_heap_ok sample_callbacks(3) g, of 20000 0] show ?thesis
    by (auto simp: size_accepted_def allocated_def)
qed

text \<open>C18: Allocating any number of chunks with \<open>MemoryContextAlloc\<close> and releasing them with \<open>pfree\<close> in
  any order leaves the set of chunks, and the contents of all other chunks, as they were.\<close>

theorem alloc_release_restores:
  assumes "pool_ok c X w" and "alloc_all (MemoryContextAlloc c) szs w = Inr (ps, v)"
    and "set qs = set ps" and "distinct qs"
  shows "\<exists>w'. release_all pfree qs v = Inr w' \<and> pool_ok c X w'
    \<and> (\<forall>q d k a. (q, d, k) \<in> X \<and> q \<le> a \<and> a < q + k \<longrightarrow> mem w' a = mem w a)"
  using context_pool.alloc_release[OF assms] unfolding context_pool.kept_def .

theorem alloc_release_restores_witness:
  "\<exists>p v w'. alloc_all (MemoryContextAlloc 4096) [100] sample_world = Inr ([p], v) \<and> release_all pfree [p] v = Inr w'
    \<and> pool_ok 4096 (chunks sample_ghost sample_world) w'"
proof -
  have g: "grants sample_world (2 ^ 30 + 100)"
    by (simp add: grants_def sample_world_def admissible_def overlaps_def)
  obtain p v where v: "context_alloc 4096 100 0 sample_world = Inr (p, v)"
    using context_alloc_granted[OF sample_heap_ok sample_callbacks(3) g, of 100 0] by (auto simp: size_accepted_def)
  then have a: "alloc_all (MemoryContextAlloc 4096) [100] sample_world = Inr ([p], v)"
    by (simp add: MemoryContextAlloc_def valid_ctx[OF sample_heap_ok sample_callbacks(3)])
  have "pool_ok 4096 (chunks sample_ghost sample_world) sample_world"
    using sample_heap_ok sample_callbacks(3) by (auto simp: pool_ok_def)
  from alloc_release_restores[OF this a, of "[p]"] a show ?thesis by auto
qed

text \<open>C19: A buffer that is resized any number of times with \<open>repalloc\<close> ends with the room last asked
  for; its first bytes, as many as the smallest of the sizes, keep their values, and so do all other
  chunks.\<close>

theorem repalloc_chain:
  assumes "pool_ok c X w" and "(p, d, n) \<in> X" and "resize_all repalloc p szs w = Inr (q, w')"
    and "m \<le> n" and "\<And>sz. sz \<in> set szs \<Longrightarrow> m \<le> unat sz"
  shows "\<exists>k. pool_ok c (insert (q, d, k) (X - {(p, d, n)})) w'
    \<and> (\<forall>r e l a. (r, e, l) \<in> X - {(p, d, n)} \<and> r \<le> a \<and> a < r + l \<longrightarrow> mem w' a = mem w a)
    \<and> (if szs = [] then k = n else unat (last szs) \<le> k) \<and> (\<forall>i < m. mem w' (q + i) = mem w (p + i))"
  using context_pool.resize_all_ok[OF assms] unfolding context_pool.kept_def by blast

theorem repalloc_chain_witness:
  "\<exists>k. 10 \<le> k \<and> pool_ok 4096 (insert (4344, 4096, k)
      (chunks sample_ghost sample_world - {(4344, 4096, 64)})) sample_world"
proof -
  have reg: "in_region sample_world 4336 8" by (simp add: in_region_def sample_world_def)
  have hdr: "regular_hdr (mem sample_world) 4336 4296 3 MCTX_ASET_ID"
    using sample_hdrs(1) by (simp add: sample_world_def)
  note rd = regular_hdr_read[OF hdr reg]
  have "AllocBlockIsValid sample_world 4296 = Inr True" "get_blk sample_world 4296 = Inr
      \<lparr>aset = 4096, bprev = 0, bnext = 20480, freeptr = 4424, endptr = 12288\<rparr>"
    by (simp_all add: AllocBlockIsValid_def MemoryContextIsValid_def get_blk_def get_ctx_def sample_world_def sample_parent_def)
  then have "repalloc 4344 10 sample_world = Inr (4344, sample_world)"
    using rd by (simp add: repalloc_def mcxt_realloc_def AllocSetRealloc_def realloc_regular_def Let_def
        PointerGetMemoryChunk_def sizeof_MemoryChunk_def FreeListIdxIsValid_def GetChunkSizeFromFreeListIdx_def
        ALLOCSET_NUM_FREELISTS_def ALLOC_MINBITS_def)
  then have r: "resize_all repalloc 4344 [10, 10] sample_world = Inr (4344, sample_world)" by simp
  have "pool_ok 4096 (chunks sample_ghost sample_world) sample_world"
    using sample_heap_ok sample_callbacks(3) by (auto simp: pool_ok_def)
  from repalloc_chain[OF this sample_chunks(1) r, of 10] show ?thesis by auto
qed

section \<open>Strings\<close>

text \<open>C30: The string copies: \<open>MemoryContextStrdup\<close> and \<open>pstrdup\<close> copy a string, \<open>pnstrdup\<close> its first
  bytes, \<open>pchomp\<close> the string without the newlines at its end. Each reads no byte behind the
  terminator, and returns a new chunk of the right context with the copy, or reports a string that is
  too long or out of memory.\<close>

theorem string_copies_correct:
  assumes "heap_ok G w" and "ctxs w c = Some u" and "ctxs w (CurrentMemoryContext w) = Some t"
    and "cstring w s bs" and "within_chunk (chunks G w) s (length bs + 1)"
  shows "string_post G w c bs (MemoryContextStrdup c s w)
    \<and> string_post G w (CurrentMemoryContext w) bs (pstrdup s w)
    \<and> string_post G w (CurrentMemoryContext w) (take (unat len) bs) (pnstrdup s len w)
    \<and> string_post G w (CurrentMemoryContext w) (chomped bs) (pchomp s w)"
  using Strdup_post[OF assms(1,2,4,5)] pstrdup_string[OF assms(1,3-5)] pnstrdup_string[OF assms(1,3-5)]
    pchomp_post[OF assms(1,3-5)] by blast

theorem string_copies_correct_witness:
  "string_post sample_ghost sample_world 65536 [7] (MemoryContextStrdup 65536 4344 sample_world)
   \<and> string_post sample_ghost sample_world 4096 [] (pnstrdup 4344 0 sample_world)"
proof -
  have "mem sample_world 4344 = 7" "mem sample_world 4345 = 0"
    by (simp_all add: sample_world_def sample_mem_def store64_def)
  then have str: "cstring sample_world 4344 [7]" by (simp add: cstring_def)
  have "within_chunk (chunks sample_ghost sample_world) 4344 (length [7 :: byte] + 1)"
    unfolding within_chunk_def using sample_chunks(1) by fastforce
  from string_copies_correct[OF sample_heap_ok sample_fields(4,3) str this, of 0] show ?thesis
    by (simp add: sample_fields(2))
qed

section \<open>Statistics\<close>

text \<open>C28: \<open>AllocSetStats\<close> counts the blocks, free chunks, space and free space of a context; a print
  function gets the numbers as a text, never cut by the size of the buffer, and they are added to the
  totals; and \<open>MemoryContextMemConsumed\<close> sums them up over the tree below it: its total space is what
  \<open>MemoryContextMemAllocated\<close> reports. \<open>MemoryContextIsEmpty\<close> tells whether a context has no children
  and has not been used since its last reset.\<close>

theorem statistics_correct:
  assumes "heap_ok G w" and "links_ok T (ctxs w)" and "shape T t" and "ctxs w (root t) = Some s"
  shows "AllocSetStats (root t) printfunc passthru totals err w =
      seqE (case printfunc of None \<Rightarrow> Inr w
            | Some f \<Rightarrow> f (root t) passthru (stats_text (set_counters G w (root t))) err w) (\<lambda>w'.
        Inr (map_option (\<lambda>k. add_counters k (set_counters G w (root t))) totals, w'))
    \<and> (\<exists>k. MemoryContextMemConsumed w (root t) = Inr k
        \<and> k = fold (\<lambda>x a. add_counters a (set_counters G w x)) (preorder t) zero_counters
        \<and> MemoryContextMemAllocated w (root t) True = Inr (totalspace k))
    \<and> MemoryContextIsEmpty w (root t) = Inr (T (root t) = [] \<and> isReset s)"
  using AllocSetStats_run[OF assms(1,4)] MemConsumed_tree[OF assms] MemAllocated_tree[OF assms]
    IsEmpty_run[OF assms(1,2,4)] by (simp add: total_consumed zero_counters_def)

theorem statistics_correct_witness:
  "(\<exists>k. MemoryContextMemConsumed sample_world 4096 = Inr k \<and> totalspace k = 25648)
   \<and> MemoryContextIsEmpty sample_world 4096 = Inr False"
  using statistics_correct[OF sample_heap_ok sample_links_ok sample_shape, of sample_parent]
    MemAllocated_tree[OF sample_heap_ok sample_links_ok sample_shape, of sample_parent]
    sample_callbacks(3,5) by (simp add: sample_parent_def sample_child_def sample_tree_def)



section \<open>Errors\<close>

text \<open>C34: A pointer whose header has the method id of neither an allocation set nor a redirection,
  such as one to wiped or never allocated memory, is reported as corruption by every function that
  dispatches on it, and nothing is changed.\<close>

theorem reserved_ids_rejected:
  assumes "8 dvd p" and "8 \<le> p" and "p < 2 ^ 64" and "load64E w (p - 8) = Inr h"
    and "unat (h AND MEMORY_CONTEXT_METHODID_MASK) \<notin> {3, 6}"
  shows "pfree p w = Inl (Corruption p) \<and> repalloc_extended p sz flags w = Inl (Corruption p)
    \<and> GetMemoryChunkContext w p = Inl (Corruption p) \<and> GetMemoryChunkSpace w p = Inl (Corruption p)"
  by (rule Bogus_dispatch[OF assms])

theorem reserved_ids_rejected_witness:
  "pfree 4440 sample_world = Inl (Corruption 4440)"
proof -
  have "load64E sample_world (4440 - 8) = Inr 0" 
    by (simp add: load64E_def in_region_def sample_world_def sample_mem_def store64_other load64_def)
  from reserved_ids_rejected[OF _ _ _ this, of 0 0] show ?thesis by simp
qed

text \<open>C17: Every context that a client can reach is a well-formed allocation set: its node tag and
  method id, block sizes and chunk limit are in their ranges, its children are linked in the order of
  the view, and each child points back to it.\<close>

theorem reachable_contexts:
  assumes "reachable (V, w)" and "c \<in> contexts V"
  shows "\<exists>s. ctxs w c = Some s \<and> ctx_type s = T_AllocSetContext \<and> methods s = MCTX_ASET_ID
    \<and> 1024 \<le> unat (initBlockSize s) \<and> unat (initBlockSize s) \<le> unat (nextBlockSize s)
    \<and> unat (nextBlockSize s) \<le> unat (maxBlockSize s) \<and> unat (maxBlockSize s) < 2 ^ 30
    \<and> unat (allocChunkLimit s) \<le> 8192 \<and> length (freelist s) = ALLOCSET_NUM_FREELISTS
    \<and> firstchild s = first (children V c) 0 \<and> dseg nextchild prevchild (ctxs w) 0 (children V c) 0
    \<and> (\<forall>d \<in> set (children V c). \<exists>k. ctxs w d = Some k \<and> parent k = c)"
proof -
  obtain G F where r: "represents G F V w" using reachable_represents[OF assms(1)] by auto
  obtain s where s: "ctxs w c = Some s" by (rule tree_ok_context[OF representsD(1)[OF r] assms(2)])
  have lk: "links_ok (children V) (ctxs w)"
    using representsD(1)[OF r] by (simp add: tree_ok_def lib_ok_def)
  have "params_ok c s (G c)" "frees_ok (mem w) (freelist s) (G c)"
    using heap_okD(2)[OF representsD(3)[OF r] s] by (simp_all add: aset_ok_def)
  moreover have "\<exists>k. ctxs w d = Some k \<and> parent k = c" if "d \<in> set (children V c)" for d
    using that links_okD(6)[OF lk] by fastforce
  ultimately show ?thesis
    using s links_ok_firstchild[OF lk s] links_okD(4)[OF lk] by (simp add: params_ok_def frees_ok_def)
qed

theorem reachable_contexts_witness:
  "\<exists>V w s. reachable (V, w) \<and> ctxs w 65536 = Some s \<and> ctx_type s = T_AllocSetContext \<and> firstchild s = 131072"
proof -
  obtain V w p where s: "reachable (V, w)" "contexts V = {65536, 131072}"
    "children V = (\<lambda>_. [])(65536 := [131072])" by (rule sample_run)
  then show ?thesis using reachable_contexts[OF s(1), of 65536] by auto
qed

end
